(* ===== verification/Ngx_Prelude.thy ===== *)
theory Ngx_Prelude
  imports Main "HOL-Library.Word"
begin

unbundle bit_operations_syntax

section \<open>Prelude: machine types, return codes, shared lemmas and interfaces\<close>

text \<open>
  The types every component shares (\<open>u_char\<close> as an 8-bit word, a counted string
  \<open>ngx_str_t\<close> as the list of its bytes), the return codes of
  src/ngx-1.12.0/src/core/ngx_core.h, the named theorem collections, generic lemmas on
  lists and words, and the two interfaces several components implement: a codec
  (encode/decode) and an incremental parser (a per-byte step driven over a buffer that may
  arrive in pieces).
\<close>

subsection \<open>Types\<close>

type_synonym byte = "8 word"
type_synonym bytes = "8 word list"
type_synonym u16 = "16 word"
type_synonym u32 = "32 word"
type_synonym u64 = "64 word"

named_theorems ngx_defs \<open>definitions of the model that proofs unfold together\<close>
named_theorems byte_simps \<open>facts that read a byte as a number\<close>

subsection \<open>Return codes of the core\<close>

definition NGX_OK :: int where "NGX_OK = 0"
definition NGX_ERROR :: int where "NGX_ERROR = - 1"
definition NGX_AGAIN :: int where "NGX_AGAIN = - 2"
definition NGX_BUSY :: int where "NGX_BUSY = - 3"
definition NGX_DONE :: int where "NGX_DONE = - 4"
definition NGX_DECLINED :: int where "NGX_DECLINED = - 5"
definition NGX_ABORT :: int where "NGX_ABORT = - 6"

definition NGX_HTTP_INTERNAL_SERVER_ERROR :: int where "NGX_HTTP_INTERNAL_SERVER_ERROR = 500"

lemmas ngx_codes =
  NGX_OK_def NGX_ERROR_def NGX_AGAIN_def NGX_BUSY_def NGX_DONE_def NGX_DECLINED_def NGX_ABORT_def

subsection \<open>Bytes\<close>

text \<open>A byte literal of the source, \<open>'c'\<close>.\<close>

abbreviation chr :: "char \<Rightarrow> byte" where "chr c \<equiv> of_char c"

abbreviation CR :: byte where "CR \<equiv> 13"
abbreviation LF :: byte where "LF \<equiv> 10"

text \<open>The bytes of a string literal of the source, without its terminating NUL.\<close>

definition str :: "string \<Rightarrow> bytes" where
  "str s = map of_char s"

lemma str_simps [simp]: "str [] = []" "str (c # s) = of_char c # str s"
  by (simp_all add: str_def)

lemma uint_byte_bounds: "0 \<le> uint (b :: byte)" "uint (b :: byte) < 256"
  using uint_lt2p [of b] by simp_all

lemma unat_byte_less [simp]: "unat (b :: byte) < 256"
  using unsigned_less [of b, where ?'a = nat] by simp

lemma int_unat_byte: "int (unat (b :: byte)) = uint b"
  by simp

text \<open>A property of every byte is a property of 256 concrete bytes.\<close>

definition all_bytes :: bytes where
  "all_bytes = map word_of_nat [0..<256]"

lemma set_all_bytes: "set all_bytes = UNIV"
proof -
  have "b \<in> word_of_nat ` {0..<256}" for b :: byte
    by (rule image_eqI [of _ _ "unat b"]) simp_all
  then show ?thesis by (auto simp: all_bytes_def)
qed

lemma byte_forall: "list_all P all_bytes \<Longrightarrow> \<forall>b. P b"
  using set_all_bytes by (auto simp: list_all_iff)

lemma all_bytes_list: "all_bytes =
    [0, 1, 2, 3, 4, 5, 6, 7, 8, 9, 10, 11, 12, 13, 14, 15,
     16, 17, 18, 19, 20, 21, 22, 23, 24, 25, 26, 27, 28, 29, 30, 31,
     32, 33, 34, 35, 36, 37, 38, 39, 40, 41, 42, 43, 44, 45, 46, 47,
     48, 49, 50, 51, 52, 53, 54, 55, 56, 57, 58, 59, 60, 61, 62, 63,
     64, 65, 66, 67, 68, 69, 70, 71, 72, 73, 74, 75, 76, 77, 78, 79,
     80, 81, 82, 83, 84, 85, 86, 87, 88, 89, 90, 91, 92, 93, 94, 95,
     96, 97, 98, 99, 100, 101, 102, 103, 104, 105, 106, 107, 108, 109, 110, 111,
     112, 113, 114, 115, 116, 117, 118, 119, 120, 121, 122, 123, 124, 125, 126, 127,
     128, 129, 130, 131, 132, 133, 134, 135, 136, 137, 138, 139, 140, 141, 142, 143,
     144, 145, 146, 147, 148, 149, 150, 151, 152, 153, 154, 155, 156, 157, 158, 159,
     160, 161, 162, 163, 164, 165, 166, 167, 168, 169, 170, 171, 172, 173, 174, 175,
     176, 177, 178, 179, 180, 181, 182, 183, 184, 185, 186, 187, 188, 189, 190, 191,
     192, 193, 194, 195, 196, 197, 198, 199, 200, 201, 202, 203, 204, 205, 206, 207,
     208, 209, 210, 211, 212, 213, 214, 215, 216, 217, 218, 219, 220, 221, 222, 223,
     224, 225, 226, 227, 228, 229, 230, 231, 232, 233, 234, 235, 236, 237, 238, 239,
     240, 241, 242, 243, 244, 245, 246, 247, 248, 249, 250, 251, 252, 253, 254, 255]"
  by code_simp

subsection \<open>Integer arithmetic\<close>

lemma int_le_div_iff:
  assumes "0 < (k :: int)"
  shows "a \<le> b div k \<longleftrightarrow> a * k \<le> b"
proof
  assume "a \<le> b div k"
  then have "a * k \<le> b div k * k" using assms by (simp add: mult_right_mono)
  also have "\<dots> \<le> b" using assms by (simp add: minus_mod_eq_div_mult [symmetric])
  finally show "a * k \<le> b" .
next
  assume "a * k \<le> b"
  then have "a * k div k \<le> b div k" using assms by (rule zdiv_mono1)
  then show "a \<le> b div k" using assms by simp
qed

text \<open>
  The overflow test of the number readers: with \<open>cutoff = M div k\<close> and
  \<open>cutlim = M mod k\<close> it is exactly "one more digit would pass \<open>M\<close>".
\<close>

lemma cutoff_test:
  fixes v d M k :: int
  assumes "0 \<le> d" "d < k"
  shows "(v \<ge> M div k \<and> (v > M div k \<or> d > M mod k)) \<longleftrightarrow> v * k + d > M"
proof -
  define q r where "q = M div k" and "r = M mod k"
  have M: "M = q * k + r" and r: "0 \<le> r" "r < k"
    using assms by (simp_all add: q_def r_def)
  have step: "v \<ge> q + 1 \<Longrightarrow> v * k \<ge> q * k + k" "v \<le> q - 1 \<Longrightarrow> v * k \<le> q * k - k"
    using assms mult_right_mono [of "q + 1" v k] mult_right_mono [of v "q - 1" k]
    by (simp_all add: algebra_simps)
  consider "v < q" | "v = q" | "v > q" by linarith
  then show ?thesis
    using step M r assms unfolding q_def [symmetric] r_def [symmetric] by cases auto
qed

subsection \<open>C control flow\<close>

text \<open>
  A computation that may leave early: \<open>Inl (Ret c)\<close> is a \<open>return c\<close> in the middle of a
  function, \<open>Inl Oob\<close> an access outside the object a pointer points into (undefined
  behaviour in C), \<open>Inr x\<close> goes on with \<open>x\<close>.
\<close>

datatype fault = Oob | Ret int

type_synonym 'a cm = "fault + 'a"

fun cbind :: "'a cm \<Rightarrow> ('a \<Rightarrow> 'b cm) \<Rightarrow> 'b cm" where
  "cbind (Inl e) f = Inl e"
| "cbind (Inr x) f = f x"

definition rd :: "bytes \<Rightarrow> nat \<Rightarrow> byte cm" where
  "rd s p = (if p < length s then Inr (s ! p) else Inl Oob)"

definition ret_if :: "bool \<Rightarrow> int \<Rightarrow> unit cm" where
  "ret_if b c = (if b then Inl (Ret c) else Inr ())"

definition wr :: "bytes \<Rightarrow> nat \<Rightarrow> byte \<Rightarrow> bytes cm" where
  "wr m p b = (if p < length m then Inr (m[p := b]) else Inl Oob)"

definition store :: "bytes \<Rightarrow> nat \<Rightarrow> bytes \<Rightarrow> bytes" where
  "store m p bs = take p m @ bs @ drop (p + length bs) m"

definition mem_cpy :: "bytes \<Rightarrow> nat \<Rightarrow> bytes \<Rightarrow> bytes cm" where
  "mem_cpy m p bs = (if p + length bs \<le> length m then Inr (store m p bs) else Inl Oob)"

text \<open>The value a function returns; \<open>None\<close> when it read outside its input.\<close>

fun result :: "int cm \<Rightarrow> int option" where
  "result (Inl Oob) = None"
| "result (Inl (Ret c)) = Some c"
| "result (Inr v) = Some v"

definition safe :: "'a cm \<Rightarrow> bool" where
  "safe m \<longleftrightarrow> m \<noteq> Inl Oob"

lemma safe_cbind: "safe m \<Longrightarrow> (\<And>x. m = Inr x \<Longrightarrow> safe (f x)) \<Longrightarrow> safe (cbind m f)"
  by (cases m) (auto simp: safe_def)

lemma safe_simps [simp]: "safe (Inr x)" "safe (Inl (Ret c))" "\<not> safe (Inl Oob)"
  by (simp_all add: safe_def)

lemma safe_rd: "p < length s \<Longrightarrow> safe (rd s p)"
  by (simp add: rd_def)

lemma safe_ret_if [simp]: "safe (ret_if b c)"
  by (simp add: ret_if_def)

lemma safe_if: "(b \<Longrightarrow> safe x) \<Longrightarrow> (\<not> b \<Longrightarrow> safe y) \<Longrightarrow> safe (if b then x else y)"
  by simp

lemma result_safe: "safe m \<longleftrightarrow> result m \<noteq> None"
  by (cases m rule: result.cases) auto

lemma ret_if_Inr [simp]: "ret_if b c = Inr u \<longleftrightarrow> \<not> b"
  by (simp add: ret_if_def)

lemma length_store [simp]: "p + length bs \<le> length m \<Longrightarrow> length (store m p bs) = length m"
  by (simp add: store_def)

lemma store_Nil [simp]: "store m p [] = m"
  by (simp add: store_def)

lemma store_Cons:
  assumes "p + length (b # bs) \<le> length m"
  shows "store (m[p := b]) (Suc p) bs = store m p (b # bs)"
proof -
  have "take (Suc p) (m[p := b]) = take p m @ [b]"
    using assms by (simp add: take_Suc_conv_app_nth)
  then show ?thesis using assms by (simp add: store_def)
qed

lemma store_read:
  "p + length bs \<le> length m \<Longrightarrow> take (length bs) (drop p (store m p bs)) = bs"
  by (simp add: store_def)

lemma store_nth:
  "p + length bs \<le> length m \<Longrightarrow> i < length bs \<Longrightarrow> store m p bs ! (p + i) = bs ! i"
  by (simp add: store_def nth_append)

subsection \<open>Signed conversions\<close>

text \<open>The conversion of an integer to a signed 32-bit or 64-bit type, as the compilers define it.\<close>

definition scast32 :: "int \<Rightarrow> int" where
  "scast32 x = (x + 2 ^ 31) mod 2 ^ 32 - 2 ^ 31"

definition scast64 :: "int \<Rightarrow> int" where
  "scast64 x = (x + 2 ^ 63) mod 2 ^ 64 - 2 ^ 63"

subsection \<open>Interface: a codec\<close>

text \<open>
  \<open>enc\<close> turns a value of the domain \<open>dom_ok\<close> into bytes and \<open>dec\<close> reads them
  back, refusing with \<open>None\<close> what it does not accept.
\<close>

locale codec =
  fixes enc :: "'a \<Rightarrow> 'b list"
    and dec :: "'b list \<Rightarrow> 'a option"
    and dom_ok :: "'a \<Rightarrow> bool"
  assumes dec_enc: "dom_ok x \<Longrightarrow> dec (enc x) = Some x"
begin

lemma enc_inj: "dom_ok x \<Longrightarrow> dom_ok y \<Longrightarrow> enc x = enc y \<Longrightarrow> x = y"
  by (metis dec_enc option.inject)

lemma enc_inj_on: "inj_on enc {x. dom_ok x}"
  by (rule inj_onI) (blast intro: enc_inj)

end

subsection \<open>Interface: an incremental parser\<close>

text \<open>
  The parsers of the program are called with the bytes that have arrived so far, keep
  their state in the request between calls and return \<open>NGX_AGAIN\<close> when the buffer
  ends. A step consumes one byte and says to go on with a new state or to stop with a
  result; \<open>prun\<close> drives it over a buffer and returns, with the outcome, the bytes it
  did not consume.
\<close>

datatype ('s, 'r) step_res = Go 's | Stop 'r

datatype ('s, 'r) run_res = Again 's | Finished 'r bytes

fun prun :: "('s \<Rightarrow> byte \<Rightarrow> ('s, 'r) step_res) \<Rightarrow> 's \<Rightarrow> bytes \<Rightarrow> ('s, 'r) run_res" where
  "prun step s [] = Again s"
| "prun step s (b # bs) =
     (case step s b of Go s' \<Rightarrow> prun step s' bs | Stop r \<Rightarrow> Finished r bs)"

lemma prun_append:
  "prun step s (xs @ ys) =
     (case prun step s xs of
        Again s' \<Rightarrow> prun step s' ys
      | Finished r rest \<Rightarrow> Finished r (rest @ ys))"
  by (induction xs arbitrary: s) (auto split: step_res.splits)

text \<open>Running a parser over the pieces a connection delivers.\<close>

fun prun_chunks :: "('s \<Rightarrow> byte \<Rightarrow> ('s, 'r) step_res) \<Rightarrow> 's \<Rightarrow> bytes list \<Rightarrow> ('s, 'r) run_res" where
  "prun_chunks step s [] = Again s"
| "prun_chunks step s (c # cs) =
     (case prun step s c of
        Again s' \<Rightarrow> prun_chunks step s' cs
      | Finished r rest \<Rightarrow> Finished r (rest @ concat cs))"

lemma prun_chunks_concat: "prun_chunks step s cs = prun step s (concat cs)"
  by (induction cs arbitrary: s) (auto simp: prun_append split: run_res.splits)

lemma prun_finished_suffix:
  "prun step s bs = Finished r rest \<Longrightarrow> \<exists>pre. bs = pre @ rest \<and> pre \<noteq> []"
proof (induction bs arbitrary: s)
  case (Cons b bs)
  show ?case
  proof (cases "step s b")
    case (Go s')
    with Cons.prems have "prun step s' bs = Finished r rest" by simp
    then obtain pre where "bs = pre @ rest" using Cons.IH by blast
    then have "b # bs = (b # pre) @ rest" by simp
    then show ?thesis by blast
  next
    case (Stop q)
    with Cons.prems have "b # bs = [b] @ rest" by simp
    then show ?thesis by blast
  qed
qed simp

text \<open>An invariant kept by every step holds when the run asks for more input.\<close>

lemma prun_again_inv:
  assumes step: "\<And>s b s'. I s \<Longrightarrow> step s b = Go s' \<Longrightarrow> I s'"
    and start: "I s" and run: "prun step s bs = Again s'"
  shows "I s'"
  using start run
  by (induction bs arbitrary: s) (auto split: step_res.splits dest: step)

lemma prun_finished_inv:
  assumes step: "\<And>s b s'. I s \<Longrightarrow> step s b = Go s' \<Longrightarrow> I s'"
    and stop: "\<And>s b r. I s \<Longrightarrow> step s b = Stop r \<Longrightarrow> Q r"
    and start: "I s" and run: "prun step s bs = Finished r rest"
  shows "Q r"
  using start run
  by (induction bs arbitrary: s) (auto split: step_res.splits dest: step stop)

subsection \<open>Interface: a parser that is called again\<close>

text \<open>
  One call of a parser on the bytes between \<open>b->pos\<close> and \<open>b->last\<close>: its return value, the
  request it leaves and the bytes after the new \<open>b->pos\<close>. The loop runs on local variables
  (\<open>state\<close>, \<open>p\<close> and others) that are loaded from the request on entry and stored on some of the
  returns only: \<open>keep c s s'\<close> is the request after the return of \<open>c\<close> when the call began with
  \<open>s\<close> and the loop ended with \<open>s'\<close>, and \<open>moves c\<close> says that \<open>b->pos\<close> was moved.
\<close>

definition pcall ::
    "('s \<Rightarrow> byte \<Rightarrow> ('s, int \<times> 's) step_res) \<Rightarrow> (int \<Rightarrow> bool) \<Rightarrow> (int \<Rightarrow> 's \<Rightarrow> 's \<Rightarrow> 's) \<Rightarrow> 's \<Rightarrow> bytes \<Rightarrow> int \<times> 's \<times> bytes" where
  "pcall step moves keep s b =
     (case (case prun step s b of
              Again s' \<Rightarrow> (NGX_AGAIN, s', [])
            | Finished (c, s') rest \<Rightarrow> (c, s', rest)) of
        (c, s', rest) \<Rightarrow> (c, keep c s s', if moves c then rest else b))"

text \<open>
  The caller: as long as the answer is \<open>NGX_AGAIN\<close>, a call with the bytes that were left and
  the next piece of input.
\<close>

fun pcalls :: "('s \<Rightarrow> bytes \<Rightarrow> int \<times> 's \<times> bytes) \<Rightarrow> 's \<Rightarrow> bytes \<Rightarrow> bytes list \<Rightarrow> int \<times> 's \<times> bytes" where
  "pcalls call s left [] = (NGX_AGAIN, s, left)"
| "pcalls call s left (b # bs) =
     (case call s (left @ b) of (c, s', rest) \<Rightarrow>
        if c = NGX_AGAIN then pcalls call s' rest bs else (c, s', rest @ concat bs))"

text \<open>
  Results that agree: the same return value, the same unread bytes where \<open>b->pos\<close> was moved,
  and the same request where a line was read or more input is asked for.
\<close>

definition agree :: "(int \<Rightarrow> bool) \<Rightarrow> int \<times> 's \<times> bytes \<Rightarrow> int \<times> 's \<times> bytes \<Rightarrow> bool" where
  "agree moves x y \<longleftrightarrow> fst x = fst y \<and> (moves (fst x) \<longrightarrow> snd (snd x) = snd (snd y))
     \<and> (fst x = NGX_OK \<or> fst x = NGX_AGAIN \<longrightarrow> fst (snd x) = fst (snd y))"

locale resumable =
  fixes step :: "'s \<Rightarrow> byte \<Rightarrow> ('s, int \<times> 's) step_res"
    and moves :: "int \<Rightarrow> bool"
    and keep :: "int \<Rightarrow> 's \<Rightarrow> 's \<Rightarrow> 's"
    and read :: "'s \<Rightarrow> bytes"
  assumes stop_code: "step s b = Stop (c, s') \<Longrightarrow> c \<noteq> NGX_AGAIN"
    and keep_again: "keep NGX_AGAIN s s' = s'" "moves NGX_AGAIN"
    and keep_ok: "keep NGX_OK s s' = s'" "moves NGX_OK"
    and read_go: "step s b = Go s' \<Longrightarrow> read s' = read s @ [b]"
    and read_stop: "step s b = Stop (c, s') \<Longrightarrow> read s' = read s @ [b]"
begin

lemma finished_code: "prun step s b = Finished (c, s') rest \<Longrightarrow> c \<noteq> NGX_AGAIN"
  using prun_finished_inv [of "\<lambda>_. True" step "\<lambda>(c, _). c \<noteq> NGX_AGAIN" s b "(c, s')" rest] stop_code
  by auto

lemma pcalls_concat: "agree moves (pcalls (pcall step moves keep) s [] bs) (pcall step moves keep s (concat bs))"
proof (induction bs arbitrary: s)
  case Nil
  then show ?case by (simp add: pcall_def agree_def keep_again)
next
  case (Cons b bs)
  show ?case
  proof (cases "prun step s b")
    case (Again s')
    have "agree moves (pcall step moves keep s' (concat bs)) (pcall step moves keep s (b @ concat bs))"
      by (auto simp: agree_def pcall_def prun_append Again keep_again keep_ok split: run_res.split)
    moreover have "pcalls (pcall step moves keep) s [] (b # bs) = pcalls (pcall step moves keep) s' [] bs"
      by (simp add: pcall_def Again keep_again)
    ultimately show ?thesis using Cons.IH [of s'] by (auto simp: agree_def)
  next
    case (Finished x rest)
    then show ?thesis
      using finished_code [of s b "fst x" "snd x" rest] by (auto simp: agree_def pcall_def prun_append split: prod.split)
  qed
qed

text \<open>No byte is lost or read twice.\<close>

lemma finished_read: "prun step s b = Finished (c, s') rest \<Longrightarrow> read s @ b = read s' @ rest"
proof (induction b arbitrary: s)
  case (Cons x b)
  show ?case
  proof (cases "step s x")
    case (Go s1)
    then show ?thesis using Cons.IH [of s1] Cons.prems read_go by simp
  next
    case (Stop y)
    then show ?thesis using Cons.prems read_stop [of s x] by auto
  qed
qed simp

lemma pcall_finished: "pcall step moves keep s b = (NGX_OK, s', rest) \<Longrightarrow> prun step s b = Finished (NGX_OK, s') rest"
proof -
  have "NGX_AGAIN \<noteq> NGX_OK" by (simp add: ngx_codes)
  then show "pcall step moves keep s b = (NGX_OK, s', rest) \<Longrightarrow> prun step s b = Finished (NGX_OK, s') rest"
    by (auto simp: pcall_def keep_ok split: run_res.splits)
qed

end

subsection \<open>Parts of a buffer\<close>

text \<open>The bytes between two offsets of the buffer.\<close>

definition slice :: "bytes \<Rightarrow> nat \<Rightarrow> nat \<Rightarrow> bytes" where
  "slice bs a b = take (b - a) (drop a bs)"

lemma slice_append: "b \<le> length bs \<Longrightarrow> slice (bs @ cs) a b = slice bs a b"
  by (simp add: slice_def)

lemma slice_snoc: "a \<le> length bs \<Longrightarrow> slice (bs @ [c]) a (Suc (length bs)) = slice bs a (length bs) @ [c]"
  by (simp add: slice_def)

lemma slice_prefix: "b \<le> c \<Longrightarrow> list_all P (slice bs a c) \<Longrightarrow> list_all P (slice bs a b)"
  unfolding slice_def list_all_iff by (meson diff_le_mono set_take_subset_set_take subsetD)

text \<open>No byte that could end a line.\<close>

definition no_eol :: "bytes \<Rightarrow> bool" where
  "no_eol bs \<longleftrightarrow> list_all (\<lambda>c. c \<noteq> CR \<and> c \<noteq> LF \<and> c \<noteq> 0) bs"

subsection \<open>Tables given by their first half\<close>

fun paired :: "('a \<Rightarrow> 'a) \<Rightarrow> ('a \<Rightarrow> 'a) \<Rightarrow> 'a list \<Rightarrow> 'a list" where
  "paired f g [] = []"
| "paired f g (t # ts) = f t # g t # paired f g ts"

lemma paired_nth:
  "i < length ts \<Longrightarrow> paired f g ts ! (2 * i) = f (ts ! i) \<and> paired f g ts ! (2 * i + 1) = g (ts ! i)"
proof (induction ts arbitrary: i)
  case (Cons t ts)
  then show ?case by (cases i) auto
qed simp

lemma paired_table:
  assumes "tab = paired f g (take n tab)" "length tab = 2 * n" "j < n"
  shows "tab ! (2 * j) = f (tab ! j)" "tab ! (2 * j + 1) = g (tab ! j)"
  using paired_nth [of j "take n tab" f g] assms by auto

lemma funpow_8: "(f ^^ 8) x = f (f (f (f (f (f (f (f x)))))))"
  by (simp add: eval_nat_numeral)

end
