(* ===== verification/Ngx_Atoi.thy ===== *)
theory Ngx_Atoi
  imports Ngx_Prelude
begin

unbundle bit_operations_syntax

section \<open>Reading and writing numbers (ngx_string.c)\<close>

text \<open>
  The number readers of src/ngx-1.12.0/src/core/ngx_string.c: \<open>ngx_atoi\<close>,
  \<open>ngx_atosz\<close>, \<open>ngx_atoof\<close>, \<open>ngx_atotm\<close> (decimal, one signed type each),
  \<open>ngx_atofp\<close> (fixed point) and \<open>ngx_hextoi\<close>, with \<open>ngx_hex_dump\<close> and
  \<open>ngx_sprintf_num\<close>, which print. The C types are signed: an overflow would be
  undefined behaviour, so the values are \<open>int\<close> and the theorems show that every
  value stays within its type. A pair (pointer, length) is the list of its bytes.
\<close>

subsection \<open>Limits of the 64-bit build\<close>

definition NGX_MAX_INT_T_VALUE :: int where "NGX_MAX_INT_T_VALUE = 9223372036854775807"
definition NGX_MAX_SIZE_T_VALUE :: int where "NGX_MAX_SIZE_T_VALUE = 9223372036854775807"
definition NGX_MAX_OFF_T_VALUE :: int where "NGX_MAX_OFF_T_VALUE = 9223372036854775807"
definition NGX_MAX_TIME_T_VALUE :: int where "NGX_MAX_TIME_T_VALUE = 9223372036854775807"
definition NGX_INT64_LEN :: nat where "NGX_INT64_LEN = 20"

lemmas ngx_limits = NGX_MAX_INT_T_VALUE_def NGX_MAX_SIZE_T_VALUE_def
  NGX_MAX_OFF_T_VALUE_def NGX_MAX_TIME_T_VALUE_def

lemma NGX_MAX_INT_T_VALUE_nonneg: "0 \<le> NGX_MAX_INT_T_VALUE"
  and NGX_MAX_SIZE_T_VALUE_nonneg: "0 \<le> NGX_MAX_SIZE_T_VALUE"
  and NGX_MAX_OFF_T_VALUE_nonneg: "0 \<le> NGX_MAX_OFF_T_VALUE"
  and NGX_MAX_TIME_T_VALUE_nonneg: "0 \<le> NGX_MAX_TIME_T_VALUE"
  by (simp_all add: ngx_limits)

subsection \<open>Decimal readers\<close>

text \<open>
  The loop the four readers share: \<open>line\<close> is what is left to read, \<open>*line - '0'\<close>
  is computed in \<open>int\<close> after promotion.
\<close>

fun ato_loop :: "int \<Rightarrow> int \<Rightarrow> int \<Rightarrow> bytes \<Rightarrow> int" where
  "ato_loop cutoff cutlim value [] = value"
| "ato_loop cutoff cutlim value (c # line) =
     (if c < chr CHR ''0'' \<or> c > chr CHR ''9'' then NGX_ERROR
      else if value \<ge> cutoff \<and> (value > cutoff \<or> uint c - 48 > cutlim) then NGX_ERROR
      else ato_loop cutoff cutlim (value * 10 + (uint c - 48)) line)"

definition ngx_atoi :: "bytes \<Rightarrow> int" where
  "ngx_atoi line =
     (if length line = 0 then NGX_ERROR
      else ato_loop (NGX_MAX_INT_T_VALUE div 10) (NGX_MAX_INT_T_VALUE mod 10) 0 line)"

definition ngx_atosz :: "bytes \<Rightarrow> int" where
  "ngx_atosz line =
     (if length line = 0 then NGX_ERROR
      else ato_loop (NGX_MAX_SIZE_T_VALUE div 10) (NGX_MAX_SIZE_T_VALUE mod 10) 0 line)"

definition ngx_atoof :: "bytes \<Rightarrow> int" where
  "ngx_atoof line =
     (if length line = 0 then NGX_ERROR
      else ato_loop (NGX_MAX_OFF_T_VALUE div 10) (NGX_MAX_OFF_T_VALUE mod 10) 0 line)"

definition ngx_atotm :: "bytes \<Rightarrow> int" where
  "ngx_atotm line =
     (if length line = 0 then NGX_ERROR
      else ato_loop (NGX_MAX_TIME_T_VALUE div 10) (NGX_MAX_TIME_T_VALUE mod 10) 0 line)"

subsection \<open>Fixed point reader\<close>

text \<open>
  \<open>ngx_atofp\<close>: the loop state is (value, dot, point). \<open>point -= dot\<close> never wraps:
  the loop returns at once when \<open>point\<close> is 0.
\<close>

fun atofp_loop :: "int \<Rightarrow> nat \<Rightarrow> nat \<Rightarrow> bytes \<Rightarrow> (int \<times> nat) option" where
  "atofp_loop value dot point [] = Some (value, point)"
| "atofp_loop value dot point (c # line) =
     (if point = 0 then None
      else if c = chr CHR ''.'' then (if dot \<noteq> 0 then None else atofp_loop value 1 point line)
      else if c < chr CHR ''0'' \<or> c > chr CHR ''9'' then None
      else if value \<ge> NGX_MAX_INT_T_VALUE div 10 \<and>
              (value > NGX_MAX_INT_T_VALUE div 10 \<or> uint c - 48 > NGX_MAX_INT_T_VALUE mod 10)
      then None
      else atofp_loop (value * 10 + (uint c - 48)) dot (point - dot) line)"

fun atofp_scale :: "int \<Rightarrow> nat \<Rightarrow> int" where
  "atofp_scale value 0 = value"
| "atofp_scale value (Suc point) =
     (if value > NGX_MAX_INT_T_VALUE div 10 then NGX_ERROR else atofp_scale (value * 10) point)"

definition ngx_atofp :: "bytes \<Rightarrow> nat \<Rightarrow> int" where
  "ngx_atofp line point =
     (if length line = 0 then NGX_ERROR
      else case atofp_loop 0 0 point line of
        None \<Rightarrow> NGX_ERROR
      | Some (value, point') \<Rightarrow> atofp_scale value point')"

subsection \<open>Hexadecimal\<close>

fun hextoi_loop :: "int \<Rightarrow> int \<Rightarrow> bytes \<Rightarrow> int" where
  "hextoi_loop cutoff value [] = value"
| "hextoi_loop cutoff value (ch # line) =
     (if value > cutoff then NGX_ERROR
      else if ch \<ge> chr CHR ''0'' \<and> ch \<le> chr CHR ''9''
      then hextoi_loop cutoff (value * 16 + (uint ch - 48)) line
      else let c = ch OR 0x20 in
        if c \<ge> chr CHR ''a'' \<and> c \<le> chr CHR ''f''
        then hextoi_loop cutoff (value * 16 + (uint c - 97 + 10)) line
        else NGX_ERROR)"

definition ngx_hextoi :: "bytes \<Rightarrow> int" where
  "ngx_hextoi line =
     (if length line = 0 then NGX_ERROR
      else hextoi_loop (NGX_MAX_INT_T_VALUE div 16) 0 line)"

definition hex_lower :: bytes where "hex_lower = str ''0123456789abcdef''"
definition hex_upper :: bytes where "hex_upper = str ''0123456789ABCDEF''"

fun ngx_hex_dump :: "bytes \<Rightarrow> bytes" where
  "ngx_hex_dump [] = []"
| "ngx_hex_dump (b # src) =
     hex_lower ! unat (drop_bit 4 b) # hex_lower ! unat (b AND 0xf) # ngx_hex_dump src"


subsection \<open>Printing an unsigned number\<close>

text \<open>
  \<open>ngx_sprintf_num\<close>: digits are written backwards into \<open>temp\<close> (the list grows at its
  front), with a 32-bit loop for small decimal numbers. \<open>room\<close> is \<open>last - buf\<close>; the
  result is what is written from \<open>buf\<close> on.
\<close>

function sprintf_dec32 :: "u32 \<Rightarrow> bytes \<Rightarrow> bytes" where
  "sprintf_dec32 ui32 p =
     (let p' = (ucast (ui32 mod 10) + chr CHR ''0'') # p; q = ui32 div 10
      in if q \<noteq> 0 then sprintf_dec32 q p' else p')"
  by pat_completeness auto
termination
proof (relation "measure (\<lambda>(n, p). unat n)", goal_cases)
  case (2 ui32 p x xa)
  then have "unat (ui32 div 10) \<noteq> 0" by (simp add: unat_eq_zero)
  with 2 show ?case by (simp add: unat_div)
qed simp

function sprintf_dec64 :: "u64 \<Rightarrow> bytes \<Rightarrow> bytes" where
  "sprintf_dec64 ui64 p =
     (let p' = (ucast (ui64 mod 10) + chr CHR ''0'') # p; q = ui64 div 10
      in if q \<noteq> 0 then sprintf_dec64 q p' else p')"
  by pat_completeness auto
termination
proof (relation "measure (\<lambda>(n, p). unat n)", goal_cases)
  case (2 ui64 p x xa)
  then have "unat (ui64 div 10) \<noteq> 0" by (simp add: unat_eq_zero)
  with 2 show ?case by (simp add: unat_div)
qed simp

function sprintf_hex :: "bytes \<Rightarrow> u64 \<Rightarrow> bytes \<Rightarrow> bytes" where
  "sprintf_hex hex ui64 p =
     (let p' = hex ! unat (ui64 AND 0xf) # p; q = drop_bit 4 ui64
      in if q \<noteq> 0 then sprintf_hex hex q p' else p')"
  by pat_completeness auto
termination
proof (relation "measure (\<lambda>(hex, n, p). unat n)", goal_cases)
  case (2 hex ui64 p x xa)
  then have "unat (drop_bit 4 ui64) \<noteq> 0" by (simp add: unat_eq_zero)
  with 2 show ?case by (simp add: drop_bit_eq_div unat_div)
qed simp

declare sprintf_dec32.simps [simp del] sprintf_dec64.simps [simp del] sprintf_hex.simps [simp del]

definition sprintf_temp :: "u64 \<Rightarrow> nat \<Rightarrow> bytes" where
  "sprintf_temp ui64 hexadecimal =
     (if hexadecimal = 0 then
        (if ui64 \<le> 0xffffffff then sprintf_dec32 (ucast ui64) []
         else sprintf_dec64 ui64 [])
      else if hexadecimal = 1 then sprintf_hex hex_lower ui64 []
      else sprintf_hex hex_upper ui64 [])"

definition ngx_sprintf_num :: "nat \<Rightarrow> u64 \<Rightarrow> byte \<Rightarrow> nat \<Rightarrow> nat \<Rightarrow> bytes" where
  "ngx_sprintf_num room ui64 zero hexadecimal width =
     (let temp = sprintf_temp ui64 hexadecimal;
        len = length temp;
        pad = replicate (min (width - len) room) zero;
        room' = room - length pad;
        len' = (if len > room' then room' else len)
      in pad @ take len' temp)"

section \<open>What the readers compute\<close>

definition is_digit :: "byte \<Rightarrow> bool" where
  "is_digit c \<longleftrightarrow> chr CHR ''0'' \<le> c \<and> c \<le> chr CHR ''9''"

text \<open>The number a digit string denotes, read from a first value \<open>v\<close>.\<close>

fun dec_from :: "int \<Rightarrow> bytes \<Rightarrow> int" where
  "dec_from v [] = v"
| "dec_from v (c # cs) = dec_from (v * 10 + (uint c - 48)) cs"

lemma digit_bounds [byte_simps]: "is_digit c \<Longrightarrow> 0 \<le> uint c - 48 \<and> uint c - 48 \<le> 9"
  by (simp add: is_digit_def word_le_def)

lemma not_digit_iff: "(c < 48 \<or> 57 < c) \<longleftrightarrow> \<not> is_digit c"
  by (auto simp: is_digit_def)

lemma dec_from_mono: "list_all is_digit cs \<Longrightarrow> 0 \<le> v \<Longrightarrow> v \<le> dec_from v cs"
proof (induction cs arbitrary: v)
  case (Cons c cs)
  then have d: "0 \<le> uint c - 48" using digit_bounds [of c] by simp
  then have "v * 10 + (uint c - 48) \<le> dec_from (v * 10 + (uint c - 48)) cs"
    using Cons by simp
  moreover have "v \<le> v * 10 + (uint c - 48)" using d Cons.prems by simp
  ultimately show ?case by simp
qed simp

lemma ato_loop_correct [ngx_defs]:
  assumes "0 \<le> v" "v \<le> M"
  shows "ato_loop (M div 10) (M mod 10) v line =
    (if list_all is_digit line \<and> dec_from v line \<le> M then dec_from v line else NGX_ERROR)"
  using assms
proof (induction line arbitrary: v)
  case (Cons c line)
  let ?d = "uint c - 48"
  show ?case
  proof (cases "is_digit c")
    case False
    then show ?thesis by (simp add: not_digit_iff)
  next
    case True
    note d = digit_bounds [OF True]
    have cut: "v \<ge> M div 10 \<and> (v > M div 10 \<or> ?d > M mod 10) \<longleftrightarrow> v * 10 + ?d > M"
      using d by (intro cutoff_test) simp_all
    show ?thesis
    proof (cases "v * 10 + ?d > M")
      case gt: True
      have "dec_from (v * 10 + ?d) line > M" if "list_all is_digit line"
        using dec_from_mono [OF that, of "v * 10 + ?d"] d Cons.prems gt by simp
      with True gt cut show ?thesis by (auto simp: not_digit_iff)
    next
      case le: False
      then have "ato_loop (M div 10) (M mod 10) (v * 10 + ?d) line =
        (if list_all is_digit line \<and> dec_from (v * 10 + ?d) line \<le> M
         then dec_from (v * 10 + ?d) line else NGX_ERROR)"
        using Cons.IH [of "v * 10 + ?d"] d Cons.prems by simp
      with True le cut show ?thesis by (auto simp: not_digit_iff)
    qed
  qed
qed simp

subsection \<open>Interface: a decimal reader\<close>

text \<open>
  What the callers of a reader rely on: a non-empty digit string that denotes at most
  \<open>maxv\<close> is read exactly, and everything else is \<open>NGX_ERROR\<close>.
\<close>

locale number_reader =
  fixes rd :: "bytes \<Rightarrow> int" and maxv :: int
  assumes rd_spec: "rd line =
      (if line \<noteq> [] \<and> list_all is_digit line \<and> dec_from 0 line \<le> maxv
       then dec_from 0 line else NGX_ERROR)"
begin

lemma rd_ok_iff:
  "rd line \<noteq> NGX_ERROR \<longleftrightarrow>
     line \<noteq> [] \<and> list_all is_digit line \<and> dec_from 0 line \<le> maxv"
  using dec_from_mono [of line 0] by (auto simp: rd_spec NGX_ERROR_def)

lemma rd_value: "rd line \<noteq> NGX_ERROR \<Longrightarrow> rd line = dec_from 0 line"
  by (simp add: rd_spec split: if_splits)

lemma rd_range: "rd line \<noteq> NGX_ERROR \<Longrightarrow> 0 \<le> rd line \<and> rd line \<le> maxv"
  using rd_ok_iff [of line] rd_value [of line] dec_from_mono [of line 0] by simp

text \<open>A caller that multiplies by a unit after comparing with \<open>maxv div k\<close> cannot overflow.\<close>

lemma rd_scaled_range:
  assumes "rd line \<noteq> NGX_ERROR" "rd line \<le> maxv div k" "0 < k"
  shows "0 \<le> rd line * k \<and> rd line * k \<le> maxv"
  using rd_range [OF assms(1)] assms by (simp add: int_le_div_iff)

lemma rd_scaled_exact:
  "0 < k \<Longrightarrow> 0 \<le> maxv \<Longrightarrow>
   (rd line = NGX_ERROR \<or> rd line > maxv div k) \<longleftrightarrow>
   \<not> (line \<noteq> [] \<and> list_all is_digit line \<and> dec_from 0 line * k \<le> maxv)"
proof -
  assume k: "0 < k" and m: "0 \<le> maxv"
  have le: "dec_from 0 line \<le> maxv div k \<longleftrightarrow> dec_from 0 line * k \<le> maxv"
    using k by (rule int_le_div_iff)
  have "dec_from 0 line \<le> maxv" if "list_all is_digit line" "dec_from 0 line * k \<le> maxv"
  proof -
    have "dec_from 0 line * 1 \<le> dec_from 0 line * k"
      using dec_from_mono [OF that(1), of 0] k by (intro mult_left_mono) simp_all
    with that show ?thesis by simp
  qed
  with le show ?thesis using rd_ok_iff [of line] rd_value [of line] by fastforce
qed

end

interpretation atoi: number_reader ngx_atoi NGX_MAX_INT_T_VALUE
  by unfold_locales (simp add: ngx_atoi_def ato_loop_correct [OF order.refl] NGX_MAX_INT_T_VALUE_nonneg)

interpretation atosz: number_reader ngx_atosz NGX_MAX_SIZE_T_VALUE
  by unfold_locales (simp add: ngx_atosz_def ato_loop_correct [OF order.refl] NGX_MAX_SIZE_T_VALUE_nonneg)

interpretation atoof: number_reader ngx_atoof NGX_MAX_OFF_T_VALUE
  by unfold_locales (simp add: ngx_atoof_def ato_loop_correct [OF order.refl] NGX_MAX_OFF_T_VALUE_nonneg)

interpretation atotm: number_reader ngx_atotm NGX_MAX_TIME_T_VALUE
  by unfold_locales (simp add: ngx_atotm_def ato_loop_correct [OF order.refl] NGX_MAX_TIME_T_VALUE_nonneg)


section \<open>Fixed point, hexadecimal and printing\<close>

text \<open>\<open>ngx_hextoi\<close> reads exactly the hexadecimal strings whose value fits.\<close>

definition hex_digit :: "byte \<Rightarrow> int option" where
  "hex_digit ch =
     (if chr CHR ''0'' \<le> ch \<and> ch \<le> chr CHR ''9'' then Some (uint ch - 48)
      else if chr CHR ''a'' \<le> ch OR 0x20 \<and> ch OR 0x20 \<le> chr CHR ''f''
      then Some (uint (ch OR 0x20) - 87) else None)"

fun hex_from :: "int \<Rightarrow> bytes \<Rightarrow> int option" where
  "hex_from v [] = Some v"
| "hex_from v (c # cs) =
     (case hex_digit c of None \<Rightarrow> None | Some d \<Rightarrow> hex_from (v * 16 + d) cs)"

lemma hex_digit_bounds: "hex_digit c = Some d \<Longrightarrow> 0 \<le> d \<and> d \<le> 15"
  by (auto simp: hex_digit_def word_le_def split: if_splits)

lemma hex_from_mono: "hex_from v cs = Some w \<Longrightarrow> 0 \<le> v \<Longrightarrow> v \<le> w"
proof (induction cs arbitrary: v)
  case (Cons c cs)
  then obtain d where d: "hex_digit c = Some d" "hex_from (v * 16 + d) cs = Some w"
    by (auto split: option.splits)
  then have "v * 16 + d \<le> w" using Cons hex_digit_bounds [OF d(1)] by simp
  then show ?case using hex_digit_bounds [OF d(1)] Cons.prems by simp
qed simp

lemma hextoi_loop_step:
  "hextoi_loop cutoff v (c # cs) =
     (if v > cutoff then NGX_ERROR
      else case hex_digit c of None \<Rightarrow> NGX_ERROR | Some d \<Rightarrow> hextoi_loop cutoff (v * 16 + d) cs)"
  by (simp add: hex_digit_def Let_def)

lemma hextoi_loop_correct:
  assumes "0 \<le> v" "v \<le> M" "M mod 16 = 15"
  shows "hextoi_loop (M div 16) v line =
    (case hex_from v line of None \<Rightarrow> NGX_ERROR | Some w \<Rightarrow> if w \<le> M then w else NGX_ERROR)"
  using assms(1,2)
proof (induction line arbitrary: v)
  case (Cons c line)
  have cut: "v > M div 16 \<longleftrightarrow> v * 16 + d > M" if "0 \<le> d" "d \<le> 15" for d
    using cutoff_test [where d = d and k = 16 and v = v and M = M] that assms(3) by auto
  show ?case
  proof (cases "hex_digit c")
    case None
    then show ?thesis by (simp add: hextoi_loop_step del: hextoi_loop.simps)
  next
    case (Some d)
    note d = hex_digit_bounds [OF Some]
    show ?thesis
    proof (cases "v * 16 + d > M")
      case True
      then have "w > M" if "hex_from (v * 16 + d) line = Some w" for w
        using hex_from_mono [OF that] d Cons.prems by simp
      with True Some cut [of d] d show ?thesis
        by (auto simp: hextoi_loop_step simp del: hextoi_loop.simps split: option.splits)
    next
      case False
      with Some cut [of d] d Cons show ?thesis
        by (simp add: hextoi_loop_step del: hextoi_loop.simps)
    qed
  qed
qed simp

lemma ngx_hextoi_spec:
  "ngx_hextoi line =
     (if line = [] then NGX_ERROR
      else case hex_from 0 line of None \<Rightarrow> NGX_ERROR
        | Some w \<Rightarrow> if w \<le> NGX_MAX_INT_T_VALUE then w else NGX_ERROR)"
proof -
  have "NGX_MAX_INT_T_VALUE mod 16 = 15" by (simp add: NGX_MAX_INT_T_VALUE_def)
  then show ?thesis
    using hextoi_loop_correct [of 0 NGX_MAX_INT_T_VALUE line] NGX_MAX_INT_T_VALUE_nonneg
    by (simp add: ngx_hextoi_def)
qed

text \<open>\<open>ngx_hex_dump\<close> of a byte string, read back by \<open>hex_from\<close>, is the big-endian number.\<close>

lemma nibbles: "unat (drop_bit 4 (b :: byte)) < 16" "unat (b AND 0xf) < 16"
  "int (unat (drop_bit 4 b)) * 16 + int (unat (b AND 0xf)) = uint b"
proof -
  have hi: "unat (drop_bit 4 b) = unat b div 16" by (simp add: drop_bit_eq_div unat_div)
  have "b AND 0xf = b mod 16"
    using take_bit_eq_mask [of 4 b] by (simp add: mask_eq_exp_minus_1 take_bit_eq_mod)
  then have lo: "unat (b AND 0xf) = unat b mod 16" by (simp only: unat_mod) simp
  show "unat (drop_bit 4 b) < 16" using unat_byte_less [of b] unfolding hi by linarith
  show "unat (b AND 0xf) < 16" by (simp add: lo)
  have "int (unat b div 16 * 16 + unat b mod 16) = int (unat b)"
    by (simp only: div_mult_mod_eq)
  then show "int (unat (drop_bit 4 b)) * 16 + int (unat (b AND 0xf)) = uint b"
    unfolding hi lo int_unat_byte by (simp only: of_nat_add of_nat_mult of_nat_numeral)
qed

lemma hex_digit_lower: "n < 16 \<Longrightarrow> hex_digit (hex_lower ! n) = Some (int n)"
proof -
  have "\<forall>n<16. hex_digit (hex_lower ! n) = Some (int n)" by code_simp
  then show "n < 16 \<Longrightarrow> ?thesis" by blast
qed

lemma hex_digit_upper: "n < 16 \<Longrightarrow> hex_digit (hex_upper ! n) = Some (int n)"
proof -
  have "\<forall>n<16. hex_digit (hex_upper ! n) = Some (int n)" by code_simp
  then show "n < 16 \<Longrightarrow> ?thesis" by blast
qed

fun big_endian :: "int \<Rightarrow> bytes \<Rightarrow> int" where
  "big_endian v [] = v"
| "big_endian v (b # bs) = big_endian (v * 256 + uint b) bs"

lemma hex_from_dump: "hex_from v (ngx_hex_dump bs) = Some (big_endian v bs)"
proof (induction bs arbitrary: v)
  case (Cons b bs)
  have e: "(v * 16 + int (unat (drop_bit 4 b))) * 16 + int (unat (b AND 0xf)) = v * 256 + uint b"
    using nibbles(3) [of b] by simp
  show ?case
    by (simp only: ngx_hex_dump.simps hex_from.simps big_endian.simps option.case e Cons.IH
      hex_digit_lower [OF nibbles(1)] hex_digit_lower [OF nibbles(2)])
qed simp

lemma length_hex_dump: "length (ngx_hex_dump bs) = 2 * length bs"
  by (induction bs) simp_all


text \<open>The digits \<open>ngx_sprintf_num\<close> writes, as a decimal string of a natural number.\<close>

function dec_digits :: "nat \<Rightarrow> bytes" where
  "dec_digits n = (if n < 10 then [word_of_nat (n + 48)]
                   else dec_digits (n div 10) @ [word_of_nat (n mod 10 + 48)])"
  by pat_completeness auto
termination by (relation "measure id") auto

declare dec_digits.simps [simp del]

lemma digit_word:
  assumes "d < 10"
  shows "uint (word_of_nat (d + 48) :: byte) = int d + 48" "is_digit (word_of_nat (d + 48))"
proof -
  have "uint (word_of_nat (d + 48) :: byte) = int ((d + 48) mod 256)"
    by (simp only: unsigned_of_nat take_bit_eq_mod) simp
  also have "\<dots> = int d + 48" using assms by simp
  finally show u: "uint (word_of_nat (d + 48) :: byte) = int d + 48" .
  show "is_digit (word_of_nat (d + 48))" using assms by (simp add: is_digit_def word_le_def u del: of_nat_add)
qed

lemma ucast_digit:
  "ucast (n mod 10) + 48 = (word_of_nat (unat (n :: 'a::len word) mod 10 + 48) :: byte)"
  if "10 < (2 :: nat) ^ LENGTH('a)"
proof -
  have t: "unat (10 :: 'a word) = 10" using that by (simp add: take_bit_nat_eq_self)
  have "ucast (n mod 10) = (word_of_nat (unat (n mod 10)) :: byte)"
    by simp
  also have "unat (n mod 10) = unat n mod 10" using t by (simp add: unat_mod)
  finally show ?thesis by simp
qed

lemma dec_digits_snoc: "dec_digits n @ p = (if n div 10 = 0 then word_of_nat (n mod 10 + 48) # p
    else dec_digits (n div 10) @ (word_of_nat (n mod 10 + 48) # p))"
  by (subst dec_digits.simps) auto

lemma sprintf_dec64_digits: "sprintf_dec64 n p = dec_digits (unat n) @ p"
proof (induction n p rule: sprintf_dec64.induct)
  case (1 n p)
  have q: "unat (n div 10) = unat n div 10" by (simp add: unat_div)
  have z: "n div 10 = 0 \<longleftrightarrow> unat n div 10 = 0" by (metis q unat_eq_zero)
  show ?case
    using 1 by (subst sprintf_dec64.simps, subst dec_digits_snoc) (simp add: Let_def z q ucast_digit)
qed

lemma sprintf_dec32_digits: "sprintf_dec32 n p = dec_digits (unat n) @ p"
proof (induction n p rule: sprintf_dec32.induct)
  case (1 n p)
  have q: "unat (n div 10) = unat n div 10" by (simp add: unat_div)
  have z: "n div 10 = 0 \<longleftrightarrow> unat n div 10 = 0" by (metis q unat_eq_zero)
  show ?case
    using 1 by (subst sprintf_dec32.simps, subst dec_digits_snoc) (simp add: Let_def z q ucast_digit)
qed


lemma dec_from_append: "dec_from v (xs @ ys) = dec_from (dec_from v xs) ys"
  by (induction xs arbitrary: v) simp_all

lemma dec_digits_value: "dec_from 0 (dec_digits n) = int n \<and> list_all is_digit (dec_digits n)"
proof (induction n rule: dec_digits.induct)
  case (1 n)
  show ?case
  proof (cases "n < 10")
    case True
    then show ?thesis
      using digit_word [of n] by (simp add: dec_digits.simps [of n] del: of_nat_add)
  next
    case False
    have "n div 10 * 10 + n mod 10 = n" by simp
    then have "int (n div 10) * 10 + int (n mod 10) = int n" by presburger
    with 1 False digit_word [of "n mod 10"] show ?thesis
      by (simp add: dec_digits.simps [of n] dec_from_append del: of_nat_add)
  qed
qed

lemma dec_digits_nonempty: "dec_digits n \<noteq> []"
  by (subst dec_digits.simps) simp

lemma dec_digits_length: "0 < k \<Longrightarrow> n < 10 ^ k \<Longrightarrow> length (dec_digits n) \<le> k"
proof (induction k arbitrary: n)
  case (Suc k)
  show ?case
  proof (cases "n < 10")
    case True
    then show ?thesis by (simp add: dec_digits.simps [of n])
  next
    case False
    with Suc.prems have k: "0 < k" by (cases k) auto
    have "n div 10 < 10 ^ k" using Suc.prems by (simp add: less_mult_imp_div_less mult.commute)
    with Suc.IH k False show ?thesis by (simp add: dec_digits.simps [of n])
  qed
qed simp

lemma sprintf_temp_decimal: "sprintf_temp n 0 = dec_digits (unat n)"
proof -
  have small: "unat (ucast n :: u32) = unat n" if "n \<le> 0xffffffff"
  proof -
    have "unat n \<le> unat (0xffffffff :: u64)" using that by (simp only: word_le_nat_alt)
    then have "unat n < 2 ^ 32" by simp
    then show ?thesis by (simp add: unsigned_ucast_eq take_bit_nat_eq_self)
  qed
  show ?thesis
    by (auto simp: sprintf_temp_def sprintf_dec64_digits sprintf_dec32_digits small)
qed

lemma sprintf_hex_length: "unat n < 16 ^ Suc k \<Longrightarrow> length (sprintf_hex hex n p) \<le> length p + Suc k"
proof (induction k arbitrary: n p)
  case 0
  then have "unat (drop_bit 4 n) = 0" by (simp add: drop_bit_eq_div unat_div)
  then have "drop_bit 4 n = 0" by (simp only: unat_eq_zero)
  then show ?case by (subst sprintf_hex.simps) (simp add: Let_def)
next
  case (Suc k)
  then have "unat (drop_bit 4 n) < 16 ^ Suc k"
    by (simp add: drop_bit_eq_div unat_div less_mult_imp_div_less mult.commute)
  from Suc.IH [OF this, of "hex ! unat (n AND 15) # p"] show ?case
    by (subst sprintf_hex.simps) (simp add: Let_def)
qed

lemma sprintf_temp_length: "length (sprintf_temp n hexadecimal) \<le> NGX_INT64_LEN"
proof (cases "hexadecimal = 0")
  case True
  have "unat n < 10 ^ 20" using unsigned_less [of n, where ?'a = nat] by simp
  then have "length (dec_digits (unat n)) \<le> 20" by (intro dec_digits_length) simp_all
  with True show ?thesis by (simp add: sprintf_temp_decimal NGX_INT64_LEN_def)
next
  case False
  have "unat n < 16 ^ Suc 15" using unsigned_less [of n, where ?'a = nat] by simp
  from sprintf_hex_length [OF this, of _ "[]"] show ?thesis
    using False by (fastforce simp: sprintf_temp_def NGX_INT64_LEN_def intro: le_trans)
qed

subsection \<open>The fixed point reader\<close>

lemma atofp_loop_frac:
  assumes "0 \<le> v" "v \<le> NGX_MAX_INT_T_VALUE"
  shows "list_all is_digit fp \<Longrightarrow> atofp_loop v 1 point fp =
    (if length fp \<le> point \<and> dec_from v fp \<le> NGX_MAX_INT_T_VALUE
     then Some (dec_from v fp, point - length fp) else None)"
  using assms
proof (induction fp arbitrary: v point)
  case (Cons c fp)
  let ?M = NGX_MAX_INT_T_VALUE and ?d = "uint c - 48"
  have dg: "is_digit c" and rest: "list_all is_digit fp" using Cons.prems by simp_all
  then have nodot: "c \<noteq> 46" by (auto simp: is_digit_def)
  note d = digit_bounds [OF dg]
  have cut: "(v \<ge> ?M div 10 \<and> (v > ?M div 10 \<or> ?d > ?M mod 10)) \<longleftrightarrow> v * 10 + ?d > ?M"
    using d by (intro cutoff_test) simp_all
  have big: "dec_from (v * 10 + ?d) fp > ?M" if "v * 10 + ?d > ?M"
    using dec_from_mono [OF rest, of "v * 10 + ?d"] d Cons.prems that by simp
  show ?case
  proof (cases "point = 0 \<or> v * 10 + ?d > ?M")
    case True
    then show ?thesis using cut big nodot dg by (auto simp: not_digit_iff)
  next
    case False
    then have p: "0 < point" and le: "v * 10 + ?d \<le> ?M" by simp_all
    have "atofp_loop (v * 10 + ?d) 1 (point - 1) fp =
      (if length fp \<le> point - 1 \<and> dec_from (v * 10 + ?d) fp \<le> ?M
       then Some (dec_from (v * 10 + ?d) fp, point - 1 - length fp) else None)"
      using Cons.IH [OF rest, of "v * 10 + ?d" "point - 1"] le d Cons.prems by simp
    with p le cut nodot dg show ?thesis by (auto simp: not_digit_iff)
  qed
qed simp

lemma atofp_loop_int:
  assumes "0 \<le> v" "v \<le> NGX_MAX_INT_T_VALUE" "0 < point"
  shows "list_all is_digit ip \<Longrightarrow> atofp_loop v 0 point (ip @ rest) =
    (if dec_from v ip \<le> NGX_MAX_INT_T_VALUE then atofp_loop (dec_from v ip) 0 point rest else None)"
  using assms
proof (induction ip arbitrary: v)
  case (Cons c ip)
  let ?M = NGX_MAX_INT_T_VALUE and ?d = "uint c - 48"
  have dg: "is_digit c" and ds: "list_all is_digit ip" using Cons.prems by simp_all
  then have nodot: "c \<noteq> 46" by (auto simp: is_digit_def)
  note d = digit_bounds [OF dg]
  have cut: "(v \<ge> ?M div 10 \<and> (v > ?M div 10 \<or> ?d > ?M mod 10)) \<longleftrightarrow> v * 10 + ?d > ?M"
    using d by (intro cutoff_test) simp_all
  have big: "dec_from (v * 10 + ?d) ip > ?M" if "v * 10 + ?d > ?M"
    using dec_from_mono [OF ds, of "v * 10 + ?d"] d Cons.prems that by simp
  show ?case
  proof (cases "v * 10 + ?d > ?M")
    case True
    then show ?thesis using cut big nodot dg by (auto simp: not_digit_iff)
  next
    case False
    have "atofp_loop (v * 10 + ?d) 0 point (ip @ rest) =
      (if dec_from (v * 10 + ?d) ip \<le> ?M
       then atofp_loop (dec_from (v * 10 + ?d) ip) 0 point rest else None)"
      using Cons.IH [OF ds, of "v * 10 + ?d"] False d Cons.prems by simp
    with False cut nodot dg Cons.prems show ?thesis by (auto simp: not_digit_iff)
  qed
qed simp

lemma atofp_scale_correct:
  assumes "0 \<le> v" "v \<le> NGX_MAX_INT_T_VALUE"
  shows "atofp_scale v p =
    (if v * 10 ^ p \<le> NGX_MAX_INT_T_VALUE then v * 10 ^ p else NGX_ERROR)"
  using assms
proof (induction p arbitrary: v)
  case (Suc p)
  let ?M = NGX_MAX_INT_T_VALUE
  have le: "v \<le> ?M div 10 \<longleftrightarrow> v * 10 \<le> ?M" by (simp add: int_le_div_iff)
  have grow: "v * 10 \<le> v * 10 * 10 ^ p"
    using mult_left_mono [of 1 "10 ^ p" "v * 10"] Suc.prems by simp
  show ?case
  proof (cases "v * 10 \<le> ?M")
    case True
    then have "atofp_scale (v * 10) p = (if v * 10 * 10 ^ p \<le> ?M then v * 10 * 10 ^ p else NGX_ERROR)"
      using Suc by simp
    then show ?thesis using True le by (simp add: mult.assoc)
  next
    case False
    then show ?thesis using le grow by (simp add: mult.assoc)
  qed
qed simp

lemma scale_le: "v * 10 ^ p \<le> (M :: int) \<Longrightarrow> 0 \<le> v \<Longrightarrow> v \<le> M"
  using mult_left_mono [of 1 "10 ^ p" v] by simp


section \<open>Properties\<close>

text \<open>The contract of a decimal reader for a type whose largest value is \<open>maxv\<close>.\<close>

definition decimal_or_error :: "int \<Rightarrow> bytes \<Rightarrow> int" where
  "decimal_or_error maxv line =
     (if line \<noteq> [] \<and> list_all is_digit line \<and> dec_from 0 line \<le> maxv
      then dec_from 0 line else NGX_ERROR)"

text \<open>
  The four decimal readers accept exactly the non-empty digit strings whose value fits
  their type, return that value, and return \<open>NGX_ERROR\<close> for everything else: the
  cutoff test neither refuses a number that fits nor lets one overflow.
\<close>

theorem ngx_ato_exact:
  "ngx_atoi line = decimal_or_error NGX_MAX_INT_T_VALUE line
   \<and> ngx_atosz line = decimal_or_error NGX_MAX_SIZE_T_VALUE line
   \<and> ngx_atoof line = decimal_or_error NGX_MAX_OFF_T_VALUE line
   \<and> ngx_atotm line = decimal_or_error NGX_MAX_TIME_T_VALUE line"
  unfolding decimal_or_error_def
  using atoi.rd_spec atosz.rd_spec atoof.rd_spec atotm.rd_spec by blast

text \<open>
  \<open>ngx_atofp\<close> on "ip.fp" returns the number times \<open>10 ^ point\<close> when there are at
  most \<open>point\<close> fractional digits and the scaled value fits, and \<open>NGX_ERROR\<close>
  otherwise (also whenever \<open>point\<close> is 0).
\<close>

theorem ngx_atofp_exact:
  assumes "list_all is_digit ip" "list_all is_digit fp"
  shows "ngx_atofp (ip @ chr CHR ''.'' # fp) point =
    (let v = dec_from 0 (ip @ fp) * 10 ^ (point - length fp)
     in if 0 < point \<and> length fp \<le> point \<and> v \<le> NGX_MAX_INT_T_VALUE then v else NGX_ERROR)"
proof (cases "point = 0")
  case True
  have "atofp_loop 0 0 0 (x # xs) = None" for x xs by simp
  then have "atofp_loop 0 0 0 (ip @ chr CHR ''.'' # fp) = None" by (cases ip) auto
  with True show ?thesis by (simp add: ngx_atofp_def)
next
  case False
  let ?M = NGX_MAX_INT_T_VALUE and ?i = "dec_from 0 ip"
  have i0: "0 \<le> ?i" and f0: "?i \<le> dec_from ?i fp"
    using dec_from_mono [OF assms(1), of 0] dec_from_mono [OF assms(2), of ?i] by simp_all
  have loop: "atofp_loop 0 0 point (ip @ chr CHR ''.'' # fp) =
    (if length fp \<le> point \<and> dec_from ?i fp \<le> ?M
     then Some (dec_from ?i fp, point - length fp) else None)"
    using atofp_loop_int [OF _ _ _ assms(1), of 0 point "chr CHR ''.'' # fp"]
      atofp_loop_frac [OF i0 _ assms(2), of point] False i0 f0 NGX_MAX_INT_T_VALUE_nonneg
    by auto
  have "dec_from ?i fp \<le> ?M" if "dec_from ?i fp * 10 ^ (point - length fp) \<le> ?M"
    using scale_le [OF that] i0 f0 by simp
  then show ?thesis
    using loop i0 f0 False
    by (auto simp: ngx_atofp_def Let_def dec_from_append atofp_scale_correct)
qed

theorem ngx_atofp_exact_witness:
  "list_all is_digit (str ''10'') \<and> list_all is_digit (str ''5'')
   \<and> ngx_atofp (str ''10'' @ chr CHR ''.'' # str ''5'') 2 = 1050"
proof -
  have d: "list_all is_digit (str ''10'')" "list_all is_digit (str ''5'')"
    by (simp_all add: is_digit_def)
  show ?thesis
    using d ngx_atofp_exact [OF d, of 2] by (simp add: NGX_MAX_INT_T_VALUE_def Let_def)
qed

text \<open>
  \<open>ngx_hextoi\<close> inverts \<open>ngx_hex_dump\<close>: the dump of a byte string reads back as its
  big-endian value whenever that fits \<open>ngx_int_t\<close>, and is refused when it does not.
\<close>

theorem ngx_hextoi_hex_dump:
  "ngx_hextoi (ngx_hex_dump bs) =
     (if bs \<noteq> [] \<and> big_endian 0 bs \<le> NGX_MAX_INT_T_VALUE then big_endian 0 bs else NGX_ERROR)"
proof -
  have "ngx_hex_dump bs = [] \<longleftrightarrow> bs = []" using length_hex_dump [of bs] by (cases bs) auto
  then show ?thesis by (simp add: ngx_hextoi_spec hex_from_dump)
qed

text \<open>
  Whatever the number, base and width, \<open>ngx_sprintf_num\<close> fits its digits in the
  \<open>NGX_INT64_LEN\<close> bytes of \<open>temp\<close> and never writes more than the room it is given.
\<close>

theorem ngx_sprintf_num_bounds:
  "length (sprintf_temp ui64 hexadecimal) \<le> NGX_INT64_LEN
   \<and> length (ngx_sprintf_num room ui64 zero hexadecimal width) \<le> room"
  using sprintf_temp_length by (auto simp: ngx_sprintf_num_def Let_def)

lemma dec_from_zeros: "dec_from 0 (replicate k 48 @ ds) = dec_from 0 ds"
  by (induction k) simp_all


lemma sprintf_num_room:
  assumes "max NGX_INT64_LEN width \<le> room"
  shows "\<exists>k. ngx_sprintf_num room n zero hexadecimal width =
     replicate k zero @ sprintf_temp n hexadecimal"
proof -
  have "length (sprintf_temp n hexadecimal) \<le> room"
    using sprintf_temp_length [of n hexadecimal] assms by simp
  with assms show ?thesis by (auto simp: ngx_sprintf_num_def Let_def)
qed

text \<open>
  A 64-bit number printed in decimal by \<open>ngx_sprintf_num\<close>, on the 32-bit or the
  64-bit path, padded with zeros to any width, is read back by \<open>ngx_atoi\<close> when it fits
  \<open>ngx_int_t\<close> and the buffer has room for the padded number.
\<close>

theorem sprintf_num_atoi_roundtrip:
  assumes "uint n \<le> NGX_MAX_INT_T_VALUE" "max NGX_INT64_LEN width \<le> room"
  shows "ngx_atoi (ngx_sprintf_num room n (chr CHR ''0'') 0 width) = uint n"
proof -
  obtain k where k: "ngx_sprintf_num room n (chr CHR ''0'') 0 width = replicate k 48 @ dec_digits (unat n)"
    using sprintf_num_room [OF assms(2), of n "chr CHR ''0''" 0] by (auto simp: sprintf_temp_decimal)
  have "list_all is_digit (replicate k 48)" by (auto simp: list_all_iff is_digit_def)
  then show ?thesis
    using dec_digits_value [of "unat n"] dec_digits_nonempty assms(1)
    unfolding k by (simp add: atoi.rd_spec dec_from_zeros)
qed

theorem sprintf_num_atoi_roundtrip_witness:
  "uint (4294967297 :: u64) \<le> NGX_MAX_INT_T_VALUE \<and> max NGX_INT64_LEN 12 \<le> (32 :: nat)
   \<and> ngx_atoi (ngx_sprintf_num 32 4294967297 (chr CHR ''0'') 0 12) = 4294967297"
proof -
  have h: "uint (4294967297 :: u64) \<le> NGX_MAX_INT_T_VALUE" "max NGX_INT64_LEN 12 \<le> (32 :: nat)"
    by (simp_all add: NGX_MAX_INT_T_VALUE_def NGX_INT64_LEN_def)
  show ?thesis using h sprintf_num_atoi_roundtrip [OF h] by simp
qed

end
