(* ===== verification/Ngx_Parse.thy ===== *)
theory Ngx_Parse
  imports Ngx_Atoi
begin

section \<open>Sizes, offsets and times of the configuration (ngx_parse.c)\<close>

text \<open>
  \<open>ngx_parse_size\<close>, \<open>ngx_parse_offset\<close> and \<open>ngx_parse_time\<close> of
  src/ngx-1.12.0/src/core/ngx_parse.c, clients of the decimal readers: they take a unit
  suffix, compare with the largest value divided by the unit, and multiply.
\<close>

definition size_unit :: "byte \<Rightarrow> nat \<Rightarrow> nat \<times> int \<times> int" where
  "size_unit unit len =
     (if unit = chr CHR ''K'' \<or> unit = chr CHR ''k''
      then (len - 1, NGX_MAX_SIZE_T_VALUE div 1024, 1024)
      else if unit = chr CHR ''M'' \<or> unit = chr CHR ''m''
      then (len - 1, NGX_MAX_SIZE_T_VALUE div (1024 * 1024), 1024 * 1024)
      else (len, NGX_MAX_SIZE_T_VALUE, 1))"

definition ngx_parse_size :: "bytes \<Rightarrow> int" where
  "ngx_parse_size line =
     (if length line = 0 then NGX_ERROR
      else case size_unit (line ! (length line - 1)) (length line) of (len, mx, scale) \<Rightarrow>
        let size = ngx_atosz (take len line) in
        if size = NGX_ERROR \<or> size > mx then NGX_ERROR else size * scale)"

definition offset_unit :: "byte \<Rightarrow> nat \<Rightarrow> nat \<times> int \<times> int" where
  "offset_unit unit len =
     (if unit = chr CHR ''K'' \<or> unit = chr CHR ''k''
      then (len - 1, NGX_MAX_OFF_T_VALUE div 1024, 1024)
      else if unit = chr CHR ''M'' \<or> unit = chr CHR ''m''
      then (len - 1, NGX_MAX_OFF_T_VALUE div (1024 * 1024), 1024 * 1024)
      else if unit = chr CHR ''G'' \<or> unit = chr CHR ''g''
      then (len - 1, NGX_MAX_OFF_T_VALUE div (1024 * 1024 * 1024), 1024 * 1024 * 1024)
      else (len, NGX_MAX_OFF_T_VALUE, 1))"

definition ngx_parse_offset :: "bytes \<Rightarrow> int" where
  "ngx_parse_offset line =
     (if length line = 0 then NGX_ERROR
      else case offset_unit (line ! (length line - 1)) (length line) of (len, mx, scale) \<Rightarrow>
        let offset = ngx_atoof (take len line) in
        if offset = NGX_ERROR \<or> offset > mx then NGX_ERROR else offset * scale)"

subsection \<open>Times\<close>

text \<open>The steps \<open>st_start\<close> .. \<open>st_last\<close> of the enumeration, compared as numbers.\<close>

definition st_start :: nat where "st_start = 0"
definition st_year :: nat where "st_year = 1"
definition st_month :: nat where "st_month = 2"
definition st_week :: nat where "st_week = 3"
definition st_day :: nat where "st_day = 4"
definition st_hour :: nat where "st_hour = 5"
definition st_min :: nat where "st_min = 6"
definition st_sec :: nat where "st_sec = 7"
definition st_msec :: nat where "st_msec = 8"
definition st_last :: nat where "st_last = 9"

lemmas st_defs = st_start_def st_year_def st_month_def st_week_def st_day_def st_hour_def
  st_min_def st_sec_def st_msec_def st_last_def

text \<open>
  The \<open>switch (*p++)\<close>: \<open>c\<close> is the unit byte, \<open>p\<close> what follows it; the result is
  the new (step, max, scale, p), or \<open>None\<close> for the \<open>NGX_ERROR\<close> returns.
\<close>

definition parse_time_unit :: "bool \<Rightarrow> nat \<Rightarrow> byte \<Rightarrow> bytes \<Rightarrow> (nat \<times> int \<times> int \<times> bytes) option" where
  "parse_time_unit is_sec step c p =
     (if c = chr CHR ''y'' then
        (if step > st_start then None
         else Some (st_year, NGX_MAX_INT_T_VALUE div (60 * 60 * 24 * 365), 60 * 60 * 24 * 365, p))
      else if c = chr CHR ''M'' then
        (if step \<ge> st_month then None
         else Some (st_month, NGX_MAX_INT_T_VALUE div (60 * 60 * 24 * 30), 60 * 60 * 24 * 30, p))
      else if c = chr CHR ''w'' then
        (if step \<ge> st_week then None
         else Some (st_week, NGX_MAX_INT_T_VALUE div (60 * 60 * 24 * 7), 60 * 60 * 24 * 7, p))
      else if c = chr CHR ''d'' then
        (if step \<ge> st_day then None
         else Some (st_day, NGX_MAX_INT_T_VALUE div (60 * 60 * 24), 60 * 60 * 24, p))
      else if c = chr CHR ''h'' then
        (if step \<ge> st_hour then None
         else Some (st_hour, NGX_MAX_INT_T_VALUE div (60 * 60), 60 * 60, p))
      else if c = chr CHR ''m'' then
        (case p of
           s # p' \<Rightarrow>
             if s = chr CHR ''s'' then
               (if is_sec \<or> step \<ge> st_msec then None
                else Some (st_msec, NGX_MAX_INT_T_VALUE, 1, p'))
             else if step \<ge> st_min then None
             else Some (st_min, NGX_MAX_INT_T_VALUE div 60, 60, p)
         | [] \<Rightarrow> if step \<ge> st_min then None
                else Some (st_min, NGX_MAX_INT_T_VALUE div 60, 60, p))
      else if c = chr CHR ''s'' then
        (if step \<ge> st_sec then None else Some (st_sec, NGX_MAX_INT_T_VALUE, 1, p))
      else if c = chr CHR '' '' then
        (if step \<ge> st_sec then None else Some (st_last, NGX_MAX_INT_T_VALUE, 1, p))
      else None)"

definition parse_time_end :: "bool \<Rightarrow> bool \<Rightarrow> int \<Rightarrow> int \<Rightarrow> int" where
  "parse_time_end is_sec valid value tot =
     (if \<not> valid then NGX_ERROR
      else if \<not> is_sec \<and> value > NGX_MAX_INT_T_VALUE div 1000 then NGX_ERROR
      else let value = (if is_sec then value else value * 1000) in
        if tot > NGX_MAX_INT_T_VALUE - value then NGX_ERROR else tot + value)"

lemma parse_time_unit_shrinks:
  "parse_time_unit is_sec step c p = Some (step', mx, sc, p') \<Longrightarrow> length p' \<le> length p"
  by (auto simp: parse_time_unit_def split: if_splits list.splits)

function parse_time_loop :: "bool \<Rightarrow> bool \<Rightarrow> int \<Rightarrow> int \<Rightarrow> nat \<Rightarrow> bytes \<Rightarrow> int" where
  "parse_time_loop is_sec valid value tot step [] = parse_time_end is_sec valid value tot"
| "parse_time_loop is_sec valid value tot step (c # p) =
     (if c \<ge> chr CHR ''0'' \<and> c \<le> chr CHR ''9'' then
        (if value \<ge> NGX_MAX_INT_T_VALUE div 10 \<and>
            (value > NGX_MAX_INT_T_VALUE div 10 \<or> uint c - 48 > NGX_MAX_INT_T_VALUE mod 10)
         then NGX_ERROR
         else parse_time_loop is_sec True (value * 10 + (uint c - 48)) tot step p)
      else case parse_time_unit is_sec step c p of
        None \<Rightarrow> NGX_ERROR
      | Some (step', mx, sc, p') \<Rightarrow>
          (let scale = (if step' \<noteq> st_msec \<and> \<not> is_sec then sc * 1000 else sc);
               mx' = (if step' \<noteq> st_msec \<and> \<not> is_sec then mx div 1000 else mx)
           in if value > mx' then NGX_ERROR
              else let value' = value * scale in
                if tot > NGX_MAX_INT_T_VALUE - value' then NGX_ERROR
                else parse_time_loop is_sec valid 0 (tot + value') step'
                       (dropWhile (\<lambda>b. b = chr CHR '' '') p')))"
  by pat_completeness auto
termination
proof (relation "measure (\<lambda>(_, _, _, _, _, p). length p)", goal_cases)
  case (3 is_sec valid v tot step c p)
  then show ?case
    by (auto dest!: parse_time_unit_shrinks
        intro!: le_imp_less_Suc le_trans [OF length_dropWhile_le])
qed simp_all

declare parse_time_loop.simps(2) [simp del]

definition ngx_parse_time :: "bytes \<Rightarrow> bool \<Rightarrow> int" where
  "ngx_parse_time line is_sec =
     parse_time_loop is_sec False 0 0 (if is_sec then st_start else st_month) line"


section \<open>What the parsers compute\<close>

lemma take_butlast: "xs \<noteq> [] \<Longrightarrow> take (length xs - 1) xs = butlast xs"
  by (simp add: butlast_conv_take)

lemma parse_time_digit:
  assumes "is_digit c" "0 \<le> v" "v \<le> NGX_MAX_INT_T_VALUE"
  shows "parse_time_loop is_sec valid v tot step (c # p) =
    (if v * 10 + (uint c - 48) \<le> NGX_MAX_INT_T_VALUE
     then parse_time_loop is_sec True (v * 10 + (uint c - 48)) tot step p else NGX_ERROR)"
proof -
  let ?M = NGX_MAX_INT_T_VALUE and ?d = "uint c - 48"
  have cut: "(v \<ge> ?M div 10 \<and> (v > ?M div 10 \<or> ?d > ?M mod 10)) \<longleftrightarrow> v * 10 + ?d > ?M"
    using digit_bounds [OF assms(1)] by (intro cutoff_test) simp_all
  show ?thesis using assms(1) cut
    by (subst parse_time_loop.simps) (auto simp: is_digit_def)
qed

lemma parse_time_digits:
  assumes "list_all is_digit ds" "0 \<le> v" "v \<le> NGX_MAX_INT_T_VALUE"
  shows "parse_time_loop is_sec valid v tot step (ds @ p) =
    (if dec_from v ds \<le> NGX_MAX_INT_T_VALUE
     then parse_time_loop is_sec (valid \<or> ds \<noteq> []) (dec_from v ds) tot step p else NGX_ERROR)"
  using assms
proof (induction ds arbitrary: v valid)
  case (Cons c ds)
  let ?v = "v * 10 + (uint c - 48)"
  have dg: "is_digit c" "list_all is_digit ds" using Cons.prems by simp_all
  have v0: "0 \<le> ?v" using digit_bounds [OF dg(1)] Cons.prems by simp
  show ?case
  proof (cases "?v \<le> NGX_MAX_INT_T_VALUE")
    case True
    then show ?thesis
      using Cons.IH [OF dg(2) v0 True, of True] parse_time_digit [OF dg(1) Cons.prems(2,3)] by simp
  next
    case False
    then have "\<not> dec_from ?v ds \<le> NGX_MAX_INT_T_VALUE"
      using dec_from_mono [OF dg(2) v0] by simp
    then show ?thesis using False parse_time_digit [OF dg(1) Cons.prems(2,3)] by simp
  qed
qed simp

subsection \<open>A reference for times: a list of amounts, each with its unit\<close>

datatype time_unit = Years | Months | Weeks | Days | Hours | Minutes | Seconds | Milliseconds

fun unit_step :: "time_unit \<Rightarrow> nat" where
  "unit_step Years = st_year" | "unit_step Months = st_month" | "unit_step Weeks = st_week"
| "unit_step Days = st_day" | "unit_step Hours = st_hour" | "unit_step Minutes = st_min"
| "unit_step Seconds = st_sec" | "unit_step Milliseconds = st_msec"

fun unit_name :: "time_unit \<Rightarrow> bytes" where
  "unit_name Years = str ''y''" | "unit_name Months = str ''M''" | "unit_name Weeks = str ''w''"
| "unit_name Days = str ''d''" | "unit_name Hours = str ''h''" | "unit_name Minutes = str ''m''"
| "unit_name Seconds = str ''s''" | "unit_name Milliseconds = str ''ms''"

text \<open>The length of a unit in seconds or, when \<open>is_sec\<close> is false, in milliseconds.\<close>

fun unit_len :: "bool \<Rightarrow> time_unit \<Rightarrow> int" where
  "unit_len is_sec Years = (if is_sec then 31536000 else 31536000000)"
| "unit_len is_sec Months = (if is_sec then 2592000 else 2592000000)"
| "unit_len is_sec Weeks = (if is_sec then 604800 else 604800000)"
| "unit_len is_sec Days = (if is_sec then 86400 else 86400000)"
| "unit_len is_sec Hours = (if is_sec then 3600 else 3600000)"
| "unit_len is_sec Minutes = (if is_sec then 60 else 60000)"
| "unit_len is_sec Seconds = (if is_sec then 1 else 1000)"
| "unit_len is_sec Milliseconds = 1"

definition render_time :: "(nat \<times> time_unit) list \<Rightarrow> bytes" where
  "render_time items = concat (map (\<lambda>(n, u). dec_digits n @ unit_name u) items)"

definition time_value :: "bool \<Rightarrow> (nat \<times> time_unit) list \<Rightarrow> int" where
  "time_value is_sec items = (\<Sum>(n, u)\<leftarrow>items. int n * unit_len is_sec u)"

text \<open>Units in falling size, each at most once; years and months need \<open>is_sec\<close>, milliseconds forbid it.\<close>

definition time_items_ok :: "bool \<Rightarrow> (nat \<times> time_unit) list \<Rightarrow> bool" where
  "time_items_ok is_sec items \<longleftrightarrow>
     sorted_wrt (\<lambda>x y. unit_step (snd x) < unit_step (snd y)) items \<and>
     (\<forall>u\<in>set (map snd items).
        if is_sec then u \<noteq> Milliseconds else u \<noteq> Years \<and> u \<noteq> Months)"

lemma time_value_nonneg: "0 \<le> time_value is_sec items"
proof -
  have "0 \<le> unit_len is_sec u" for u by (cases u) auto
  then show ?thesis by (induction items) (auto simp: time_value_def)
qed

lemma unit_guard: "0 < k \<Longrightarrow> (v > M div k) \<longleftrightarrow> (v * k > (M :: int))"
  using int_le_div_iff [of k v M] by (simp add: linorder_not_le [symmetric])

lemma unit_guard_ms: "0 < k \<Longrightarrow> (v > M div k div 1000) \<longleftrightarrow> (v * (k * 1000) > (M :: int))"
  using unit_guard [of "k * 1000" M v] by (simp add: zdiv_zmult2_eq)

fun unit_secs :: "time_unit \<Rightarrow> int" where
  "unit_secs Years = 31536000" | "unit_secs Months = 2592000" | "unit_secs Weeks = 604800"
| "unit_secs Days = 86400" | "unit_secs Hours = 3600" | "unit_secs Minutes = 60"
| "unit_secs Seconds = 1" | "unit_secs Milliseconds = 1"

lemma unit_name_cons: "unit_name u = hd (unit_name u) # tl (unit_name u)"
  "\<not> is_digit (hd (unit_name u))"
  by (cases u; simp add: is_digit_def)+

lemma unit_secs_pos: "0 < unit_secs u"
  by (cases u) simp_all

lemma unit_len_secs: "is_sec \<longrightarrow> u \<noteq> Milliseconds \<Longrightarrow>
  unit_len is_sec u =
    (if unit_step u \<noteq> st_msec \<and> \<not> is_sec then unit_secs u * 1000 else unit_secs u)"
  by (cases u) (auto simp: st_defs)

lemma parse_time_unit_known:
  assumes "step < unit_step u" "is_sec \<longrightarrow> u \<noteq> Milliseconds" "u = Years \<longrightarrow> step = st_start"
    "rest = [] \<or> hd rest \<noteq> chr CHR ''s''"
  shows "parse_time_unit is_sec step (hd (unit_name u)) (tl (unit_name u) @ rest) =
    Some (unit_step u, NGX_MAX_INT_T_VALUE div unit_secs u, unit_secs u, rest)"
  using assms by (cases u) (auto simp: parse_time_unit_def st_defs split: list.splits)

text \<open>
  One unit name, followed by a digit or by nothing, adds the amount read so far times the
  unit, and refuses exactly when the product or the sum passes the largest value.
\<close>

lemma parse_time_unit_step:
  assumes u: "step < unit_step u" "is_sec \<longrightarrow> u \<noteq> Milliseconds" "u = Years \<longrightarrow> step = st_start"
    and rest: "rest = [] \<or> is_digit (hd rest)"
  shows "parse_time_loop is_sec valid v tot step (unit_name u @ rest) =
    (if v * unit_len is_sec u \<le> NGX_MAX_INT_T_VALUE \<and>
        tot + v * unit_len is_sec u \<le> NGX_MAX_INT_T_VALUE
     then parse_time_loop is_sec valid 0 (tot + v * unit_len is_sec u) (unit_step u) rest
     else NGX_ERROR)"
proof -
  have sp: "dropWhile (\<lambda>b. b = 32) rest = rest" and nos: "rest = [] \<or> hd rest \<noteq> chr CHR ''s''"
    using rest by (cases rest; auto simp: is_digit_def)+
  have nd: "\<not> (hd (unit_name u) \<ge> chr CHR ''0'' \<and> hd (unit_name u) \<le> chr CHR ''9'')"
    using unit_name_cons(2) [of u] by (simp add: is_digit_def)
  have "parse_time_loop is_sec valid v tot step (hd (unit_name u) # (tl (unit_name u) @ rest)) =
    (if v * unit_len is_sec u > NGX_MAX_INT_T_VALUE then NGX_ERROR
     else if tot > NGX_MAX_INT_T_VALUE - v * unit_len is_sec u then NGX_ERROR
     else parse_time_loop is_sec valid 0 (tot + v * unit_len is_sec u) (unit_step u) rest)"
    unfolding parse_time_loop.simps(2) parse_time_unit_known [OF u nos]
    using unit_secs_pos [of u] unit_len_secs [OF u(2)] nd
    by (simp only: if_False option.case prod.case Let_def) (simp add: unit_guard unit_guard_ms sp)
  then show ?thesis
    using unit_name_cons(1) [of u] by (metis append_Cons le_diff_eq linorder_not_le)
qed


lemma render_time_simps [simp]:
  "render_time [] = []"
  "render_time ((n, u) # items) = dec_digits n @ unit_name u @ render_time items"
  by (simp_all add: render_time_def)

lemma time_value_simps [simp]:
  "time_value is_sec [] = 0"
  "time_value is_sec ((n, u) # items) = int n * unit_len is_sec u + time_value is_sec items"
  by (simp_all add: time_value_def)

lemma render_time_hd: "render_time items = [] \<or> is_digit (hd (render_time items))"
proof (cases items)
  case (Cons x xs)
  obtain n u where x: "x = (n, u)" by fastforce
  have "is_digit (hd (dec_digits n))"
    using dec_digits_value [of n] dec_digits_nonempty [of n] by (cases "dec_digits n") auto
  then show ?thesis using Cons x dec_digits_nonempty [of n] by simp
qed simp

lemma unit_len_ge_1: "1 \<le> unit_len is_sec u"
  by (cases u) auto

lemma parse_time_items:
  assumes "time_items_ok is_sec items" "\<forall>u\<in>set (map snd items). step < unit_step u"
    "valid \<or> items \<noteq> []" "0 \<le> tot" "tot \<le> NGX_MAX_INT_T_VALUE"
  shows "parse_time_loop is_sec valid 0 tot step (render_time items) =
    (if tot + time_value is_sec items \<le> NGX_MAX_INT_T_VALUE
     then tot + time_value is_sec items else NGX_ERROR)"
  using assms
proof (induction items arbitrary: step tot valid)
  case Nil
  then show ?case by (simp add: parse_time_end_def NGX_MAX_INT_T_VALUE_def)
next
  case (Cons x items)
  obtain n u where x: "x = (n, u)" by fastforce
  let ?M = NGX_MAX_INT_T_VALUE and ?L = "unit_len is_sec u"
  let ?nL = "int n * ?L" and ?rest = "render_time items"
  have u: "step < unit_step u" "is_sec \<longrightarrow> u \<noteq> Milliseconds" "u = Years \<longrightarrow> step = st_start"
    using Cons.prems(1,2) x by (auto simp: time_items_ok_def st_defs)
  have ok: "time_items_ok is_sec items" "\<forall>v\<in>set (map snd items). unit_step u < unit_step v"
    using Cons.prems(1) x by (auto simp: time_items_ok_def)
  have nL: "int n \<le> ?nL" using mult_left_mono [OF unit_len_ge_1, of "int n"] by simp
  have tv: "0 \<le> time_value is_sec items" by (rule time_value_nonneg)
  have run: "parse_time_loop is_sec valid 0 tot step (render_time (x # items)) =
    (if int n \<le> ?M then parse_time_loop is_sec True (int n) tot step (unit_name u @ ?rest)
     else NGX_ERROR)"
    using parse_time_digits [of "dec_digits n" 0 is_sec valid tot step "unit_name u @ ?rest"]
      dec_digits_value [of n] dec_digits_nonempty [of n] NGX_MAX_INT_T_VALUE_nonneg x by simp
  show ?case
  proof (cases "tot + ?nL \<le> ?M")
    case True
    have "parse_time_loop is_sec True 0 (tot + ?nL) (unit_step u) ?rest =
      (if tot + ?nL + time_value is_sec items \<le> ?M
       then tot + ?nL + time_value is_sec items else NGX_ERROR)"
      using ok True Cons.prems(4) nL by (intro Cons.IH) auto
    with True run nL Cons.prems(4) parse_time_unit_step [OF u render_time_hd, of True "int n" tot]
    show ?thesis by (simp add: x add.assoc)
  next
    case False
    with run nL Cons.prems(4) parse_time_unit_step [OF u render_time_hd, of True "int n" tot] tv
    show ?thesis by (simp add: x)
  qed
qed

lemma parse_time_unit_scale:
  "parse_time_unit is_sec step c p = Some (step', mx, sc, p') \<Longrightarrow> 0 < sc"
  by (auto simp: parse_time_unit_def split: if_splits list.splits)

lemma parse_time_loop_range:
  "0 \<le> v \<Longrightarrow> v \<le> NGX_MAX_INT_T_VALUE \<Longrightarrow> 0 \<le> tot \<Longrightarrow> tot \<le> NGX_MAX_INT_T_VALUE \<Longrightarrow>
   parse_time_loop is_sec valid v tot step p = NGX_ERROR \<or>
   0 \<le> parse_time_loop is_sec valid v tot step p \<and>
   parse_time_loop is_sec valid v tot step p \<le> NGX_MAX_INT_T_VALUE"
proof (induction is_sec valid v tot step p rule: parse_time_loop.induct)
  case (1 is_sec valid v tot step)
  then show ?case by (auto simp: parse_time_end_def Let_def)
next
  case (2 is_sec valid v tot step c p)
  show ?case
  proof (cases "is_digit c")
    case True
    then show ?thesis
      using 2(1) 2(3-6) digit_bounds [OF True]
        cutoff_test [where v = v and d = "uint c - 48" and k = 10 and M = NGX_MAX_INT_T_VALUE]
      by (subst (1 2 3) parse_time_loop.simps(2)) (auto simp: is_digit_def)
  next
    case False
    then have nd: "\<not> (chr CHR ''0'' \<le> c \<and> c \<le> chr CHR ''9'')" by (simp add: is_digit_def)
    show ?thesis
    proof (cases "parse_time_unit is_sec step c p")
      case None
      then show ?thesis using nd by (auto simp: parse_time_loop.simps(2))
    next
      case (Some r)
      obtain step' mx sc p' where r: "r = (step', mx, sc, p')" using prod_cases4 by blast
      let ?sc = "if step' \<noteq> st_msec \<and> \<not> is_sec then sc * 1000 else sc"
      have "0 < sc" using parse_time_unit_scale Some r by blast
      then have "0 \<le> v * ?sc" using 2(3) by simp
      then show ?thesis
        using 2(2) [OF nd Some r [symmetric] refl refl refl refl] 2(3-6) nd Some r
        by (subst (1 2 3) parse_time_loop.simps(2)) (auto simp: Let_def)
    qed
  qed
qed

section \<open>Properties\<close>

text \<open>
  What a number with a unit suffix stands for: the suffix is looked up in a list of units,
  the rest must be digits, and the product must not exceed the limit.
\<close>

definition with_unit :: "(char \<times> int) list \<Rightarrow> int \<Rightarrow> bytes \<Rightarrow> int" where
  "with_unit units limit line =
     (let k = (if line = [] then None else map_of (map (\<lambda>(c, n). (chr c, n)) units) (last line));
          ds = (if k = None then line else butlast line);
          n = dec_from 0 ds * (case k of None \<Rightarrow> 1 | Some n \<Rightarrow> n)
      in if ds \<noteq> [] \<and> list_all is_digit ds \<and> n \<le> limit then n else NGX_ERROR)"

text \<open>
  \<open>ngx_parse_size\<close> and \<open>ngx_parse_offset\<close> are exact: a string of digits with a suffix k
  or m in either case (g too for an offset) or none is that many bytes exactly when the
  product fits \<open>ssize_t\<close>, respectively \<open>off_t\<close>; otherwise, and for every other input, the
  result is \<open>NGX_ERROR\<close>. The multiplication never overflows.
\<close>

theorem ngx_parse_size_offset_exact:
  "ngx_parse_size line = with_unit
      [(CHR ''K'', 1024), (CHR ''k'', 1024), (CHR ''M'', 1048576), (CHR ''m'', 1048576)] NGX_MAX_SIZE_T_VALUE line
   \<and> ngx_parse_offset line = with_unit
      [(CHR ''K'', 1024), (CHR ''k'', 1024), (CHR ''M'', 1048576), (CHR ''m'', 1048576),
       (CHR ''G'', 1073741824), (CHR ''g'', 1073741824)] NGX_MAX_OFF_T_VALUE line"
proof (cases "line = []")
  case False
  have l: "line ! (length line - Suc 0) = last line" using False by (simp add: last_conv_nth)
  have sz: "0 < k \<Longrightarrow> (ngx_atosz ds = NGX_ERROR \<or> ngx_atosz ds > NGX_MAX_SIZE_T_VALUE div k) \<longleftrightarrow>
      \<not> (ds \<noteq> [] \<and> list_all is_digit ds \<and> dec_from 0 ds * k \<le> NGX_MAX_SIZE_T_VALUE)" for k ds
    by (rule atosz.rd_scaled_exact) (simp_all add: NGX_MAX_SIZE_T_VALUE_nonneg)
  have off: "0 < k \<Longrightarrow> (ngx_atoof ds = NGX_ERROR \<or> ngx_atoof ds > NGX_MAX_OFF_T_VALUE div k) \<longleftrightarrow>
      \<not> (ds \<noteq> [] \<and> list_all is_digit ds \<and> dec_from 0 ds * k \<le> NGX_MAX_OFF_T_VALUE)" for k ds
    by (rule atoof.rd_scaled_exact) (simp_all add: NGX_MAX_OFF_T_VALUE_nonneg)
  have "ngx_parse_size line = with_unit
      [(CHR ''K'', 1024), (CHR ''k'', 1024), (CHR ''M'', 1048576), (CHR ''m'', 1048576)] NGX_MAX_SIZE_T_VALUE line"
    using False sz [of 1024 "butlast line"] sz [of 1048576 "butlast line"] sz [of 1 line] atosz.rd_value
    by (auto simp: ngx_parse_size_def size_unit_def with_unit_def l butlast_conv_take Let_def)
  moreover have "ngx_parse_offset line = with_unit
      [(CHR ''K'', 1024), (CHR ''k'', 1024), (CHR ''M'', 1048576), (CHR ''m'', 1048576),
       (CHR ''G'', 1073741824), (CHR ''g'', 1073741824)] NGX_MAX_OFF_T_VALUE line"
    using False off [of 1024 "butlast line"] off [of 1048576 "butlast line"] off [of 1073741824 "butlast line"]
      off [of 1 line] atoof.rd_value
    by (auto simp: ngx_parse_offset_def offset_unit_def with_unit_def l butlast_conv_take Let_def)
  ultimately show ?thesis by blast
qed (simp add: ngx_parse_size_def ngx_parse_offset_def with_unit_def)

text \<open>
  \<open>ngx_parse_time\<close> of amounts with units in falling order (y M w d h m s in seconds,
  w d h m s ms in milliseconds) is the sum of the amounts times their units, exactly when
  it fits \<open>ngx_int_t\<close>, and \<open>NGX_ERROR\<close> otherwise.
\<close>

theorem ngx_parse_time_exact:
  assumes "time_items_ok is_sec items" "items \<noteq> []"
  shows "ngx_parse_time (render_time items) is_sec =
    (if time_value is_sec items \<le> NGX_MAX_INT_T_VALUE then time_value is_sec items else NGX_ERROR)"
proof -
  let ?s = "if is_sec then st_start else st_month"
  have "?s < unit_step u" if "u \<in> set (map snd items)" for u
    using assms(1) that by (cases u) (auto simp: time_items_ok_def st_defs split: if_splits)
  then show ?thesis
    using parse_time_items [OF assms(1), of ?s False 0] assms(2) NGX_MAX_INT_T_VALUE_nonneg
    by (simp add: ngx_parse_time_def)
qed

theorem ngx_parse_time_exact_witness:
  "time_items_ok True [(1, Hours), (30, Minutes)]
   \<and> render_time [(1, Hours), (30, Minutes)] = str ''1h30m''
   \<and> ngx_parse_time (str ''1h30m'') True = 5400"
proof -
  have ok: "time_items_ok True [(1, Hours), (30, Minutes)]"
    by (simp add: time_items_ok_def st_defs)
  have r: "render_time [(1, Hours), (30, Minutes)] = str ''1h30m''"
    by (simp add: dec_digits.simps)
  have "ngx_parse_time (render_time [(1, Hours), (30, Minutes)]) True = 5400"
    using ngx_parse_time_exact [OF ok] by (simp add: NGX_MAX_INT_T_VALUE_def)
  then show ?thesis using ok unfolding r by simp
qed

text \<open>
  On every input \<open>ngx_parse_time\<close> ends and returns \<open>NGX_ERROR\<close> or a value from 0 to
  the largest \<open>ngx_int_t\<close>: no accumulation, scaling or sum overflows.
\<close>

theorem ngx_parse_time_range:
  "ngx_parse_time line is_sec = NGX_ERROR \<or>
   0 \<le> ngx_parse_time line is_sec \<and> ngx_parse_time line is_sec \<le> NGX_MAX_INT_T_VALUE"
  using parse_time_loop_range [of 0 0] NGX_MAX_INT_T_VALUE_nonneg by (simp add: ngx_parse_time_def)

end
