(* ===== verification/Ngx_Times.thy ===== *)
theory Ngx_Times
  imports Ngx_Atoi
begin

section \<open>Calendar time and HTTP dates (ngx_times.c, ngx_parse_time.c)\<close>

text \<open>
  \<open>ngx_gmtime\<close> splits a \<open>time_t\<close> by Gauss' formula, \<open>ngx_http_time\<close> and
  \<open>ngx_http_cookie_time\<close> print it, and \<open>ngx_parse_http_time\<close> reads the three date
  formats of HTTP back. Unsigned 64-bit arithmetic is written on \<open>int\<close> with its
  \<open>mod 2 ^ 64\<close>, casts to signed types with \<open>scast32\<close> and \<open>scast64\<close>.
\<close>

record ngx_tm =
  tm_sec :: int
  tm_min :: int
  tm_hour :: int
  tm_mday :: int
  tm_mon :: int
  tm_year :: int
  tm_wday :: int

text \<open>Days before March 1 of \<open>year\<close> since March 1, 1 BC: the formula both functions use.\<close>

definition gauss_days :: "int \<Rightarrow> int" where
  "gauss_days year = 365 * year + year div 4 - year div 100 + year div 400"

definition is_leap :: "int \<Rightarrow> bool" where
  "is_leap year \<longleftrightarrow> year mod 4 = 0 \<and> (year mod 100 \<noteq> 0 \<or> year mod 400 = 0)"

text \<open>
  The day of the year (counted from March 1) and the year of a day number: a first
  estimate, and the correction when it is too high.
\<close>

definition gauss_split :: "int \<Rightarrow> int \<times> int" where
  "gauss_split days =
     (let year = (days + 2) * 400 div (365 * 400 + 100 - 4 + 1);
          yday = days - gauss_days year;
          leap = (if is_leap year then 1 else 0)
      in if yday < 0 then (365 + leap + yday, year - 1) else (yday, year))"

definition ngx_gmtime :: "int \<Rightarrow> ngx_tm" where
  "ngx_gmtime t =
     (let n = t mod 2 ^ 64;
          days = n div 86400;
          wday = (4 + days) mod 7;
          n = n mod 86400;
          hour = n div 3600;
          n = n mod 3600;
          min = n div 60;
          sec = n mod 60;
          days = days - (31 + 28) + 719527;
          (yday, year) = gauss_split days;
          mon = (yday + 31) * 10 div 306;
          mday = yday - (367 * mon div 12 - 30) + 1;
          (year, mon) = (if yday \<ge> 306 then (year + 1, mon - 10) else (year, mon + 2))
      in \<lparr>tm_sec = scast32 sec, tm_min = scast32 min, tm_hour = scast32 hour,
          tm_mday = scast32 mday, tm_mon = scast32 mon, tm_year = scast32 year,
          tm_wday = scast32 wday\<rparr>)"

subsection \<open>Printing\<close>

definition week :: "bytes list" where
  "week = map str [''Sun'', ''Mon'', ''Tue'', ''Wed'', ''Thu'', ''Fri'', ''Sat'']"

definition months :: "bytes list" where
  "months = map str [''Jan'', ''Feb'', ''Mar'', ''Apr'', ''May'', ''Jun'',
                     ''Jul'', ''Aug'', ''Sep'', ''Oct'', ''Nov'', ''Dec'']"

text \<open>
  The \<open>%d\<close> directive of \<open>ngx_sprintf\<close> with its padding byte and width: a minus sign for
  a negative number, then \<open>ngx_sprintf_num\<close>; \<open>ngx_sprintf\<close> has no end of buffer.
\<close>

definition sprintf_d :: "byte \<Rightarrow> nat \<Rightarrow> int \<Rightarrow> bytes" where
  "sprintf_d zero width i =
     (if i < 0 then chr CHR ''-'' # ngx_sprintf_num (2 ^ 63) (word_of_int (- i)) zero 0 width
      else ngx_sprintf_num (2 ^ 63) (word_of_int i) zero 0 width)"

definition ngx_http_time :: "int \<Rightarrow> bytes" where
  "ngx_http_time t =
     (let tm = ngx_gmtime t in
      week ! nat (tm_wday tm) @ str '', '' @ sprintf_d (chr CHR ''0'') 2 (tm_mday tm) @ str '' '' @
      months ! nat (tm_mon tm - 1) @ str '' '' @ sprintf_d (chr CHR '' '') 4 (tm_year tm) @ str '' '' @
      sprintf_d (chr CHR ''0'') 2 (tm_hour tm) @ str '':'' @
      sprintf_d (chr CHR ''0'') 2 (tm_min tm) @ str '':'' @
      sprintf_d (chr CHR ''0'') 2 (tm_sec tm) @ str '' GMT'')"

definition ngx_http_cookie_time :: "int \<Rightarrow> bytes" where
  "ngx_http_cookie_time t =
     (let tm = ngx_gmtime t in
      week ! nat (tm_wday tm) @ str '', '' @ sprintf_d (chr CHR ''0'') 2 (tm_mday tm) @ str ''-'' @
      months ! nat (tm_mon tm - 1) @ str ''-'' @
      (if tm_year tm > 2037 then sprintf_d (chr CHR '' '') 0 (tm_year tm)
       else sprintf_d (chr CHR ''0'') 2 (tm_year tm mod 100)) @ str '' '' @
      sprintf_d (chr CHR ''0'') 2 (tm_hour tm) @ str '':'' @
      sprintf_d (chr CHR ''0'') 2 (tm_min tm) @ str '':'' @
      sprintf_d (chr CHR ''0'') 2 (tm_sec tm) @ str '' GMT'')"

subsection \<open>Parsing\<close>

datatype date_fmt = No | Rfc822 | Rfc850 | Isoc

fun find_sep :: "bytes \<Rightarrow> nat \<Rightarrow> date_fmt \<times> nat" where
  "find_sep [] p = (No, p)"
| "find_sep (c # cs) p =
     (if c = chr CHR '','' then (No, p)
      else if c = chr CHR '' '' then (Isoc, p)
      else find_sep cs (Suc p))"

fun skip_sp :: "bytes \<Rightarrow> nat \<Rightarrow> nat" where
  "skip_sp [] p = p"
| "skip_sp (c # cs) p = (if c \<noteq> chr CHR '' '' then p else skip_sp cs (Suc p))"

definition not_dig :: "byte \<Rightarrow> bool" where
  "not_dig c \<longleftrightarrow> c < chr CHR ''0'' \<or> c > chr CHR ''9''"

text \<open>One digit at \<open>p\<close>; the two- and four-digit tests read the next byte only after a digit.\<close>

definition dig1 :: "bytes \<Rightarrow> nat \<Rightarrow> int cm" where
  "dig1 s p = cbind (rd s p) (\<lambda>c. if not_dig c then Inl (Ret NGX_ERROR) else Inr (uint c - 48))"

definition dig2 :: "bytes \<Rightarrow> nat \<Rightarrow> int cm" where
  "dig2 s p = cbind (dig1 s p) (\<lambda>a. cbind (dig1 s (p + 1)) (\<lambda>b. Inr (a * 10 + b)))"

definition dig4 :: "bytes \<Rightarrow> nat \<Rightarrow> int cm" where
  "dig4 s p = cbind (dig1 s p) (\<lambda>a. cbind (dig1 s (p + 1)) (\<lambda>b.
     cbind (dig1 s (p + 2)) (\<lambda>c. cbind (dig1 s (p + 3)) (\<lambda>d.
       Inr (a * 1000 + b * 100 + c * 10 + d)))))"

definition expect :: "bytes \<Rightarrow> nat \<Rightarrow> byte \<Rightarrow> unit cm" where
  "expect s p c = cbind (rd s p) (\<lambda>x. ret_if (x \<noteq> c) NGX_ERROR)"

definition date_month :: "bytes \<Rightarrow> nat \<Rightarrow> int cm" where
  "date_month s p = cbind (rd s p) (\<lambda>c.
     if c = chr CHR ''J'' then
       cbind (rd s (p + 1)) (\<lambda>c1. if c1 = chr CHR ''a'' then Inr 0
         else cbind (rd s (p + 2)) (\<lambda>c2. Inr (if c2 = chr CHR ''n'' then 5 else 6)))
     else if c = chr CHR ''F'' then Inr 1
     else if c = chr CHR ''M'' then
       cbind (rd s (p + 2)) (\<lambda>c2. Inr (if c2 = chr CHR ''r'' then 2 else 4))
     else if c = chr CHR ''A'' then
       cbind (rd s (p + 1)) (\<lambda>c1. Inr (if c1 = chr CHR ''p'' then 3 else 7))
     else if c = chr CHR ''S'' then Inr 8
     else if c = chr CHR ''O'' then Inr 9
     else if c = chr CHR ''N'' then Inr 10
     else if c = chr CHR ''D'' then Inr 11
     else Inl (Ret NGX_ERROR))"

text \<open>\<open>end - p\<close>, a signed difference.\<close>

definition left :: "bytes \<Rightarrow> nat \<Rightarrow> int" where
  "left s p = int (length s) - int p"

text \<open>The day of the two formats that start with it: (format, day, p).\<close>

definition date_day :: "bytes \<Rightarrow> date_fmt \<Rightarrow> nat \<Rightarrow> (date_fmt \<times> int \<times> nat) cm" where
  "date_day s fmt p =
     (if fmt \<noteq> Isoc then
        cbind (dig2 s p) (\<lambda>day. cbind (rd s (p + 2)) (\<lambda>c.
          if c = chr CHR '' '' then
            cbind (ret_if (left s (p + 2) < 18) NGX_ERROR) (\<lambda>_. Inr (Rfc822, day, p + 3))
          else if c = chr CHR ''-'' then Inr (Rfc850, day, p + 3)
          else Inl (Ret NGX_ERROR)))
      else Inr (Isoc, 0, p))"

text \<open>The year after the month, or the day of asctime: (day, year, p).\<close>

definition date_year :: "bytes \<Rightarrow> date_fmt \<Rightarrow> int \<Rightarrow> nat \<Rightarrow> (int \<times> int \<times> nat) cm" where
  "date_year s fmt day p =
     (case fmt of
        Rfc822 \<Rightarrow> cbind (dig4 s p) (\<lambda>year. Inr (day, year, p + 4))
      | Rfc850 \<Rightarrow> cbind (dig2 s p) (\<lambda>y. Inr (day, y + (if y < 70 then 2000 else 1900), p + 2))
      | Isoc \<Rightarrow> cbind (rd s p) (\<lambda>c. let p = (if c = chr CHR '' '' then p + 1 else p) in
          cbind (dig1 s p) (\<lambda>d. cbind (rd s (p + 1)) (\<lambda>c.
            cbind (if c \<noteq> chr CHR '' ''
                   then cbind (dig1 s (p + 1)) (\<lambda>d2. Inr (d * 10 + d2, p + 2))
                   else Inr (d, p + 1)) (\<lambda>(day, p).
              cbind (ret_if (left s p < 14) NGX_ERROR) (\<lambda>_. Inr (day, 0, p))))))
      | No \<Rightarrow> Inr (day, 0, p))"

text \<open>\<open>hour:min:sec\<close> and, for asctime, the year behind it.\<close>

definition date_clock :: "bytes \<Rightarrow> date_fmt \<Rightarrow> int \<Rightarrow> nat \<Rightarrow> (int \<times> int \<times> int \<times> int) cm" where
  "date_clock s fmt year p =
     cbind (expect s p (chr CHR '' '')) (\<lambda>_. cbind (dig2 s (p + 1)) (\<lambda>hour.
     cbind (expect s (p + 3) (chr CHR '':'')) (\<lambda>_. cbind (dig2 s (p + 4)) (\<lambda>min.
     cbind (expect s (p + 6) (chr CHR '':'')) (\<lambda>_. cbind (dig2 s (p + 7)) (\<lambda>sec.
       if fmt = Isoc then
         cbind (expect s (p + 9) (chr CHR '' '')) (\<lambda>_. cbind (dig4 s (p + 10)) (\<lambda>year.
           Inr (hour, min, sec, year)))
       else Inr (hour, min, sec, year)))))))"

definition mday_tab :: "int list" where
  "mday_tab = [31, 28, 31, 30, 31, 30, 31, 31, 30, 31, 30, 31]"

text \<open>The range checks and the conversion to seconds.\<close>

definition date_seconds :: "int \<Rightarrow> int \<Rightarrow> int \<Rightarrow> int \<Rightarrow> int \<Rightarrow> int \<Rightarrow> int cm" where
  "date_seconds year month day hour mi sec =
     cbind (ret_if (hour > 23 \<or> mi > 59 \<or> sec > 59) NGX_ERROR) (\<lambda>_.
     cbind (if day = 29 \<and> month = 1 then
              ret_if (year mod 4 \<noteq> 0 \<or> (year mod 100 = 0 \<and> year mod 400 \<noteq> 0)) NGX_ERROR
            else ret_if (day > mday_tab ! nat month) NGX_ERROR) (\<lambda>_.
     let month = month - 1;
         year = (if month \<le> 0 then (year - 1) mod 2 ^ 64 else year);
         month = (if month \<le> 0 then month + 12 else month);
         time = ((gauss_days year + 367 * month div 12 - 30 + day - 1 - 719527 + 31 + 28) mod 2 ^ 64
                 * 86400 + hour * 3600 + mi * 60 + sec) mod 2 ^ 64
     in Inr (scast64 time)))"

definition parse_http_time_c :: "bytes \<Rightarrow> int cm" where
  "parse_http_time_c s =
     (case find_sep s 0 of (fmt, p) \<Rightarrow>
        let p = skip_sp (drop (p + 1) s) (p + 1) in
        cbind (ret_if (left s p < 18) NGX_ERROR) (\<lambda>_.
        cbind (date_day s fmt p) (\<lambda>(fmt, day, p).
        cbind (date_month s p) (\<lambda>month.
        let p = p + 3 in
        cbind (if fmt = Rfc822 then expect s p (chr CHR '' '')
               else if fmt = Rfc850 then expect s p (chr CHR ''-'') else Inr ()) (\<lambda>_.
        cbind (date_year s fmt day (p + 1)) (\<lambda>(day, year, p).
        cbind (date_clock s fmt year p) (\<lambda>(hour, mi, sec, year).
        date_seconds year month day hour mi sec)))))))"

definition ngx_parse_http_time :: "bytes \<Rightarrow> int option" where
  "ngx_parse_http_time s = result (parse_http_time_c s)"


section \<open>Gauss' formula\<close>

text \<open>
  A year number split along the Gregorian cycle: 400 years, 100 years, 4 years, 1 year.
  Every division of the formula is linear in the four parts.
\<close>

lemma div_mod_unique:
  assumes "Y = k * q + r" "0 \<le> r" "r < (k :: int)"
  shows "Y div k = q" "Y mod k = r"
  using assms int_div_pos_eq [of Y k q r] int_mod_pos_eq [of Y k q r] by simp_all

lemma div_prev:
  assumes "0 < (k :: int)"
  shows "Y div k = (Y - 1) div k + (if Y mod k = 0 then 1 else 0)"
proof -
  have Y: "Y = k * (Y div k) + Y mod k" and r: "0 \<le> Y mod k" "Y mod k < k" using assms by simp_all
  show ?thesis
  proof (cases "Y mod k = 0")
    case True
    then have "Y - 1 = k * (Y div k - 1) + (k - 1)" using Y by (simp add: algebra_simps)
    from div_mod_unique(1) [OF this] True assms show ?thesis by simp
  next
    case False
    then have "Y - 1 = k * (Y div k) + (Y mod k - 1)" using Y by simp
    from div_mod_unique(1) [OF this] False r show ?thesis by simp
  qed
qed

lemma year_parts:
  obtains q s t a :: int where "Y = 400 * q + 100 * s + 4 * t + a"
    "0 \<le> s" "s \<le> 3" "0 \<le> t" "t \<le> 24" "0 \<le> a" "a \<le> 3"
    "Y div 400 = q" "Y div 100 = 4 * q + s" "Y div 4 = 100 * q + 25 * s + t"
    "Y mod 4 = a" "Y mod 100 = 4 * t + a" "Y mod 400 = 100 * s + 4 * t + a"
proof -
  define q c where "q = Y div 400" and "c = Y mod 400"
  define s b where "s = c div 100" and "b = c mod 100"
  define t a where "t = b div 4" and "a = b mod 4"
  have Y: "Y = 400 * q + c" "0 \<le> c" "c < 400" by (simp_all add: q_def c_def)
  have c: "c = 100 * s + b" "0 \<le> b" "b < 100" by (simp_all add: s_def b_def)
  have b: "b = 4 * t + a" "0 \<le> a" "a < 4" by (simp_all add: t_def a_def)
  have bounds: "0 \<le> s" "s \<le> 3" "0 \<le> t" "t \<le> 24" "0 \<le> a" "a \<le> 3" using Y c b by linarith+
  have eq: "Y = 400 * q + 100 * s + 4 * t + a" using Y c b by linarith
  have "Y = 400 * q + (100 * s + 4 * t + a)" using eq by simp
  moreover have "0 \<le> 100 * s + 4 * t + a" "100 * s + 4 * t + a < 400" using bounds by linarith+
  ultimately have y400: "Y div 400 = q" "Y mod 400 = 100 * s + 4 * t + a" by (rule div_mod_unique)+
  have "Y = 100 * (4 * q + s) + (4 * t + a)" using eq by simp
  moreover have "0 \<le> 4 * t + a" "4 * t + a < 100" using bounds by linarith+
  ultimately have y100: "Y div 100 = 4 * q + s" "Y mod 100 = 4 * t + a" by (rule div_mod_unique)+
  have "Y = 4 * (100 * q + 25 * s + t) + a" using eq by simp
  moreover have "0 \<le> a" "a < 4" using bounds by linarith+
  ultimately have y4: "Y div 4 = 100 * q + 25 * s + t" "Y mod 4 = a" by (rule div_mod_unique)+
  show thesis by (rule that [OF eq bounds y400(1) y100(1) y4(1) y4(2) y100(2) y400(2)])
qed

lemma gauss_next: "gauss_days Y = gauss_days (Y - 1) + 365 + (if is_leap Y then 1 else 0)"
proof -
  obtain q s t a where p: "0 \<le> s" "s \<le> 3" "0 \<le> t" "t \<le> 24" "0 \<le> a" "a \<le> 3"
    "Y mod 4 = a" "Y mod 100 = 4 * t + a" "Y mod 400 = 100 * s + 4 * t + a"
    by (rule year_parts)
  then have "Y mod 400 = 0 \<Longrightarrow> Y mod 100 = 0" "Y mod 100 = 0 \<Longrightarrow> Y mod 4 = 0" by linarith+
  then have i: "Y mod 400 = 0 \<longrightarrow> Y mod 100 = 0" "Y mod 100 = 0 \<longrightarrow> Y mod 4 = 0" by blast+
  have d: "Y div 4 = (Y - 1) div 4 + (if Y mod 4 = 0 then 1 else 0)"
    "Y div 100 = (Y - 1) div 100 + (if Y mod 100 = 0 then 1 else 0)"
    "Y div 400 = (Y - 1) div 400 + (if Y mod 400 = 0 then 1 else 0)"
    by (rule div_prev, simp)+
  show ?thesis
    unfolding gauss_days_def is_leap_def d using i
    by (cases "Y mod 4 = 0"; cases "Y mod 100 = 0"; cases "Y mod 400 = 0") simp_all
qed

text \<open>The first estimate of the year is at most two days too high and never too low.\<close>

lemma gauss_estimate:
  assumes "Y = (N + 2) * 400 div 146097"
  shows "- 2 \<le> N - gauss_days Y" "N - gauss_days Y \<le> 364"
proof -
  have est: "146097 * Y \<le> (N + 2) * 400" "(N + 2) * 400 < 146097 * Y + 146097"
    using div_mult_mod_eq [of "(N + 2) * 400" 146097] pos_mod_bound [of 146097 "(N + 2) * 400"]
      pos_mod_sign [of 146097 "(N + 2) * 400"] assms by linarith+
  obtain q s t a where p: "Y = 400 * q + 100 * s + 4 * t + a"
    "0 \<le> s" "s \<le> 3" "0 \<le> t" "t \<le> 24" "0 \<le> a" "a \<le> 3"
    "Y div 400 = q" "Y div 100 = 4 * q + s" "Y div 4 = 100 * q + 25 * s + t"
    by (rule year_parts)
  have g: "gauss_days Y = 146097 * q + 36524 * s + 1461 * t + 365 * a"
    using p by (simp add: gauss_days_def)
  have "100 * s - 12 * t + 97 * a - 800 \<le> 400 * (N - gauss_days Y)" using est(1) g p(1) by simp
  moreover have "- 1088 \<le> 100 * s - 12 * t + 97 * a - 800" using p(2-7) by linarith
  ultimately have "- 1088 \<le> 400 * (N - gauss_days Y)" by (rule order_trans [rotated])
  moreover have "- 1088 \<le> 400 * x \<Longrightarrow> - 2 \<le> x" for x :: int by linarith
  ultimately show "- 2 \<le> N - gauss_days Y" by blast
  have "400 * (N - gauss_days Y) < 145297 + (100 * s - 12 * t + 97 * a)" using est(2) g p(1) by simp
  moreover have "145297 + (100 * s - 12 * t + 97 * a) \<le> 145888" using p(2-7) by linarith
  ultimately have "400 * (N - gauss_days Y) < 145888" by (rule less_le_trans)
  moreover have "400 * x < 145888 \<Longrightarrow> x \<le> 364" for x :: int by linarith
  ultimately show "N - gauss_days Y \<le> 364" by blast
qed

lemma gauss_split_correct:
  assumes "gauss_split N = (yday, year)"
  shows "N = gauss_days year + yday" "0 \<le> yday" "yday \<le> 365" "yday = 365 \<Longrightarrow> is_leap (year + 1)"
  using gauss_estimate [of "(N + 2) * 400 div 146097" N] assms
    gauss_next [of "(N + 2) * 400 div 146097"]
  by (auto simp: gauss_split_def Let_def split: if_splits)

lemma gauss_mono:
  assumes "u \<le> v"
  shows "gauss_days u + 365 * (v - u) \<le> gauss_days v"
  using assms
proof (induction v rule: int_ge_induct)
  case (step i)
  then show ?case using gauss_next [of "i + 1"] by (simp split: if_splits)
qed simp

lemma gauss_split_unique:
  assumes "N = gauss_days year + yday" "0 \<le> yday" "yday \<le> 365" "yday = 365 \<Longrightarrow> is_leap (year + 1)"
  shows "gauss_split N = (yday, year)"
proof -
  obtain d y where g: "gauss_split N = (d, y)" by fastforce
  note c = gauss_split_correct [OF g]
  have "y = year"
  proof (rule ccontr)
    assume "y \<noteq> year"
    then consider "y + 1 \<le> year" | "year + 1 \<le> y" by linarith
    then show False
    proof cases
      case 1
      then show ?thesis using gauss_mono [OF 1] gauss_next [of "y + 1"] c assms by (auto split: if_splits)
    next
      case 2
      then show ?thesis using gauss_mono [OF 2] gauss_next [of "year + 1"] c assms by (auto split: if_splits)
    qed
  qed
  with c assms g show ?thesis by simp
qed


subsection \<open>The month formulas, over all days of a year\<close>

definition march_month :: "int \<Rightarrow> int" where
  "march_month yday = (yday + 31) * 10 div 306"

definition march_mday :: "int \<Rightarrow> int" where
  "march_mday yday = yday - (367 * march_month yday div 12 - 30) + 1"

definition month_days_ok :: "int \<Rightarrow> bool" where
  "month_days_ok yday \<longleftrightarrow>
     (let m = march_month yday; d = march_mday yday; c = (if yday \<ge> 306 then m - 10 else m + 2)
      in 1 \<le> m \<and> m \<le> 12 \<and> (yday \<ge> 306 \<longleftrightarrow> m \<ge> 11) \<and> 1 \<le> d \<and>
         (if yday = 365 then d = 29 \<and> c = 2 else d \<le> mday_tab ! nat (c - 1)))"

lemma month_days_all: "0 \<le> yday \<Longrightarrow> yday \<le> 365 \<Longrightarrow> month_days_ok yday"
proof -
  have "list_all month_days_ok [0..365]" by code_simp
  then show "0 \<le> yday \<Longrightarrow> yday \<le> 365 \<Longrightarrow> ?thesis" by (simp add: list_all_iff)
qed

lemma march_bounds:
  assumes "0 \<le> yday" "yday \<le> 365"
  shows "1 \<le> march_month yday" "march_month yday \<le> 12" "yday \<ge> 306 \<longleftrightarrow> march_month yday \<ge> 11"
    "1 \<le> march_mday yday" "march_mday yday \<le> 31"
proof -
  have "list_all (\<lambda>y. march_mday y \<le> 31) [0..365]" by code_simp
  then show "march_mday yday \<le> 31" using assms by (simp add: list_all_iff)
qed (use month_days_all [OF assms] in \<open>simp_all add: month_days_ok_def Let_def\<close>)

subsection \<open>What ngx_gmtime computes\<close>

lemma scast32_id: "- 2147483648 \<le> x \<Longrightarrow> x < 2147483648 \<Longrightarrow> scast32 x = x"
  by (simp add: scast32_def)

lemma scast64_id: "0 \<le> x \<Longrightarrow> x < 2 ^ 63 \<Longrightarrow> scast64 x = x"
  by (simp add: scast64_def)

text \<open>Up to the last second of the year 9999 (\<open>http_time_max\<close>) a date prints with four digits.\<close>

definition http_time_max :: int where "http_time_max = 253402300799"

definition days_of_time :: "int \<Rightarrow> int" where
  "days_of_time t = t div 86400 + 719468"

lemma days_of_time_year:
  assumes "0 \<le> t" "t \<le> http_time_max" "gauss_split (days_of_time t) = (yday, year)"
  shows "1969 \<le> year" "year \<le> 9999" "yday \<ge> 306 \<Longrightarrow> year \<le> 9998" "yday < 306 \<Longrightarrow> 1970 \<le> year"
proof -
  note c = gauss_split_correct [OF assms(3)]
  have "0 \<le> t div 86400" "t div 86400 \<le> http_time_max div 86400"
    using assms(1) zdiv_mono1 [OF assms(2), of 86400] by simp_all
  then have n: "719468 \<le> days_of_time t" "days_of_time t \<le> 3652364"
    by (simp_all add: days_of_time_def http_time_max_def)
  have g: "gauss_days 1969 = 719162" "gauss_days 10000 = 3652425" "gauss_days 9999 = 3652059"
    "gauss_days 1970 = 719527"
    by (simp_all add: gauss_days_def)
  show "1969 \<le> year"
  proof (rule ccontr)
    assume "\<not> ?thesis"
    then show False
      using gauss_mono [of year 1968] gauss_next [of 1969] c n g by (auto split: if_splits)
  qed
  show "year \<le> 9999"
  proof (rule ccontr)
    assume "\<not> ?thesis"
    then show False using gauss_mono [of 10000 year] c n g by auto
  qed
  then show "year \<le> 9998" if "yday \<ge> 306"
    using c n g that by (cases "year = 9999") auto
  show "1970 \<le> year" if "yday < 306"
    using \<open>1969 \<le> year\<close> c n g that by (cases "year = 1969") auto
qed

lemma ngx_gmtime_fields:
  assumes t: "0 \<le> t" "t \<le> http_time_max" and g: "gauss_split (days_of_time t) = (yday, year)"
  shows "ngx_gmtime t =
    \<lparr>tm_sec = t mod 60, tm_min = t mod 3600 div 60, tm_hour = t mod 86400 div 3600,
     tm_mday = march_mday yday,
     tm_mon = (if yday \<ge> 306 then march_month yday - 10 else march_month yday + 2),
     tm_year = (if yday \<ge> 306 then year + 1 else year),
     tm_wday = (4 + t div 86400) mod 7\<rparr>"
proof -
  note y = days_of_time_year [OF t g]
  note c = gauss_split_correct [OF g]
  note m = march_bounds [OF c(2,3)]
  have t64: "t mod 2 ^ 64 = t" using t by (simp add: http_time_max_def)
  have nest: "t mod 86400 mod 3600 = t mod 3600" "t mod 3600 mod 60 = t mod 60"
    by (simp_all add: mod_mod_cancel)
  have D: "t div 86400 - 59 + 719527 = days_of_time t" by (simp add: days_of_time_def)
  have small: "0 \<le> t mod 60" "t mod 60 < 60" "0 \<le> t mod 3600 div 60" "t mod 3600 div 60 < 60"
    "0 \<le> t mod 86400 div 3600" "t mod 86400 div 3600 < 24"
    by (simp_all add: div_less_iff_less_mult)
  have w: "0 \<le> (4 + t div 86400) mod 7" "(4 + t div 86400) mod 7 < 7" by simp_all
  have sc: "scast32 (t mod 60) = t mod 60" "scast32 (t mod 3600 div 60) = t mod 3600 div 60"
    "scast32 (t mod 86400 div 3600) = t mod 86400 div 3600"
    "scast32 ((4 + t div 86400) mod 7) = (4 + t div 86400) mod 7"
    using small w by (intro scast32_id; linarith)+
  have sm: "scast32 (march_mday yday) = march_mday yday"
    "scast32 (march_month yday - 10) = march_month yday - 10"
    "scast32 (march_month yday + 2) = march_month yday + 2"
    "scast32 year = year" "scast32 (year + 1) = year + 1"
    using m y by (intro scast32_id; linarith)+
  have D': "t div 86400 - (31 + 28) + 719527 = days_of_time t" using D by simp
  have mm: "(yday + 31) * 10 div 306 = march_month yday"
    "yday - (367 * march_month yday div 12 - 30) + 1 = march_mday yday"
    by (simp_all only: march_month_def march_mday_def)
  show ?thesis
    by (cases "306 \<le> yday")
      (simp_all only: ngx_gmtime_def Let_def t64 nest D' g mm prod.case sc sm if_True if_False)
qed


section \<open>Printing and reading back\<close>

lemma dec_digits_step:
  "n < 10 \<Longrightarrow> dec_digits n = [word_of_nat (n + 48)]"
  "10 \<le> n \<Longrightarrow> dec_digits n = dec_digits (n div 10) @ [word_of_nat (n mod 10 + 48)]"
  by (simp_all add: dec_digits.simps [of n])

lemma dec_digits_small:
  assumes "10 \<le> n" "n < 100"
  shows "dec_digits n = [word_of_nat (n div 10 + 48), word_of_nat (n mod 10 + 48)]"
proof -
  have "n div 10 < 10" using assms by linarith
  then show ?thesis
    using dec_digits_step(2) [OF assms(1)] dec_digits_step(1) [of "n div 10"] by simp
qed

lemma unat_small_int: "0 \<le> i \<Longrightarrow> i < 2 ^ 63 \<Longrightarrow> unat (word_of_int i :: u64) = nat i"
  by (simp add: unat_eq_nat_uint uint_word_of_int)

lemma sprintf_d_nonneg:
  assumes "0 \<le> i" "i < 2 ^ 63" "width \<le> 20"
  shows "sprintf_d zero width i =
    replicate (width - length (dec_digits (nat i))) zero @ dec_digits (nat i)"
proof -
  have len: "length (dec_digits (nat i)) \<le> 20"
    using sprintf_temp_length [of "word_of_int i" 0] unat_small_int [OF assms(1,2)]
    by (simp add: sprintf_temp_decimal NGX_INT64_LEN_def)
  have m: "min (width - length (dec_digits (nat i))) (2 ^ 63) = width - length (dec_digits (nat i))"
    using assms(3) by (simp add: min_def)
  have "\<not> length (dec_digits (nat i)) > 2 ^ 63 - (width - length (dec_digits (nat i)))"
    using assms(3) len by simp
  with m show ?thesis
    using assms(1,2)
    by (simp only: sprintf_d_def ngx_sprintf_num_def Let_def sprintf_temp_decimal
        unat_small_int length_replicate) (simp add: not_less)
qed

lemma sprintf_d_two:
  assumes "0 \<le> i" "i < 100"
  obtains a b where "sprintf_d (chr CHR ''0'') 2 i = [a, b]" "is_digit a" "is_digit b"
    "(uint a - 48) * 10 + (uint b - 48) = i"
proof -
  define n where "n = nat i"
  have n: "n < 100" "int n = i" using assms by (simp_all add: n_def)
  have "sprintf_d (chr CHR ''0'') 2 i =
      [word_of_nat (n div 10 + 48), word_of_nat (n mod 10 + 48)]"
    using assms n(1) sprintf_d_nonneg [of i 2 "chr CHR ''0''"]
    by (cases "n < 10")
      (simp_all add: n_def [symmetric] dec_digits_step(1) dec_digits_small numeral_2_eq_2 del: of_nat_add)
  moreover have "int (n div 10) * 10 + int (n mod 10) = i"
    using n(2) by (simp flip: of_nat_mult of_nat_add add: of_nat_mod of_nat_div)
  ultimately show thesis
    using that digit_word [of "n div 10"] digit_word [of "n mod 10"] n(1) by fastforce
qed

lemma sprintf_d_four:
  assumes "1000 \<le> i" "i \<le> 9999"
  obtains a b c d where "sprintf_d zero 4 i = [a, b, c, d]"
    "is_digit a" "is_digit b" "is_digit c" "is_digit d"
    "(uint a - 48) * 1000 + (uint b - 48) * 100 + (uint c - 48) * 10 + (uint d - 48) = i"
proof -
  define n where "n = nat i"
  have n: "1000 \<le> n" "n \<le> 9999" "int n = i" using assms by (simp_all add: n_def)
  let ?a = "n div 10 div 10 div 10" and ?b = "n div 10 div 10 mod 10"
    and ?c = "n div 10 mod 10" and ?d = "n mod 10"
  have "dec_digits n = [word_of_nat (?a + 48), word_of_nat (?b + 48),
      word_of_nat (?c + 48), word_of_nat (?d + 48)]"
  proof -
    have "10 \<le> n" "10 \<le> n div 10" "10 \<le> n div 10 div 10" "n div 10 div 10 < 100"
      using n(1,2) by linarith+
    then show ?thesis
      using dec_digits_step(2) [of n] dec_digits_step(2) [of "n div 10"]
        dec_digits_small [of "n div 10 div 10"] by simp
  qed
  then have p: "sprintf_d zero 4 i = [word_of_nat (?a + 48), word_of_nat (?b + 48),
      word_of_nat (?c + 48), word_of_nat (?d + 48)]"
    using assms sprintf_d_nonneg [of i 4 zero] by (simp add: n_def del: of_nat_add)
  have lt: "?a < 10" "?b < 10" "?c < 10" "?d < 10" using n(2) by auto
  have "n = q * 10 + d \<Longrightarrow> q = r * 10 + c \<Longrightarrow> r = a * 10 + b \<Longrightarrow>
      int a * 1000 + int b * 100 + int c * 10 + int d = i" for q r a b c d
    using n(3) by simp
  then have "int ?a * 1000 + int ?b * 100 + int ?c * 10 + int ?d = i"
    by (simp only: div_mult_mod_eq)
  then show thesis
    using that [OF p] digit_word [OF lt(1)] digit_word [OF lt(2)] digit_word [OF lt(3)]
      digit_word [OF lt(4)] by simp
qed


lemma rd_nth: "p < length s \<Longrightarrow> rd s p = Inr (s ! p)"
  by (simp add: rd_def)

lemma dig1_digit: "p < length s \<Longrightarrow> is_digit (s ! p) \<Longrightarrow> dig1 s p = Inr (uint (s ! p) - 48)"
  by (auto simp: dig1_def rd_nth not_dig_def is_digit_def)

lemma expect_match: "p < length s \<Longrightarrow> s ! p = c \<Longrightarrow> expect s p c = Inr ()"
  by (simp add: expect_def rd_nth ret_if_def)

lemma date_month_name:
  assumes "k < 12" "p + 2 < length s" "months ! k = [s ! p, s ! (p + 1), s ! (p + 2)]"
  shows "date_month s p = Inr (int k)"
proof -
  have "k = 0 \<or> k = 1 \<or> k = 2 \<or> k = 3 \<or> k = 4 \<or> k = 5 \<or> k = 6 \<or> k = 7 \<or> k = 8 \<or> k = 9 \<or>
      k = 10 \<or> k = 11"
    using assms(1) by presburger
  moreover have "s ! p = months ! k ! 0" "s ! (p + 1) = months ! k ! 1" "s ! (p + 2) = months ! k ! 2"
    using assms(3) by simp_all
  moreover have "p < length s" "p + 1 < length s" using assms(2) by simp_all
  ultimately show ?thesis
    using assms(2) by (elim disjE) (simp_all add: date_month_def rd_nth months_def)
qed

lemma months_three: "k < 12 \<Longrightarrow> \<exists>a b c. months ! k = [a, b, c]"
proof -
  have "list_all (\<lambda>m. length m = 3) months" by (simp add: months_def)
  then show "k < 12 \<Longrightarrow> ?thesis"
    by (auto simp: list_all_length months_def length_Suc_conv eval_nat_numeral)
qed

lemma week_three: "k < 7 \<Longrightarrow> \<exists>a b c. week ! k = [a, b, c] \<and>
    a \<noteq> 44 \<and> a \<noteq> 32 \<and> b \<noteq> 44 \<and> b \<noteq> 32 \<and> c \<noteq> 44 \<and> c \<noteq> 32"
proof -
  assume "k < 7"
  then have "k \<in> {0, 1, 2, 3, 4, 5, 6}" by auto
  then show ?thesis by (auto simp: week_def)
qed

text \<open>A date in the preferred format, as 29 bytes, is read field by field.\<close>

lemma parse_rfc822:
  assumes w: "w1 \<noteq> 44" "w1 \<noteq> 32" "w2 \<noteq> 44" "w2 \<noteq> 32" "w3 \<noteq> 44" "w3 \<noteq> 32"
    and m: "k < 12" "months ! k = [m1, m2, m3]"
    and d: "is_digit d1" "is_digit d2" "is_digit y1" "is_digit y2" "is_digit y3" "is_digit y4"
      "is_digit h1" "is_digit h2" "is_digit i1" "is_digit i2" "is_digit s1" "is_digit s2"
  shows "parse_http_time_c ([w1, w2, w3, 44, 32, d1, d2, 32, m1, m2, m3, 32, y1, y2, y3, y4, 32,
      h1, h2, 58, i1, i2, 58, s1, s2, 32, 71, 77, 84]) =
    date_seconds ((uint y1 - 48) * 1000 + (uint y2 - 48) * 100 + (uint y3 - 48) * 10 + (uint y4 - 48))
      (int k) ((uint d1 - 48) * 10 + (uint d2 - 48)) ((uint h1 - 48) * 10 + (uint h2 - 48))
      ((uint i1 - 48) * 10 + (uint i2 - 48)) ((uint s1 - 48) * 10 + (uint s2 - 48))"
    (is "parse_http_time_c ?s = _")
proof -
  have d1: "d1 \<noteq> 32" using d(1) by (auto simp: is_digit_def)
  have sep: "find_sep ?s 0 = (No, 3)" using w by (simp add: eval_nat_numeral)
  have sp: "skip_sp (drop (3 + 1) ?s) (3 + 1) = 5" using d1 by simp
  have day: "date_day ?s No 5 = Inr (Rfc822, (uint d1 - 48) * 10 + (uint d2 - 48), 8)"
    using d by (simp add: date_day_def dig2_def dig1_digit rd_nth left_def ret_if_def)
  have mon: "date_month ?s 8 = Inr (int k)" using m by (intro date_month_name) simp_all
  have sp2: "expect ?s (8 + 3) 32 = Inr ()" by (simp add: expect_match)
  have year: "date_year ?s Rfc822 x (8 + 3 + 1) = Inr (x, (uint y1 - 48) * 1000 +
      (uint y2 - 48) * 100 + (uint y3 - 48) * 10 + (uint y4 - 48), 16)" for x
    using d by (simp add: date_year_def dig4_def dig1_digit)
  have clock: "date_clock ?s Rfc822 y 16 = Inr ((uint h1 - 48) * 10 + (uint h2 - 48),
      (uint i1 - 48) * 10 + (uint i2 - 48), (uint s1 - 48) * 10 + (uint s2 - 48), y)" for y
    using d by (simp add: date_clock_def dig2_def dig1_digit expect_match)
  have l: "ret_if (left ?s 5 < 18) NGX_ERROR = Inr ()" by (simp add: left_def ret_if_def)
  show ?thesis
    unfolding parse_http_time_c_def sep prod.case Let_def sp l cbind.simps day mon
    by (simp only: date_fmt.simps if_True if_False simp_thms) (simp add: sp2 [simplified] year [simplified] clock)
qed


text \<open>The seconds of a civil date are those the split of the day number came from.\<close>

lemma date_seconds_inverse:
  assumes t: "0 \<le> t" "t \<le> http_time_max" and g: "gauss_split (days_of_time t) = (yday, year)"
  shows "date_seconds (if yday \<ge> 306 then year + 1 else year)
      ((if yday \<ge> 306 then march_month yday - 10 else march_month yday + 2) - 1)
      (march_mday yday) (t mod 86400 div 3600) (t mod 3600 div 60) (t mod 60) = Inr t"
proof -
  note y = days_of_time_year [OF t g]
  note c = gauss_split_correct [OF g]
  note m = march_bounds [OF c(2,3)]
  let ?m = "march_month yday" and ?d = "march_mday yday"
  let ?y = "if yday \<ge> 306 then year + 1 else year"
  let ?c = "(if yday \<ge> 306 then ?m - 10 else ?m + 2) - 1"
  have "t mod 86400 div 3600 < 24" "t mod 3600 div 60 < 60" "t mod 60 < 60"
    by (simp_all add: div_less_iff_less_mult)
  then have clock: "\<not> (t mod 86400 div 3600 > 23 \<or> t mod 3600 div 60 > 59 \<or> t mod 60 > 59)"
    by linarith
  have day: "(if ?d = 29 \<and> ?c = 1 then
        ret_if (?y mod 4 \<noteq> 0 \<or> (?y mod 100 = 0 \<and> ?y mod 400 \<noteq> 0)) NGX_ERROR
      else ret_if (?d > mday_tab ! nat ?c) NGX_ERROR) = Inr ()"
  proof (cases "yday = 365")
    case True
    then have "is_leap (year + 1)" by (rule c(4))
    then show ?thesis
      using True month_days_all [OF c(2,3)] by (auto simp: month_days_ok_def Let_def is_leap_def)
  next
    case False
    then have "?d \<le> mday_tab ! nat ?c"
      using month_days_all [OF c(2,3)] by (auto simp: month_days_ok_def Let_def)
    moreover have "\<not> (?d = 29 \<and> ?c = 1)"
      using calculation by (auto simp: mday_tab_def)
    ultimately show ?thesis by (simp add: ret_if_def)
  qed
  have sh: "?c - 1 \<le> 0 \<longleftrightarrow> yday \<ge> 306" using m(1-3) by auto
  have yr: "(if ?c - 1 \<le> 0 then (?y - 1) mod 2 ^ 64 else ?y) = year"
    using sh y by (auto simp: mod_pos_pos_trivial)
  have mo: "(if ?c - 1 \<le> 0 then ?c - 1 + 12 else ?c - 1) = ?m" using sh by auto
  have N: "gauss_days year + 367 * ?m div 12 - 30 + ?d - 1 - 719527 + 31 + 28 = t div 86400"
    using c(1) by (simp add: march_mday_def days_of_time_def)
  have "0 \<le> t div 86400" "t div 86400 \<le> http_time_max div 86400"
    using t(1) zdiv_mono1 [OF t(2), of 86400] by simp_all
  then have q: "t div 86400 mod 2 ^ 64 = t div 86400" by (simp add: http_time_max_def)
  have "t mod 86400 mod 3600 = t mod 3600" "t mod 3600 mod 60 = t mod 60"
    by (simp_all add: mod_mod_cancel)
  then have "t mod 86400 = t mod 86400 div 3600 * 3600 + t mod 3600" "t mod 3600 = t mod 3600 div 60 * 60 + t mod 60"
    using div_mult_mod_eq [of "t mod 86400" 3600] div_mult_mod_eq [of "t mod 3600" 60] by metis+
  moreover have "t = D * 86400 + r \<Longrightarrow> r = h * 3600 + r' \<Longrightarrow> r' = i * 60 + s \<Longrightarrow>
      D * 86400 + h * 3600 + i * 60 + s = t" for D r h r' i s
    by simp
  ultimately have sum:
    "t div 86400 * 86400 + t mod 86400 div 3600 * 3600 + t mod 3600 div 60 * 60 + t mod 60 = t"
    using div_mult_mod_eq [of t 86400, symmetric] by blast
  have tm: "t mod 2 ^ 64 = t" "scast64 t = t"
    using t by (simp_all add: http_time_max_def scast64_id)
  show ?thesis
    unfolding date_seconds_def Let_def yr mo N q sum tm day
    using clock by (simp add: ret_if_def)
qed

lemma ngx_http_time_read:
  assumes t: "0 \<le> t" "t \<le> http_time_max"
  shows "parse_http_time_c (ngx_http_time t) = Inr t"
proof -
  obtain yday year where g: "gauss_split (days_of_time t) = (yday, year)" by fastforce
  note y = days_of_time_year [OF t g]
  note c = gauss_split_correct [OF g]
  note m = march_bounds [OF c(2,3)]
  let ?y = "if yday \<ge> 306 then year + 1 else year"
  let ?c = "if yday \<ge> 306 then march_month yday - 10 else march_month yday + 2"
  have ci: "int (nat (?c - 1)) = ?c - 1" "nat (?c - 1) < 12" using m(1-3) by (auto split: if_splits)
  have clock: "0 \<le> t mod 86400 div 3600" "t mod 86400 div 3600 < 100" "0 \<le> t mod 3600 div 60"
    "t mod 3600 div 60 < 100" "0 \<le> t mod 60" "t mod 60 < 100"
    by (simp_all add: div_less_iff_less_mult)
  obtain w1 w2 w3 where w: "week ! nat ((4 + t div 86400) mod 7) = [w1, w2, w3]"
    "w1 \<noteq> 44" "w1 \<noteq> 32" "w2 \<noteq> 44" "w2 \<noteq> 32" "w3 \<noteq> 44" "w3 \<noteq> 32"
  proof -
    have "0 \<le> (4 + t div 86400) mod 7" "(4 + t div 86400) mod 7 < 7" by simp_all
    then have "nat ((4 + t div 86400) mod 7) < 7" by linarith
    from week_three [OF this] show thesis using that by blast
  qed
  obtain m1 m2 m3 where mon: "months ! nat (?c - 1) = [m1, m2, m3]"
    using months_three [OF ci(2)] by auto
  obtain d1 d2 where d: "sprintf_d (chr CHR ''0'') 2 (march_mday yday) = [d1, d2]"
    "is_digit d1" "is_digit d2" "(uint d1 - 48) * 10 + (uint d2 - 48) = march_mday yday"
    using m(4,5) by (auto intro: sprintf_d_two [of "march_mday yday"])
  have yb: "1000 \<le> ?y" "?y \<le> 9999" using y by auto
  obtain y1 y2 y3 y4 where yy: "sprintf_d (chr CHR '' '') 4 ?y = [y1, y2, y3, y4]"
    "is_digit y1" "is_digit y2" "is_digit y3" "is_digit y4"
    "(uint y1 - 48) * 1000 + (uint y2 - 48) * 100 + (uint y3 - 48) * 10 + (uint y4 - 48) = ?y"
    using sprintf_d_four [OF yb] by metis
  obtain h1 h2 where h: "sprintf_d (chr CHR ''0'') 2 (t mod 86400 div 3600) = [h1, h2]"
    "is_digit h1" "is_digit h2" "(uint h1 - 48) * 10 + (uint h2 - 48) = t mod 86400 div 3600"
    using sprintf_d_two [OF clock(1,2)] by metis
  obtain i1 i2 where i: "sprintf_d (chr CHR ''0'') 2 (t mod 3600 div 60) = [i1, i2]"
    "is_digit i1" "is_digit i2" "(uint i1 - 48) * 10 + (uint i2 - 48) = t mod 3600 div 60"
    using sprintf_d_two [OF clock(3,4)] by metis
  obtain s1 s2 where s: "sprintf_d (chr CHR ''0'') 2 (t mod 60) = [s1, s2]"
    "is_digit s1" "is_digit s2" "(uint s1 - 48) * 10 + (uint s2 - 48) = t mod 60"
    using sprintf_d_two [OF clock(5,6)] by metis
  have out: "ngx_http_time t = [w1, w2, w3, 44, 32, d1, d2, 32, m1, m2, m3, 32, y1, y2, y3, y4, 32,
      h1, h2, 58, i1, i2, 58, s1, s2, 32, 71, 77, 84]"
    unfolding ngx_http_time_def Let_def ngx_gmtime_fields [OF t g] ngx_tm.select_convs w(1) mon d(1)
      yy(1) h(1) i(1) s(1) by simp
  show ?thesis
    unfolding out parse_rfc822 [OF w(2-7) ci(2) mon d(2,3) yy(2-5) h(2,3) i(2,3) s(2,3)]
      d(4) yy(6) h(4) i(4) s(4) ci(1)
    by (rule date_seconds_inverse [OF t g])
qed


interpretation http_date: codec ngx_http_time ngx_parse_http_time
  "\<lambda>t. 0 \<le> t \<and> t \<le> http_time_max"
  by unfold_locales (simp add: ngx_parse_http_time_def ngx_http_time_read)

subsection \<open>No read outside the header value\<close>

lemma safe_dig1: "p < length s \<Longrightarrow> safe (dig1 s p)"
  by (auto simp: dig1_def rd_nth)

lemma safe_dig2: "p + 1 < length s \<Longrightarrow> safe (dig2 s p)"
  by (auto simp: dig2_def intro!: safe_cbind safe_dig1)

lemma safe_dig4: "p + 3 < length s \<Longrightarrow> safe (dig4 s p)"
  by (auto simp: dig4_def intro!: safe_cbind safe_dig1)

lemma safe_expect: "p < length s \<Longrightarrow> safe (expect s p c)"
  by (auto simp: expect_def rd_nth)

lemma safe_date_month: "p + 2 < length s \<Longrightarrow> safe (date_month s p)"
  by (auto simp: date_month_def rd_nth)

lemma safe_date_day: "18 \<le> left s p \<Longrightarrow> safe (date_day s fmt p)"
  by (auto simp: date_day_def left_def intro!: safe_cbind safe_dig2 safe_rd safe_if)

lemma cbind_Inr: "cbind m f = Inr y \<longleftrightarrow> (\<exists>x. m = Inr x \<and> f x = Inr y)"
  by (cases m) auto

lemma date_day_left:
  assumes "18 \<le> left s p" "date_day s fmt p = Inr (fmt', day, p')"
  shows "fmt' = Rfc822 \<and> 17 \<le> left s p' \<or> fmt' = Rfc850 \<and> 15 \<le> left s p' \<or>
    fmt' = Isoc \<and> 18 \<le> left s p'"
  using assms by (auto simp: date_day_def left_def cbind_Inr split: if_splits)

lemma safe_date_year:
  assumes "fmt = Rfc822 \<and> 13 \<le> left s p \<or> fmt = Rfc850 \<and> 11 \<le> left s p \<or>
    fmt = Isoc \<and> 14 \<le> left s p"
  shows "safe (date_year s fmt day p)"
proof -
  have n: "p + 3 < length s" using assms by (auto simp: left_def)
  then show ?thesis
    by (cases fmt)
      (auto simp: date_year_def Let_def intro!: safe_cbind safe_dig4 safe_dig2 safe_dig1 safe_rd safe_if)
qed

lemma date_year_left:
  assumes "fmt = Rfc822 \<and> 13 \<le> left s p \<or> fmt = Rfc850 \<and> 11 \<le> left s p \<or>
    fmt = Isoc \<and> 14 \<le> left s p"
    and "date_year s fmt day p = Inr (day', year, p')"
  shows "(if fmt = Isoc then 14 else 9) \<le> left s p'"
  using assms
  by (cases fmt) (auto simp: date_year_def left_def Let_def cbind_Inr split: if_splits)

lemma safe_date_clock:
  assumes "(if fmt = Isoc then 14 else 9) \<le> left s p"
  shows "safe (date_clock s fmt year p)"
proof -
  have "p + 8 < length s" "fmt = Isoc \<Longrightarrow> p + 13 < length s"
    using assms by (auto simp: left_def split: if_splits)
  then show ?thesis
    by (auto simp: date_clock_def intro!: safe_cbind safe_dig4 safe_dig2 safe_expect safe_if)
qed

lemma safe_date_seconds: "safe (date_seconds year month day hour mi sec)"
  by (auto simp: date_seconds_def Let_def intro!: safe_cbind)

lemma safe_parse_http_time: "safe (parse_http_time_c s)"
proof -
  obtain fmt0 p0 where f: "find_sep s 0 = (fmt0, p0)" by fastforce
  define p where "p = skip_sp (drop (p0 + 1) s) (p0 + 1)"
  show ?thesis
    unfolding parse_http_time_c_def f prod.case Let_def p_def [symmetric]
  proof (rule safe_cbind [OF safe_ret_if])
    fix u assume "ret_if (left s p < 18) NGX_ERROR = Inr u"
    then have l: "18 \<le> left s p" by simp
    let ?rest = "\<lambda>fmt day p. cbind (date_month s p) (\<lambda>month.
        cbind (if fmt = Rfc822 then expect s (p + 3) (chr CHR '' '')
               else if fmt = Rfc850 then expect s (p + 3) (chr CHR ''-'') else Inr ()) (\<lambda>_.
        cbind (date_year s fmt day (p + 3 + 1)) (\<lambda>(day, year, p).
        cbind (date_clock s fmt year p) (\<lambda>(hour, mi, sec, year).
        date_seconds year month day hour mi sec))))"
    have rest: "safe (?rest fmt day q)" if d: "date_day s fmt0 p = Inr (fmt, day, q)" for fmt day q
    proof -
      note dl = date_day_left [OF l d]
      then have q: "q + 3 < length s"
        and yl: "fmt = Rfc822 \<and> 13 \<le> left s (q + 3 + 1) \<or> fmt = Rfc850 \<and> 11 \<le> left s (q + 3 + 1) \<or>
          fmt = Isoc \<and> 14 \<le> left s (q + 3 + 1)"
        by (auto simp: left_def)
      have c: "safe (date_clock s fmt year p')"
        if "date_year s fmt day (q + 3 + 1) = Inr (day', year, p')" for day' year p'
        by (rule safe_date_clock) (rule date_year_left [OF yl that])
      have tail: "safe (case yr of (day, year, p) \<Rightarrow> cbind (date_clock s fmt year p)
          (\<lambda>(hour, mi, sec, year). date_seconds year month day hour mi sec))"
        if "date_year s fmt day (q + 3 + 1) = Inr yr" for yr month
        using c that by (cases yr) (auto intro!: safe_cbind safe_date_seconds)
      have e: "safe (if fmt = Rfc822 then expect s (q + 3) (chr CHR '' '')
          else if fmt = Rfc850 then expect s (q + 3) (chr CHR ''-'') else Inr ())"
        using q by (auto intro: safe_expect)
      have mo: "safe (date_month s q)" using q by (simp add: safe_date_month)
      show ?thesis
        by (rule safe_cbind [OF mo], rule safe_cbind [OF e],
            rule safe_cbind [OF safe_date_year [OF yl]], erule tail)
    qed
    show "safe (cbind (date_day s fmt0 p) (\<lambda>(fmt, day, p). ?rest fmt day p))"
    proof (rule safe_cbind [OF safe_date_day [OF l]])
      fix r assume "date_day s fmt0 p = Inr r"
      then show "safe (case r of (fmt, day, p) \<Rightarrow> ?rest fmt day p)"
        using rest by (cases r) simp
    qed
  qed
qed


subsection \<open>The calendar\<close>

text \<open>The day after a date, from the month lengths and the leap-year rule alone.\<close>

definition month_len :: "int \<Rightarrow> int \<Rightarrow> int" where
  "month_len y m = (if m = 2 \<and> is_leap y then 29 else mday_tab ! nat (m - 1))"

definition next_date :: "int \<times> int \<times> int \<Rightarrow> int \<times> int \<times> int" where
  "next_date x = (case x of (y, m, d) \<Rightarrow>
     if d < month_len y m then (y, m, d + 1)
     else if m < 12 then (y, m + 1, 1) else (y + 1, 1, 1))"

definition tm_date :: "ngx_tm \<Rightarrow> int \<times> int \<times> int" where
  "tm_date tm = (tm_year tm, tm_mon tm, tm_mday tm)"

definition civil :: "int \<times> int \<Rightarrow> int \<times> int \<times> int" where
  "civil x = (case x of (yday, year) \<Rightarrow>
     (if yday \<ge> 306 then year + 1 else year,
      if yday \<ge> 306 then march_month yday - 10 else march_month yday + 2, march_mday yday))"

text \<open>
  Within a year counted from March the successor is the next day number; \<open>len\<close> below is
  the month's length without the leap day, so the day 28 of February is left out.
\<close>

definition next_in_year :: "int \<Rightarrow> bool" where
  "next_in_year yday \<longleftrightarrow>
     (let c = (\<lambda>y. if y \<ge> 306 then march_month y - 10 else march_month y + 2);
          m = c yday; m' = c (yday + 1); d = march_mday yday; d' = march_mday (yday + 1);
          len = mday_tab ! nat (m - 1)
      in (m = 2 \<longrightarrow> d < 28) \<and> m \<noteq> 14 \<and>
         (if d < len then m' = m \<and> d' = d + 1 \<and> (yday \<ge> 306 \<longleftrightarrow> yday + 1 \<ge> 306)
          else if m < 12 then m' = m + 1 \<and> d' = 1 \<and> (yday \<ge> 306 \<longleftrightarrow> yday + 1 \<ge> 306)
          else m' = 1 \<and> d' = 1 \<and> \<not> yday \<ge> 306 \<and> yday + 1 \<ge> 306))"

lemma next_in_year_all: "0 \<le> yday \<Longrightarrow> yday \<le> 363 \<Longrightarrow> next_in_year yday"
proof -
  have "list_all next_in_year [0..363]" by code_simp
  then show "0 \<le> yday \<Longrightarrow> yday \<le> 363 \<Longrightarrow> ?thesis" by (simp add: list_all_iff)
qed

lemma civil_next:
  assumes "gauss_split N = (yday, year)"
  shows "civil (gauss_split (N + 1)) = next_date (civil (yday, year))"
proof -
  note c = gauss_split_correct [OF assms]
  have ends: "march_month 364 = 12" "march_mday 364 = 28" "march_month 365 = 12" "march_mday 365 = 29"
    "march_month 0 = 1" "march_mday 0 = 1"
    by (simp_all add: march_month_def march_mday_def)
  consider "yday \<le> 363" | "yday = 364" "is_leap (year + 1)" | "yday = 364" "\<not> is_leap (year + 1)" | "yday = 365"
    using c(3) by linarith
  then show ?thesis
  proof cases
    case 1
    then have "gauss_split (N + 1) = (yday + 1, year)" using c by (intro gauss_split_unique) auto
    moreover have "mday_tab ! Suc 0 = 28" by (simp add: mday_tab_def)
    ultimately show ?thesis using next_in_year_all [OF c(2) 1]
      by (auto simp: civil_def next_date_def month_len_def next_in_year_def Let_def split: if_splits)
  next
    case 2
    then have "gauss_split (N + 1) = (365, year)" using c by (intro gauss_split_unique) auto
    with 2 ends show ?thesis by (simp add: civil_def next_date_def month_len_def)
  next
    case 3
    then have "gauss_split (N + 1) = (0, year + 1)"
      using c gauss_next [of "year + 1"] by (intro gauss_split_unique) auto
    with 3 ends show ?thesis by (simp add: civil_def next_date_def month_len_def mday_tab_def)
  next
    case 4
    then have "gauss_split (N + 1) = (0, year + 1)"
      using c gauss_next [of "year + 1"] by (intro gauss_split_unique) auto
    with 4 ends c(4) show ?thesis by (simp add: civil_def next_date_def month_len_def)
  qed
qed


section \<open>Properties\<close>

text \<open>
  C38: every time from the epoch to the end of the year 9999, printed by \<open>ngx_http_time\<close>
  (Date, Last-Modified, Expires headers) and read by \<open>ngx_parse_http_time\<close>
  (If-Modified-Since), comes back unchanged.
\<close>

theorem http_time_roundtrip:
  assumes "0 \<le> t" "t \<le> http_time_max"
  shows "ngx_parse_http_time (ngx_http_time t) = Some t"
  using assms by (intro http_date.dec_enc) simp

theorem http_time_roundtrip_witness:
  "0 \<le> (784111777 :: int) \<and> 784111777 \<le> http_time_max
   \<and> ngx_parse_http_time (ngx_http_time 784111777) = Some 784111777"
proof -
  have h: "0 \<le> (784111777 :: int)" "784111777 \<le> http_time_max" by (simp_all add: http_time_max_def)
  show ?thesis using h http_time_roundtrip [OF h] by blast
qed

text \<open>
  On any byte string \<open>ngx_parse_http_time\<close> reads only bytes of that string: the length
  checks made once per format cover every later access.
\<close>

theorem parse_http_time_memory_safe: "ngx_parse_http_time s \<noteq> None"
  using safe_parse_http_time by (simp add: ngx_parse_http_time_def result_safe)

text \<open>The date of a time is that of its day, and the days follow each other.\<close>

lemma gmtime_date:
  assumes "0 \<le> t" "t \<le> http_time_max"
  shows "tm_date (ngx_gmtime t) = civil (gauss_split (days_of_time t))"
proof -
  obtain yday year where g: "gauss_split (days_of_time t) = (yday, year)" by fastforce
  show ?thesis by (simp add: ngx_gmtime_fields [OF assms g] g tm_date_def civil_def)
qed

lemma civil_days: "civil (gauss_split (days_of_time 0 + int n)) = (next_date ^^ n) (1970, 1, 1)"
proof (induction n)
  case 0
  have "gauss_split (days_of_time 0) = (306, 1969)"
    by (rule gauss_split_unique) (simp_all add: days_of_time_def gauss_days_def)
  then show ?case by (simp add: civil_def march_month_def march_mday_def)
next
  case (Suc n)
  obtain yday year where "gauss_split (days_of_time 0 + int n) = (yday, year)" by fastforce
  then have "civil (gauss_split (days_of_time 0 + int n + 1)) = next_date (civil (gauss_split (days_of_time 0 + int n)))"
    using civil_next by simp
  then show ?case using Suc.IH by (simp add: add.commute add.left_commute)
qed

text \<open>
  C39: \<open>ngx_gmtime\<close> is the Gregorian calendar, for every second from time 0 to the end of the
  year 9999: the date is January 1, 1970 moved on by one day, with the month lengths and the
  leap-year rule, for every full 86400 seconds; the weekday is Thursday moved on as often;
  and the hour, minute and second are those of the seconds left over.
\<close>

theorem gmtime_calendar:
  assumes "0 \<le> t" "t \<le> http_time_max"
  shows "tm_date (ngx_gmtime t) = (next_date ^^ nat (t div 86400)) (1970, 1, 1)
    \<and> tm_wday (ngx_gmtime t) = (4 + t div 86400) mod 7
    \<and> tm_hour (ngx_gmtime t) = t mod 86400 div 3600
    \<and> tm_min (ngx_gmtime t) = t mod 86400 mod 3600 div 60
    \<and> tm_sec (ngx_gmtime t) = t mod 86400 mod 3600 mod 60"
proof -
  obtain yday year where g: "gauss_split (days_of_time t) = (yday, year)" by fastforce
  have "days_of_time t = days_of_time 0 + int (nat (t div 86400))"
    using assms(1) by (simp add: days_of_time_def pos_imp_zdiv_nonneg_iff)
  then have "tm_date (ngx_gmtime t) = (next_date ^^ nat (t div 86400)) (1970, 1, 1)"
    using gmtime_date [OF assms] civil_days by metis
  then show ?thesis by (simp add: ngx_gmtime_fields [OF assms g] mod_mod_cancel)
qed

theorem gmtime_calendar_witness:
  "tm_hour (ngx_gmtime 951782399) = 23 \<and> tm_min (ngx_gmtime 951782399) = 59 \<and> tm_sec (ngx_gmtime 951782399) = 59
   \<and> tm_wday (ngx_gmtime 951782399) = 1"
  using gmtime_calendar [of 951782399] by (simp add: http_time_max_def)

end
