(* ===== verification/Ngx_Base64.thy ===== *)
theory Ngx_Base64
  imports Ngx_Prelude
begin

unbundle bit_operations_syntax

section \<open>Base64 (ngx_string.c)\<close>

text \<open>
  The two encoders and the two decoders, the standard alphabet with padding and the one for
  URLs without. The destination is the list of bytes written to \<open>dst->data\<close>, whose length is
  \<open>dst->len\<close>; the sizes callers reserve for it are those of the macros of ngx_string.h.
\<close>

definition basis64 :: bytes where
  "basis64 = str ''ABCDEFGHIJKLMNOPQRSTUVWXYZabcdefghijklmnopqrstuvwxyz0123456789+/''"

definition basis64url :: bytes where
  "basis64url = str ''ABCDEFGHIJKLMNOPQRSTUVWXYZabcdefghijklmnopqrstuvwxyz0123456789-_''"

fun ngx_encode_base64_internal :: "bytes \<Rightarrow> bool \<Rightarrow> bytes \<Rightarrow> bytes" where
  "ngx_encode_base64_internal basis padding [] = []"
| "ngx_encode_base64_internal basis padding [s0] =
     [basis ! unat (drop_bit 2 s0 AND 0x3f), basis ! unat (push_bit 4 (s0 AND 3))]
     @ (if padding then [chr CHR ''=''] else []) @ (if padding then [chr CHR ''=''] else [])"
| "ngx_encode_base64_internal basis padding [s0, s1] =
     [basis ! unat (drop_bit 2 s0 AND 0x3f), basis ! unat (push_bit 4 (s0 AND 3) OR drop_bit 4 s1),
      basis ! unat (push_bit 2 (s1 AND 0x0f))] @ (if padding then [chr CHR ''=''] else [])"
| "ngx_encode_base64_internal basis padding (s0 # s1 # s2 # s) =
     [basis ! unat (drop_bit 2 s0 AND 0x3f), basis ! unat (push_bit 4 (s0 AND 3) OR drop_bit 4 s1),
      basis ! unat (push_bit 2 (s1 AND 0x0f) OR drop_bit 6 s2), basis ! unat (s2 AND 0x3f)]
     @ ngx_encode_base64_internal basis padding s"

definition ngx_encode_base64 :: "bytes \<Rightarrow> bytes" where
  "ngx_encode_base64 src = ngx_encode_base64_internal basis64 True src"

definition ngx_encode_base64url :: "bytes \<Rightarrow> bytes" where
  "ngx_encode_base64url src = ngx_encode_base64_internal basis64url False src"

definition unbasis64 :: bytes where
  "unbasis64 =
    [77, 77, 77, 77, 77, 77, 77, 77, 77, 77, 77, 77, 77, 77, 77, 77,
     77, 77, 77, 77, 77, 77, 77, 77, 77, 77, 77, 77, 77, 77, 77, 77,
     77, 77, 77, 77, 77, 77, 77, 77, 77, 77, 77, 62, 77, 77, 77, 63,
     52, 53, 54, 55, 56, 57, 58, 59, 60, 61, 77, 77, 77, 77, 77, 77,
     77, 0, 1, 2, 3, 4, 5, 6, 7, 8, 9, 10, 11, 12, 13, 14,
     15, 16, 17, 18, 19, 20, 21, 22, 23, 24, 25, 77, 77, 77, 77, 77,
     77, 26, 27, 28, 29, 30, 31, 32, 33, 34, 35, 36, 37, 38, 39, 40,
     41, 42, 43, 44, 45, 46, 47, 48, 49, 50, 51, 77, 77, 77, 77, 77,
     77, 77, 77, 77, 77, 77, 77, 77, 77, 77, 77, 77, 77, 77, 77, 77,
     77, 77, 77, 77, 77, 77, 77, 77, 77, 77, 77, 77, 77, 77, 77, 77,
     77, 77, 77, 77, 77, 77, 77, 77, 77, 77, 77, 77, 77, 77, 77, 77,
     77, 77, 77, 77, 77, 77, 77, 77, 77, 77, 77, 77, 77, 77, 77, 77,
     77, 77, 77, 77, 77, 77, 77, 77, 77, 77, 77, 77, 77, 77, 77, 77,
     77, 77, 77, 77, 77, 77, 77, 77, 77, 77, 77, 77, 77, 77, 77, 77,
     77, 77, 77, 77, 77, 77, 77, 77, 77, 77, 77, 77, 77, 77, 77, 77,
     77, 77, 77, 77, 77, 77, 77, 77, 77, 77, 77, 77, 77, 77, 77, 77]"

definition unbasis64url :: bytes where
  "unbasis64url =
    [77, 77, 77, 77, 77, 77, 77, 77, 77, 77, 77, 77, 77, 77, 77, 77,
     77, 77, 77, 77, 77, 77, 77, 77, 77, 77, 77, 77, 77, 77, 77, 77,
     77, 77, 77, 77, 77, 77, 77, 77, 77, 77, 77, 77, 77, 62, 77, 77,
     52, 53, 54, 55, 56, 57, 58, 59, 60, 61, 77, 77, 77, 77, 77, 77,
     77, 0, 1, 2, 3, 4, 5, 6, 7, 8, 9, 10, 11, 12, 13, 14,
     15, 16, 17, 18, 19, 20, 21, 22, 23, 24, 25, 77, 77, 77, 77, 63,
     77, 26, 27, 28, 29, 30, 31, 32, 33, 34, 35, 36, 37, 38, 39, 40,
     41, 42, 43, 44, 45, 46, 47, 48, 49, 50, 51, 77, 77, 77, 77, 77,
     77, 77, 77, 77, 77, 77, 77, 77, 77, 77, 77, 77, 77, 77, 77, 77,
     77, 77, 77, 77, 77, 77, 77, 77, 77, 77, 77, 77, 77, 77, 77, 77,
     77, 77, 77, 77, 77, 77, 77, 77, 77, 77, 77, 77, 77, 77, 77, 77,
     77, 77, 77, 77, 77, 77, 77, 77, 77, 77, 77, 77, 77, 77, 77, 77,
     77, 77, 77, 77, 77, 77, 77, 77, 77, 77, 77, 77, 77, 77, 77, 77,
     77, 77, 77, 77, 77, 77, 77, 77, 77, 77, 77, 77, 77, 77, 77, 77,
     77, 77, 77, 77, 77, 77, 77, 77, 77, 77, 77, 77, 77, 77, 77, 77,
     77, 77, 77, 77, 77, 77, 77, 77, 77, 77, 77, 77, 77, 77, 77, 77]"

text \<open>The loop that looks for the end of the data: \<open>None\<close> at a byte outside the alphabet.\<close>

fun base64_len :: "bytes \<Rightarrow> nat \<Rightarrow> bytes \<Rightarrow> nat option" where
  "base64_len basis len [] = Some len"
| "base64_len basis len (ch # src) =
     (if ch = chr CHR ''='' then Some len
      else if basis ! unat ch = 77 then None
      else base64_len basis (len + 1) src)"

text \<open>The loop that decodes, on the \<open>len\<close> bytes found.\<close>

fun base64_decode_loop :: "bytes \<Rightarrow> bytes \<Rightarrow> bytes" where
  "base64_decode_loop basis [] = []"
| "base64_decode_loop basis [s0] = []"
| "base64_decode_loop basis [s0, s1] =
     [push_bit 2 (basis ! unat s0) OR drop_bit 4 (basis ! unat s1)]"
| "base64_decode_loop basis [s0, s1, s2] =
     [push_bit 2 (basis ! unat s0) OR drop_bit 4 (basis ! unat s1),
      push_bit 4 (basis ! unat s1) OR drop_bit 2 (basis ! unat s2)]"
| "base64_decode_loop basis (s0 # s1 # s2 # s3 # s) =
     [push_bit 2 (basis ! unat s0) OR drop_bit 4 (basis ! unat s1),
      push_bit 4 (basis ! unat s1) OR drop_bit 2 (basis ! unat s2),
      push_bit 6 (basis ! unat s2) OR basis ! unat s3] @ base64_decode_loop basis s"

definition ngx_decode_base64_internal :: "bytes \<Rightarrow> bytes \<Rightarrow> bytes option" where
  "ngx_decode_base64_internal basis src =
     (case base64_len basis 0 src of
        None \<Rightarrow> None
      | Some len \<Rightarrow> if len mod 4 = 1 then None else Some (base64_decode_loop basis (take len src)))"

definition ngx_decode_base64 :: "bytes \<Rightarrow> bytes option" where
  "ngx_decode_base64 src = ngx_decode_base64_internal unbasis64 src"

definition ngx_decode_base64url :: "bytes \<Rightarrow> bytes option" where
  "ngx_decode_base64url src = ngx_decode_base64_internal unbasis64url src"

definition ngx_base64_encoded_length :: "nat \<Rightarrow> nat" where
  "ngx_base64_encoded_length len = ((len + 2) div 3) * 4"

definition ngx_base64_decoded_length :: "nat \<Rightarrow> nat" where
  "ngx_base64_decoded_length len = ((len + 3) div 4) * 3"

subsection \<open>Regrouping bits\<close>

lemma byte_bits_eqI:
  assumes "bit a 0 = bit b 0" "bit a 1 = bit b 1" "bit a 2 = bit b 2" "bit a 3 = bit b 3"
    "bit a 4 = bit b 4" "bit a 5 = bit b 5" "bit a 6 = bit b 6" "bit a 7 = bit b 7"
  shows "a = (b :: byte)"
proof (rule bit_word_eqI)
  fix n assume "n < LENGTH(8)"
  then have "n \<in> {0, 1, 2, 3, 4, 5, 6, 7}" by auto
  then show "bit a n = bit b n" using assms by auto
qed

lemma byte_no_bit: "8 \<le> n \<Longrightarrow> \<not> bit (b :: byte) n"
  using bit_imp_le_length [of b n] by auto

lemma sextet_masks: "(x :: byte) AND 3 = take_bit 2 x" "x AND 15 = take_bit 4 x" "x AND 63 = take_bit 6 x"
  by (simp_all add: take_bit_eq_mask mask_eq_exp_minus_1)

lemma regroup:
  "push_bit 2 (drop_bit 2 a AND 63) OR drop_bit 4 (push_bit 4 (a AND 3) OR drop_bit 4 b) = (a :: byte)"
  "push_bit 2 (drop_bit 2 a AND 63) OR drop_bit 4 (push_bit 4 (a AND 3)) = (a :: byte)"
  "push_bit 4 (push_bit 4 (a AND 3) OR drop_bit 4 b) OR drop_bit 2 (push_bit 2 (b AND 15) OR drop_bit 6 c) = (b :: byte)"
  "push_bit 4 (push_bit 4 (a AND 3) OR drop_bit 4 b) OR drop_bit 2 (push_bit 2 (b AND 15)) = (b :: byte)"
  "push_bit 6 (push_bit 2 (b AND 15) OR drop_bit 6 c) OR (c AND 63) = (c :: byte)"
  unfolding sextet_masks by ((rule byte_bits_eqI; simp add: bit_simps byte_no_bit))+

lemma sextetI: "take_bit 6 x = x \<Longrightarrow> unat (x :: byte) < 64"
proof -
  assume "take_bit 6 x = x"
  then have "unat x = take_bit 6 (unat x)" by (metis unsigned_take_bit_eq)
  also have "\<dots> < 64" by (simp add: take_bit_eq_mod)
  finally show ?thesis .
qed

lemma sextets:
  "unat (drop_bit 2 a AND 63 :: byte) < 64" "unat (push_bit 4 (a AND 3) OR drop_bit 4 b :: byte) < 64"
  "unat (push_bit 4 (a AND 3) :: byte) < 64" "unat (push_bit 2 (b AND 15) OR drop_bit 6 c :: byte) < 64"
  "unat (push_bit 2 (b AND 15) :: byte) < 64" "unat (c AND 63 :: byte) < 64"
  unfolding sextet_masks by ((rule sextetI, rule byte_bits_eqI; simp add: bit_simps byte_no_bit))+

subsection \<open>Alphabets\<close>

text \<open>The length of the text without padding.\<close>

lemma unpadded_length: "length (ngx_encode_base64_internal basis False s) = (4 * length s + 2) div 3"
  by (induction basis False s rule: ngx_encode_base64_internal.induct) simp_all

lemma padded_length: "length (ngx_encode_base64_internal basis True s) = ngx_base64_encoded_length (length s)"
  by (induction basis True s rule: ngx_encode_base64_internal.induct) (simp_all add: ngx_base64_encoded_length_def, presburger)

lemma unpadded_mod: "length (ngx_encode_base64_internal basis False s) mod 4 \<noteq> 1"
  by (induction basis False s rule: ngx_encode_base64_internal.induct) simp_all

lemma seven_div: "(7 + n) div 4 = Suc ((n + 3) div 4)" for n :: nat
  by presburger

lemma decode_loop_length: "length (base64_decode_loop basis s) \<le> ngx_base64_decoded_length (length s)"
  by (induction basis s rule: base64_decode_loop.induct) (simp_all add: ngx_base64_decoded_length_def seven_div)

lemma base64_len_le: "base64_len basis n s = Some len \<Longrightarrow> len \<le> n + length s"
  by (induction basis n s rule: base64_len.induct) (auto split: if_splits)

text \<open>A decoding table that inverts an alphabet.\<close>

locale alphabet =
  fixes enc dec :: bytes
  assumes enc_length: "length enc = 64"
    and dec_enc_sextet: "\<forall>i<64. dec ! unat (enc ! i) = word_of_nat i"
    and enc_not_pad: "\<forall>i<64. enc ! i \<noteq> chr CHR ''=''"
begin

lemma sextet:
  assumes "unat (x :: byte) < 64"
  shows "dec ! unat (enc ! unat x) = x" "enc ! unat x \<noteq> 61" "x \<noteq> 77"
  using assms dec_enc_sextet enc_not_pad by auto

lemmas sextet_simps = sextet [OF sextets(1)] sextet [OF sextets(2)] sextet [OF sextets(3)]
  sextet [OF sextets(4)] sextet [OF sextets(5)] sextet [OF sextets(6)]

lemma decode_unpadded:
  "b = enc \<Longrightarrow> \<not> p \<Longrightarrow> base64_decode_loop dec (ngx_encode_base64_internal b p s) = s"
  by (induction b p s rule: ngx_encode_base64_internal.induct)
    (simp_all add: sextet_simps regroup del: push_bit_and drop_bit_and push_bit_or drop_bit_or)

lemma unpadded_chars:
  "b = enc \<Longrightarrow> \<not> p \<Longrightarrow> list_all (\<lambda>ch. ch \<noteq> 61 \<and> dec ! unat ch \<noteq> 77) (ngx_encode_base64_internal b p s)"
  by (induction b p s rule: ngx_encode_base64_internal.induct)
    (simp_all add: sextet_simps del: push_bit_and drop_bit_and push_bit_or drop_bit_or)

lemma padded: "\<exists>k. ngx_encode_base64_internal enc True s = ngx_encode_base64_internal enc False s @ replicate k 61"
proof (induction enc True s rule: ngx_encode_base64_internal.induct)
  case (2 basis s0)
  then show ?case by (intro exI [of _ 2]) (simp add: numeral_2_eq_2)
next
  case (3 basis s0 s1)
  then show ?case by (intro exI [of _ 1]) simp
qed auto

lemma len_of_text:
  "list_all (\<lambda>ch. ch \<noteq> 61 \<and> dec ! unat ch \<noteq> 77) xs \<Longrightarrow> base64_len dec n (xs @ replicate k 61) = Some (n + length xs)"
proof (induction xs arbitrary: n)
  case Nil
  then show ?case by (cases k) simp_all
qed simp

lemma roundtrip: "ngx_decode_base64_internal dec (ngx_encode_base64_internal enc padding s) = Some s"
proof -
  let ?e = "ngx_encode_base64_internal enc False s"
  obtain k where k: "ngx_encode_base64_internal enc padding s = ?e @ replicate k 61"
    using padded [of s] by (cases padding) (auto intro: exI [of _ 0])
  have "length ?e mod 4 \<noteq> 1" by (rule unpadded_mod)
  then show ?thesis
    using len_of_text [OF unpadded_chars [OF refl], of False 0 s k] decode_unpadded [OF refl, of False s] by (simp add: k ngx_decode_base64_internal_def)
qed

end

interpretation std: alphabet basis64 unbasis64
  by unfold_locales code_simp+

interpretation url: alphabet basis64url unbasis64url
  by unfold_locales code_simp+

interpretation base64: codec ngx_encode_base64 ngx_decode_base64 "\<lambda>_. True"
  by unfold_locales (simp add: ngx_encode_base64_def ngx_decode_base64_def std.roundtrip)

interpretation base64url: codec ngx_encode_base64url ngx_decode_base64url "\<lambda>_. True"
  by unfold_locales (simp add: ngx_encode_base64url_def ngx_decode_base64url_def url.roundtrip)

subsection \<open>Properties\<close>

text \<open>
  C30: Base64 round trip, in both alphabets: every byte string is decoded back to itself
  from its encoding, no two byte strings have the same encoding, the encodings fit the
  sizes callers reserve (exactly, with padding), and whatever the input a decoder writes
  no more bytes than reserved.
\<close>

theorem base64_roundtrip:
  "ngx_decode_base64 (ngx_encode_base64 s) = Some s
   \<and> ngx_decode_base64url (ngx_encode_base64url s) = Some s
   \<and> inj ngx_encode_base64 \<and> inj ngx_encode_base64url
   \<and> length (ngx_encode_base64 s) = ngx_base64_encoded_length (length s)
   \<and> length (ngx_encode_base64url s) \<le> ngx_base64_encoded_length (length s)
   \<and> (case ngx_decode_base64 x of None \<Rightarrow> True | Some d \<Rightarrow> length d \<le> ngx_base64_decoded_length (length x))
   \<and> (case ngx_decode_base64url x of None \<Rightarrow> True | Some d \<Rightarrow> length d \<le> ngx_base64_decoded_length (length x))"
proof -
  have dl: "case ngx_decode_base64_internal basis x of None \<Rightarrow> True | Some d \<Rightarrow> length d \<le> ngx_base64_decoded_length (length x)" for basis
  proof (cases "base64_len basis 0 x")
    case (Some len)
    have "length (base64_decode_loop basis (take len x)) \<le> ngx_base64_decoded_length (length (take len x))"
      by (rule decode_loop_length)
    also have "\<dots> \<le> ngx_base64_decoded_length (length x)"
      by (simp add: ngx_base64_decoded_length_def div_le_mono)
    finally show ?thesis using Some by (simp add: ngx_decode_base64_internal_def)
  qed (simp add: ngx_decode_base64_internal_def)
  have "inj ngx_encode_base64" "inj ngx_encode_base64url"
    using base64.enc_inj_on base64url.enc_inj_on by simp_all
  moreover have "length (ngx_encode_base64url s) \<le> ngx_base64_encoded_length (length s)"
    by (simp add: ngx_encode_base64url_def unpadded_length ngx_base64_encoded_length_def)
  ultimately show ?thesis
    using base64.dec_enc base64url.dec_enc dl [of unbasis64] dl [of unbasis64url]
    by (simp add: padded_length ngx_encode_base64_def ngx_decode_base64_def ngx_decode_base64url_def)
qed

end
