(* ===== verification/Ngx_Crc32.thy ===== *)
theory Ngx_Crc32
  imports Ngx_Prelude
begin

section \<open>CRC-32 (ngx_crc32.c, ngx_crc32.h)\<close>

text \<open>
  The checksums of src/ngx-1.12.0/src/core/ngx_crc32.h with the tables of ngx_crc32.c: over the
  table of 16 entries (\<open>ngx_crc32_short\<close>), over the table of 256 (\<open>ngx_crc32_long\<close>) and piece by
  piece (\<open>ngx_crc32_init\<close>, \<open>ngx_crc32_update\<close>, \<open>ngx_crc32_final\<close>). They are compared with the
  shift register that takes one bit at a time. Moving the short table to a cache line
  (\<open>ngx_crc32_table_init\<close>) copies its entries and is left out.
\<close>

subsection \<open>Model\<close>

definition ngx_crc32_table16 :: "u32 list" where
  "ngx_crc32_table16 =
     [0x00000000, 0x1db71064, 0x3b6e20c8, 0x26d930ac, 0x76dc4190, 0x6b6b51f4, 0x4db26158, 0x5005713c,
      0xedb88320, 0xf00f9344, 0xd6d6a3e8, 0xcb61b38c, 0x9b64c2b0, 0x86d3d2d4, 0xa00ae278, 0xbdbdf21c]"

definition ngx_crc32_table256 :: "u32 list" where
  "ngx_crc32_table256 =
     [0x00000000, 0x77073096, 0xee0e612c, 0x990951ba, 0x076dc419, 0x706af48f, 0xe963a535, 0x9e6495a3,
      0x0edb8832, 0x79dcb8a4, 0xe0d5e91e, 0x97d2d988, 0x09b64c2b, 0x7eb17cbd, 0xe7b82d07, 0x90bf1d91,
      0x1db71064, 0x6ab020f2, 0xf3b97148, 0x84be41de, 0x1adad47d, 0x6ddde4eb, 0xf4d4b551, 0x83d385c7,
      0x136c9856, 0x646ba8c0, 0xfd62f97a, 0x8a65c9ec, 0x14015c4f, 0x63066cd9, 0xfa0f3d63, 0x8d080df5,
      0x3b6e20c8, 0x4c69105e, 0xd56041e4, 0xa2677172, 0x3c03e4d1, 0x4b04d447, 0xd20d85fd, 0xa50ab56b,
      0x35b5a8fa, 0x42b2986c, 0xdbbbc9d6, 0xacbcf940, 0x32d86ce3, 0x45df5c75, 0xdcd60dcf, 0xabd13d59,
      0x26d930ac, 0x51de003a, 0xc8d75180, 0xbfd06116, 0x21b4f4b5, 0x56b3c423, 0xcfba9599, 0xb8bda50f,
      0x2802b89e, 0x5f058808, 0xc60cd9b2, 0xb10be924, 0x2f6f7c87, 0x58684c11, 0xc1611dab, 0xb6662d3d,
      0x76dc4190, 0x01db7106, 0x98d220bc, 0xefd5102a, 0x71b18589, 0x06b6b51f, 0x9fbfe4a5, 0xe8b8d433,
      0x7807c9a2, 0x0f00f934, 0x9609a88e, 0xe10e9818, 0x7f6a0dbb, 0x086d3d2d, 0x91646c97, 0xe6635c01,
      0x6b6b51f4, 0x1c6c6162, 0x856530d8, 0xf262004e, 0x6c0695ed, 0x1b01a57b, 0x8208f4c1, 0xf50fc457,
      0x65b0d9c6, 0x12b7e950, 0x8bbeb8ea, 0xfcb9887c, 0x62dd1ddf, 0x15da2d49, 0x8cd37cf3, 0xfbd44c65,
      0x4db26158, 0x3ab551ce, 0xa3bc0074, 0xd4bb30e2, 0x4adfa541, 0x3dd895d7, 0xa4d1c46d, 0xd3d6f4fb,
      0x4369e96a, 0x346ed9fc, 0xad678846, 0xda60b8d0, 0x44042d73, 0x33031de5, 0xaa0a4c5f, 0xdd0d7cc9,
      0x5005713c, 0x270241aa, 0xbe0b1010, 0xc90c2086, 0x5768b525, 0x206f85b3, 0xb966d409, 0xce61e49f,
      0x5edef90e, 0x29d9c998, 0xb0d09822, 0xc7d7a8b4, 0x59b33d17, 0x2eb40d81, 0xb7bd5c3b, 0xc0ba6cad,
      0xedb88320, 0x9abfb3b6, 0x03b6e20c, 0x74b1d29a, 0xead54739, 0x9dd277af, 0x04db2615, 0x73dc1683,
      0xe3630b12, 0x94643b84, 0x0d6d6a3e, 0x7a6a5aa8, 0xe40ecf0b, 0x9309ff9d, 0x0a00ae27, 0x7d079eb1,
      0xf00f9344, 0x8708a3d2, 0x1e01f268, 0x6906c2fe, 0xf762575d, 0x806567cb, 0x196c3671, 0x6e6b06e7,
      0xfed41b76, 0x89d32be0, 0x10da7a5a, 0x67dd4acc, 0xf9b9df6f, 0x8ebeeff9, 0x17b7be43, 0x60b08ed5,
      0xd6d6a3e8, 0xa1d1937e, 0x38d8c2c4, 0x4fdff252, 0xd1bb67f1, 0xa6bc5767, 0x3fb506dd, 0x48b2364b,
      0xd80d2bda, 0xaf0a1b4c, 0x36034af6, 0x41047a60, 0xdf60efc3, 0xa867df55, 0x316e8eef, 0x4669be79,
      0xcb61b38c, 0xbc66831a, 0x256fd2a0, 0x5268e236, 0xcc0c7795, 0xbb0b4703, 0x220216b9, 0x5505262f,
      0xc5ba3bbe, 0xb2bd0b28, 0x2bb45a92, 0x5cb36a04, 0xc2d7ffa7, 0xb5d0cf31, 0x2cd99e8b, 0x5bdeae1d,
      0x9b64c2b0, 0xec63f226, 0x756aa39c, 0x026d930a, 0x9c0906a9, 0xeb0e363f, 0x72076785, 0x05005713,
      0x95bf4a82, 0xe2b87a14, 0x7bb12bae, 0x0cb61b38, 0x92d28e9b, 0xe5d5be0d, 0x7cdcefb7, 0x0bdbdf21,
      0x86d3d2d4, 0xf1d4e242, 0x68ddb3f8, 0x1fda836e, 0x81be16cd, 0xf6b9265b, 0x6fb077e1, 0x18b74777,
      0x88085ae6, 0xff0f6a70, 0x66063bca, 0x11010b5c, 0x8f659eff, 0xf862ae69, 0x616bffd3, 0x166ccf45,
      0xa00ae278, 0xd70dd2ee, 0x4e048354, 0x3903b3c2, 0xa7672661, 0xd06016f7, 0x4969474d, 0x3e6e77db,
      0xaed16a4a, 0xd9d65adc, 0x40df0b66, 0x37d83bf0, 0xa9bcae53, 0xdebb9ec5, 0x47b2cf7f, 0x30b5ffe9,
      0xbdbdf21c, 0xcabac28a, 0x53b39330, 0x24b4a3a6, 0xbad03605, 0xcdd70693, 0x54de5729, 0x23d967bf,
      0xb3667a2e, 0xc4614ab8, 0x5d681b02, 0x2a6f2b94, 0xb40bbe37, 0xc30c8ea1, 0x5a05df1b, 0x2d02ef8d]"

text \<open>One byte of the loop of \<open>ngx_crc32_short\<close>: its lower half, then its upper half.\<close>

definition crc32_nibble :: "u32 \<Rightarrow> u32 \<Rightarrow> u32" where
  "crc32_nibble crc c = ngx_crc32_table16 ! unat ((crc XOR c) AND 0xf) XOR drop_bit 4 crc"

fun crc32_short_loop :: "u32 \<Rightarrow> bytes \<Rightarrow> u32" where
  "crc32_short_loop crc [] = crc"
| "crc32_short_loop crc (c # p) =
     crc32_short_loop (crc32_nibble (crc32_nibble crc (ucast (c AND 0xf))) (ucast (drop_bit 4 c))) p"

definition ngx_crc32_short :: "bytes \<Rightarrow> u32" where
  "ngx_crc32_short p = crc32_short_loop 0xffffffff p XOR 0xffffffff"

definition ngx_crc32_init :: u32 where "ngx_crc32_init = 0xffffffff"

fun ngx_crc32_update :: "u32 \<Rightarrow> bytes \<Rightarrow> u32" where
  "ngx_crc32_update c [] = c"
| "ngx_crc32_update c (b # p) =
     ngx_crc32_update (ngx_crc32_table256 ! unat ((c XOR ucast b) AND 0xff) XOR drop_bit 8 c) p"

definition ngx_crc32_final :: "u32 \<Rightarrow> u32" where "ngx_crc32_final crc = crc XOR 0xffffffff"

text \<open>\<open>ngx_crc32_long\<close> has the loop of \<open>ngx_crc32_update\<close>.\<close>

definition ngx_crc32_long :: "bytes \<Rightarrow> u32" where
  "ngx_crc32_long p = ngx_crc32_update 0xffffffff p XOR 0xffffffff"

subsection \<open>The shift register\<close>

definition crc_shr :: "u32 \<Rightarrow> u32" where
  "crc_shr r = (if bit r 0 then drop_bit 1 r XOR 0xEDB88320 else drop_bit 1 r)"

text \<open>CRC-32 of IEEE 802.3: the bits of every byte from the least significant one on.\<close>

definition crc32_byte :: "u32 \<Rightarrow> byte \<Rightarrow> u32" where
  "crc32_byte crc b = (crc_shr ^^ 8) (crc XOR ucast b)"

definition crc32_ieee :: "bytes \<Rightarrow> u32" where
  "crc32_ieee p = NOT (foldl crc32_byte (NOT 0) p)"

text \<open>A step back.\<close>

definition crc_shl :: "u32 \<Rightarrow> u32" where
  "crc_shl r = (if bit r 31 then push_bit 1 (r XOR 0xEDB88320) OR 1 else push_bit 1 r)"

lemma crc_shr_xor: "crc_shr (a XOR b) = crc_shr a XOR crc_shr b"
  by (rule bit_word_eqI) (auto simp: crc_shr_def drop_bit_xor bit_xor_iff)

lemma crc_shrs_xor: "(crc_shr ^^ n) (a XOR b) = (crc_shr ^^ n) a XOR (crc_shr ^^ n) b"
  by (induction n) (simp_all add: crc_shr_xor)

lemma crc_shl_shr: "crc_shl (crc_shr r) = r"
proof -
  have top: "\<not> bit (drop_bit 1 r) 31" using bit_imp_le_length [of r 32] by (auto simp: bit_simps)
  have p: "bit (0xEDB88320 :: u32) 31" by simp
  show ?thesis
  proof (cases "bit r 0")
    case True
    then have "crc_shl (crc_shr r) = push_bit 1 (drop_bit 1 r) OR 1"
      using top p by (simp add: crc_shl_def crc_shr_def bit_xor_iff xor.assoc)
    also have "\<dots> = r"
      using True by (intro bit_word_eqI) (auto simp: bit_or_iff bit_push_bit_iff bit_drop_bit_eq bit_1_iff simp del: push_bit_Suc One_nat_def)
    finally show ?thesis .
  next
    case False
    then have "crc_shl (crc_shr r) = push_bit 1 (drop_bit 1 r)"
      using top by (simp add: crc_shl_def crc_shr_def)
    also have "\<dots> = r"
      using False by (intro bit_word_eqI) (auto simp: bit_push_bit_iff bit_drop_bit_eq Suc_le_eq simp del: push_bit_Suc, (metis Suc_pred gr0I)+)
    finally show ?thesis .
  qed
qed

lemma crc_shrs_zero [simp]: "(crc_shr ^^ n) 0 = 0"
proof (induction n)
  case (Suc n)
  then show ?case by (simp add: crc_shr_def)
qed simp

lemma crc_shrs_even: "(\<And>i. i < n \<Longrightarrow> \<not> bit w i) \<Longrightarrow> (crc_shr ^^ n) w = drop_bit n w"
proof (induction n)
  case (Suc n)
  then have "(crc_shr ^^ Suc n) w = crc_shr (drop_bit n w)" by simp
  also have "\<dots> = drop_bit (Suc n) w"
    using Suc.prems [of n] by (simp add: crc_shr_def bit_drop_bit_eq)
  finally show ?case .
qed simp

text \<open>Several shifts at once: the bits shifted out act on their own.\<close>

lemma crc_shrs_split: "(crc_shr ^^ n) x = (crc_shr ^^ n) (take_bit n x) XOR drop_bit n x"
proof -
  have "x = take_bit n x XOR push_bit n (drop_bit n x)"
    by (rule bit_eqI) (auto simp: bit_simps)
  then have "(crc_shr ^^ n) x = (crc_shr ^^ n) (take_bit n x) XOR (crc_shr ^^ n) (push_bit n (drop_bit n x))"
    using crc_shrs_xor by metis
  also have "(crc_shr ^^ n) (push_bit n (drop_bit n x)) = drop_bit n (push_bit n (drop_bit n x))"
    by (rule crc_shrs_even) (simp add: bit_simps)
  also have "\<dots> = drop_bit n x" by (rule bit_word_eqI) (auto simp: bit_simps dest: bit_imp_le_length)
  finally show ?thesis .
qed

text \<open>
  A table of the registers after \<open>k\<close> shifts is determined by its own first half: the entry of
  \<open>2 i\<close> is one step back from the entry of \<open>i\<close>.
\<close>

lemma crc_table:
  assumes "tab = paired crc_shl (\<lambda>t. crc_shl t XOR (crc_shr ^^ k) 1) (take n tab)"
    and "length tab = 2 * n" "tab ! 0 = 0" "n \<le> 128" "i < 2 * n"
  shows "tab ! i = (crc_shr ^^ k) (word_of_nat i)"
  using assms(5)
proof (induction i rule: less_induct)
  case (less i)
  show ?case
  proof (cases "i = 0")
    case True
    then show ?thesis using assms(3) by simp
  next
    case False
    define j where "j = i div 2"
    have j: "j < n" "j < i" using less.prems False by (simp_all add: j_def)
    have small: "\<not> bit j m" if "31 \<le> m" for m
    proof -
      have "j < 2 ^ 31" using j(1) assms(4) by simp
      then have "j < 2 ^ m" using power_increasing [OF that, of "2 :: nat"] by linarith
      then show ?thesis by (simp add: bit_iff_odd)
    qed
    have "crc_shr (word_of_nat (2 * j)) = word_of_nat j"
    proof (rule bit_word_eqI)
      fix m :: nat
      show "bit (crc_shr (word_of_nat (2 * j))) m = bit (word_of_nat j :: u32) m"
        using small [of m] by (cases "m < 31") (auto simp: crc_shr_def bit_simps bit_of_nat_iff bit_double_iff not_less)
    qed
    then have "(crc_shr ^^ k) (word_of_nat j) = crc_shr ((crc_shr ^^ k) (word_of_nat (2 * j)))"
      by (metis funpow_swap1)
    then have undo: "crc_shl ((crc_shr ^^ k) (word_of_nat j)) = (crc_shr ^^ k) (word_of_nat (2 * j))"
      by (simp add: crc_shl_shr)
    have odd: "(word_of_nat (2 * j + 1) :: u32) = word_of_nat (2 * j) XOR 1"
      by (rule bit_word_eqI, auto simp: bit_xor_iff bit_of_nat_iff bit_1_iff bit_double_iff even_bit_succ_iff)
    have IH: "tab ! j = (crc_shr ^^ k) (word_of_nat j)" using less.IH j less.prems by simp
    note nth = paired_table [OF assms(1,2) j(1)]
    consider "i = 2 * j" | "i = 2 * j + 1" unfolding j_def by linarith
    then show ?thesis
      by cases (use nth IH undo odd in \<open>simp_all only: crc_shrs_xor\<close>)
  qed
qed

lemma funpow_4: "(f ^^ 4) x = f (f (f (f x)))"
  by (simp add: eval_nat_numeral)

lemma crc_one: "(crc_shr ^^ 4) 1 = 0x1db71064" "(crc_shr ^^ 8) 1 = 0x77073096"
  by (simp_all add: funpow_4 funpow_8 crc_shr_def)

lemma table16_entry: "i < 16 \<Longrightarrow> ngx_crc32_table16 ! i = (crc_shr ^^ 4) (word_of_nat i)"
proof -
  assume i: "i < 16"
  have "ngx_crc32_table16 = paired crc_shl (\<lambda>t. crc_shl t XOR (crc_shr ^^ 4) 1) (take 8 ngx_crc32_table16)"
    unfolding crc_one ngx_crc32_table16_def by (simp add: crc_shl_def)
  then show ?thesis by (rule crc_table) (use i in \<open>simp_all add: ngx_crc32_table16_def\<close>)
qed

lemma table256_entry: "i < 256 \<Longrightarrow> ngx_crc32_table256 ! i = (crc_shr ^^ 8) (word_of_nat i)"
proof -
  assume i: "i < 256"
  have "ngx_crc32_table256 = paired crc_shl (\<lambda>t. crc_shl t XOR (crc_shr ^^ 8) 1) (take 128 ngx_crc32_table256)"
    unfolding crc_one ngx_crc32_table256_def by (simp add: crc_shl_def)
  then show ?thesis by (rule crc_table) (use i in \<open>simp_all add: ngx_crc32_table256_def\<close>)
qed

subsection \<open>Table steps are shifts\<close>

lemma unat_take_bit_less: "unat (take_bit n (w :: u32)) < 2 ^ n"
  by (simp add: unsigned_take_bit_eq)

lemma crc32_nibble_shift:
  assumes "drop_bit 4 c = 0"
  shows "crc32_nibble crc c = (crc_shr ^^ 4) (crc XOR c)"
proof -
  have f: "(0xf :: u32) = mask 4" by (simp add: mask_eq_exp_minus_1)
  have "unat (take_bit 4 (crc XOR c)) < 16" by (rule unat_take_bit_less [of 4, simplified])
  then have "ngx_crc32_table16 ! unat (take_bit 4 (crc XOR c)) = (crc_shr ^^ 4) (take_bit 4 (crc XOR c))"
    by (simp add: table16_entry)
  moreover have "drop_bit 4 (crc XOR c) = drop_bit 4 crc" using assms by (simp add: drop_bit_xor)
  ultimately show ?thesis
    unfolding crc32_nibble_def f take_bit_eq_mask [symmetric] crc_shrs_split [of 4 "crc XOR c"] by simp
qed

lemma crc32_byte_table:
  "ngx_crc32_table256 ! unat ((c XOR ucast b) AND 0xff) XOR drop_bit 8 c = crc32_byte c b"
proof -
  have f: "(0xff :: u32) = mask 8" by (simp add: mask_eq_exp_minus_1)
  have "unat (take_bit 8 (c XOR ucast b)) < 256" by (rule unat_take_bit_less [of 8, simplified])
  then have "ngx_crc32_table256 ! unat (take_bit 8 (c XOR ucast b)) = (crc_shr ^^ 8) (take_bit 8 (c XOR ucast b))"
    by (simp add: table256_entry)
  moreover have "drop_bit 8 (c XOR ucast b) = drop_bit 8 c"
    by (rule bit_word_eqI) (auto simp: bit_simps dest: bit_imp_le_length)
  ultimately show ?thesis
    unfolding crc32_byte_def f take_bit_eq_mask [symmetric] crc_shrs_split [of 8 "c XOR ucast b"] by simp
qed

lemma crc32_byte_nibbles:
  "crc32_nibble (crc32_nibble crc (ucast (c AND 0xf))) (ucast (drop_bit 4 c)) = crc32_byte crc c" for c :: byte
proof -
  let ?lo = "ucast (c AND 0xf) :: u32" and ?hi = "ucast (drop_bit 4 c) :: u32"
  have f: "(0xf :: byte) = mask 4" by (simp add: mask_eq_exp_minus_1)
  have lo: "drop_bit 4 ?lo = 0"
    by (rule bit_word_eqI) (auto simp: f bit_simps)
  have hi: "drop_bit 4 ?hi = 0"
    by (rule bit_word_eqI) (auto simp: bit_simps dest: bit_imp_le_length)
  have c: "ucast c = ?lo XOR push_bit 4 ?hi"
    by (rule bit_word_eqI) (auto simp: f bit_simps)
  have "(crc_shr ^^ 4) (push_bit 4 ?hi) = drop_bit 4 (push_bit 4 ?hi)"
    by (rule crc_shrs_even) (simp add: bit_simps)
  also have "\<dots> = ?hi" by (rule bit_word_eqI) (auto simp: bit_simps dest: bit_imp_le_length)
  finally have up: "(crc_shr ^^ 4) (push_bit 4 ?hi) = ?hi" .
  have "crc32_byte crc c = (crc_shr ^^ 4) ((crc_shr ^^ 4) ((crc XOR ?lo) XOR push_bit 4 ?hi))"
    by (simp only: crc32_byte_def c xor.assoc funpow_8 funpow_4)
  then show ?thesis
    unfolding crc32_nibble_shift [OF lo] crc32_nibble_shift [OF hi] crc_shrs_xor [of 4 "crc XOR ?lo"] up by simp
qed

lemma crc32_update_spec: "ngx_crc32_update c p = foldl crc32_byte c p"
  by (induction p arbitrary: c) (simp_all add: crc32_byte_table)

lemma crc32_short_spec: "crc32_short_loop c p = foldl crc32_byte c p"
  by (induction p arbitrary: c) (simp_all add: crc32_byte_nibbles)

lemma crc32_update_append: "ngx_crc32_update c (p @ q) = ngx_crc32_update (ngx_crc32_update c p) q"
  by (simp add: crc32_update_spec)

subsection \<open>The checksum\<close>

text \<open>
  The table-driven checksums are CRC-32 of IEEE 802.3: for every byte string, with the
  small table, with the large one, and with the data cut into any pieces, the result is what
  the shift register with the polynomial \<open>0xEDB88320\<close> gives for it bit by bit.
\<close>

theorem crc32_is_ieee:
  "ngx_crc32_short p = crc32_ieee p \<and> ngx_crc32_long p = crc32_ieee p
   \<and> ngx_crc32_final (foldl ngx_crc32_update ngx_crc32_init ps) = crc32_ieee (concat ps)"
proof -
  have "(0xffffffff :: u32) = NOT 0" by simp
  moreover have "x XOR NOT 0 = NOT x" for x :: u32 by simp
  moreover have "foldl ngx_crc32_update c ps = foldl crc32_byte c (concat ps)" for c
    by (induction ps arbitrary: c) (simp_all add: crc32_update_spec)
  ultimately show ?thesis
    unfolding ngx_crc32_short_def ngx_crc32_long_def ngx_crc32_final_def ngx_crc32_init_def crc32_ieee_def
      crc32_update_spec crc32_short_spec by metis
qed

end
