(* ===== verification/Ngx_Escape.thy ===== *)
theory Ngx_Escape
  imports Ngx_Prelude
begin

unbundle bit_operations_syntax

section \<open>Escaping (ngx_string.c)\<close>

text \<open>
  \<open>ngx_escape_uri\<close>, \<open>ngx_escape_html\<close> and \<open>ngx_escape_json\<close> are called twice: with a null
  destination they return how much longer the text will be, with a destination they write
  it. Each of the two uses is a definition here. \<open>ngx_unescape_uri\<close> is a state machine that
  may stop at a question mark; it returns the bytes written and the bytes it did not read.
\<close>

subsection \<open>ngx_escape_uri\<close>

definition escape_tab_uri :: "u32 list" where
  "escape_tab_uri = [0xffffffff, 0x80000029, 0x00000000, 0x80000000,
     0xffffffff, 0xffffffff, 0xffffffff, 0xffffffff]"

definition escape_tab_args :: "u32 list" where
  "escape_tab_args = [0xffffffff, 0x88000869, 0x00000000, 0x80000000,
     0xffffffff, 0xffffffff, 0xffffffff, 0xffffffff]"

definition escape_tab_uri_component :: "u32 list" where
  "escape_tab_uri_component = [0xffffffff, 0xfc009fff, 0x78000001, 0xb8000001,
     0xffffffff, 0xffffffff, 0xffffffff, 0xffffffff]"

definition escape_tab_html :: "u32 list" where
  "escape_tab_html = [0xffffffff, 0x000000ad, 0x00000000, 0x80000000,
     0xffffffff, 0xffffffff, 0xffffffff, 0xffffffff]"

definition escape_tab_refresh :: "u32 list" where
  "escape_tab_refresh = [0xffffffff, 0x00000085, 0x00000000, 0x80000000,
     0xffffffff, 0xffffffff, 0xffffffff, 0xffffffff]"

definition escape_tab_memcached :: "u32 list" where
  "escape_tab_memcached = [0xffffffff, 0x00000021, 0x00000000, 0x00000000,
     0x00000000, 0x00000000, 0x00000000, 0x00000000]"

definition escape_map :: "u32 list list" where
  "escape_map = [escape_tab_uri, escape_tab_args, escape_tab_uri_component, escape_tab_html,
     escape_tab_refresh, escape_tab_memcached, escape_tab_memcached]"

definition must_escape :: "nat \<Rightarrow> byte \<Rightarrow> bool" where
  "must_escape type ch =
     ((escape_map ! type) ! unat (drop_bit 5 ch) AND push_bit (unat (ch AND 0x1f)) 1 \<noteq> 0)"

definition escape_hex :: bytes where "escape_hex = str ''0123456789ABCDEF''"

text \<open>With \<open>dst == NULL\<close>: the number of bytes to be escaped.\<close>

fun ngx_escape_uri_count :: "nat \<Rightarrow> bytes \<Rightarrow> nat" where
  "ngx_escape_uri_count type [] = 0"
| "ngx_escape_uri_count type (ch # src) =
     (if must_escape type ch then 1 else 0) + ngx_escape_uri_count type src"

fun ngx_escape_uri :: "nat \<Rightarrow> bytes \<Rightarrow> bytes" where
  "ngx_escape_uri type [] = []"
| "ngx_escape_uri type (ch # src) =
     (if must_escape type ch
      then chr CHR ''%'' # escape_hex ! unat (drop_bit 4 ch) # escape_hex ! unat (ch AND 0xf) # ngx_escape_uri type src
      else ch # ngx_escape_uri type src)"

subsection \<open>ngx_unescape_uri\<close>

definition NGX_UNESCAPE_URI :: nat where "NGX_UNESCAPE_URI = 1"
definition NGX_UNESCAPE_REDIRECT :: nat where "NGX_UNESCAPE_REDIRECT = 2"

datatype un_state = un_usual | un_quoted | un_quoted_second

text \<open>What a turn of the loop writes, and the state after it; or the jump to \<open>done\<close>.\<close>

datatype un_act = Un_next un_state byte bytes | Un_done bytes

definition un_in_usual :: "nat \<Rightarrow> byte \<Rightarrow> byte \<Rightarrow> un_act" where
  "un_in_usual type decoded ch =
     (if ch = chr CHR ''?'' \<and> type AND (NGX_UNESCAPE_URI OR NGX_UNESCAPE_REDIRECT) \<noteq> 0 then Un_done [ch]
      else if ch = chr CHR ''%'' then Un_next un_quoted decoded []
      else Un_next un_usual decoded [ch])"

definition un_in_quoted :: "byte \<Rightarrow> byte \<Rightarrow> un_act" where
  "un_in_quoted decoded ch =
     (let c = ch OR 0x20 in
      if ch \<ge> chr CHR ''0'' \<and> ch \<le> chr CHR ''9'' then Un_next un_quoted_second (ch - chr CHR ''0'') []
      else if c \<ge> chr CHR ''a'' \<and> c \<le> chr CHR ''f'' then Un_next un_quoted_second (c - chr CHR ''a'' + 10) []
      else Un_next un_usual decoded [ch])"

text \<open>\<open>x\<close> and \<open>y\<close> are the two digits as written, \<open>*(s - 2)\<close> and \<open>*(s - 1)\<close>.\<close>

definition un_in_quoted_second :: "nat \<Rightarrow> byte \<Rightarrow> byte \<Rightarrow> byte \<Rightarrow> un_act" where
  "un_in_quoted_second type decoded x y =
     (let c = y OR 0x20; raw = Un_next un_usual decoded [chr CHR ''%'', x, y] in
      if y \<ge> chr CHR ''0'' \<and> y \<le> chr CHR ''9'' then
        let ch = push_bit 4 decoded + y - chr CHR ''0'' in
        if type AND NGX_UNESCAPE_REDIRECT \<noteq> 0 then
          if ch > chr CHR ''%'' \<and> ch < 0x7f then Un_next un_usual decoded [ch] else raw
        else Un_next un_usual decoded [ch]
      else if c \<ge> chr CHR ''a'' \<and> c \<le> chr CHR ''f'' then
        let ch = push_bit 4 decoded + c - chr CHR ''a'' + 10 in
        if type AND NGX_UNESCAPE_URI \<noteq> 0 then
          if ch = chr CHR ''?'' then Un_done [ch] else Un_next un_usual decoded [ch]
        else if type AND NGX_UNESCAPE_REDIRECT \<noteq> 0 then
          if ch = chr CHR ''?'' then Un_done [ch]
          else if ch > chr CHR ''%'' \<and> ch < 0x7f then Un_next un_usual decoded [ch]
          else raw
        else Un_next un_usual decoded [ch]
      else Un_next un_usual decoded [])"

fun un_switch :: "nat \<Rightarrow> un_state \<Rightarrow> byte \<Rightarrow> byte \<Rightarrow> byte \<Rightarrow> un_act" where
  "un_switch type un_usual decoded prev ch = un_in_usual type decoded ch"
| "un_switch type un_quoted decoded prev ch = un_in_quoted decoded ch"
| "un_switch type un_quoted_second decoded prev ch = un_in_quoted_second type decoded prev ch"

text \<open>The loop; \<open>prev\<close> is the byte read before.\<close>

fun un_loop :: "nat \<Rightarrow> un_state \<Rightarrow> byte \<Rightarrow> byte \<Rightarrow> bytes \<Rightarrow> bytes \<times> bytes" where
  "un_loop type state decoded prev [] = ([], [])"
| "un_loop type state decoded prev (ch # s) =
     (case un_switch type state decoded prev ch of
        Un_done out \<Rightarrow> (out, s)
      | Un_next state' decoded' out \<Rightarrow>
          (case un_loop type state' decoded' ch s of (rest, left) \<Rightarrow> (out @ rest, left)))"

definition ngx_unescape_uri :: "nat \<Rightarrow> bytes \<Rightarrow> bytes \<times> bytes" where
  "ngx_unescape_uri type src = un_loop type un_usual 0 0 src"

subsection \<open>ngx_escape_html and ngx_escape_json\<close>

fun ngx_escape_html_count :: "bytes \<Rightarrow> nat" where
  "ngx_escape_html_count [] = 0"
| "ngx_escape_html_count (ch # src) =
     (if ch = chr CHR ''<'' then length (str ''&lt;'') - 1
      else if ch = chr CHR ''>'' then length (str ''&gt;'') - 1
      else if ch = chr CHR ''&'' then length (str ''&amp;'') - 1
      else if ch = 34 then length (str ''&quot;'') - 1
      else 0) + ngx_escape_html_count src"

fun ngx_escape_html :: "bytes \<Rightarrow> bytes" where
  "ngx_escape_html [] = []"
| "ngx_escape_html (ch # src) =
     (if ch = chr CHR ''<'' then str ''&lt;''
      else if ch = chr CHR ''>'' then str ''&gt;''
      else if ch = chr CHR ''&'' then str ''&amp;''
      else if ch = 34 then str ''&quot;''
      else [ch]) @ ngx_escape_html src"

fun ngx_escape_json_count :: "bytes \<Rightarrow> nat" where
  "ngx_escape_json_count [] = 0"
| "ngx_escape_json_count (ch # src) =
     (if ch = 92 \<or> ch = 34 then 1
      else if ch \<le> 0x1f then 5
      else 0) + ngx_escape_json_count src"

fun ngx_escape_json :: "bytes \<Rightarrow> bytes" where
  "ngx_escape_json [] = []"
| "ngx_escape_json (ch # src) =
     (if ch > 0x1f then (if ch = 92 \<or> ch = 34 then [92] else []) @ [ch]
      else [92, chr CHR ''u'', chr CHR ''0'', chr CHR ''0'', chr CHR ''0'' + drop_bit 4 ch,
            (let c = ch AND 0xf in if c < 10 then chr CHR ''0'' + c else chr CHR ''A'' + c - 10)])
     @ ngx_escape_json src"

subsection \<open>Lemmas\<close>

text \<open>A hexadecimal digit is read back.\<close>

lemma escape_hex_digit:
  assumes "n < 16"
  shows "let h = escape_hex ! n in
    (48 \<le> h \<and> h \<le> 57 \<and> h - 48 = word_of_nat n) \<or>
    (\<not> (48 \<le> h \<and> h \<le> 57) \<and> 97 \<le> h OR 0x20 \<and> h OR 0x20 \<le> 102 \<and> (h OR 0x20) - 97 + 10 = word_of_nat n)"
proof -
  have "\<forall>n<16. let h = escape_hex ! n in
    (48 \<le> h \<and> h \<le> 57 \<and> h - 48 = word_of_nat n) \<or>
    (\<not> (48 \<le> h \<and> h \<le> 57) \<and> 97 \<le> h OR 0x20 \<and> h OR 0x20 \<le> 102 \<and> (h OR 0x20) - 97 + 10 = word_of_nat n)"
    by code_simp
  then show ?thesis using assms by blast
qed

lemma escape_nibbles: "push_bit 4 (drop_bit 4 ch) + (ch AND 15) = (ch :: byte)" "unat (drop_bit 4 ch :: byte) < 16" "unat (ch AND 15) < 16"
proof -
  have "(ch AND 15) = take_bit 4 ch" by (simp add: take_bit_eq_mask mask_eq_exp_minus_1)
  then show "push_bit 4 (drop_bit 4 ch) + (ch AND 15) = ch" by (simp add: bits_ident)
  show "unat (drop_bit 4 ch :: byte) < 16" using unat_byte_less [of ch] by (simp add: drop_bit_eq_div unat_div div_less_iff_less_mult)
  have "unat (take_bit 4 ch) < 16" by (simp add: take_bit_eq_mod unat_mod)
  then show "unat (ch AND 15) < 16" using \<open>ch AND 15 = take_bit 4 ch\<close> by simp
qed

text \<open>An escape is undone.\<close>

lemma un_first_hex:
  assumes "n < 16"
  shows "un_in_quoted decoded (escape_hex ! n) = Un_next un_quoted_second (word_of_nat n) []"
  using escape_hex_digit [OF assms] by (auto simp: un_in_quoted_def Let_def)

lemma un_second_hex:
  assumes "n < 16"
  shows "un_in_quoted_second 0 decoded x (escape_hex ! n) = Un_next un_usual decoded [push_bit 4 decoded + word_of_nat n]"
proof -
  let ?h = "escape_hex ! n"
  have a: "push_bit 4 decoded + ?h - chr CHR ''0'' = push_bit 4 decoded + (?h - 48)"
    "push_bit 4 decoded + (?h OR 0x20) - chr CHR ''a'' + 10 = push_bit 4 decoded + ((?h OR 0x20) - 97 + 10)"
    by simp_all
  show ?thesis
    unfolding un_in_quoted_second_def Let_def a using escape_hex_digit [OF assms]
    by (auto simp: Let_def)
qed

lemma un_loop_escape:
  "un_loop 0 un_usual decoded prev (37 # escape_hex ! unat (drop_bit 4 ch) # escape_hex ! unat (ch AND 15) # s) =
     (case un_loop 0 un_usual (drop_bit 4 ch) (escape_hex ! unat (ch AND 15)) s of (rest, left) \<Rightarrow> (ch # rest, left))"
  by (simp add: un_in_usual_def un_first_hex un_second_hex escape_nibbles split: prod.split)

lemma un_loop_plain:
  "ch \<noteq> 37 \<Longrightarrow> un_loop 0 un_usual decoded prev (ch # s) =
     (case un_loop 0 un_usual decoded ch s of (rest, left) \<Rightarrow> (ch # rest, left))"
  by (simp add: un_in_usual_def)

lemma unescape_escape:
  assumes "must_escape type 37"
  shows "un_loop 0 un_usual decoded prev (ngx_escape_uri type s) = (s, [])"
proof (induction s arbitrary: decoded prev)
  case (Cons ch s)
  then show ?case
    using assms un_loop_escape [of decoded prev ch] un_loop_plain [of ch decoded prev]
    by (cases "must_escape type ch"; cases "ch = 37") simp_all
qed simp

lemma escape_percent: "must_escape type 37 \<longleftrightarrow> type \<noteq> 4" if "type < 7"
proof -
  have "type \<in> {0, 1, 2, 3, 4, 5, 6}" using that by auto
  moreover have "\<forall>t\<in>{0, 1, 2, 3, 4, 5, 6}. must_escape t 37 \<longleftrightarrow> t \<noteq> 4" by code_simp
  ultimately show ?thesis by blast
qed

text \<open>Sizes.\<close>

lemma escape_uri_length: "length (ngx_escape_uri type s) = length s + 2 * ngx_escape_uri_count type s"
  by (induction s) simp_all

lemma escape_html_length: "length (ngx_escape_html s) = length s + ngx_escape_html_count s"
  by (induction s) simp_all

lemma escape_json_length: "length (ngx_escape_json s) = length s + ngx_escape_json_count s"
  by (induction s) (auto simp: not_less)

fun un_pending :: "un_state \<Rightarrow> nat" where
  "un_pending un_usual = 0"
| "un_pending un_quoted = 1"
| "un_pending un_quoted_second = 2"

lemma un_switch_length:
  "case un_switch type state decoded prev ch of
     Un_done out \<Rightarrow> length out \<le> Suc (un_pending state)
   | Un_next state' decoded' out \<Rightarrow> length out + un_pending state' \<le> Suc (un_pending state)"
  by (cases state) (simp_all add: un_in_usual_def un_in_quoted_def un_in_quoted_second_def Let_def)

lemma un_loop_length: "length (fst (un_loop type state decoded prev s)) \<le> length s + un_pending state"
proof (induction s arbitrary: state decoded prev)
  case (Cons ch s)
  show ?case
  proof (cases "un_switch type state decoded prev ch")
    case (Un_next s' d' out)
    then show ?thesis
      using un_switch_length [where type = type and state = state and decoded = decoded and prev = prev and ch = ch] Cons.IH [of s' d' ch] by (auto split: prod.split)
  next
    case (Un_done out)
    then show ?thesis using un_switch_length [where type = type and state = state and decoded = decoded and prev = prev and ch = ch] by simp
  qed
qed simp

lemma escape_html_clean:
  "list_all (\<lambda>ch. ch \<noteq> chr CHR ''<'' \<and> ch \<noteq> chr CHR ''>'' \<and> ch \<noteq> 34) (ngx_escape_html s)"
  by (induction s) simp_all

lemma json_escape_clean:
  "ch \<le> 0x1f \<Longrightarrow> 0x1f < chr CHR ''0'' + drop_bit 4 ch
     \<and> 0x1f < (let c = ch AND 0xf in if c < 10 then chr CHR ''0'' + c else chr CHR ''A'' + c - 10)"
proof -
  have "list_all (\<lambda>ch. ch \<le> 0x1f \<longrightarrow> 0x1f < chr CHR ''0'' + drop_bit 4 ch
     \<and> 0x1f < (let c = ch AND 0xf in if c < 10 then chr CHR ''0'' + c else chr CHR ''A'' + c - 10)) all_bytes"
    unfolding all_bytes_list by (simp add: word_less_nat_alt word_le_nat_alt)
  from byte_forall [OF this] show "ch \<le> 0x1f \<Longrightarrow> ?thesis" by blast
qed

lemma escape_json_clean: "list_all (\<lambda>ch. 0x1f < ch) (ngx_escape_json s)"
proof (induction s)
  case (Cons ch s)
  show ?case
  proof (cases "0x1f < ch")
    case False
    then show ?thesis using json_escape_clean [of ch] Cons by (simp add: not_less Let_def)
  qed (use Cons in auto)
qed simp

subsection \<open>Properties\<close>

text \<open>
  C29: \<open>ngx_unescape_uri\<close> gives back exactly what \<open>ngx_escape_uri\<close> was given, in every mode
  whose table escapes the percent sign. The mode for Refresh headers is the one that does
  not.
\<close>

theorem escape_uri_roundtrip:
  assumes "type < 7" "type \<noteq> 4"
  shows "ngx_unescape_uri 0 (ngx_escape_uri type s) = (s, [])"
  unfolding ngx_unescape_uri_def by (rule unescape_escape) (use escape_percent assms in blast)

theorem escape_uri_roundtrip_witness:
  "ngx_escape_uri 1 (str ''a b&c'') = str ''a%20b%26c'' \<and> ngx_unescape_uri 0 (str ''a%20b%26c'') = (str ''a b&c'', [])"
proof -
  have "ngx_escape_uri 1 (str ''a b&c'') = str ''a%20b%26c''" by code_simp
  then show ?thesis using escape_uri_roundtrip [of 1 "str ''a b&c''"] by simp
qed

text \<open>
  The sizes callers reserve are exact. For each of the three escape functions the number
  the first call returns is how much longer the second one makes the text (two bytes per
  escaped byte for URIs), so that nothing is written past the memory reserved; unescaping
  never makes a text longer; and what is escaped stays escaped: no bracket or quotation
  mark is left for HTML, no control byte for JSON.
\<close>

theorem escape_sizes_exact:
  "length (ngx_escape_uri type s) = length s + 2 * ngx_escape_uri_count type s
   \<and> length (ngx_escape_html s) = length s + ngx_escape_html_count s
   \<and> length (ngx_escape_json s) = length s + ngx_escape_json_count s
   \<and> length (fst (ngx_unescape_uri type s)) \<le> length s
   \<and> list_all (\<lambda>ch. ch \<noteq> chr CHR ''<'' \<and> ch \<noteq> chr CHR ''>'' \<and> ch \<noteq> 34) (ngx_escape_html s)
   \<and> list_all (\<lambda>ch. 0x1f < ch) (ngx_escape_json s)"
  using un_loop_length [of type un_usual 0 0 s]
  by (intro conjI escape_uri_length escape_html_length escape_json_length escape_html_clean escape_json_clean)
    (simp add: ngx_unescape_uri_def)

end
