(* ===== verification/Mqtt_Protocol.thy ===== *)
theory Mqtt_Protocol
  imports Ngx_Prelude
begin

unbundle bit_operations_syntax

section \<open>The MQTT wire format (ngx_lua_mqtt_kit_module/mqtt_protocol.c)\<close>

text \<open>
  The writers and readers of the MQTT kit work on a raw buffer: here the buffer is the list
  \<open>m\<close> of its bytes and the pointer an offset \<open>p\<close> into it, so that an access outside the
  buffer is the fault \<open>Oob\<close>. The writers take the length of the buffer too and ignore
  it, so the model leaves it out; the readers that test it have it as \<open>len\<close>. Fixed
  width integers are words of that width, an \<open>int\<close> result is an \<open>int\<close>.
\<close>

subsection \<open>Search and fixed-width integers\<close>

text \<open>\<open>strstr\<close> on the characters before the terminating NUL: the first occurrence.\<close>

fun c_strstr :: "bytes \<Rightarrow> bytes \<Rightarrow> nat \<Rightarrow> nat option" where
  "c_strstr s t i =
     (if take (length t) s = t then Some i
      else case s of [] \<Rightarrow> None | _ # r \<Rightarrow> c_strstr r t (Suc i))"

declare c_strstr.simps [simp del]

text \<open>A NULL pointer is \<open>None\<close>; the result counts the steps from the start to the match.\<close>

definition lua_utility_indexOf :: "bytes option \<Rightarrow> bytes option \<Rightarrow> int" where
  "lua_utility_indexOf str1 str2 =
     (case (str1, str2) of
        (Some s, Some t) \<Rightarrow> (case c_strstr s t 0 of None \<Rightarrow> - 1 | Some i \<Rightarrow> int i)
      | _ \<Rightarrow> - 1)"

definition MOSQ_MSB :: "u16 \<Rightarrow> byte" where
  "MOSQ_MSB a = ucast (drop_bit 8 (a AND 0xFF00))"

definition MOSQ_LSB :: "u16 \<Rightarrow> byte" where
  "MOSQ_LSB a = ucast (a AND 0x00FF)"

definition utility_mqtt_write_uint16 :: "bytes \<Rightarrow> nat \<Rightarrow> u16 \<Rightarrow> (bytes \<times> int) cm" where
  "utility_mqtt_write_uint16 m p word =
     cbind (wr m p (MOSQ_MSB word)) (\<lambda>m.
     cbind (wr m (p + 1) (MOSQ_LSB word)) (\<lambda>m.
     Inr (m, 2)))"

definition utility_mqtt_read_uint16 :: "bytes \<Rightarrow> nat \<Rightarrow> nat \<Rightarrow> u16 cm" where
  "utility_mqtt_read_uint16 m p len =
     (if len < 2 then Inr 0xFFFF
      else cbind (rd m p) (\<lambda>msb. cbind (rd m (p + 1)) (\<lambda>lsb.
           Inr (push_bit 8 (ucast msb) + ucast lsb))))"

definition utility_mqtt_write_bytes :: "bytes \<Rightarrow> nat \<Rightarrow> bytes \<Rightarrow> u32 \<Rightarrow> (bytes \<times> int) cm" where
  "utility_mqtt_write_bytes m p bs count =
     (if length bs < unat count then Inl Oob
      else cbind (mem_cpy m p (take (unat count) bs)) (\<lambda>m. Inr (m, scast32 (uint count))))"

text \<open>Byte \<open>k\<close> bits up of a wider integer, \<open>(u_char) (n >> k & 0xff)\<close>.\<close>

definition byte_at :: "nat \<Rightarrow> 'a::len word \<Rightarrow> byte" where
  "byte_at k n = ucast (drop_bit k n AND 0xff)"

definition utility_mqtt_write_uint32 :: "bytes \<Rightarrow> nat \<Rightarrow> u32 \<Rightarrow> (bytes \<times> int) cm" where
  "utility_mqtt_write_uint32 m b n =
     cbind (wr m (b + 3) (byte_at 0 n)) (\<lambda>m.
     cbind (wr m (b + 2) (byte_at 8 n)) (\<lambda>m.
     cbind (wr m (b + 1) (byte_at 16 n)) (\<lambda>m.
     cbind (wr m b (byte_at 24 n)) (\<lambda>m. Inr (m, 4)))))"

definition utility_mqtt_read_uint32 :: "bytes \<Rightarrow> nat \<Rightarrow> u32 cm" where
  "utility_mqtt_read_uint32 m b =
     cbind (rd m b) (\<lambda>b0. cbind (rd m (b + 1)) (\<lambda>b1.
     cbind (rd m (b + 2)) (\<lambda>b2. cbind (rd m (b + 3)) (\<lambda>b3.
     Inr (push_bit 24 (ucast b0) + push_bit 16 (ucast b1) + push_bit 8 (ucast b2) + ucast b3)))))"

definition utility_mqtt_write_uint64 :: "bytes \<Rightarrow> nat \<Rightarrow> u64 \<Rightarrow> (bytes \<times> int) cm" where
  "utility_mqtt_write_uint64 m b n =
     cbind (wr m (b + 7) (byte_at 0 n)) (\<lambda>m.
     cbind (wr m (b + 6) (byte_at 8 n)) (\<lambda>m.
     cbind (wr m (b + 5) (byte_at 16 n)) (\<lambda>m.
     cbind (wr m (b + 4) (byte_at 24 n)) (\<lambda>m.
     cbind (wr m (b + 3) (byte_at 32 n)) (\<lambda>m.
     cbind (wr m (b + 2) (byte_at 40 n)) (\<lambda>m.
     cbind (wr m (b + 1) (byte_at 48 n)) (\<lambda>m.
     cbind (wr m b (byte_at 56 n)) (\<lambda>m. Inr (m, 8)))))))))"

definition utility_mqtt_read_uint64 :: "bytes \<Rightarrow> nat \<Rightarrow> u64 cm" where
  "utility_mqtt_read_uint64 m b =
     cbind (rd m b) (\<lambda>b0. cbind (rd m (b + 1)) (\<lambda>b1.
     cbind (rd m (b + 2)) (\<lambda>b2. cbind (rd m (b + 3)) (\<lambda>b3.
     cbind (rd m (b + 4)) (\<lambda>b4. cbind (rd m (b + 5)) (\<lambda>b5.
     cbind (rd m (b + 6)) (\<lambda>b6. cbind (rd m (b + 7)) (\<lambda>b7.
     Inr (push_bit 56 (ucast b0) + push_bit 48 (ucast b1) + push_bit 40 (ucast b2)
          + push_bit 32 (ucast b3) + push_bit 24 (ucast b4) + push_bit 16 (ucast b5)
          + push_bit 8 (ucast b6) + ucast b7)))))))))"

text \<open>
  The signed versions: an \<open>int64_t\<close> is its 64-bit pattern, read with \<open>sint\<close>; its right
  shift is arithmetic. The reader's shifts and sums are the two's complement ones.
\<close>

definition sbyte_at :: "nat \<Rightarrow> u64 \<Rightarrow> byte" where
  "sbyte_at k n = ucast (signed_drop_bit k n AND 0xff)"

definition utility_mqtt_write_int64 :: "bytes \<Rightarrow> nat \<Rightarrow> u64 \<Rightarrow> (bytes \<times> int) cm" where
  "utility_mqtt_write_int64 m b n =
     cbind (wr m (b + 7) (sbyte_at 0 n)) (\<lambda>m.
     cbind (wr m (b + 6) (sbyte_at 8 n)) (\<lambda>m.
     cbind (wr m (b + 5) (sbyte_at 16 n)) (\<lambda>m.
     cbind (wr m (b + 4) (sbyte_at 24 n)) (\<lambda>m.
     cbind (wr m (b + 3) (sbyte_at 32 n)) (\<lambda>m.
     cbind (wr m (b + 2) (sbyte_at 40 n)) (\<lambda>m.
     cbind (wr m (b + 1) (sbyte_at 48 n)) (\<lambda>m.
     cbind (wr m b (sbyte_at 56 n)) (\<lambda>m. Inr (m, 8)))))))))"

definition lua_utility_longToBytes :: "u64 \<Rightarrow> bytes \<Rightarrow> nat \<Rightarrow> bytes cm" where
  "lua_utility_longToBytes n m b =
     cbind (wr m (b + 7) (sbyte_at 0 n)) (\<lambda>m.
     cbind (wr m (b + 6) (sbyte_at 8 n)) (\<lambda>m.
     cbind (wr m (b + 5) (sbyte_at 16 n)) (\<lambda>m.
     cbind (wr m (b + 4) (sbyte_at 24 n)) (\<lambda>m.
     cbind (wr m (b + 3) (sbyte_at 32 n)) (\<lambda>m.
     cbind (wr m (b + 2) (sbyte_at 40 n)) (\<lambda>m.
     cbind (wr m (b + 1) (sbyte_at 48 n)) (\<lambda>m.
     wr m b (sbyte_at 56 n))))))))"

definition utility_mqtt_read_int64 :: "bytes \<Rightarrow> nat \<Rightarrow> u64 cm" where
  "utility_mqtt_read_int64 m b =
     cbind (rd m b) (\<lambda>b0. cbind (rd m (b + 1)) (\<lambda>b1.
     cbind (rd m (b + 2)) (\<lambda>b2. cbind (rd m (b + 3)) (\<lambda>b3.
     cbind (rd m (b + 4)) (\<lambda>b4. cbind (rd m (b + 5)) (\<lambda>b5.
     cbind (rd m (b + 6)) (\<lambda>b6. cbind (rd m (b + 7)) (\<lambda>b7.
     Inr (push_bit 56 (ucast b0) + push_bit 48 (ucast b1) + push_bit 40 (ucast b2)
          + push_bit 32 (ucast b3) + push_bit 24 (ucast b4) + push_bit 16 (ucast b5)
          + push_bit 8 (ucast b6) + ucast b7)))))))))"

subsection \<open>The remaining-length field\<close>

text \<open>
  \<open>remaining_count\<close> is a \<open>uint8_t\<close> that reaches 5 at most (a 32-bit value has five
  7-bit groups, the reader stops after four), so it is a \<open>nat\<close>.
\<close>

function write_rl_loop :: "bytes \<Rightarrow> nat \<Rightarrow> nat \<Rightarrow> u32 \<Rightarrow> (bytes \<times> nat) cm" where
  "write_rl_loop m p remaining_count remaining_length =
     (let digit = ucast (remaining_length mod 128) :: byte;
          remaining_length' = remaining_length div 128;
          digit' = (if remaining_length' > 0 then digit OR 0x80 else digit)
      in cbind (wr m (p + remaining_count) digit') (\<lambda>m.
         if remaining_length' > 0 then write_rl_loop m p (remaining_count + 1) remaining_length'
         else Inr (m, remaining_count + 1)))"
  by pat_completeness auto

termination
  by (relation "measure (\<lambda>(m, p, c, n). unat n)")
    (auto simp: word_less_nat_alt unat_div_distrib intro!: div_less_dividend intro: gr0I)

declare write_rl_loop.simps [simp del]

definition utility_mqtt_write_remaining_leng :: "bytes \<Rightarrow> nat \<Rightarrow> u32 \<Rightarrow> (bytes \<times> int) cm" where
  "utility_mqtt_write_remaining_leng m p remaining_length =
     cbind (write_rl_loop m p 0 remaining_length) (\<lambda>(m, c). Inr (m, int c))"

text \<open>The second component is \<open>*out\<close>, which only a successful call sets.\<close>

function read_rl_loop :: "bytes \<Rightarrow> nat \<Rightarrow> nat \<Rightarrow> nat \<Rightarrow> u32 \<Rightarrow> u32 \<Rightarrow> (int \<times> u32 option) cm" where
  "read_rl_loop m p len remaining_count remaining_mult remaining_length =
     cbind (rd m (p + remaining_count)) (\<lambda>byt.
     let remaining_count' = remaining_count + 1 in
     if remaining_count' = len then Inr (NGX_ERROR, None)
     else if remaining_count' > 4 then Inr (NGX_ERROR, None)
     else
       let remaining_length' = remaining_length + ucast (byt AND 0x7F) * remaining_mult;
           remaining_mult' = remaining_mult * 128
       in if byt AND 0x80 \<noteq> 0 then read_rl_loop m p len remaining_count' remaining_mult' remaining_length'
          else Inr (int remaining_count', Some remaining_length'))"
  by pat_completeness auto

termination
  by (relation "measure (\<lambda>(m, p, len, c, mu, r). 4 - c)") auto

declare read_rl_loop.simps [simp del]

definition utility_mqtt_read_remaining_leng :: "bytes \<Rightarrow> nat \<Rightarrow> nat \<Rightarrow> (int \<times> u32 option) cm" where
  "utility_mqtt_read_remaining_leng m p len = read_rl_loop m p len 0 1 0"

subsection \<open>Strings and flags\<close>

text \<open>
  The length of the string is a \<open>size_t\<close>: it is cut to 16 bits for the prefix and to 32
  bits for the copy. The reader sets \<open>out\<close> to the offset and the length of the string
  in the buffer.
\<close>

definition utility_mqtt_write_string :: "bytes \<Rightarrow> nat \<Rightarrow> bytes \<Rightarrow> (bytes \<times> int) cm" where
  "utility_mqtt_write_string m p s =
     cbind (utility_mqtt_write_uint16 m p (word_of_nat (length s))) (\<lambda>(m, _).
     cbind (utility_mqtt_write_bytes m (p + 2) s (word_of_nat (length s))) (\<lambda>(m, _).
     Inr (m, scast32 (int (length s) + 2))))"

definition utility_mqtt_read_string :: "bytes \<Rightarrow> nat \<Rightarrow> nat \<Rightarrow> (int \<times> (nat \<times> nat) option) cm" where
  "utility_mqtt_read_string m p plen =
     cbind (utility_mqtt_read_uint16 m p plen) (\<lambda>len.
     if len = 0xFFFF then Inr (NGX_ERROR, None)
     else if plen - 2 < unat len then Inr (NGX_ERROR, None)
     else Inr (2 + int (unat len), Some (p + 2, unat len)))"

definition utility_mqtt_encode_flags :: "byte \<Rightarrow> bool \<Rightarrow> bool \<Rightarrow> byte" where
  "utility_mqtt_encode_flags qos dup retain =
     (let flags = 0;
          flags = (if dup then flags OR 0x08 else flags);
          flags = (if retain then flags OR 0x01 else flags)
      in flags OR push_bit 1 (qos AND 0x03))"


subsection \<open>Lemmas: fixed-width integers\<close>

lemma byte_at_unat: "unat (byte_at k (n :: 'a::len word)) = unat n div 2 ^ k mod 256"
proof -
  have "(0xff :: 'a word) = mask 8" by (simp add: mask_eq_exp_minus_1)
  then have "byte_at k n = ucast (take_bit 8 (drop_bit k n))"
    by (simp add: byte_at_def take_bit_eq_mask)
  also have "\<dots> = (ucast (drop_bit k n) :: byte)"
    by (rule bit_word_eqI) (simp add: bit_simps)
  finally have "unat (byte_at k n) = take_bit 8 (drop_bit k (unat n))"
    by (simp only: unsigned_ucast_eq unat_drop_bit_eq) simp
  then show ?thesis by (simp add: drop_bit_eq_div take_bit_eq_mod)
qed

lemma sbyte_at_byte_at:
  assumes "k + 8 \<le> 64"
  shows "sbyte_at k n = byte_at k n"
proof (rule bit_word_eqI)
  fix i :: nat assume "i < LENGTH(8)"
  then show "bit (sbyte_at k n) i \<longleftrightarrow> bit (byte_at k n) i"
    using assms by (auto simp: sbyte_at_def byte_at_def bit_simps)
qed

lemma push_word_of_nat: "push_bit k (word_of_nat x) = (word_of_nat (x * 2 ^ k) :: 'a::len word)"
  by (simp add: push_bit_eq_mult)

lemma ucast_byte: "(ucast (b :: byte) :: 'a::len word) = word_of_nat (unat b)"
  by simp

lemma be_step:
  fixes n :: nat
  assumes "j = k + 8"
  shows "n div 2 ^ k * 2 ^ k = n div 2 ^ j * 2 ^ j + n div 2 ^ k mod 256 * 2 ^ k"
proof -
  define q where "q = n div 2 ^ k"
  have "n div 2 ^ j = q div 256" by (simp add: assms q_def power_add div_mult2_eq)
  moreover have "q * 2 ^ k = q div 256 * (256 * 2 ^ k) + q mod 256 * 2 ^ k"
    by (metis add_mult_distrib div_mult_mod_eq mult.assoc)
  ultimately show ?thesis
    unfolding q_def [symmetric] assms by (simp add: power_add mult.commute)
qed

lemma be_byte: "n = n div 2 ^ 8 * 2 ^ 8 + n mod 256" for n :: nat
  using be_step [of 8 0 n] by simp

lemma be_steps:
  fixes n :: nat
  shows "n div 2 ^ 8 * 2 ^ 8 = n div 2 ^ 16 * 2 ^ 16 + n div 2 ^ 8 mod 256 * 2 ^ 8"
    and "n div 2 ^ 16 * 2 ^ 16 = n div 2 ^ 24 * 2 ^ 24 + n div 2 ^ 16 mod 256 * 2 ^ 16"
    and "n div 2 ^ 24 * 2 ^ 24 = n div 2 ^ 32 * 2 ^ 32 + n div 2 ^ 24 mod 256 * 2 ^ 24"
    and "n div 2 ^ 32 * 2 ^ 32 = n div 2 ^ 40 * 2 ^ 40 + n div 2 ^ 32 mod 256 * 2 ^ 32"
    and "n div 2 ^ 40 * 2 ^ 40 = n div 2 ^ 48 * 2 ^ 48 + n div 2 ^ 40 mod 256 * 2 ^ 40"
    and "n div 2 ^ 48 * 2 ^ 48 = n div 2 ^ 56 * 2 ^ 56 + n div 2 ^ 48 mod 256 * 2 ^ 48"
    and "n div 2 ^ 56 * 2 ^ 56 = n div 2 ^ 64 * 2 ^ 64 + n div 2 ^ 56 mod 256 * 2 ^ 56"
  by (rule be_step, simp)+

lemma div_top: "n < 2 ^ k \<Longrightarrow> n div 2 ^ k * 2 ^ k = 0" for n :: nat
  by simp

lemma chain2: "n = a1 + r0 \<Longrightarrow> a1 = a2 + r1 \<Longrightarrow> a2 = 0 \<Longrightarrow> r1 + r0 = n" for n :: nat
  by simp

lemma chain4:
  "n = a1 + r0 \<Longrightarrow> a1 = a2 + r1 \<Longrightarrow> a2 = a3 + r2 \<Longrightarrow> a3 = a4 + r3 \<Longrightarrow> a4 = 0 \<Longrightarrow>
     r3 + r2 + r1 + r0 = n" for n :: nat
  by simp

lemma chain8:
  "n = a1 + r0 \<Longrightarrow> a1 = a2 + r1 \<Longrightarrow> a2 = a3 + r2 \<Longrightarrow> a3 = a4 + r3 \<Longrightarrow> a4 = a5 + r4 \<Longrightarrow>
     a5 = a6 + r5 \<Longrightarrow> a6 = a7 + r6 \<Longrightarrow> a7 = a8 + r7 \<Longrightarrow> a8 = 0 \<Longrightarrow>
     r7 + r6 + r5 + r4 + r3 + r2 + r1 + r0 = n" for n :: nat
  by simp

lemma be_sum2:
  "n < 2 ^ 16 \<Longrightarrow> n div 2 ^ 8 mod 256 * 2 ^ 8 + n mod 256 = n" for n :: nat
  by (rule chain2 [OF be_byte be_steps(1) div_top])

lemma be_sum4:
  "n < 2 ^ 32 \<Longrightarrow> n div 2 ^ 24 mod 256 * 2 ^ 24 + n div 2 ^ 16 mod 256 * 2 ^ 16
     + n div 2 ^ 8 mod 256 * 2 ^ 8 + n mod 256 = n" for n :: nat
  by (rule chain4 [OF be_byte be_steps(1-3) div_top])

lemma be_sum8:
  "n < 2 ^ 64 \<Longrightarrow> n div 2 ^ 56 mod 256 * 2 ^ 56 + n div 2 ^ 48 mod 256 * 2 ^ 48
     + n div 2 ^ 40 mod 256 * 2 ^ 40 + n div 2 ^ 32 mod 256 * 2 ^ 32
     + n div 2 ^ 24 mod 256 * 2 ^ 24 + n div 2 ^ 16 mod 256 * 2 ^ 16
     + n div 2 ^ 8 mod 256 * 2 ^ 8 + n mod 256 = n" for n :: nat
  by (rule chain8 [OF be_byte be_steps div_top])

lemma join32:
  "push_bit 24 (ucast (byte_at 24 n)) + push_bit 16 (ucast (byte_at 16 n))
     + push_bit 8 (ucast (byte_at 8 n)) + ucast (byte_at 0 n) = (n :: u32)"
proof -
  have "unat n < 2 ^ 32" using unsigned_less [of n, where ?'a = nat] by simp
  then show ?thesis
    by (simp only: ucast_byte push_word_of_nat byte_at_unat of_nat_add [symmetric] power_0 div_by_1
        be_sum4) simp
qed

lemma join64:
  "push_bit 56 (ucast (byte_at 56 n)) + push_bit 48 (ucast (byte_at 48 n))
     + push_bit 40 (ucast (byte_at 40 n)) + push_bit 32 (ucast (byte_at 32 n))
     + push_bit 24 (ucast (byte_at 24 n)) + push_bit 16 (ucast (byte_at 16 n))
     + push_bit 8 (ucast (byte_at 8 n)) + ucast (byte_at 0 n) = (n :: u64)"
proof -
  have "unat n < 2 ^ 64" using unsigned_less [of n, where ?'a = nat] by simp
  then show ?thesis
    by (simp only: ucast_byte push_word_of_nat byte_at_unat of_nat_add [symmetric] power_0 div_by_1
        be_sum8) simp
qed

lemma mosq_bytes: "MOSQ_MSB w = byte_at 8 w" "MOSQ_LSB w = byte_at 0 w"
  by (rule bit_word_eqI; auto simp: MOSQ_MSB_def MOSQ_LSB_def byte_at_def bit_simps)+

lemma join16: "push_bit 8 (ucast (MOSQ_MSB n)) + ucast (MOSQ_LSB n) = (n :: u16)"
proof -
  have "unat n < 2 ^ 16" using unsigned_less [of n, where ?'a = nat] by simp
  then show ?thesis
    by (simp only: ucast_byte push_word_of_nat byte_at_unat mosq_bytes of_nat_add [symmetric]
        power_0 div_by_1 be_sum2) simp
qed

lemma write_uint16_Inr:
  "p + 2 \<le> length m \<Longrightarrow> utility_mqtt_write_uint16 m p w = Inr (store m p [MOSQ_MSB w, MOSQ_LSB w], 2)"
  using store_Cons [of p "MOSQ_MSB w" "[MOSQ_LSB w]" m]
    store_Cons [of "Suc p" "MOSQ_LSB w" "[]" "m[p := MOSQ_MSB w]"]
  by (simp add: utility_mqtt_write_uint16_def wr_def)

lemma read_uint16_Inr:
  assumes "p + 2 \<le> length m" "take 2 (drop p m) = [MOSQ_MSB w, MOSQ_LSB w]" "2 \<le> len"
  shows "utility_mqtt_read_uint16 m p len = Inr w"
proof -
  have "m ! p = MOSQ_MSB w" "m ! (p + 1) = MOSQ_LSB w"
    using assms(1) arg_cong [OF assms(2), of "\<lambda>l. l ! 0"] arg_cong [OF assms(2), of "\<lambda>l. l ! 1"]
    by simp_all
  then show ?thesis
    using assms by (simp add: utility_mqtt_read_uint16_def rd_def join16)
qed

lemma rd_update: "p < length m \<Longrightarrow> rd (m[p := b]) q = (if q = p then Inr b else rd m q)"
  by (simp add: rd_def)

lemma uint16_roundtrip:
  assumes "p + 2 \<le> length m" "2 \<le> len"
  shows "\<exists>m'. utility_mqtt_write_uint16 m p a = Inr (m', 2) \<and> utility_mqtt_read_uint16 m' p len = Inr a
    \<and> length m' = length m \<and> take p m' = take p m \<and> drop (p + 2) m' = drop (p + 2) m"
proof -
  let ?m = "store m p [MOSQ_MSB a, MOSQ_LSB a]"
  have "take 2 (drop p ?m) = [MOSQ_MSB a, MOSQ_LSB a]" using assms by (simp add: store_def)
  then have "utility_mqtt_read_uint16 ?m p len = Inr a"
    using assms by (intro read_uint16_Inr) simp_all
  moreover have "drop (p + 2) ?m = drop (p + 2) m" "take p ?m = take p m"
    using assms by (simp_all add: store_def)
  ultimately show ?thesis using assms by (simp add: write_uint16_Inr)
qed

lemma uint32_roundtrip:
  assumes "p + 4 \<le> length m"
  shows "\<exists>m'. utility_mqtt_write_uint32 m p n = Inr (m', 4) \<and> utility_mqtt_read_uint32 m' p = Inr n
    \<and> length m' = length m \<and> take p m' = take p m \<and> drop (p + 4) m' = drop (p + 4) m"
  using assms
  by (simp add: utility_mqtt_write_uint32_def utility_mqtt_read_uint32_def wr_def rd_def join32)

lemma uint64_roundtrip:
  assumes "p + 8 \<le> length m"
  shows "\<exists>m'. utility_mqtt_write_uint64 m p n = Inr (m', 8) \<and> utility_mqtt_read_uint64 m' p = Inr n
    \<and> length m' = length m \<and> take p m' = take p m \<and> drop (p + 8) m' = drop (p + 8) m"
  using assms
  by (simp add: utility_mqtt_write_uint64_def utility_mqtt_read_uint64_def wr_def rd_def join64)

lemma write_int64_uint64: "utility_mqtt_write_int64 m p n = utility_mqtt_write_uint64 m p n"
  by (simp add: utility_mqtt_write_int64_def utility_mqtt_write_uint64_def sbyte_at_byte_at)

lemma longToBytes_write: "lua_utility_longToBytes n m p = cbind (utility_mqtt_write_int64 m p n) (\<lambda>(m, _). Inr m)"
  by (simp add: lua_utility_longToBytes_def utility_mqtt_write_int64_def wr_def)

lemma read_int64_uint64: "utility_mqtt_read_int64 m p = utility_mqtt_read_uint64 m p"
  by (simp add: utility_mqtt_read_int64_def utility_mqtt_read_uint64_def)

subsection \<open>Lemmas: the remaining-length field\<close>

text \<open>The field as the MQTT standard defines it: 7-bit groups, least significant first.\<close>

fun rl_enc :: "nat \<Rightarrow> bytes" where
  "rl_enc n = (if n < 128 then [word_of_nat n] else (word_of_nat (n mod 128) OR 0x80) # rl_enc (n div 128))"

declare rl_enc.simps [simp del]

lemma rl_enc_ne [simp]: "rl_enc n \<noteq> []"
  by (subst rl_enc.simps) simp

lemma rl_enc_len_le: "n < 128 ^ Suc k \<Longrightarrow> length (rl_enc n) \<le> Suc k"
proof (induction k arbitrary: n)
  case (Suc k)
  then show ?case
    using Suc.IH [of "n div 128"] by (subst rl_enc.simps) (auto simp: div_less_iff_less_mult mult.commute)
qed (simp add: rl_enc.simps)

lemma digit_bits:
  assumes "d < 128"
  shows "(word_of_nat d :: byte) AND 0x80 = 0" "(word_of_nat d OR 0x80 :: byte) AND 0x80 \<noteq> 0"
    "(word_of_nat d :: byte) AND 0x7F = word_of_nat d"
    "(word_of_nat d OR 0x80 :: byte) AND 0x7F = word_of_nat d"
    "unat (word_of_nat d :: byte) = d"
proof -
  have top: "(0x80 :: byte) = push_bit 7 1" and low: "(0x7F :: byte) = mask 7"
    by (simp_all add: mask_eq_exp_minus_1)
  have "take_bit 7 d = d" using assms by (simp add: take_bit_eq_mod)
  then have d: "bit d i \<Longrightarrow> i < 7" for i by (metis bit_take_bit_iff)
  have t7: "bit (0x80 :: byte) i \<Longrightarrow> 7 \<le> i" for i
    unfolding top bit_push_bit_iff by blast
  show "(word_of_nat d :: byte) AND 0x80 = 0"
    by (rule bit_word_eqI)
      (metis bit_0_eq bit_and_iff bit_of_nat_iff bot_apply bot_bool_def d leD t7)
  have "bit ((word_of_nat d OR push_bit 7 1 :: byte) AND push_bit 7 1) 7" by (simp add: bit_simps)
  then show "(word_of_nat d OR 0x80 :: byte) AND 0x80 \<noteq> 0" unfolding top by force
  show "(word_of_nat d :: byte) AND 0x7F = word_of_nat d"
    unfolding low by (rule bit_word_eqI) (auto simp: bit_simps dest: d)
  show "(word_of_nat d OR 0x80 :: byte) AND 0x7F = word_of_nat d"
    unfolding low by (rule bit_word_eqI)
      (auto simp only: bit_and_iff bit_or_iff bit_of_nat_iff bit_mask_iff dest: d t7)
  show "unat (word_of_nat d :: byte) = d"
    using assms by (simp add: unsigned_of_nat take_bit_eq_mod)
qed

lemma ucast_rl_digit: "d < 128 \<Longrightarrow> (ucast (word_of_nat d :: byte) :: u32) = word_of_nat d"
  using digit_bits(5) [of d] by (metis ucast_byte)

lemma rl_enc_cont: "128 ^ Suc k \<le> n \<Longrightarrow> k < length (rl_enc n) - 1 \<and> rl_enc n ! k AND 0x80 \<noteq> 0"
proof (induction k arbitrary: n)
  case 0
  have "length (rl_enc (n div 128)) > 0" by simp
  then show ?case
    using 0 by (subst (1 2) rl_enc.simps) (simp add: digit_bits)
next
  case (Suc k)
  then have le: "128 ^ Suc k \<le> n div 128" "\<not> n < 128"
    by (simp_all add: less_eq_div_iff_mult_less_eq mult.commute)
      (metis Suc.prems le_less_trans one_le_numeral one_le_power self_le_power zero_less_Suc
        linorder_not_le)
  then show ?case
    using Suc.IH [OF le(1)] by (subst (1 2) rl_enc.simps) auto
qed

lemma ucast_nat_aux: "(ucast (w :: u32) :: byte) = word_of_nat (unat w)"
  by simp

lemma unat_mod_128: "unat (n mod 128 :: u32) = unat n mod 128"
  by (simp add: unat_mod_distrib)

lemma write_rl_loop_store:
  assumes "p + c + length (rl_enc (unat n)) \<le> length m"
  shows "write_rl_loop m p c n =
    Inr (store m (p + c) (rl_enc (unat n)), c + length (rl_enc (unat n)))"
  using assms
proof (induction m p c n rule: write_rl_loop.induct)
  case (1 m p c n)
  have d: "(ucast (n mod 128) :: byte) = word_of_nat (unat n mod 128)"
    by (metis ucast_nat_aux unat_mod_128)
  have q: "unat (n div 128) = unat n div 128" by (simp add: unat_div_distrib)
  have z: "0 < n div 128 \<longleftrightarrow> 128 \<le> unat n"
    by (simp add: word_less_nat_alt q div_greater_zero_iff)
  have in_m: "p + c < length m"
    using "1.prems" by (cases "rl_enc (unat n)") auto
  show ?case
  proof (cases "128 \<le> unat n")
    case False
    then show ?thesis
      using in_m z store_Cons [of "p + c" "word_of_nat (unat n)" "[]" m]
      by (subst write_rl_loop.simps, subst (1 2) rl_enc.simps) (simp add: Let_def d wr_def)
  next
    case True
    define e where "e = word_of_nat (unat n mod 128) OR (0x80 :: byte)"
    have enc: "rl_enc (unat n) = e # rl_enc (unat n div 128)"
      using True by (subst rl_enc.simps) (simp add: e_def)
    have "write_rl_loop (m[p + c := e]) p (c + 1) (n div 128) =
      Inr (store (m[p + c := e]) (p + (c + 1)) (rl_enc (unat n div 128)),
           c + 1 + length (rl_enc (unat n div 128)))"
      using "1.IH" [OF refl refl refl, of "m[p + c := e]"] "1.prems" True z q enc by simp
    moreover have "store (m[p + c := e]) (p + (c + 1)) (rl_enc (unat n div 128)) =
      store m (p + c) (rl_enc (unat n))"
      using store_Cons [of "p + c" e "rl_enc (unat n div 128)" m] "1.prems" enc by simp
    ultimately show ?thesis
      using in_m z True by (subst write_rl_loop.simps) (simp add: Let_def d wr_def enc e_def [symmetric])
  qed
qed

lemma read_rl_loop_dec:
  assumes "take (length (rl_enc r)) (drop (p + c) m) = rl_enc r"
    and "c + length (rl_enc r) \<le> 4" "c + length (rl_enc r) < len"
  shows "read_rl_loop m p len c mu acc =
    Inr (int (c + length (rl_enc r)), Some (acc + word_of_nat r * mu))"
  using assms
proof (induction r arbitrary: c mu acc rule: rl_enc.induct)
  case (1 r)
  have in_m: "p + c < length m"
    using "1.prems"(1) rl_enc_ne [of r] by (metis drop_all linorder_not_less take_Nil)
  show ?case
  proof (cases "r < 128")
    case True
    then have enc: "rl_enc r = [word_of_nat r]" by (simp add: rl_enc.simps)
    have "m ! (p + c) = word_of_nat r"
      using "1.prems"(1) in_m unfolding enc by (simp add: take_Suc hd_drop_conv_nth)
    then show ?thesis
      using in_m "1.prems" digit_bits [OF True] enc
      by (subst read_rl_loop.simps) (simp add: rd_def Let_def ucast_rl_digit True)
  next
    case False
    define e where "e = word_of_nat (r mod 128) OR (0x80 :: byte)"
    have enc: "rl_enc r = e # rl_enc (r div 128)"
      using False by (subst rl_enc.simps) (simp add: e_def)
    have drop: "drop (p + c) m = m ! (p + c) # drop (p + Suc c) m"
      using in_m by (simp add: Cons_nth_drop_Suc)
    have e: "m ! (p + c) = e" and rest: "take (length (rl_enc (r div 128))) (drop (p + Suc c) m) = rl_enc (r div 128)"
      using "1.prems"(1) unfolding enc drop by simp_all
    have bits: "e AND 0x80 \<noteq> 0" "e AND 0x7F = word_of_nat (r mod 128)"
      "unat (word_of_nat (r mod 128) :: byte) = r mod 128"
      using digit_bits [of "r mod 128"] by (simp_all add: e_def)
    have "word_of_nat r = (word_of_nat (r mod 128) + word_of_nat (r div 128) * 128 :: u32)"
      by (metis mod_mult_div_eq mult.commute of_nat_add of_nat_mult of_nat_numeral)
    then have val: "acc + word_of_nat r * mu =
        acc + word_of_nat (r mod 128) * mu + word_of_nat (r div 128) * (mu * 128)"
      by (simp only: algebra_simps)
    have "length (rl_enc (r div 128)) > 0" by simp
    then show ?thesis
      using in_m "1.IH" [OF False rest, of "mu * 128" "acc + word_of_nat (r mod 128) * mu"] "1.prems"(2,3) bits
      by (subst read_rl_loop.simps) (simp add: rd_def Let_def e ucast_rl_digit enc val)
  qed
qed

lemma read_rl_loop_end:
  assumes "c + k = len" "0 < k" "p + len \<le> length m" "\<And>i. c \<le> i \<Longrightarrow> Suc i < len \<Longrightarrow> m ! (p + i) AND 0x80 \<noteq> 0"
  shows "read_rl_loop m p len c mu acc = Inr (NGX_ERROR, None)"
  using assms
proof (induction k arbitrary: c mu acc)
  case (Suc k)
  show ?case
  proof (cases k)
    case 0
    then show ?thesis using Suc.prems by (subst read_rl_loop.simps) (simp add: rd_def Let_def)
  next
    case (Suc j)
    then show ?thesis
      using Suc.prems Suc.IH [of "Suc c"] Suc.prems(4) [of c]
      by (subst read_rl_loop.simps) (auto simp: rd_def Let_def)
  qed
qed simp

lemma read_rl_loop_long:
  assumes "c + k = 4" "p + 4 < length m" "\<And>i. i < 4 \<Longrightarrow> m ! (p + i) AND 0x80 \<noteq> 0"
  shows "read_rl_loop m p len c mu acc = Inr (NGX_ERROR, None)"
  using assms
proof (induction k arbitrary: c mu acc)
  case 0
  then show ?case by (subst read_rl_loop.simps) (simp add: rd_def Let_def)
next
  case (Suc k)
  then show ?case
    using Suc.IH [of "Suc c"] by (subst read_rl_loop.simps) (auto simp: rd_def Let_def)
qed

lemma store_take: "p \<le> length m \<Longrightarrow> take p (store m p bs) = take p m"
  by (simp add: store_def)

lemma store_drop: "p \<le> length m \<Longrightarrow> drop (p + length bs) (store m p bs) = drop (p + length bs) m"
  by (simp add: store_def)

lemma write_remaining_store:
  "p + length (rl_enc (unat n)) \<le> length m \<Longrightarrow> utility_mqtt_write_remaining_leng m p n =
     Inr (store m p (rl_enc (unat n)), int (length (rl_enc (unat n))))"
  using write_rl_loop_store [of p 0 n m] by (simp add: utility_mqtt_write_remaining_leng_def)

lemma rl_enc_len_u32: "length (rl_enc (unat (n :: u32))) \<le> 5"
proof -
  have "unat n < 128 ^ Suc 4" using unsigned_less [of n, where ?'a = nat] by simp
  then show ?thesis using rl_enc_len_le by fastforce
qed

lemma read_remaining_store:
  assumes "p + length (rl_enc n) \<le> length m" "n < 2 ^ 28" "length (rl_enc n) < len"
  shows "utility_mqtt_read_remaining_leng (store m p (rl_enc n)) p len =
    Inr (int (length (rl_enc n)), Some (word_of_nat n))"
proof -
  have "length (rl_enc n) \<le> 4" using assms rl_enc_len_le [of n 3] by simp
  then show ?thesis
    using assms read_rl_loop_dec [of n p 0 "store m p (rl_enc n)" len 1 0]
    by (simp add: utility_mqtt_read_remaining_leng_def store_read)
qed

lemma rl_enc_msb: "Suc i < length (rl_enc n) \<Longrightarrow> rl_enc n ! i AND 0x80 \<noteq> 0"
proof (induction i arbitrary: n)
  case 0
  then show ?case by (subst (asm) rl_enc.simps, subst rl_enc.simps) (auto simp: digit_bits split: if_splits)
next
  case (Suc i)
  then show ?case by (subst (asm) (2) rl_enc.simps, subst rl_enc.simps) (auto split: if_splits)
qed

lemma read_remaining_end:
  assumes "p + length (rl_enc n) \<le> length m"
  shows "utility_mqtt_read_remaining_leng (store m p (rl_enc n)) p (length (rl_enc n)) = Inr (NGX_ERROR, None)"
  unfolding utility_mqtt_read_remaining_leng_def
  by (rule read_rl_loop_end [where k = "length (rl_enc n)"])
    (use assms in \<open>auto simp: store_nth rl_enc_msb\<close>)

lemma read_remaining_long:
  assumes "p + length (rl_enc n) \<le> length m" "2 ^ 28 \<le> n"
  shows "utility_mqtt_read_remaining_leng (store m p (rl_enc n)) p len = Inr (NGX_ERROR, None)"
proof -
  have l: "4 < length (rl_enc n)" using rl_enc_cont [of 3 n] assms by (simp add: less_diff_conv)
  show ?thesis
    unfolding utility_mqtt_read_remaining_leng_def
    by (rule read_rl_loop_long [where k = 4]) (use assms l in \<open>auto simp: store_nth rl_enc_msb\<close>)
qed

lemma read_rl_loop_safe:
  assumes "p + len \<le> length m" "c < len"
  shows "safe (read_rl_loop m p len c mu acc)"
  using assms
proof (induction m p len c mu acc rule: read_rl_loop.induct)
  case (1 m p len c mu acc)
  have "rd m (p + c) = Inr (m ! (p + c))" using "1.prems" by (simp add: rd_def)
  then show ?case
    using "1.IH" [OF refl] "1.prems" by (subst read_rl_loop.simps) (auto simp: Let_def)
qed

subsection \<open>Lemmas: strings\<close>

lemma unat_numeral_FFFF: "unat (0xFFFF :: u16) = 65535"
  by simp

lemma write_string_store:
  assumes "p + 2 + length s \<le> length m" "length s < 2 ^ 31 - 2"
  shows "utility_mqtt_write_string m p s =
    Inr (store m p (MOSQ_MSB (word_of_nat (length s)) # MOSQ_LSB (word_of_nat (length s)) # s),
         2 + int (length s))"
proof -
  let ?w = "word_of_nat (length s) :: u16"
  have un: "unat (word_of_nat (length s) :: u32) = length s"
    using assms by (simp add: unsigned_of_nat take_bit_eq_mod)
  have sc: "scast32 (int (length s) + 2) = 2 + int (length s)"
    using assms by (simp add: scast32_def)
  let ?m1 = "store m p [MOSQ_MSB ?w, MOSQ_LSB ?w]"
  have "store ?m1 (p + 2) s = store m p (MOSQ_MSB ?w # MOSQ_LSB ?w # s)"
    using assms by (simp add: store_def add.commute)
  then show ?thesis
    using assms un sc
    by (simp add: utility_mqtt_write_string_def write_uint16_Inr utility_mqtt_write_bytes_def mem_cpy_def)
qed

lemma read_string_store:
  assumes "p + 2 + length s \<le> length m" "2 \<le> plen"
  shows "utility_mqtt_read_string
      (store m p (MOSQ_MSB (word_of_nat (length s)) # MOSQ_LSB (word_of_nat (length s)) # s)) p plen =
    (let n = length s mod 65536 in
     if n = 65535 \<or> plen - 2 < n then Inr (NGX_ERROR, None) else Inr (2 + int n, Some (p + 2, n)))"
proof -
  let ?w = "word_of_nat (length s) :: u16"
  let ?m = "store m p (MOSQ_MSB ?w # MOSQ_LSB ?w # s)"
  have "take 2 (drop p ?m) = [MOSQ_MSB ?w, MOSQ_LSB ?w]" "p + 2 \<le> length ?m"
    using assms by (simp_all add: store_def)
  then have rd16: "utility_mqtt_read_uint16 ?m p plen = Inr ?w"
    using assms by (intro read_uint16_Inr) simp_all
  have un: "unat ?w = length s mod 65536" by (simp add: unsigned_of_nat take_bit_eq_mod)
  have eq: "?w = 0xFFFF \<longleftrightarrow> length s mod 65536 = 65535"
    unfolding un [symmetric] by (metis unat_numeral_FFFF word_unat_eq_iff)
  show ?thesis
    using un eq by (simp add: utility_mqtt_read_string_def rd16 Let_def)
qed

lemma read_string_short:
  assumes "p + 2 + length s \<le> length m" "2 + length s \<le> plen" "length s < 65535"
  shows "utility_mqtt_read_string
      (store m p (MOSQ_MSB (word_of_nat (length s)) # MOSQ_LSB (word_of_nat (length s)) # s)) p plen =
    Inr (2 + int (length s), Some (p + 2, length s))"
  using assms by (subst read_string_store) (auto simp: Let_def)

lemma read_string_long:
  assumes "p + 2 + length s \<le> length m" "2 + length s \<le> plen" "65535 \<le> length s"
  shows "utility_mqtt_read_string
      (store m p (MOSQ_MSB (word_of_nat (length s)) # MOSQ_LSB (word_of_nat (length s)) # s)) p plen =
      Inr (NGX_ERROR, None) \<or>
    (\<exists>n < length s. utility_mqtt_read_string
      (store m p (MOSQ_MSB (word_of_nat (length s)) # MOSQ_LSB (word_of_nat (length s)) # s)) p plen =
      Inr (2 + int n, Some (p + 2, n)))"
proof -
  have "length s mod 65536 < length s" if "length s mod 65536 \<noteq> 65535"
    using that assms(3) mod_less_divisor [of 65536 "length s"] by linarith
  then show ?thesis
    using assms by (subst (1 2) read_string_store) (auto simp: Let_def)
qed

lemma read_string_safe:
  assumes "p + plen \<le> length m"
  shows "\<exists>c out. utility_mqtt_read_string m p plen = Inr (c, out)
      \<and> (case out of None \<Rightarrow> c = NGX_ERROR | Some (o', l) \<Rightarrow> c = 2 + int l \<and> p \<le> o' \<and> o' + l \<le> p + plen)"
proof (cases "plen < 2")
  case True
  then show ?thesis by (simp add: utility_mqtt_read_string_def utility_mqtt_read_uint16_def)
next
  case False
  then obtain w where "utility_mqtt_read_uint16 m p plen = Inr w"
    using assms by (simp add: utility_mqtt_read_uint16_def rd_def)
  then show ?thesis using False by (auto simp: utility_mqtt_read_string_def)
qed

subsection \<open>Lemmas: search and flags\<close>

lemma c_strstr_Some:
  "c_strstr s t i = Some j \<Longrightarrow> i \<le> j \<and> take (length t) (drop (j - i) s) = t \<and> j - i \<le> length s
     \<and> (\<forall>k < j - i. take (length t) (drop k s) \<noteq> t)"
proof (induction s arbitrary: i)
  case Nil
  then show ?case by (subst (asm) c_strstr.simps) (auto split: if_splits)
next
  case (Cons a s)
  show ?case
  proof (cases "take (length t) (a # s) = t")
    case True
    then show ?thesis using Cons.prems by (subst (asm) c_strstr.simps) auto
  next
    case False
    then have "c_strstr s t (Suc i) = Some j"
      using Cons.prems by (subst (asm) c_strstr.simps) simp
    from Cons.IH [OF this] have *: "Suc i \<le> j" "take (length t) (drop (j - Suc i) s) = t"
      "j - Suc i \<le> length s" "\<forall>k < j - Suc i. take (length t) (drop k s) \<noteq> t" by auto
    have "take (length t) (drop k (a # s)) \<noteq> t" if "k < j - i" for k
      using that *(4) False by (cases k) auto
    then show ?thesis using * by (auto simp: drop_Cons' Suc_diff_le [symmetric])
  qed
qed

lemma c_strstr_None: "c_strstr s t i = None \<Longrightarrow> take (length t) (drop k s) \<noteq> t"
proof (induction s arbitrary: i k)
  case Nil
  then show ?case by (subst (asm) c_strstr.simps) (auto split: if_splits)
next
  case (Cons a s)
  then show ?case by (subst (asm) (2) c_strstr.simps, cases k) (auto split: if_splits)
qed

lemma indexOf_None: "lua_utility_indexOf None y = - 1" "lua_utility_indexOf x None = - 1"
  by (simp_all add: lua_utility_indexOf_def split: option.split)

lemma indexOf_Some:
  "lua_utility_indexOf (Some s) (Some t) =
     (if \<exists>k. take (length t) (drop k s) = t
      then int (LEAST k. take (length t) (drop k s) = t) else - 1)"
proof (cases "c_strstr s t 0")
  case None
  then show ?thesis using c_strstr_None [OF None] by (simp add: lua_utility_indexOf_def)
next
  case (Some j)
  from c_strstr_Some [OF Some] have "take (length t) (drop j s) = t"
    "\<forall>k<j. take (length t) (drop k s) \<noteq> t" by simp_all
  moreover from this have "(LEAST k. take (length t) (drop k s) = t) = j"
    by (intro Least_equality) (auto simp: not_less [symmetric])
  ultimately show ?thesis using Some by (auto simp: lua_utility_indexOf_def)
qed

subsection \<open>Properties\<close>

text \<open>
  Fixed-width integers survive the wire: with eight bytes of room, what the 16-bit,
  32-bit, unsigned 64-bit and signed 64-bit writers put in the buffer the readers return,
  and no byte outside the field changes.
\<close>

theorem mqtt_int_roundtrip:
  assumes "p + 8 \<le> length m" "2 \<le> len"
  shows
    "(\<exists>m'. utility_mqtt_write_uint16 m p a = Inr (m', 2) \<and> utility_mqtt_read_uint16 m' p len = Inr a
       \<and> length m' = length m \<and> take p m' = take p m \<and> drop (p + 2) m' = drop (p + 2) m)
   \<and> (\<exists>m'. utility_mqtt_write_uint32 m p b = Inr (m', 4) \<and> utility_mqtt_read_uint32 m' p = Inr b
       \<and> length m' = length m \<and> take p m' = take p m \<and> drop (p + 4) m' = drop (p + 4) m)
   \<and> (\<exists>m'. utility_mqtt_write_uint64 m p c = Inr (m', 8) \<and> utility_mqtt_read_uint64 m' p = Inr c
       \<and> length m' = length m \<and> take p m' = take p m \<and> drop (p + 8) m' = drop (p + 8) m)
   \<and> (\<exists>m'. utility_mqtt_write_int64 m p d = Inr (m', 8) \<and> utility_mqtt_read_int64 m' p = Inr d
       \<and> length m' = length m \<and> take p m' = take p m \<and> drop (p + 8) m' = drop (p + 8) m)"
  using assms uint16_roundtrip [of p m len a] uint32_roundtrip [of p m b] uint64_roundtrip [of p m]
  by (simp add: write_int64_uint64 read_int64_uint64)

theorem mqtt_int_roundtrip_witness:
  "\<exists>m'. utility_mqtt_write_int64 (replicate 9 0) 1 (- 2) = Inr (m', 8) \<and>
     utility_mqtt_read_int64 m' 1 = Inr (- 2)"
  using mqtt_int_roundtrip [of 1 "replicate 9 0" 9 0 0 0 "- 2"] by auto

text \<open>
  C35: A remaining length below 2^28 survives the wire: the writer uses one to four bytes,
  exactly the 7-bit groups of the standard, and the reader returns the same number and the
  same byte count whenever the packet goes on after the field.
\<close>

theorem mqtt_remaining_length_roundtrip:
  assumes "unat n < 2 ^ 28" "p + 4 \<le> length m"
  shows "\<exists>m' k. utility_mqtt_write_remaining_leng m p n = Inr (m', int k) \<and> 1 \<le> k \<and> k \<le> 4
    \<and> take k (drop p m') = rl_enc (unat n)
    \<and> take p m' = take p m \<and> drop (p + k) m' = drop (p + k) m
    \<and> (\<forall>len. k < len \<longrightarrow> utility_mqtt_read_remaining_leng m' p len = Inr (int k, Some n))"
proof -
  let ?e = "rl_enc (unat n)"
  have k: "length ?e \<le> 4" using assms rl_enc_len_le [of "unat n" 3] by simp
  then have room: "p + length ?e \<le> length m" using assms by simp
  have "1 \<le> length ?e" by (simp add: Suc_le_eq)
  then show ?thesis
    using k room assms write_remaining_store [OF room] read_remaining_store [OF room]
    by (intro exI [of _ "store m p ?e"] exI [of _ "length ?e"])
      (simp add: store_read store_take store_drop)
qed

theorem mqtt_remaining_length_roundtrip_witness:
  "\<exists>m' k. utility_mqtt_write_remaining_leng [1, 2, 3, 4, 5, 6] 1 321 = Inr (m', int k) \<and> k \<le> 4
    \<and> utility_mqtt_read_remaining_leng m' 1 5 = Inr (int k, Some 321)"
proof -
  have "unat (321 :: u32) < 2 ^ 28" by simp
  from mqtt_remaining_length_roundtrip [OF this, of 1 "[1, 2, 3, 4, 5, 6]"]
  obtain m' k where "utility_mqtt_write_remaining_leng [1, 2, 3, 4, 5, 6] 1 321 = Inr (m', int k)" "k \<le> 4"
    "\<forall>len. k < len \<longrightarrow> utility_mqtt_read_remaining_leng m' 1 len = Inr (int k, Some 321)" by auto
  moreover from this(2) have "k < 5" by simp
  ultimately show ?thesis by blast
qed

text \<open>
  C40: The reader refuses what the protocol does not allow and one thing it does: a length of
  2^28 or more, which the writer still encodes (in five bytes), is refused whatever the
  length of the packet; and a field whose last byte is the last byte of the packet (as in
  PINGREQ, whose body is empty) is refused too, whatever the number.
\<close>

theorem mqtt_remaining_length_refused:
  assumes "p + 5 \<le> length m"
  shows "\<exists>m' k. utility_mqtt_write_remaining_leng m p n = Inr (m', int k)
    \<and> (2 ^ 28 \<le> unat n \<longrightarrow> (\<forall>len. utility_mqtt_read_remaining_leng m' p len = Inr (NGX_ERROR, None)))
    \<and> utility_mqtt_read_remaining_leng m' p k = Inr (NGX_ERROR, None)"
proof -
  have room: "p + length (rl_enc (unat n)) \<le> length m"
    using assms rl_enc_len_u32 [of n] by simp
  show ?thesis
    using write_remaining_store [OF room] read_remaining_long [OF room] read_remaining_end [OF room]
    by (intro exI [of _ "store m p (rl_enc (unat n))"] exI [of _ "length (rl_enc (unat n))"]) simp
qed

theorem mqtt_remaining_length_refused_witness:
  "\<exists>m' k. utility_mqtt_write_remaining_leng [0xC0, 0, 0, 0, 0, 0] 1 0 = Inr (m', int k)
    \<and> utility_mqtt_read_remaining_leng m' 1 k = Inr (NGX_ERROR, None)"
  using mqtt_remaining_length_refused [of 1 "[0xC0, 0, 0, 0, 0, 0]" 0] by auto

text \<open>
  A string of at most 65534 bytes survives the wire: the writer stores the big-endian
  length and the bytes, the reader accepts every packet length that holds them and points
  at exactly these bytes. A longer string is written too, but never read back: 65535 bytes
  are refused, and from 65536 on the reader sees a proper prefix or an error.
\<close>

theorem mqtt_string_roundtrip:
  assumes "length s < 2 ^ 31 - 2" "p + 2 + length s \<le> length m" "2 + length s \<le> plen"
  shows "\<exists>m'. utility_mqtt_write_string m p s = Inr (m', 2 + int (length s))
    \<and> take p m' = take p m \<and> drop (p + 2 + length s) m' = drop (p + 2 + length s) m
    \<and> take (length s) (drop (p + 2) m') = s
    \<and> (if length s < 65535
       then utility_mqtt_read_string m' p plen = Inr (2 + int (length s), Some (p + 2, length s))
       else utility_mqtt_read_string m' p plen = Inr (NGX_ERROR, None)
         \<or> (\<exists>n < length s. utility_mqtt_read_string m' p plen = Inr (2 + int n, Some (p + 2, n))))"
proof -
  let ?bs = "MOSQ_MSB (word_of_nat (length s)) # MOSQ_LSB (word_of_nat (length s)) # s"
  have "drop (p + 2 + length s) (store m p ?bs) = drop (p + 2 + length s) m"
    "take (length s) (drop (p + 2) (store m p ?bs)) = s" "take p (store m p ?bs) = take p m"
    using assms by (simp_all add: store_def add.commute)
  moreover have "p + 2 + length s \<le> length m" using assms by simp
  ultimately show ?thesis
    using write_string_store [of p s m] assms(1) read_string_short [of p s m plen] read_string_long [of p s m plen]
      assms(3)
    by (intro exI [of _ "store m p ?bs"]) (simp only: simp_thms not_less split: if_split, blast)
qed

theorem mqtt_string_roundtrip_witness:
  "\<exists>m'. utility_mqtt_write_string (replicate 8 0) 1 (str ''a/b'') = Inr (m', 5)
     \<and> utility_mqtt_read_string m' 1 7 = Inr (5, Some (3, 3)) \<and> take 3 (drop 3 m') = str ''a/b''"
  using mqtt_string_roundtrip [of "str ''a/b''" 1 "replicate 8 0" 7]
  by (auto simp: numeral_3_eq_3)

text \<open>
  The readers stay inside the packet: if the packet of \<open>plen\<close> bytes at \<open>p\<close> lies in
  the buffer, the string reader touches no byte outside it and the string it returns lies
  in the packet, whatever the bytes; so does the remaining-length reader of a non-empty packet.
\<close>

theorem mqtt_readers_memory_safe:
  assumes "p + plen \<le> length m"
  shows "(\<exists>c out. utility_mqtt_read_string m p plen = Inr (c, out)
      \<and> (case out of None \<Rightarrow> c = NGX_ERROR | Some (o', l) \<Rightarrow> c = 2 + int l \<and> p \<le> o' \<and> o' + l \<le> p + plen))
    \<and> (0 < plen \<longrightarrow> safe (utility_mqtt_read_remaining_leng m p plen))"
  using read_string_safe [OF assms] read_rl_loop_safe [OF assms]
  by (simp add: utility_mqtt_read_remaining_leng_def)

theorem mqtt_readers_memory_safe_witness:
  "safe (utility_mqtt_read_remaining_leng [0xFF, 0xFF] 0 2)"
  using mqtt_readers_memory_safe [of 0 2 "[0xFF, 0xFF]"] by simp

text \<open>
  The fixed-header flags hold the three fields apart: retain is bit 0, the low two bits
  of the quality of service are bits 1 and 2, dup is bit 3, and nothing else is set.
\<close>

lemma mqtt_encode_flags_fields:
  "bit (utility_mqtt_encode_flags qos dup retain) i \<longleftrightarrow>
     i = 0 \<and> retain \<or> i = 1 \<and> bit qos 0 \<or> i = 2 \<and> bit qos 1 \<or> i = 3 \<and> dup"
proof -
  have t: "(0x08 :: byte) = push_bit 3 1" "(0x03 :: byte) = mask 2"
    by (simp_all add: mask_eq_exp_minus_1)
  have "bit (push_bit 1 (qos AND 0x03)) i \<longleftrightarrow> i = 1 \<and> bit qos 0 \<or> i = 2 \<and> bit qos 1"
    unfolding t bit_push_bit_iff bit_and_iff bit_mask_iff
    by (cases i; cases "i - 1") (auto simp: numeral_2_eq_2)
  moreover have "bit (0x08 :: byte) i \<longleftrightarrow> i = 3" "bit (0x01 :: byte) i \<longleftrightarrow> i = 0"
    unfolding t bit_push_bit_iff bit_1_iff by auto
  ultimately show ?thesis
    unfolding utility_mqtt_encode_flags_def Let_def bit_or_iff by (simp add: bit_or_iff) blast
qed

text \<open>
  \<open>lua_utility_indexOf\<close> returns the position of the first occurrence: a result
  \<open>i\<close> that is not -1 is the least position at which the second string occurs, and -1 is
  returned exactly when a pointer is NULL or there is no occurrence.
\<close>

lemma indexOf_first:
  "lua_utility_indexOf x y =
     (case (x, y) of
        (Some s, Some t) \<Rightarrow>
          if \<exists>k. take (length t) (drop k s) = t
          then int (LEAST k. take (length t) (drop k s) = t) else - 1
      | _ \<Rightarrow> - 1)"
  by (cases x; cases y) (simp_all only: indexOf_Some indexOf_None option.case prod.case)

end
