(* ===== verification/Mqtt_Bits.thy ===== *)
theory Mqtt_Bits
  imports Ngx_Prelude
begin

unbundle bit_operations_syntax

section \<open>CRC-16 and the bit vector (ngx_lua_mqtt_kit_module/mqtt_protocol.c)\<close>

text \<open>
  The table-driven CRC-16 that places keys on Redis cluster slots, and the bit vector
  with its cached population count. The table is the source's; the specification is the
  bit-by-bit shift register of CRC-16/XMODEM. The bit vector is a record of the C struct,
  an access past the allocated block is the fault \<open>Oob\<close>, and the operations are shown
  to implement a finite set of numbers through the interface \<open>bit_set\<close>.
\<close>

subsection \<open>CRC-16\<close>

definition crc16tab :: "u16 list" where
  "crc16tab =
    [0x0000, 0x1021, 0x2042, 0x3063, 0x4084, 0x50a5, 0x60c6, 0x70e7,
     0x8108, 0x9129, 0xa14a, 0xb16b, 0xc18c, 0xd1ad, 0xe1ce, 0xf1ef,
     0x1231, 0x0210, 0x3273, 0x2252, 0x52b5, 0x4294, 0x72f7, 0x62d6,
     0x9339, 0x8318, 0xb37b, 0xa35a, 0xd3bd, 0xc39c, 0xf3ff, 0xe3de,
     0x2462, 0x3443, 0x0420, 0x1401, 0x64e6, 0x74c7, 0x44a4, 0x5485,
     0xa56a, 0xb54b, 0x8528, 0x9509, 0xe5ee, 0xf5cf, 0xc5ac, 0xd58d,
     0x3653, 0x2672, 0x1611, 0x0630, 0x76d7, 0x66f6, 0x5695, 0x46b4,
     0xb75b, 0xa77a, 0x9719, 0x8738, 0xf7df, 0xe7fe, 0xd79d, 0xc7bc,
     0x48c4, 0x58e5, 0x6886, 0x78a7, 0x0840, 0x1861, 0x2802, 0x3823,
     0xc9cc, 0xd9ed, 0xe98e, 0xf9af, 0x8948, 0x9969, 0xa90a, 0xb92b,
     0x5af5, 0x4ad4, 0x7ab7, 0x6a96, 0x1a71, 0x0a50, 0x3a33, 0x2a12,
     0xdbfd, 0xcbdc, 0xfbbf, 0xeb9e, 0x9b79, 0x8b58, 0xbb3b, 0xab1a,
     0x6ca6, 0x7c87, 0x4ce4, 0x5cc5, 0x2c22, 0x3c03, 0x0c60, 0x1c41,
     0xedae, 0xfd8f, 0xcdec, 0xddcd, 0xad2a, 0xbd0b, 0x8d68, 0x9d49,
     0x7e97, 0x6eb6, 0x5ed5, 0x4ef4, 0x3e13, 0x2e32, 0x1e51, 0x0e70,
     0xff9f, 0xefbe, 0xdfdd, 0xcffc, 0xbf1b, 0xaf3a, 0x9f59, 0x8f78,
     0x9188, 0x81a9, 0xb1ca, 0xa1eb, 0xd10c, 0xc12d, 0xf14e, 0xe16f,
     0x1080, 0x00a1, 0x30c2, 0x20e3, 0x5004, 0x4025, 0x7046, 0x6067,
     0x83b9, 0x9398, 0xa3fb, 0xb3da, 0xc33d, 0xd31c, 0xe37f, 0xf35e,
     0x02b1, 0x1290, 0x22f3, 0x32d2, 0x4235, 0x5214, 0x6277, 0x7256,
     0xb5ea, 0xa5cb, 0x95a8, 0x8589, 0xf56e, 0xe54f, 0xd52c, 0xc50d,
     0x34e2, 0x24c3, 0x14a0, 0x0481, 0x7466, 0x6447, 0x5424, 0x4405,
     0xa7db, 0xb7fa, 0x8799, 0x97b8, 0xe75f, 0xf77e, 0xc71d, 0xd73c,
     0x26d3, 0x36f2, 0x0691, 0x16b0, 0x6657, 0x7676, 0x4615, 0x5634,
     0xd94c, 0xc96d, 0xf90e, 0xe92f, 0x99c8, 0x89e9, 0xb98a, 0xa9ab,
     0x5844, 0x4865, 0x7806, 0x6827, 0x18c0, 0x08e1, 0x3882, 0x28a3,
     0xcb7d, 0xdb5c, 0xeb3f, 0xfb1e, 0x8bf9, 0x9bd8, 0xabbb, 0xbb9a,
     0x4a75, 0x5a54, 0x6a37, 0x7a16, 0x0af1, 0x1ad0, 0x2ab3, 0x3a92,
     0xfd2e, 0xed0f, 0xdd6c, 0xcd4d, 0xbdaa, 0xad8b, 0x9de8, 0x8dc9,
     0x7c26, 0x6c07, 0x5c64, 0x4c45, 0x3ca2, 0x2c83, 0x1ce0, 0x0cc1,
     0xef1f, 0xff3e, 0xcf5d, 0xdf7c, 0xaf9b, 0xbfba, 0x8fd9, 0x9ff8,
     0x6e17, 0x7e36, 0x4e55, 0x5e74, 0x2e93, 0x3eb2, 0x0ed1, 0x1ef0]"

text \<open>\<open>*buf\<close> is a \<open>char\<close>, sign-extended; only its low byte survives the mask \<open>0x00FF\<close>.\<close>

fun redisCRC16_loop :: "u16 \<Rightarrow> bytes \<Rightarrow> u16" where
  "redisCRC16_loop crc [] = crc"
| "redisCRC16_loop crc (b # buf) =
     redisCRC16_loop (push_bit 8 crc XOR crc16tab ! unat ((drop_bit 8 crc XOR scast b) AND 0x00FF)) buf"

definition lua_utility_redisCRC16 :: "bytes \<Rightarrow> u16" where
  "lua_utility_redisCRC16 buf = redisCRC16_loop 0 buf"

text \<open>The specification: polynomial 0x1021, most significant bit first, initial value 0.\<close>

definition crc_shift :: "u16 \<Rightarrow> u16" where
  "crc_shift r = (if bit r 15 then push_bit 1 r XOR 0x1021 else push_bit 1 r)"

definition crc_byte :: "u16 \<Rightarrow> byte \<Rightarrow> u16" where
  "crc_byte crc b = (crc_shift ^^ 8) (crc XOR push_bit 8 (ucast b))"

definition crc16_xmodem :: "bytes \<Rightarrow> u16" where
  "crc16_xmodem buf = foldl crc_byte 0 buf"

lemma crc_shift_xor: "crc_shift (a XOR b) = crc_shift a XOR crc_shift b"
  by (rule bit_word_eqI) (auto simp: crc_shift_def push_bit_xor bit_xor_iff)

lemma crc_shifts_xor: "(crc_shift ^^ n) (a XOR b) = (crc_shift ^^ n) a XOR (crc_shift ^^ n) b"
  by (induction n) (simp_all add: crc_shift_xor)

lemma crc_shift_low: "n \<le> 8 \<Longrightarrow> (crc_shift ^^ n) (ucast (b :: byte)) = push_bit n (ucast b)"
proof (induction n)
  case (Suc n)
  have "\<not> bit b (15 - n)" using Suc.prems bit_imp_le_length [of b "15 - n"] by fastforce
  then have "\<not> bit (push_bit n (ucast b) :: u16) 15" by (auto simp: bit_simps)
  then show ?case using Suc by (simp add: crc_shift_def)
qed simp

text \<open>
  The table in terms of its own first half: the entry of \<open>2 i\<close> is one shift of the entry
  of \<open>i\<close>, and the last bit of the index adds the polynomial.
\<close>

lemma crc16tab_paired: "crc16tab = paired crc_shift (\<lambda>t. crc_shift t XOR 0x1021) (take 128 crc16tab)"
  unfolding crc16tab_def by (simp add: crc_shift_def)

lemma crc16tab_length: "length crc16tab = 256"
  by (simp add: crc16tab_def)

lemma crc16tab_0: "crc16tab ! 0 = 0"
  by (simp add: crc16tab_def)

lemma crc16tab_entry: "i < 256 \<Longrightarrow> crc16tab ! i = (crc_shift ^^ 8) (push_bit 8 (word_of_nat i))"
proof (induction i rule: less_induct)
  case (less i)
  show ?case
  proof (cases "i = 0")
    case True
    have "crc_shift 0 = 0" by (simp add: crc_shift_def)
    then have "(crc_shift ^^ n) 0 = 0" for n by (induction n) simp_all
    then show ?thesis using True crc16tab_0 by simp
  next
    case False
    define j where "j = i div 2"
    have j: "j < 128" "j < i" using less.prems False by (simp_all add: j_def)
    let ?w = "push_bit 8 (word_of_nat j) :: u16"
    have "\<not> bit j 7" using j(1) by (simp add: bit_iff_odd)
    then have "\<not> bit ?w 15" by (simp add: bit_push_bit_iff bit_of_nat_iff del: push_bit_of_nat)
    then have up: "crc_shift ?w = push_bit 8 (word_of_nat (2 * j))"
      by (simp add: crc_shift_def push_bit_eq_mult)
    have one: "(crc_shift ^^ 8) (push_bit 8 1) = 0x1021"
      by (simp add: funpow_8 crc_shift_def)
    have odd: "push_bit 8 (word_of_nat (2 * j + 1)) = (push_bit 8 (word_of_nat (2 * j)) XOR push_bit 8 1 :: u16)"
      by (simp only: push_bit_xor [symmetric]) (rule arg_cong [where f = "push_bit 8"], rule bit_word_eqI,
        auto simp: bit_xor_iff bit_of_nat_iff bit_1_iff bit_double_iff even_bit_succ_iff)
    have IH: "crc16tab ! j = (crc_shift ^^ 8) ?w" using less.IH j less.prems by simp
    have nth: "crc16tab ! (2 * j) = crc_shift (crc16tab ! j)"
      "crc16tab ! (2 * j + 1) = crc_shift (crc16tab ! j) XOR 0x1021"
      using paired_table [OF crc16tab_paired _ j(1)] crc16tab_length by simp_all
    have sh: "crc_shift (crc16tab ! j) = (crc_shift ^^ 8) (push_bit 8 (word_of_nat (2 * j)))"
      unfolding IH up [symmetric] by (rule funpow_swap1)
    consider "i = 2 * j" | "i = 2 * j + 1" unfolding j_def by linarith
    then show ?thesis
      by cases (use nth sh one odd in \<open>simp_all only: crc_shifts_xor\<close>)
  qed
qed

lemma crc_step:
  "push_bit 8 crc XOR crc16tab ! unat ((drop_bit 8 crc XOR scast b) AND 0x00FF) = crc_byte crc b"
proof -
  define hi :: byte where "hi = ucast (drop_bit 8 crc) XOR b"
  define lo :: byte where "lo = ucast crc"
  have ff: "(0x00FF :: u16) = mask 8" by (simp add: mask_eq_exp_minus_1)
  have "(drop_bit 8 crc XOR scast b) AND 0x00FF = (ucast hi :: u16)"
  proof (rule bit_word_eqI)
    fix n :: nat assume "n < LENGTH(16)"
    then show "bit ((drop_bit 8 crc XOR scast b) AND 0x00FF) n \<longleftrightarrow> bit (ucast hi :: u16) n"
      by (cases "n < 8") (auto simp: ff hi_def bit_simps min_absorb2 dest: bit_imp_le_length)
  qed
  then have idx: "unat ((drop_bit 8 crc XOR scast b) AND 0x00FF) = unat hi"
    using less_trans [OF unat_byte_less [of hi], of 65536] by (simp add: unsigned_ucast_eq take_bit_eq_mod)
  have split: "crc XOR push_bit 8 (ucast b) = push_bit 8 (ucast hi) XOR ucast lo"
    unfolding hi_def lo_def by (rule bit_word_eqI) (auto simp: bit_simps)
  have low: "push_bit 8 (ucast lo) = push_bit 8 crc"
    unfolding lo_def by (rule bit_word_eqI) (auto simp: bit_simps)
  have "crc16tab ! unat hi = (crc_shift ^^ 8) (push_bit 8 (ucast hi))"
    using crc16tab_entry [of "unat hi"] by simp
  then show ?thesis
    unfolding idx crc_byte_def split crc_shifts_xor crc_shift_low [OF order_refl] low by (simp only: xor.commute)
qed

lemma redisCRC16_loop_spec: "redisCRC16_loop crc buf = foldl crc_byte crc buf"
  by (induction buf arbitrary: crc) (simp_all only: redisCRC16_loop.simps foldl.simps crc_step)

subsection \<open>The bit vector\<close>

definition BYTE_COUNTS :: "byte list" where
  "BYTE_COUNTS =
    [0, 1, 1, 2, 1, 2, 2, 3, 1, 2, 2, 3, 2, 3, 3, 4,
     1, 2, 2, 3, 2, 3, 3, 4, 2, 3, 3, 4, 3, 4, 4, 5,
     1, 2, 2, 3, 2, 3, 3, 4, 2, 3, 3, 4, 3, 4, 4, 5,
     2, 3, 3, 4, 3, 4, 4, 5, 3, 4, 4, 5, 4, 5, 5, 6,
     1, 2, 2, 3, 2, 3, 3, 4, 2, 3, 3, 4, 3, 4, 4, 5,
     2, 3, 3, 4, 3, 4, 4, 5, 3, 4, 4, 5, 4, 5, 5, 6,
     2, 3, 3, 4, 3, 4, 4, 5, 3, 4, 4, 5, 4, 5, 5, 6,
     3, 4, 4, 5, 4, 5, 5, 6, 4, 5, 5, 6, 5, 6, 6, 7,
     1, 2, 2, 3, 2, 3, 3, 4, 2, 3, 3, 4, 3, 4, 4, 5,
     2, 3, 3, 4, 3, 4, 4, 5, 3, 4, 4, 5, 4, 5, 5, 6,
     2, 3, 3, 4, 3, 4, 4, 5, 3, 4, 4, 5, 4, 5, 5, 6,
     3, 4, 4, 5, 4, 5, 5, 6, 4, 5, 5, 6, 5, 6, 6, 7,
     2, 3, 3, 4, 3, 4, 4, 5, 3, 4, 4, 5, 4, 5, 5, 6,
     3, 4, 4, 5, 4, 5, 5, 6, 4, 5, 5, 6, 5, 6, 6, 7,
     3, 4, 4, 5, 4, 5, 5, 6, 4, 5, 5, 6, 5, 6, 6, 7,
     4, 5, 5, 6, 5, 6, 6, 7, 5, 6, 6, 7, 6, 7, 7, 8]"

text \<open>
  \<open>bits\<close> is the allocated block; \<open>size\<close> its length as the struct records it;
  \<open>count\<close> the cached population count, -1 when it has to be computed. A bit number is a
  \<open>uint64_t\<close>, here a \<open>nat\<close>: it is only shifted right and masked.
\<close>

record bit_vector_t =
  bits :: bytes
  size_of :: nat
  count_of :: u64

text \<open>Memory comes from the slab pool, as it was left there, or zeroed from \<open>calloc\<close>; both may fail.\<close>

datatype allocator = Slab "nat \<Rightarrow> bytes option" | Calloc "nat \<Rightarrow> bool"

fun bv_alloc :: "allocator \<Rightarrow> nat \<Rightarrow> bytes option" where
  "bv_alloc (Slab f) n = f n"
| "bv_alloc (Calloc f) n = (if f n then Some (replicate n 0) else None)"

definition utility_bit_vector_init :: "allocator \<Rightarrow> nat \<Rightarrow> bit_vector_t option" where
  "utility_bit_vector_init shpool n =
     (let sz = (if n = 0 then 4294967295 div 8 + 1 else n div 8 + 1)
      in case bv_alloc shpool sz of
           None \<Rightarrow> None
         | Some bs \<Rightarrow> Some \<lparr>bits = bs, size_of = sz, count_of = - 1\<rparr>)"

definition bit_mask :: "nat \<Rightarrow> byte" where
  "bit_mask i = push_bit (i mod 8) 1"

definition utility_bit_vector_set :: "bit_vector_t \<Rightarrow> nat \<Rightarrow> bit_vector_t cm" where
  "utility_bit_vector_set bv i =
     (let pos = i div 8 in
      if pos > size_of bv then Inr bv
      else cbind (rd (bits bv) pos) (\<lambda>b.
           cbind (wr (bits bv) pos (b OR bit_mask i)) (\<lambda>bs.
           Inr (bv\<lparr>bits := bs, count_of := - 1\<rparr>))))"

definition utility_bit_vector_get :: "bit_vector_t \<Rightarrow> nat \<Rightarrow> bool cm" where
  "utility_bit_vector_get bv i =
     (let pos = i div 8 in
      if pos > size_of bv then Inr False
      else cbind (rd (bits bv) pos) (\<lambda>b. Inr (b AND bit_mask i \<noteq> 0)))"

definition utility_bit_vector_del :: "bit_vector_t \<Rightarrow> nat \<Rightarrow> bit_vector_t cm" where
  "utility_bit_vector_del bv i =
     (let pos = i div 8 in
      if pos > size_of bv then Inr bv
      else cbind (rd (bits bv) pos) (\<lambda>b.
           cbind (wr (bits bv) pos (b AND NOT (bit_mask i))) (\<lambda>bs.
           Inr (bv\<lparr>bits := bs, count_of := - 1\<rparr>))))"

definition utility_bit_vector_clear :: "bit_vector_t \<Rightarrow> bit_vector_t cm" where
  "utility_bit_vector_clear bv =
     cbind (mem_cpy (bits bv) 0 (replicate (size_of bv) 0)) (\<lambda>bs.
     Inr (bv\<lparr>bits := bs, count_of := - 1\<rparr>))"

fun bv_count_loop :: "bytes \<Rightarrow> nat \<Rightarrow> nat \<Rightarrow> u64 \<Rightarrow> u64 cm" where
  "bv_count_loop bs i 0 c = Inr c"
| "bv_count_loop bs i (Suc n) c =
     cbind (rd bs i) (\<lambda>b. bv_count_loop bs (Suc i) n (c + ucast (BYTE_COUNTS ! unat (b AND 0xFF))))"

definition utility_bit_vector_count :: "bit_vector_t \<Rightarrow> (bit_vector_t \<times> u64) cm" where
  "utility_bit_vector_count bv =
     (if count_of bv = - 1
      then cbind (bv_count_loop (bits bv) 0 (size_of bv) 0) (\<lambda>c. Inr (bv\<lparr>count_of := c\<rparr>, c))
      else Inr (bv, count_of bv))"

subsection \<open>Interface: a set of small numbers\<close>

locale bit_set =
  fixes ok :: "'s \<Rightarrow> bool"
    and cap :: "'s \<Rightarrow> nat"
    and elems :: "'s \<Rightarrow> nat set"
    and ins del :: "'s \<Rightarrow> nat \<Rightarrow> 's cm"
    and clr :: "'s \<Rightarrow> 's cm"
    and mem :: "'s \<Rightarrow> nat \<Rightarrow> bool cm"
    and cnt :: "'s \<Rightarrow> ('s \<times> u64) cm"
  assumes ins_ok: "ok s \<Longrightarrow> i < cap s \<Longrightarrow>
      \<exists>s'. ins s i = Inr s' \<and> ok s' \<and> cap s' = cap s \<and> elems s' = insert i (elems s)"
    and del_ok: "ok s \<Longrightarrow> i < cap s \<Longrightarrow>
      \<exists>s'. del s i = Inr s' \<and> ok s' \<and> cap s' = cap s \<and> elems s' = elems s - {i}"
    and clr_ok: "ok s \<Longrightarrow> \<exists>s'. clr s = Inr s' \<and> ok s' \<and> cap s' = cap s \<and> elems s' = {}"
    and cnt_ok: "ok s \<Longrightarrow> \<exists>s'. cnt s = Inr (s', word_of_nat (card (elems s))) \<and> ok s' \<and> cap s' = cap s
      \<and> elems s' = elems s"
    and mem_ok: "ok s \<Longrightarrow> i < cap s \<Longrightarrow> mem s i = Inr (i \<in> elems s)"

text \<open>A sequence of calls, and what it does to a set.\<close>

datatype bv_op = OpSet nat | OpDel nat | OpClear | OpCount

fun op_in :: "nat \<Rightarrow> bv_op \<Rightarrow> bool" where
  "op_in n (OpSet i) \<longleftrightarrow> i < n"
| "op_in n (OpDel i) \<longleftrightarrow> i < n"
| "op_in n _ \<longleftrightarrow> True"

fun op_spec :: "nat set \<Rightarrow> bv_op \<Rightarrow> nat set" where
  "op_spec A (OpSet i) = insert i A"
| "op_spec A (OpDel i) = A - {i}"
| "op_spec A OpClear = {}"
| "op_spec A OpCount = A"

fun run_ops :: "('s \<Rightarrow> bv_op \<Rightarrow> 's cm) \<Rightarrow> 's \<Rightarrow> bv_op list \<Rightarrow> 's cm" where
  "run_ops f s [] = Inr s"
| "run_ops f s (x # xs) = cbind (f s x) (\<lambda>s. run_ops f s xs)"

fun op_step :: "('s \<Rightarrow> nat \<Rightarrow> 's cm) \<Rightarrow> ('s \<Rightarrow> nat \<Rightarrow> 's cm) \<Rightarrow> ('s \<Rightarrow> 's cm) \<Rightarrow>
    ('s \<Rightarrow> ('s \<times> u64) cm) \<Rightarrow> 's \<Rightarrow> bv_op \<Rightarrow> 's cm" where
  "op_step ins del clr cnt s (OpSet i) = ins s i"
| "op_step ins del clr cnt s (OpDel i) = del s i"
| "op_step ins del clr cnt s OpClear = clr s"
| "op_step ins del clr cnt s OpCount = cbind (cnt s) (\<lambda>(s, _). Inr s)"

context bit_set
begin

lemma op_step_ok:
  assumes "ok s" "op_in (cap s) x"
  shows "\<exists>s'. op_step ins del clr cnt s x = Inr s' \<and> ok s' \<and> cap s' = cap s
    \<and> elems s' = op_spec (elems s) x"
  using assms ins_ok [of s] del_ok [of s] clr_ok [of s] cnt_ok [of s] by (cases x) force+

lemma run_ops_ok:
  assumes "ok s" "list_all (op_in (cap s)) xs"
  shows "\<exists>s'. run_ops (op_step ins del clr cnt) s xs = Inr s' \<and> ok s' \<and> cap s' = cap s
    \<and> elems s' = foldl op_spec (elems s) xs"
  using assms
proof (induction xs arbitrary: s)
  case (Cons x xs)
  from op_step_ok [of s x] Cons.prems obtain s1 where
    1: "op_step ins del clr cnt s x = Inr s1" "ok s1" "cap s1 = cap s" "elems s1 = op_spec (elems s) x"
    by auto
  then show ?case using Cons.IH [of s1] Cons.prems by simp
qed simp

lemma run_ops_observed:
  assumes "ok s" "list_all (op_in (cap s)) xs"
  shows "\<exists>s'. run_ops (op_step ins del clr cnt) s xs = Inr s'
    \<and> (\<forall>i < cap s. mem s' i = Inr (i \<in> foldl op_spec (elems s) xs))
    \<and> (\<exists>s''. cnt s' = Inr (s'', word_of_nat (card (foldl op_spec (elems s) xs))))"
proof -
  from run_ops_ok [OF assms] obtain s' where
    s': "run_ops (op_step ins del clr cnt) s xs = Inr s'" "ok s'" "cap s' = cap s"
    "elems s' = foldl op_spec (elems s) xs" by blast
  then show ?thesis using mem_ok [of s'] cnt_ok [of s'] by auto
qed

end

subsection \<open>The bit vector implements it\<close>

definition bv_elems :: "bit_vector_t \<Rightarrow> nat set" where
  "bv_elems bv = {i. i < 8 * size_of bv \<and> bit (bits bv ! (i div 8)) (i mod 8)}"

definition bv_ok :: "bit_vector_t \<Rightarrow> bool" where
  "bv_ok bv \<longleftrightarrow> length (bits bv) = size_of bv \<and> size_of bv < 2 ^ 60
     \<and> (count_of bv = - 1 \<or> count_of bv = word_of_nat (card (bv_elems bv)))"

lemma byte_counts_paired: "BYTE_COUNTS = paired (\<lambda>t. t) (\<lambda>t. t + 1) (take 128 BYTE_COUNTS)"
  unfolding BYTE_COUNTS_def by simp

lemma byte_counts_length: "length BYTE_COUNTS = 256"
  by (simp add: BYTE_COUNTS_def)

lemma bits_double: "{k. bit (2 * j) k} = Suc ` {k. bit j k}"
  "{k. bit (2 * j + 1) k} = insert 0 (Suc ` {k. bit j k})" for j :: nat
proof -
  show "{k. bit (2 * j) k} = Suc ` {k. bit j k}"
    by (auto simp: bit_double_iff image_iff gr0_conv_Suc)
  have "bit (2 * j + 1) k \<longleftrightarrow> k = 0 \<or> (\<exists>i. k = Suc i \<and> bit j i)" for k
    by (cases k) (simp_all add: bit_Suc bit_0)
  then show "{k. bit (2 * j + 1) k} = insert 0 (Suc ` {k. bit j k})" by auto
qed

lemma byte_counts_entry:
  "i < 256 \<Longrightarrow> finite {k. bit i k} \<and> BYTE_COUNTS ! i = word_of_nat (card {k. bit i k})" for i :: nat
proof (induction i rule: less_induct)
  case (less i)
  show ?case
  proof (cases "i = 0")
    case True
    then show ?thesis by (simp add: BYTE_COUNTS_def)
  next
    case False
    define j where "j = i div 2"
    have j: "j < 128" "j < i" using less.prems False by (simp_all add: j_def)
    have IH: "finite {k. bit j k}" "BYTE_COUNTS ! j = word_of_nat (card {k. bit j k})"
      using less.IH j less.prems by simp_all
    have nth: "BYTE_COUNTS ! (2 * j) = BYTE_COUNTS ! j" "BYTE_COUNTS ! (2 * j + 1) = BYTE_COUNTS ! j + 1"
      using paired_table [OF byte_counts_paired _ j(1)] byte_counts_length by simp_all
    have card: "card (Suc ` {k. bit j k}) = card {k. bit j k}" by (simp add: card_image)
    consider "i = 2 * j" | "i = 2 * j + 1" unfolding j_def by linarith
    then show ?thesis
      by cases (use IH nth card in \<open>simp_all only: bits_double\<close>, auto simp: IH)
  qed
qed

lemma byte_count: "unat (BYTE_COUNTS ! unat (b AND 0xFF)) = card {k. k < 8 \<and> bit (b :: byte) k}"
proof -
  have "(0xFF :: byte) = - 1" by simp
  then have b: "b AND 0xFF = b" by (simp only: and.right_neutral)
  have eq: "{k. bit (unat b) k} = {k. k < 8 \<and> bit b k}"
    by (auto simp: bit_unsigned_iff dest: bit_imp_le_length)
  have "card {k. k < 8 \<and> bit b k} \<le> card {..<8 :: nat}" by (rule card_mono) auto
  then show ?thesis
    using byte_counts_entry [of "unat b"] unfolding b eq
    by (simp add: unsigned_of_nat take_bit_eq_mod)
qed

lemma bv_elems_UN:
  "bv_elems bv = (\<Union>p\<in>{..<size_of bv}. (\<lambda>k. 8 * p + k) ` {k. k < 8 \<and> bit (bits bv ! p) k})"
proof (intro equalityI subsetI)
  fix i assume "i \<in> bv_elems bv"
  then have "i div 8 < size_of bv" "i mod 8 \<in> {k. k < 8 \<and> bit (bits bv ! (i div 8)) k}"
    "i = 8 * (i div 8) + i mod 8"
    by (auto simp: bv_elems_def less_mult_imp_div_less mult.commute)
  then show "i \<in> (\<Union>p\<in>{..<size_of bv}. (\<lambda>k. 8 * p + k) ` {k. k < 8 \<and> bit (bits bv ! p) k})" by blast
qed (auto simp: bv_elems_def)

lemma bv_elems_card: "card (bv_elems bv) = (\<Sum>p\<in>{..<size_of bv}. card {k. k < 8 \<and> bit (bits bv ! p) k})"
proof -
  have "card (bv_elems bv) =
      (\<Sum>p\<in>{..<size_of bv}. card ((\<lambda>k. 8 * p + k) ` {k. k < 8 \<and> bit (bits bv ! p) k}))"
    unfolding bv_elems_UN by (rule card_UN_disjoint) auto
  then show ?thesis by (simp add: card_image)
qed

lemma word_of_nat_unat_byte: "(ucast (b :: byte) :: u64) = word_of_nat (unat b)"
  by simp

lemma bv_count_loop_sum:
  "i + n \<le> length bs \<Longrightarrow> bv_count_loop bs i n c =
     Inr (c + word_of_nat (\<Sum>p=i..<i + n. card {k. k < 8 \<and> bit (bs ! p) k}))"
proof (induction n arbitrary: i c)
  case (Suc n)
  have "(ucast (BYTE_COUNTS ! unat (bs ! i AND 0xFF)) :: u64) = word_of_nat (card {k. k < 8 \<and> bit (bs ! i) k})"
    by (metis byte_count word_of_nat_unat_byte)
  moreover have "(\<Sum>p=i..<i + Suc n. card {k. k < 8 \<and> bit (bs ! p) k}) =
      card {k. k < 8 \<and> bit (bs ! i) k} + (\<Sum>p=Suc i..<Suc i + n. card {k. k < 8 \<and> bit (bs ! p) k})"
    by (simp add: sum.atLeast_Suc_lessThan)
  ultimately show ?case using Suc by (simp add: rd_def)
qed simp

lemma bit_bit_mask: "bit (bit_mask i) k \<longleftrightarrow> k = i mod 8"
  by (auto simp: bit_mask_def bit_simps)

lemma and_bit_mask: "b AND bit_mask i \<noteq> 0 \<longleftrightarrow> bit b (i mod 8)" for b :: byte
proof
  assume "b AND bit_mask i \<noteq> 0"
  then obtain k where "bit (b AND bit_mask i) k" using bit_eqI [of "b AND bit_mask i" 0] by auto
  then show "bit b (i mod 8)" by (auto simp: bit_and_iff bit_bit_mask)
next
  assume "bit b (i mod 8)"
  then have "bit (b AND bit_mask i) (i mod 8)" by (simp add: bit_and_iff bit_bit_mask)
  then show "b AND bit_mask i \<noteq> 0" by force
qed

lemma div_mod_8: "j div 8 = i div 8 \<and> j mod 8 = i mod 8 \<longleftrightarrow> j = i" for i j :: nat
  by (metis div_mult_mod_eq)

lemma bv_set_Inr:
  assumes "length (bits bv) = size_of bv" "i < 8 * size_of bv"
  shows "\<exists>bv'. utility_bit_vector_set bv i = Inr bv' \<and> length (bits bv') = size_of bv' \<and> count_of bv' = - 1
    \<and> size_of bv' = size_of bv \<and> bv_elems bv' = insert i (bv_elems bv)"
proof -
  define bv' where "bv' = bv\<lparr>bits := (bits bv)[i div 8 := bits bv ! (i div 8) OR bit_mask i], count_of := - 1\<rparr>"
  have pos: "i div 8 < size_of bv" using assms by (simp add: less_mult_imp_div_less mult.commute)
  then have "utility_bit_vector_set bv i = Inr bv'"
    using assms by (simp add: utility_bit_vector_set_def Let_def rd_def wr_def bv'_def)
  moreover have "j \<in> bv_elems bv' \<longleftrightarrow> j = i \<or> j \<in> bv_elems bv" for j
    using pos assms div_mod_8 [of j i]
    by (auto simp: bv_elems_def bv'_def nth_list_update bit_or_iff bit_bit_mask)
  ultimately show ?thesis using assms by (auto simp: bv'_def)
qed

lemma bv_del_Inr:
  assumes "length (bits bv) = size_of bv" "i < 8 * size_of bv"
  shows "\<exists>bv'. utility_bit_vector_del bv i = Inr bv' \<and> length (bits bv') = size_of bv' \<and> count_of bv' = - 1
    \<and> size_of bv' = size_of bv \<and> bv_elems bv' = bv_elems bv - {i}"
proof -
  define bv' where "bv' = bv\<lparr>bits := (bits bv)[i div 8 := bits bv ! (i div 8) AND NOT (bit_mask i)], count_of := - 1\<rparr>"
  have pos: "i div 8 < size_of bv" using assms by (simp add: less_mult_imp_div_less mult.commute)
  then have "utility_bit_vector_del bv i = Inr bv'"
    using assms by (simp add: utility_bit_vector_del_def Let_def rd_def wr_def bv'_def)
  moreover have "j \<in> bv_elems bv' \<longleftrightarrow> j \<noteq> i \<and> j \<in> bv_elems bv" for j
    using pos assms div_mod_8 [of j i]
    by (auto simp: bv_elems_def bv'_def nth_list_update bit_and_iff bit_not_iff bit_bit_mask)
  ultimately show ?thesis using assms by (auto simp: bv'_def)
qed

lemma bv_clear_Inr:
  assumes "length (bits bv) = size_of bv"
  shows "\<exists>bv'. utility_bit_vector_clear bv = Inr bv' \<and> length (bits bv') = size_of bv' \<and> count_of bv' = - 1
    \<and> size_of bv' = size_of bv \<and> bv_elems bv' = {}"
proof -
  have "store (bits bv) 0 (replicate (size_of bv) 0) = replicate (size_of bv) 0"
    using assms by (simp add: store_def)
  then show ?thesis
    using assms
    by (auto simp: utility_bit_vector_clear_def mem_cpy_def bv_elems_def less_mult_imp_div_less mult.commute)
qed

lemma bv_count_Inr:
  assumes "bv_ok bv"
  shows "\<exists>bv'. utility_bit_vector_count bv = Inr (bv', word_of_nat (card (bv_elems bv)))
    \<and> bv_ok bv' \<and> size_of bv' = size_of bv \<and> bv_elems bv' = bv_elems bv"
proof -
  have "bv_count_loop (bits bv) 0 (size_of bv) 0 = Inr (word_of_nat (card (bv_elems bv)))"
    using assms by (subst bv_count_loop_sum)
      (simp_all add: bv_ok_def bv_elems_card atLeast0LessThan)
  then show ?thesis
    using assms
    by (auto simp: utility_bit_vector_count_def bv_ok_def bv_elems_def split: if_splits)
qed

lemma bv_get_Inr:
  assumes "length (bits bv) = size_of bv" "i < 8 * size_of bv"
  shows "utility_bit_vector_get bv i = Inr (i \<in> bv_elems bv)"
proof -
  have "i div 8 < size_of bv" using assms by (simp add: less_mult_imp_div_less mult.commute)
  then show ?thesis
    using assms by (simp add: utility_bit_vector_get_def Let_def rd_def and_bit_mask bv_elems_def)
qed

interpretation bitv: bit_set bv_ok "\<lambda>bv. 8 * size_of bv" bv_elems utility_bit_vector_set
  utility_bit_vector_del utility_bit_vector_clear utility_bit_vector_get utility_bit_vector_count
proof unfold_locales
  fix bv i
  assume ok: "bv_ok bv"
  then have len: "length (bits bv) = size_of bv" "size_of bv < 2 ^ 60" by (simp_all add: bv_ok_def)
  show "\<exists>bv'. utility_bit_vector_clear bv = Inr bv' \<and> bv_ok bv' \<and> 8 * size_of bv' = 8 * size_of bv
      \<and> bv_elems bv' = {}"
    using bv_clear_Inr [OF len(1)] len unfolding bv_ok_def by auto
  show "\<exists>bv'. utility_bit_vector_count bv = Inr (bv', word_of_nat (card (bv_elems bv))) \<and> bv_ok bv'
      \<and> 8 * size_of bv' = 8 * size_of bv \<and> bv_elems bv' = bv_elems bv"
    using bv_count_Inr [OF ok] by auto
  assume i: "i < 8 * size_of bv"
  show "utility_bit_vector_get bv i = Inr (i \<in> bv_elems bv)" by (rule bv_get_Inr [OF len(1) i])
  show "\<exists>bv'. utility_bit_vector_set bv i = Inr bv' \<and> bv_ok bv' \<and> 8 * size_of bv' = 8 * size_of bv
      \<and> bv_elems bv' = insert i (bv_elems bv)"
    using bv_set_Inr [OF len(1) i] len unfolding bv_ok_def by auto
  show "\<exists>bv'. utility_bit_vector_del bv i = Inr bv' \<and> bv_ok bv' \<and> 8 * size_of bv' = 8 * size_of bv
      \<and> bv_elems bv' = bv_elems bv - {i}"
    using bv_del_Inr [OF len(1) i] len unfolding bv_ok_def by auto
qed

subsection \<open>Properties\<close>

text \<open>
  C37: The table-driven CRC is CRC-16/XMODEM: for every byte string,
  \<open>lua_utility_redisCRC16\<close> is the result of shifting the bytes, most significant bit
  first, through the 16-bit register with polynomial 0x1021 and initial value 0.
\<close>

theorem redisCRC16_is_xmodem: "lua_utility_redisCRC16 buf = crc16_xmodem buf"
  by (simp only: lua_utility_redisCRC16_def crc16_xmodem_def redisCRC16_loop_spec)

text \<open>
  C36: The bit vector is a set: start from \<open>utility_bit_vector_init\<close> on zeroed memory and make
  any sequence of set, del, clear and count calls on bits that lie in the block (for
  \<open>n > 0\<close> all bits up to \<open>n\<close>). No call faults, and afterwards get answers membership in the
  set the calls describe and count its number of elements, cached or not.
\<close>

theorem bit_vector_is_set:
  assumes "n < 2 ^ 60" "utility_bit_vector_init (Calloc (\<lambda>_. True)) n = Some bv"
    and "list_all (op_in (8 * size_of bv)) ops"
  shows "n < 8 * size_of bv
    \<and> (\<exists>bv'. run_ops (op_step utility_bit_vector_set utility_bit_vector_del utility_bit_vector_clear
        utility_bit_vector_count) bv ops = Inr bv'
      \<and> (\<forall>i < 8 * size_of bv. utility_bit_vector_get bv' i = Inr (i \<in> foldl op_spec {} ops))
      \<and> (\<exists>bv''. utility_bit_vector_count bv' = Inr (bv'', word_of_nat (card (foldl op_spec {} ops)))))"
proof -
  let ?sz = "if n = 0 then 4294967295 div 8 + 1 else n div 8 + 1"
  have bv: "bv = \<lparr>bits = replicate ?sz 0, size_of = ?sz, count_of = - 1\<rparr>"
    using assms(2) by (simp add: utility_bit_vector_init_def Let_def split: if_splits)
  have "bv_elems bv = {}" by (auto simp: bv bv_elems_def less_mult_imp_div_less mult.commute)
  moreover have "bv_ok bv" using assms(1) by (auto simp: bv bv_ok_def)
  moreover have "n < 8 * size_of bv" by (simp add: bv) presburger
  ultimately show ?thesis using bitv.run_ops_observed [OF _ assms(3)] by simp
qed

theorem bit_vector_is_set_witness:
  "\<exists>bv bv' bv''. utility_bit_vector_init (Calloc (\<lambda>_. True)) 20 = Some bv
     \<and> run_ops (op_step utility_bit_vector_set utility_bit_vector_del utility_bit_vector_clear
        utility_bit_vector_count) bv [OpSet 3, OpSet 20, OpDel 3, OpSet 9] = Inr bv'
     \<and> utility_bit_vector_count bv' = Inr (bv'', 2)"
proof -
  obtain bv where bv: "utility_bit_vector_init (Calloc (\<lambda>_. True)) 20 = Some bv" "size_of bv = 3"
    by (simp add: utility_bit_vector_init_def Let_def)
  have "insert (9 :: nat) (insert 20 {3} - {3}) = {9, 20}" by auto
  then show ?thesis
    using bit_vector_is_set [of 20 bv "[OpSet 3, OpSet 20, OpDel 3, OpSet 9]"] bv by auto
qed

text \<open>
  The range test of set, get and del lets one byte too many through: for a block of
  \<open>size\<close> bytes, the eight bit numbers from \<open>8 * size\<close> on pass it and the access is
  outside the block; from \<open>8 * (size + 1)\<close> on the calls are refused without effect.
\<close>

theorem bit_vector_guard_off_by_one:
  assumes "length (bits bv) = size_of bv"
  shows "(i div 8 = size_of bv \<longrightarrow> utility_bit_vector_set bv i = Inl Oob
      \<and> utility_bit_vector_get bv i = Inl Oob \<and> utility_bit_vector_del bv i = Inl Oob)
    \<and> (i div 8 > size_of bv \<longrightarrow> utility_bit_vector_set bv i = Inr bv
      \<and> utility_bit_vector_get bv i = Inr False \<and> utility_bit_vector_del bv i = Inr bv)"
  using assms
  by (simp add: utility_bit_vector_set_def utility_bit_vector_get_def utility_bit_vector_del_def rd_def)

theorem bit_vector_guard_off_by_one_witness:
  "utility_bit_vector_set \<lparr>bits = [0], size_of = 1, count_of = - 1\<rparr> 8 = Inl Oob"
  using bit_vector_guard_off_by_one [of "\<lparr>bits = [0], size_of = 1, count_of = - 1\<rparr>" 8] by simp

end
