(* ===== verification/Disruptor.thy ===== *)
theory Disruptor
  imports Ngx_Prelude
begin

unbundle bit_operations_syntax

section \<open>The ring-buffer queue (ngx_lua_mqtt_kit_module/ngx_disruptor.c)\<close>

text \<open>
  A multi-producer, multi-consumer queue over a ring of slots. Every thread is a little
  program whose program counter and local variables are a datatype value; a step of the
  system is one access of one thread to the shared record (a read of a cursor, a
  compare-and-set, the copy into or the callback on a slot it owns), so that every
  interleaving of the C code at that grain is an execution of the model.

  The four cursors are \<open>ngx_atomic_t\<close> counters that only grow; they are natural numbers
  here (a counter would wrap after 2^64 messages). A slot is the list of its bytes and the
  buffer the list of its slots. \<open>sent\<close> and \<open>got\<close> are history variables: what was copied
  for a sequence number, and what the callback was given for it, \<open>None\<close> for a slot that
  lies past the end of the buffer.
\<close>

subsection \<open>State\<close>

text \<open>
  A producer: outside the library; at the loop head of \<open>ngx_disruptor_next\<close>; having read
  \<open>wnext\<close>; having seen the ring not full; back in the caller with the sequence number that
  the call returned; having copied its data and waiting to move \<open>wcursor\<close>. The first two
  carry the local variable \<open>next\<close> of the call, which is not initialised (\<open>None\<close>) and keeps
  the value of a turn of the loop whose compare-and-set failed. \<open>PJunk\<close> is the caller with
  the value of the variable when nothing was assigned to it.
\<close>

datatype producer = PIdle | PHead "nat option" | PRead nat "nat option" | PFree nat | POwn nat | PFilled nat | PJunk

text \<open>
  A consumer thread: not created; created; at the head of its inner loop; having read
  \<open>rnext\<close>; having seen it differ from \<open>wcursor\<close>; about to cap the batch; about to claim
  the batch; in the callback; committing; at the test of the outer loop; ended.
\<close>

datatype consumer = COff | CNew | CHead | CRead nat | CSeen nat | CCap nat | CClaim nat nat
  | CCall nat nat | CCommit nat nat | CLoop | CEnd

record ngx_disruptor_t =
  wcursor :: nat
  wnext :: nat
  rcursor :: nat
  rnext :: nat
  slots :: nat
  slot_size :: nat
  ring :: "bytes list"
  batch_size :: nat
  runing :: byte
  runing_threads :: nat
  work_threads :: nat
  freed :: bool
  prods :: "nat \<Rightarrow> producer"
  conss :: "nat \<Rightarrow> consumer"
  sent :: "nat \<Rightarrow> bytes option"
  got :: "(nat \<times> bytes option) list"

subsection \<open>Producers\<close>

text \<open>The slot of a sequence number, \<open>sequence & (slots - 1)\<close>.\<close>

definition slot_of :: "nat \<Rightarrow> nat \<Rightarrow> nat" where
  "slot_of n s = s AND (n - 1)"

definition set_prod :: "nat \<Rightarrow> producer \<Rightarrow> ngx_disruptor_t \<Rightarrow> ngx_disruptor_t" where
  "set_prod t pc st = st\<lparr>prods := (prods st)(t := pc)\<rparr>"

definition set_cons :: "nat \<Rightarrow> consumer \<Rightarrow> ngx_disruptor_t \<Rightarrow> ngx_disruptor_t" where
  "set_cons t pc st = st\<lparr>conss := (conss st)(t := pc)\<rparr>"

text \<open>
  \<open>ngx_disruptor_next\<close>, one shared access at a time. \<open>'0'\<close> is the byte 48, so the test
  \<open>if (disruptor->runing)\<close> is a test against the byte 0: it fails before the first call of
  \<open>ngx_disruptor_startup\<close> only, and a full ring then makes the call return \<open>next\<close> as it is. A
  caller that gets \<open>NGX_ERROR\<close> does not publish.
\<close>

definition ngx_disruptor_next :: "nat \<Rightarrow> ngx_disruptor_t \<Rightarrow> ngx_disruptor_t" where
  "ngx_disruptor_next t st =
     (case prods st t of
        PIdle \<Rightarrow> if runing st = chr CHR ''0'' then st else set_prod t (PHead None) st
      | PHead nxt \<Rightarrow> set_prod t (PRead (wnext st) nxt) st
      | PRead current nxt \<Rightarrow>
          if current = rcursor st + slots st
          then (if runing st \<noteq> 0 then set_prod t (PHead nxt) st
                else case nxt of Some s \<Rightarrow> set_prod t (POwn s) st | None \<Rightarrow> set_prod t PJunk st)
          else set_prod t (PFree current) st
      | PFree current \<Rightarrow>
          if wnext st = current
          then set_prod t (POwn (current + 1)) (st\<lparr>wnext := current + 1\<rparr>)
          else set_prod t (PHead (Some (current + 1))) st
      | _ \<Rightarrow> st)"

text \<open>
  \<open>ngx_disruptor_publish\<close> with the number the caller got: the tests, the copy, and the loop
  that moves \<open>wcursor\<close> when its turn has come.
\<close>

definition ngx_disruptor_publish :: "nat \<Rightarrow> bytes \<Rightarrow> ngx_disruptor_t \<Rightarrow> ngx_disruptor_t" where
  "ngx_disruptor_publish t data st =
     (case prods st t of
        POwn s \<Rightarrow>
          if runing st = chr CHR ''0'' then set_prod t PIdle st
          else if length data > slot_size st then set_prod t PIdle st
          else
            let k = slot_of (slots st) s; old = ring st ! k
            in set_prod t (PFilled s)
                 (st\<lparr>ring := (ring st)[k := store old 0 data], sent := (sent st)(s \<mapsto> data)\<rparr>)
      | PFilled s \<Rightarrow>
          if wcursor st + 1 = s then set_prod t PIdle (st\<lparr>wcursor := s\<rparr>) else st
      | _ \<Rightarrow> st)"

subsection \<open>Consumers\<close>

text \<open>
  What the callback reads: \<open>n\<close> consecutive slots from the slot of \<open>current + 1\<close> on. The
  pointer is not brought back to the start of the buffer at its end.
\<close>

definition batch_data :: "ngx_disruptor_t \<Rightarrow> nat \<Rightarrow> nat \<Rightarrow> (nat \<times> bytes option) list" where
  "batch_data st current nxt =
     map (\<lambda>i. let k = slot_of (slots st) (current + 1) + i
              in (current + 1 + i, if k < slots st then Some (ring st ! k) else None))
       [0..<nxt - current]"

definition ngx_disruptor_consumer_thread :: "nat \<Rightarrow> ngx_disruptor_t \<Rightarrow> ngx_disruptor_t" where
  "ngx_disruptor_consumer_thread t st =
     (case conss st t of
        CNew \<Rightarrow> set_cons t CHead (st\<lparr>runing_threads := runing_threads st + 1\<rparr>)
      | CHead \<Rightarrow> set_cons t (CRead (rnext st)) st
      | CRead current \<Rightarrow>
          if current = wcursor st
          then (if runing st \<noteq> 0 then set_cons t CHead st
                else set_cons t CEnd (st\<lparr>runing_threads := runing_threads st - 1\<rparr>))
          else set_cons t (CSeen current) st
      | CSeen current \<Rightarrow>
          if current + batch_size st > wcursor st then set_cons t (CCap current) st
          else set_cons t (CClaim current (current + batch_size st)) st
      | CCap current \<Rightarrow>
          let nxt = wcursor st;
              nxt = (if nxt - current > batch_size st then current + batch_size st else nxt)
          in set_cons t (CClaim current nxt) st
      | CClaim current nxt \<Rightarrow>
          if rnext st = current then set_cons t (CCall current nxt) (st\<lparr>rnext := nxt\<rparr>)
          else set_cons t CHead st
      | CCall current nxt \<Rightarrow>
          set_cons t (CCommit current nxt) (st\<lparr>got := got st @ batch_data st current nxt\<rparr>)
      | CCommit current nxt \<Rightarrow>
          if rcursor st = current then set_cons t CLoop (st\<lparr>rcursor := nxt\<rparr>)
          else if runing st \<noteq> 0 then st
          else set_cons t CLoop st
      | CLoop \<Rightarrow>
          if runing st \<noteq> 0 then set_cons t CHead st
          else set_cons t CEnd (st\<lparr>runing_threads := runing_threads st - 1\<rparr>)
      | _ \<Rightarrow> st)"

subsection \<open>Creation, start and destruction\<close>

function round_up :: "nat \<Rightarrow> nat \<Rightarrow> nat" where
  "round_up s n = (let s = 2 * s in if s < n \<and> 0 < s then round_up s n else s)"
  by pat_completeness auto

termination
  by (relation "measure (\<lambda>(s, n). n - s)") auto

declare round_up.simps [simp del]

definition ngx_disruptor_create :: "nat \<Rightarrow> nat \<Rightarrow> int \<Rightarrow> nat \<Rightarrow> ngx_disruptor_t option" where
  "ngx_disruptor_create n sz batch threads =
     (if round_up 1 n \<noteq> n then None
      else if batch < 1 then None
      else Some \<lparr>wcursor = 0, wnext = 0, rcursor = 0, rnext = 0, slots = n, slot_size = sz,
                 ring = replicate n (replicate sz 0), batch_size = nat batch, runing = 0,
                 runing_threads = 0, work_threads = threads, freed = False,
                 prods = (\<lambda>_. PIdle), conss = (\<lambda>_. COff), sent = (\<lambda>_. None), got = []\<rparr>)"

text \<open>The threads created are given the identifiers from \<open>base\<close> on.\<close>

definition ngx_disruptor_startup :: "nat \<Rightarrow> ngx_disruptor_t \<Rightarrow> ngx_disruptor_t" where
  "ngx_disruptor_startup base st =
     (if runing_threads st > 0 then st
      else st\<lparr>runing := chr CHR ''1'',
              conss := (\<lambda>t. if base \<le> t \<and> t < base + work_threads st \<and> conss st t = COff then CNew
                           else conss st t)\<rparr>)"

text \<open>\<open>ngx_disruptor_destroy\<close>: the flag first, and the memory after the threads ended or the time ran out.\<close>

definition ngx_disruptor_stop :: "ngx_disruptor_t \<Rightarrow> ngx_disruptor_t" where
  "ngx_disruptor_stop st = st\<lparr>runing := chr CHR ''0''\<rparr>"

definition ngx_disruptor_free :: "ngx_disruptor_t \<Rightarrow> ngx_disruptor_t" where
  "ngx_disruptor_free st = st\<lparr>freed := True\<rparr>"

text \<open>The steps; the value of an uninitialised variable (\<open>d_junk\<close>) is any number.\<close>

inductive dstep :: "ngx_disruptor_t \<Rightarrow> ngx_disruptor_t \<Rightarrow> bool" where
  d_next: "\<not> freed st \<Longrightarrow> dstep st (ngx_disruptor_next t st)"
| d_publish: "\<not> freed st \<Longrightarrow> dstep st (ngx_disruptor_publish t data st)"
| d_consume: "\<not> freed st \<Longrightarrow> dstep st (ngx_disruptor_consumer_thread t st)"
| d_startup: "\<not> freed st \<Longrightarrow> dstep st (ngx_disruptor_startup base st)"
| d_stop: "\<not> freed st \<Longrightarrow> dstep st (ngx_disruptor_stop st)"
| d_junk: "\<not> freed st \<Longrightarrow> prods st t = PJunk \<Longrightarrow> dstep st (set_prod t (POwn s) st)"
| d_free: "\<not> freed st \<Longrightarrow> runing st = chr CHR ''0'' \<Longrightarrow> dstep st (ngx_disruptor_free st)"

inductive reachable :: "ngx_disruptor_t \<Rightarrow> ngx_disruptor_t \<Rightarrow> bool" for st0 where
  r_init: "reachable st0 st0"
| r_step: "reachable st0 st \<Longrightarrow> dstep st st' \<Longrightarrow> reachable st0 st'"

inductive_cases dstepE: "dstep st st'"

lemmas d_ops = ngx_disruptor_next_def ngx_disruptor_publish_def ngx_disruptor_consumer_thread_def
  ngx_disruptor_startup_def ngx_disruptor_stop_def ngx_disruptor_free_def set_prod_def set_cons_def Let_def

subsection \<open>The invariant\<close>

text \<open>The bytes sent for a sequence number are in its slot.\<close>

definition in_slot :: "ngx_disruptor_t \<Rightarrow> nat \<Rightarrow> bool" where
  "in_slot st s = (\<exists>d. sent st s = Some d \<and> take (length d) (ring st ! slot_of (slots st) s) = d)"

fun owned :: "producer \<Rightarrow> nat option" where
  "owned (POwn s) = Some s"
| "owned (PFilled s) = Some s"
| "owned _ = None"

fun claimed :: "consumer \<Rightarrow> nat set" where
  "claimed (CCall c n) = {c<..n}"
| "claimed (CCommit c n) = {c<..n}"
| "claimed _ = {}"

fun pending :: "consumer \<Rightarrow> nat set" where
  "pending (CCall c n) = {c<..n}"
| "pending _ = {}"

fun prod_ok :: "ngx_disruptor_t \<Rightarrow> producer \<Rightarrow> bool" where
  "prod_ok st (PRead c nxt) \<longleftrightarrow> c \<le> wnext st"
| "prod_ok st (PFree c) \<longleftrightarrow> c \<le> wnext st \<and> c < rcursor st + slots st"
| "prod_ok st (POwn s) \<longleftrightarrow> wcursor st < s \<and> s \<le> wnext st"
| "prod_ok st (PFilled s) \<longleftrightarrow> wcursor st < s \<and> s \<le> wnext st \<and> in_slot st s"
| "prod_ok st _ \<longleftrightarrow> True"

fun cons_ok :: "ngx_disruptor_t \<Rightarrow> consumer \<Rightarrow> bool" where
  "cons_ok st (CRead c) \<longleftrightarrow> c \<le> rnext st"
| "cons_ok st (CSeen c) \<longleftrightarrow> c \<le> rnext st \<and> c < wcursor st"
| "cons_ok st (CCap c) \<longleftrightarrow> c \<le> rnext st \<and> c < wcursor st"
| "cons_ok st (CClaim c n) \<longleftrightarrow> c \<le> rnext st \<and> c < n \<and> n \<le> wcursor st \<and> n \<le> c + batch_size st"
| "cons_ok st (CCall c n) \<longleftrightarrow> rcursor st \<le> c \<and> c < n \<and> n \<le> rnext st \<and> n \<le> c + batch_size st"
| "cons_ok st (CCommit c n) \<longleftrightarrow> rcursor st \<le> c \<and> c < n \<and> n \<le> rnext st \<and> n \<le> c + batch_size st"
| "cons_ok st _ \<longleftrightarrow> True"

definition geometry :: "ngx_disruptor_t \<Rightarrow> bool" where
  "geometry st \<longleftrightarrow> (\<exists>k. slots st = 2 ^ k) \<and> 0 < batch_size st \<and> length (ring st) = slots st
     \<and> list_all (\<lambda>r. length r = slot_size st) (ring st)"

definition cursors_ok :: "ngx_disruptor_t \<Rightarrow> bool" where
  "cursors_ok st \<longleftrightarrow> rcursor st \<le> rnext st \<and> rnext st \<le> wcursor st \<and> wcursor st \<le> wnext st
     \<and> wnext st \<le> rcursor st + slots st"

definition exclusive :: "ngx_disruptor_t \<Rightarrow> bool" where
  "exclusive st \<longleftrightarrow>
     (\<forall>t u s. t \<noteq> u \<longrightarrow> owned (prods st t) = Some s \<longrightarrow> owned (prods st u) \<noteq> Some s)
   \<and> (\<forall>t u. t \<noteq> u \<longrightarrow> claimed (conss st t) \<inter> claimed (conss st u) = {})"

definition filled :: "ngx_disruptor_t \<Rightarrow> bool" where
  "filled st \<longleftrightarrow> (\<forall>s. rcursor st < s \<and> s \<le> wcursor st \<longrightarrow> in_slot st s)"

text \<open>
  What the callbacks got: sequence numbers up to \<open>rnext\<close>, each once, all of them but
  those a consumer is just being given, and with the bytes sent for them.
\<close>

definition log_ok :: "ngx_disruptor_t \<Rightarrow> bool" where
  "log_ok st \<longleftrightarrow>
     distinct (map fst (got st))
   \<and> (\<forall>s \<in> fst ` set (got st). 1 \<le> s \<and> s \<le> rnext st)
   \<and> (\<forall>s. 1 \<le> s \<and> s \<le> rnext st \<longrightarrow> s \<in> fst ` set (got st) \<or> (\<exists>t. s \<in> pending (conss st t)))
   \<and> (\<forall>t. pending (conss st t) \<inter> fst ` set (got st) = {})
   \<and> (\<forall>(s, v) \<in> set (got st). \<exists>d. sent st s = Some d \<and> (v = None \<or> take (length d) (the v) = d))"

definition dinv :: "ngx_disruptor_t \<Rightarrow> bool" where
  "dinv st \<longleftrightarrow> geometry st \<and> cursors_ok st \<and> (\<forall>t. prod_ok st (prods st t)) \<and> (\<forall>t. cons_ok st (conss st t))
     \<and> exclusive st \<and> filled st \<and> log_ok st"

text \<open>After the first start, no call of \<open>ngx_disruptor_next\<close> returns a stale or an indeterminate number.\<close>

definition started :: "ngx_disruptor_t \<Rightarrow> bool" where
  "started st \<longleftrightarrow> runing st \<noteq> 0 \<and> (\<forall>t. prods st t \<noteq> PJunk)"

lemma slot_of_mod: "geometry st \<Longrightarrow> slot_of (slots st) s = s mod slots st"
proof -
  assume "geometry st"
  then obtain k where "slots st = 2 ^ k" by (auto simp: geometry_def)
  then show ?thesis
    by (simp add: slot_of_def take_bit_eq_mod [symmetric] take_bit_eq_mask mask_eq_exp_minus_1)
qed

lemma mod_neq_close:
  fixes a b n :: nat
  assumes "a < b" "b < a + n"
  shows "a mod n \<noteq> b mod n"
proof
  assume "a mod n = b mod n"
  then have "n dvd b - a" using assms(1) by (metis mod_eq_dvd_iff_nat less_imp_le_nat)
  then have "n \<le> b - a" using assms by (simp add: dvd_imp_le)
  then show False using assms by simp
qed

lemma slot_neq:
  assumes "geometry st" "a \<noteq> b" "a < b + slots st" "b < a + slots st"
  shows "slot_of (slots st) a \<noteq> slot_of (slots st) b"
  using assms mod_neq_close [of a b "slots st"] mod_neq_close [of b a "slots st"]
  by (metis linorder_neqE_nat slot_of_mod)

lemma slot_less: "geometry st \<Longrightarrow> slot_of (slots st) s < slots st"
  by (auto simp: slot_of_mod) (auto simp: geometry_def)

text \<open>The copy of a producer that owns its sequence number keeps every other slot in use.\<close>

lemma copy_in_slot:
  fixes st s d
  assumes "geometry st" "length d \<le> slot_size st"
  defines "st' \<equiv> st\<lparr>ring := (ring st)[slot_of (slots st) s := store (ring st ! slot_of (slots st) s) 0 d],
     sent := (sent st)(s \<mapsto> d)\<rparr>"
  shows "in_slot st' s"
    and "in_slot st s' \<Longrightarrow> s' \<noteq> s \<Longrightarrow> s < s' + slots st \<Longrightarrow> s' < s + slots st \<Longrightarrow> in_slot st' s'"
    and "geometry st'"
proof -
  have len: "length (ring st) = slots st" "slot_of (slots st) s < slots st"
    using assms(1) slot_less [OF assms(1)] by (simp_all add: geometry_def)
  show "in_slot st' s" using len by (simp add: in_slot_def st'_def store_def)
  show "in_slot st' s'" if "in_slot st s'" "s' \<noteq> s" "s < s' + slots st" "s' < s + slots st"
    using that slot_neq [OF assms(1), of s s'] len
    by (auto simp: in_slot_def st'_def)
  have "length (ring st ! slot_of (slots st) s) = slot_size st"
    using assms(1) len by (simp add: geometry_def list_all_length)
  then show "geometry st'"
    using assms(1,2) len by (auto simp: geometry_def st'_def list_all_length nth_list_update)
qed

lemma frame_prods:
  fixes st f
  defines "st' \<equiv> st\<lparr>prods := f\<rparr>"
  shows "in_slot st' = in_slot st" "prod_ok st' = prod_ok st" "cons_ok st' = cons_ok st"
    "geometry st' = geometry st" "cursors_ok st' = cursors_ok st" "filled st' = filled st" "log_ok st' = log_ok st"
proof -
  show slot: "in_slot st' = in_slot st" by (simp add: in_slot_def st'_def fun_eq_iff)
  have "prod_ok st' pc = prod_ok st pc" for pc by (cases pc) (simp_all add: slot, simp_all add: st'_def)
  moreover have "cons_ok st' pc = cons_ok st pc" for pc by (cases pc) (simp_all add: st'_def)
  ultimately show "prod_ok st' = prod_ok st" "cons_ok st' = cons_ok st" by (simp_all add: fun_eq_iff)
  show "filled st' = filled st" unfolding filled_def slot by (simp add: st'_def)
  show "geometry st' = geometry st" "cursors_ok st' = cursors_ok st" "log_ok st' = log_ok st"
    by (simp_all add: st'_def geometry_def cursors_ok_def log_ok_def)
qed

lemma frame_conss:
  fixes st f
  defines "st' \<equiv> st\<lparr>conss := f\<rparr>"
  shows "in_slot st' = in_slot st" "prod_ok st' = prod_ok st" "cons_ok st' = cons_ok st"
    "geometry st' = geometry st" "cursors_ok st' = cursors_ok st" "filled st' = filled st"
proof -
  show slot: "in_slot st' = in_slot st" by (simp add: in_slot_def st'_def fun_eq_iff)
  have "prod_ok st' pc = prod_ok st pc" for pc by (cases pc) (simp_all add: slot, simp_all add: st'_def)
  moreover have "cons_ok st' pc = cons_ok st pc" for pc by (cases pc) (simp_all add: st'_def)
  ultimately show "prod_ok st' = prod_ok st" "cons_ok st' = cons_ok st" by (simp_all add: fun_eq_iff)
  show "filled st' = filled st" unfolding filled_def slot by (simp add: st'_def)
  show "geometry st' = geometry st" "cursors_ok st' = cursors_ok st"
    by (simp_all add: st'_def geometry_def cursors_ok_def)
qed

text \<open>Fields the invariant does not read.\<close>

lemma frame_flags:
  "dinv (st\<lparr>runing := r\<rparr>) = dinv st" "dinv (st\<lparr>runing_threads := n\<rparr>) = dinv st" "dinv (st\<lparr>freed := f\<rparr>) = dinv st"
proof -
  have eq: "prod_ok st1 = prod_ok st2 \<and> cons_ok st1 = cons_ok st2 \<and> in_slot st1 = in_slot st2"
    if "wcursor st1 = wcursor st2" "wnext st1 = wnext st2" "rcursor st1 = rcursor st2" "rnext st1 = rnext st2"
      "slots st1 = slots st2" "ring st1 = ring st2" "batch_size st1 = batch_size st2" "sent st1 = sent st2"
    for st1 st2
  proof -
    have i: "in_slot st1 = in_slot st2" using that by (simp add: in_slot_def slot_of_def fun_eq_iff)
    have "prod_ok st1 pc = prod_ok st2 pc" for pc using that i by (cases pc) simp_all
    moreover have "cons_ok st1 pc = cons_ok st2 pc" for pc using that by (cases pc) simp_all
    ultimately show ?thesis using i by (simp add: fun_eq_iff)
  qed
  show "dinv (st\<lparr>runing := r\<rparr>) = dinv st"
    using eq [of "st\<lparr>runing := r\<rparr>" st]
    by (simp add: dinv_def geometry_def cursors_ok_def exclusive_def filled_def log_ok_def)
  show "dinv (st\<lparr>runing_threads := n\<rparr>) = dinv st"
    using eq [of "st\<lparr>runing_threads := n\<rparr>" st]
    by (simp add: dinv_def geometry_def cursors_ok_def exclusive_def filled_def log_ok_def)
  show "dinv (st\<lparr>freed := f\<rparr>) = dinv st"
    using eq [of "st\<lparr>freed := f\<rparr>" st]
    by (simp add: dinv_def geometry_def cursors_ok_def exclusive_def filled_def log_ok_def)
qed

subsection \<open>Producers keep the invariant\<close>

lemma set_prod_inv:
  assumes "dinv st" "prod_ok st pc"
    and "\<And>s u. owned pc = Some s \<Longrightarrow> u \<noteq> t \<Longrightarrow> owned (prods st u) \<noteq> Some s"
  shows "dinv (set_prod t pc st)"
  unfolding dinv_def set_prod_def frame_prods
proof (intro conjI allI)
  show "exclusive (st\<lparr>prods := (prods st)(t := pc)\<rparr>)"
    using assms(1,3) unfolding dinv_def exclusive_def by (simp, metis)
qed (use assms in \<open>auto simp: dinv_def\<close>)

lemma next_claim_inv:
  assumes "dinv st" "wnext st < rcursor st + slots st"
  shows "dinv (set_prod t (POwn (wnext st + 1)) (st\<lparr>wnext := wnext st + 1\<rparr>))"
proof -
  let ?st = "st\<lparr>wnext := wnext st + 1\<rparr>"
  have i: "in_slot (st\<lparr>wnext := n\<rparr>) = in_slot st" for n by (simp add: in_slot_def fun_eq_iff)
  have p: "prod_ok st pc \<Longrightarrow> prod_ok ?st pc" for pc by (cases pc) (simp_all add: i)
  have c: "cons_ok ?st q = cons_ok st q" for q by (cases q) simp_all
  have "dinv ?st"
    using assms p c i unfolding dinv_def
    by (simp add: geometry_def cursors_ok_def exclusive_def filled_def log_ok_def)
  moreover have "prod_ok ?st (POwn (wnext st + 1))"
    using assms by (simp add: dinv_def cursors_ok_def)
  moreover have "owned (prods st u) \<noteq> Some (wnext st + 1)" for u
  proof -
    have "prod_ok st (prods st u)" using assms by (simp add: dinv_def)
    then show ?thesis by (cases "prods st u") auto
  qed
  ultimately show ?thesis by (intro set_prod_inv) auto
qed

lemma next_inv: "dinv st \<Longrightarrow> runing st \<noteq> 0 \<Longrightarrow> dinv (ngx_disruptor_next t st)"
proof (cases "prods st t")
  case (PRead c nxt)
  assume inv: "dinv st" and run: "runing st \<noteq> 0"
  then have "prod_ok st (PRead c nxt)" using PRead by (metis dinv_def)
  moreover have "wnext st \<le> rcursor st + slots st" using inv by (simp add: dinv_def cursors_ok_def)
  ultimately show ?thesis
    using inv run PRead by (auto simp: ngx_disruptor_next_def intro!: set_prod_inv)
next
  case (PFree c)
  assume inv: "dinv st"
  then have "prod_ok st (PFree c)" using PFree by (metis dinv_def)
  then show ?thesis
    using inv PFree next_claim_inv [OF inv, of t]
    by (cases "wnext st = c") (simp add: ngx_disruptor_next_def, simp add: ngx_disruptor_next_def,
      rule set_prod_inv, simp_all)
qed (auto simp: ngx_disruptor_next_def intro!: set_prod_inv)

lemma prod_owned_bounds:
  assumes "dinv st" "owned (prods st t) = Some s"
  shows "wcursor st < s" "s \<le> wnext st"
proof -
  have "prod_ok st (prods st t)" using assms by (simp add: dinv_def)
  then show "wcursor st < s" "s \<le> wnext st" using assms(2) by (cases "prods st t"; simp)+
qed

text \<open>The copy into the slot.\<close>

lemma publish_copy_inv:
  assumes inv: "dinv st" and own: "prods st t = POwn s" and len: "length d \<le> slot_size st"
  shows "dinv (set_prod t (PFilled s) (st\<lparr>ring := (ring st)[slot_of (slots st) s :=
     store (ring st ! slot_of (slots st) s) 0 d], sent := (sent st)(s \<mapsto> d)\<rparr>))"
proof -
  define st' where "st' = st\<lparr>ring := (ring st)[slot_of (slots st) s :=
     store (ring st ! slot_of (slots st) s) 0 d], sent := (sent st)(s \<mapsto> d)\<rparr>"
  note copy = copy_in_slot [where st = st and d = d and s = s, folded st'_def]
  have geo: "geometry st" and cur: "rcursor st \<le> rnext st" "rnext st \<le> wcursor st" "wcursor st \<le> wnext st"
    "wnext st \<le> rcursor st + slots st"
    using inv by (simp_all add: dinv_def cursors_ok_def)
  have s: "wcursor st < s" "s \<le> wnext st" using prod_owned_bounds [OF inv, of t s] own by simp_all
  have other: "in_slot st' s'" if "in_slot st s'" "s' \<noteq> s" "rcursor st < s'" "s' \<le> wnext st" for s'
    using that s cur by (intro copy(2) [OF geo len]) simp_all
  have prod: "prod_ok st' (prods st u)" if "u \<noteq> t" for u
  proof -
    have "prod_ok st (prods st u)" using inv by (simp add: dinv_def)
    moreover have "owned (prods st u) \<noteq> Some s"
      using inv own that unfolding dinv_def exclusive_def by (metis owned.simps(1))
    ultimately show ?thesis
      using cur by (cases "prods st u") (auto simp: st'_def intro: other [unfolded st'_def])
  qed
  have "cons_ok st' = cons_ok st"
  proof
    show "cons_ok st' q = cons_ok st q" for q by (cases q) (simp_all add: st'_def)
  qed
  then have cons: "cons_ok st' (conss st u)" for u using inv by (simp add: dinv_def)
  have fil: "filled st'"
    using inv s cur other unfolding dinv_def filled_def by (auto simp: st'_def)
  have log: "log_ok st'"
  proof -
    have L: "log_ok st" using inv by (simp add: dinv_def)
    have "x \<noteq> s" if "(x, v) \<in> set (got st)" for x v
    proof -
      have "x \<in> fst ` set (got st)" using that by force
      then have "x \<le> rnext st" using L by (auto simp: log_ok_def)
      then show ?thesis using s cur by simp
    qed
    then have "\<forall>(x, v) \<in> set (got st). \<exists>e. sent st' x = Some e \<and> (v = None \<or> take (length e) (the v) = e)"
      using L unfolding log_ok_def st'_def by auto
    then show ?thesis using L unfolding log_ok_def by (simp add: st'_def)
  qed
  have fill: "prod_ok st' (PFilled s)" using s copy(1) [OF geo len] by (simp add: st'_def)
  have ex: "exclusive (st'\<lparr>prods := (prods st')(t := PFilled s)\<rparr>)"
    using inv own unfolding dinv_def exclusive_def st'_def by (simp, metis owned.simps(1))
  have "cursors_ok st'" using inv by (simp add: dinv_def cursors_ok_def st'_def)
  moreover have "prods st' = prods st" "conss st' = conss st" by (simp_all add: st'_def)
  ultimately show ?thesis
    unfolding st'_def [symmetric] dinv_def set_prod_def frame_prods
    using ex prod cons fill fil log copy(3) [OF geo len] by simp
qed

text \<open>The move of the write cursor.\<close>

lemma publish_commit_inv:
  assumes inv: "dinv st" and own: "prods st t = PFilled s" and turn: "wcursor st + 1 = s"
  shows "dinv (set_prod t PIdle (st\<lparr>wcursor := s\<rparr>))"
proof -
  define st' where "st' = set_prod t PIdle (st\<lparr>wcursor := s\<rparr>)"
  have s: "wcursor st < s" "s \<le> wnext st" "in_slot st s"
    using inv own prod_owned_bounds [OF inv, of t s] unfolding dinv_def
    by (auto dest: spec [of _ t])
  have i: "in_slot st' = in_slot st" by (simp add: st'_def set_prod_def in_slot_def fun_eq_iff)
  have prod: "prod_ok st' (prods st u)" if "u \<noteq> t" for u
  proof -
    have "prod_ok st (prods st u)" using inv by (simp add: dinv_def)
    moreover have "owned (prods st u) \<noteq> Some s"
      using inv own that unfolding dinv_def exclusive_def by (metis owned.simps(2))
    ultimately show ?thesis
      using turn s(1) i by (cases "prods st u") (auto simp: st'_def set_prod_def)
  qed
  have cons: "cons_ok st' (conss st u)" for u
  proof -
    have "cons_ok st (conss st u)" using inv by (simp add: dinv_def)
    then show ?thesis using s by (cases "conss st u") (auto simp: st'_def set_prod_def)
  qed
  have "x = s" if "wcursor st < x" "x \<le> s" for x using that turn by simp
  then have "filled st'"
    using inv s unfolding dinv_def filled_def i by (auto simp: st'_def set_prod_def) (metis not_less)
  moreover have "log_ok st'" "geometry st'"
    using inv by (simp_all add: dinv_def log_ok_def geometry_def st'_def set_prod_def)
  moreover have "cursors_ok st'" using inv s by (auto simp: dinv_def cursors_ok_def st'_def set_prod_def)
  moreover have "exclusive st'"
    using inv unfolding dinv_def exclusive_def by (simp add: st'_def set_prod_def)
  moreover have "prod_ok st' (prods st' u)" for u
    using prod [of u] by (cases "u = t") (simp_all add: st'_def set_prod_def)
  moreover have "conss st' = conss st" by (simp add: st'_def set_prod_def)
  ultimately have "dinv st'" unfolding dinv_def using cons by simp
  then show ?thesis by (simp add: st'_def)
qed

lemma publish_inv: "dinv st \<Longrightarrow> dinv (ngx_disruptor_publish t d st)"
proof (cases "prods st t")
  case (POwn s)
  assume "dinv st"
  then show ?thesis
    using POwn publish_copy_inv [of st t s d]
    by (auto simp: ngx_disruptor_publish_def Let_def intro!: set_prod_inv)
next
  case (PFilled s)
  assume "dinv st"
  then show ?thesis using PFilled publish_commit_inv [of st t s] by (simp add: ngx_disruptor_publish_def)
qed (simp_all add: ngx_disruptor_publish_def)

subsection \<open>Consumers keep the invariant\<close>

lemma set_cons_inv:
  assumes inv: "dinv st" and ok: "cons_ok st pc" and same: "pending pc = pending (conss st t)"
    and less: "claimed pc \<subseteq> claimed (conss st t)"
  shows "dinv (set_cons t pc st)"
proof -
  have sub: "claimed (((conss st)(t := pc)) u) \<subseteq> claimed (conss st u)" for u using less by simp
  have "claimed (((conss st)(t := pc)) u) \<inter> claimed (((conss st)(t := pc)) v) = {}" if "u \<noteq> v" for u v
  proof -
    have "claimed (conss st u) \<inter> claimed (conss st v) = {}"
      using inv that by (simp add: dinv_def exclusive_def)
    then show ?thesis using sub [of u] sub [of v] by blast
  qed
  then have "exclusive (st\<lparr>conss := (conss st)(t := pc)\<rparr>)"
    using inv unfolding dinv_def exclusive_def by simp
  moreover have "pending (((conss st)(t := pc)) u) = pending (conss st u)" for u
    using same by simp
  then have "log_ok (st\<lparr>conss := (conss st)(t := pc)\<rparr>)"
    using inv unfolding dinv_def log_ok_def by simp
  moreover have "cons_ok st (((conss st)(t := pc)) u)" for u using inv ok by (simp add: dinv_def)
  ultimately show ?thesis
    using inv unfolding dinv_def set_cons_def frame_conss by simp
qed

lemma claim_inv:
  assumes inv: "dinv st" and pc: "conss st t = CClaim (rnext st) n"
  shows "dinv (set_cons t (CCall (rnext st) n) (st\<lparr>rnext := n\<rparr>))"
proof -
  define st' where "st' = set_cons t (CCall (rnext st) n) (st\<lparr>rnext := n\<rparr>)"
  have cur: "rcursor st \<le> rnext st" "rnext st \<le> wcursor st" "wcursor st \<le> wnext st"
    "wnext st \<le> rcursor st + slots st"
    using inv by (simp_all add: dinv_def cursors_ok_def)
  have n: "rnext st < n" "n \<le> wcursor st" "n \<le> rnext st + batch_size st"
    using inv pc unfolding dinv_def by (auto dest: spec [of _ t])
  have i: "in_slot st' = in_slot st" by (simp add: st'_def set_cons_def in_slot_def fun_eq_iff)
  have "prod_ok st' pc = prod_ok st pc" for pc
    by (cases pc) (simp_all add: i, simp_all add: st'_def set_cons_def)
  then have prod: "prod_ok st' (prods st' u)" for u using inv by (simp add: dinv_def st'_def set_cons_def)
  have old: "cons_ok st (conss st u)" for u using inv by (simp add: dinv_def)
  have cons: "cons_ok st' (conss st' u)" for u
    using old [of u] n cur by (cases "conss st u"; cases "u = t") (auto simp: st'_def set_cons_def)
  have claim: "claimed (conss st u) \<subseteq> {..rnext st}" "pending (conss st u) \<subseteq> {..rnext st}" for u
    using old [of u] by (cases "conss st u"; auto)+
  have "exclusive st'"
    unfolding exclusive_def
  proof (intro conjI allI impI)
    fix u v :: nat assume "u \<noteq> v"
    then show "claimed (conss st' u) \<inter> claimed (conss st' v) = {}"
      using inv claim [of u] claim [of v] unfolding dinv_def exclusive_def
      by (cases "u = t"; cases "v = t") (auto simp: st'_def set_cons_def)
  next
    fix u v s assume "u \<noteq> v" "owned (prods st' u) = Some s"
    then show "owned (prods st' v) \<noteq> Some s"
      using inv unfolding dinv_def exclusive_def by (simp add: st'_def set_cons_def)
  qed
  moreover have "log_ok st'"
  proof -
    have L: "log_ok st" using inv by (simp add: dinv_def)
    have gotle: "s \<le> rnext st \<and> 1 \<le> s" if "s \<in> fst ` set (got st)" for s
      using L that by (auto simp: log_ok_def)
    have pend: "pending (conss st' u) = (if u = t then {rnext st<..n} else pending (conss st u))" for u
      by (simp add: st'_def set_cons_def)
    have t0: "pending (conss st t) = {}" using pc by simp
    have "s \<in> fst ` set (got st) \<or> (\<exists>u. s \<in> pending (conss st' u))" if "1 \<le> s" "s \<le> n" for s
    proof (cases "s \<le> rnext st")
      case True
      then have "s \<in> fst ` set (got st) \<or> (\<exists>u. s \<in> pending (conss st u))"
        using L that by (simp add: log_ok_def)
      then show ?thesis using pend t0 by (metis empty_iff)
    next
      case False
      then show ?thesis using that pend [of t] by (metis greaterThanAtMost_iff not_le)
    qed
    moreover have "pending (conss st' u) \<inter> fst ` set (got st) = {}" for u
    proof (cases "u = t")
      case True
      then show ?thesis using gotle by (fastforce simp: pend)
    next
      case False
      then show ?thesis using L by (simp add: pend log_ok_def)
    qed
    moreover have "1 \<le> s \<and> s \<le> n" if "s \<in> fst ` set (got st)" for s using gotle [OF that] n by simp
    ultimately show ?thesis
      using L unfolding log_ok_def by (simp add: st'_def set_cons_def)
  qed
  moreover have "cursors_ok st'" using cur n by (simp add: cursors_ok_def st'_def set_cons_def)
  moreover have "geometry st'" "filled st'"
    using inv unfolding dinv_def filled_def i by (simp_all add: geometry_def st'_def set_cons_def)
  ultimately show ?thesis unfolding st'_def [symmetric] dinv_def using prod cons by simp
qed

lemma batch_fst: "map fst (batch_data st c n) = map (\<lambda>i. c + 1 + i) [0..<n - c]"
  by (simp add: batch_data_def Let_def)

lemma batch_set: "fst ` set (batch_data st c n) = {c<..n}"
proof -
  have "fst ` set (batch_data st c n) = (\<lambda>i. c + 1 + i) ` {0..<n - c}"
    using arg_cong [OF batch_fst [of st c n], of set] by simp
  also have "\<dots> = {c<..n}"
  proof (intro equalityI subsetI)
    fix x assume "x \<in> {c<..n}"
    then show "x \<in> (\<lambda>i. c + 1 + i) ` {0..<n - c}" by (intro image_eqI [of _ _ "x - (c + 1)"]) auto
  qed auto
  finally show ?thesis .
qed

lemma batch_slot:
  assumes "geometry st" "slot_of (slots st) (c + 1) + i < slots st"
  shows "slot_of (slots st) (c + 1 + i) = slot_of (slots st) (c + 1) + i"
proof -
  have "(c + 1 + i) mod slots st = ((c + 1) mod slots st + i) mod slots st" by (simp add: mod_simps)
  then show ?thesis using assms by (simp only: slot_of_mod mod_less)
qed

lemma batch_sent:
  assumes "geometry st" "\<And>s. c < s \<Longrightarrow> s \<le> n \<Longrightarrow> in_slot st s" "(s, v) \<in> set (batch_data st c n)"
  shows "\<exists>d. sent st s = Some d \<and> (v = None \<or> take (length d) (the v) = d)"
proof -
  from assms(3) obtain i where i: "i < n - c" "s = c + 1 + i"
    "v = (if slot_of (slots st) (c + 1) + i < slots st then Some (ring st ! (slot_of (slots st) (c + 1) + i)) else None)"
    by (auto simp: batch_data_def Let_def)
  then have "in_slot st s" using assms(2) by simp
  then show ?thesis using i batch_slot [OF assms(1), of c i] by (auto simp: in_slot_def)
qed

lemma call_inv:
  assumes inv: "dinv st" and pc: "conss st t = CCall c n"
  shows "dinv (set_cons t (CCommit c n) (st\<lparr>got := got st @ batch_data st c n\<rparr>))"
proof -
  define st' where "st' = set_cons t (CCommit c n) (st\<lparr>got := got st @ batch_data st c n\<rparr>)"
  have cn: "rcursor st \<le> c" "c < n" "n \<le> rnext st"
    using inv pc unfolding dinv_def by (auto dest: spec [of _ t])
  have cur: "rnext st \<le> wcursor st" using inv by (simp add: dinv_def cursors_ok_def)
  have i: "in_slot st' = in_slot st" by (simp add: st'_def set_cons_def in_slot_def fun_eq_iff)
  have "prod_ok st' pc = prod_ok st pc" for pc
    by (cases pc) (simp_all add: i, simp_all add: st'_def set_cons_def)
  then have prod: "prod_ok st' (prods st' u)" for u using inv by (simp add: dinv_def st'_def set_cons_def)
  have old: "cons_ok st (conss st u)" for u using inv by (simp add: dinv_def)
  have cons: "cons_ok st' (conss st' u)" for u
    using old [of u] pc by (cases "conss st u"; cases "u = t") (auto simp: st'_def set_cons_def)
  have cl: "claimed (conss st' u) = claimed (conss st u)" for u
    using pc by (simp add: st'_def set_cons_def)
  have ex: "exclusive st'"
    using inv unfolding dinv_def exclusive_def cl by (simp add: st'_def set_cons_def)
  have pend: "pending (conss st' u) = (if u = t then {} else pending (conss st u))" for u
    by (simp add: st'_def set_cons_def)
  have pc_t: "pending (conss st t) = {c<..n}" using pc by simp
  have L: "log_ok st" using inv by (simp add: dinv_def)
  have got': "got st' = got st @ batch_data st c n" "sent st' = sent st" "rnext st' = rnext st"
    by (simp_all add: st'_def set_cons_def)
  have fst': "fst ` set (got st') = fst ` set (got st) \<union> {c<..n}"
    unfolding got' by (simp add: image_Un batch_set)
  have dis: "{c<..n} \<inter> fst ` set (got st) = {}" using L pc_t unfolding log_ok_def by (metis)
  have "log_ok st'"
    unfolding log_ok_def
  proof (intro conjI)
    show "distinct (map fst (got st'))"
      using L dis unfolding got' distinct_append map_append set_map batch_set log_ok_def
      by (simp add: batch_fst distinct_map inj_on_def Int_commute)
    show "\<forall>s\<in>fst ` set (got st'). 1 \<le> s \<and> s \<le> rnext st'"
      using L cn unfolding fst' got'(3) log_ok_def by auto
    show "\<forall>s. 1 \<le> s \<and> s \<le> rnext st' \<longrightarrow> s \<in> fst ` set (got st') \<or> (\<exists>u. s \<in> pending (conss st' u))"
    proof (intro allI impI)
      fix s assume "1 \<le> s \<and> s \<le> rnext st'"
      then have "s \<in> fst ` set (got st) \<or> (\<exists>u. s \<in> pending (conss st u))"
        using L unfolding got'(3) log_ok_def by simp
      then show "s \<in> fst ` set (got st') \<or> (\<exists>u. s \<in> pending (conss st' u))"
        unfolding fst' using pend pc_t by (metis UnI1 UnI2)
    qed
    show "\<forall>u. pending (conss st' u) \<inter> fst ` set (got st') = {}"
    proof
      fix u
      have "pending (conss st u) \<subseteq> claimed (conss st u)" by (cases "conss st u") auto
      moreover have "u \<noteq> t \<Longrightarrow> claimed (conss st u) \<inter> {c<..n} = {}"
        using inv pc unfolding dinv_def exclusive_def by (metis claimed.simps(1))
      moreover have "pending (conss st u) \<inter> fst ` set (got st) = {}" using L by (simp add: log_ok_def)
      ultimately show "pending (conss st' u) \<inter> fst ` set (got st') = {}"
        unfolding fst' pend by (cases "u = t") auto
    qed
    have fil: "in_slot st s" if "c < s" "s \<le> n" for s
      using inv that cn cur unfolding dinv_def filled_def by simp
    have "\<exists>d. sent st s = Some d \<and> (v = None \<or> take (length d) (the v) = d)"
      if "(s, v) \<in> set (got st')" for s v
      using that L batch_sent [of st c n s v] fil inv unfolding got' log_ok_def dinv_def by auto
    then show "\<forall>(s, v)\<in>set (got st'). \<exists>d. sent st' s = Some d \<and> (v = None \<or> take (length d) (the v) = d)"
      unfolding got'(2) by blast
  qed
  moreover have "cursors_ok st'" "geometry st'"
    using inv by (simp_all add: dinv_def cursors_ok_def geometry_def st'_def set_cons_def)
  moreover have "filled st'"
    using inv unfolding dinv_def filled_def i by (simp add: st'_def set_cons_def)
  ultimately show ?thesis unfolding st'_def [symmetric] dinv_def using prod cons ex by simp
qed

lemma commit_inv:
  assumes inv: "dinv st" and pc: "conss st t = CCommit (rcursor st) n"
  shows "dinv (set_cons t CLoop (st\<lparr>rcursor := n\<rparr>))"
proof -
  define st' where "st' = set_cons t CLoop (st\<lparr>rcursor := n\<rparr>)"
  have cn: "rcursor st < n" "n \<le> rnext st"
    using inv pc unfolding dinv_def by (auto dest: spec [of _ t])
  have i: "in_slot st' = in_slot st" by (simp add: st'_def set_cons_def in_slot_def fun_eq_iff)
  have "prod_ok st pc \<Longrightarrow> prod_ok st' pc" for pc
    using cn by (cases pc) (simp_all add: i, simp_all add: st'_def set_cons_def)
  then have prod: "prod_ok st' (prods st' u)" for u using inv by (simp add: dinv_def st'_def set_cons_def)
  have cons: "cons_ok st' (conss st' u)" for u
  proof (cases "u = t")
    case False
    have "cons_ok st (conss st u)" using inv by (simp add: dinv_def)
    moreover have "claimed (conss st u) \<inter> {rcursor st<..n} = {}"
      using inv pc False unfolding dinv_def exclusive_def by (metis claimed.simps(2))
    then have "n \<le> c" if "claimed (conss st u) = {c<..m}" "rcursor st \<le> c" "c < m" for c m
      using that by (metis (no_types, lifting) IntI Suc_le_eq empty_iff greaterThanAtMost_iff le_imp_less_Suc lessI not_less)
    ultimately show ?thesis
      using False by (cases "conss st u") (auto simp: st'_def set_cons_def)
  qed (simp add: st'_def set_cons_def)
  have "claimed (conss st' u) \<subseteq> claimed (conss st u)" for u by (simp add: st'_def set_cons_def)
  then have "exclusive st'"
    using inv unfolding dinv_def exclusive_def by (simp add: st'_def set_cons_def disjoint_iff)
  moreover have "pending (conss st' u) = pending (conss st u)" for u
    using pc by (simp add: st'_def set_cons_def)
  then have "log_ok st'"
    using inv unfolding dinv_def log_ok_def by (simp add: st'_def set_cons_def)
  moreover have "cursors_ok st'" "geometry st'" "filled st'"
    using inv cn unfolding dinv_def filled_def i
    by (auto simp: cursors_ok_def geometry_def st'_def set_cons_def)
  ultimately show ?thesis unfolding st'_def [symmetric] dinv_def using prod cons by simp
qed

lemma consumer_inv: "dinv st \<Longrightarrow> dinv (ngx_disruptor_consumer_thread t st)"
proof (cases "conss st t")
  case (CClaim c n)
  assume "dinv st"
  then show ?thesis using CClaim claim_inv [of st t n]
    by (cases "rnext st = c") (simp_all add: ngx_disruptor_consumer_thread_def set_cons_inv)
next
  case (CCall c n)
  assume "dinv st"
  then show ?thesis using CCall call_inv [of st t c n] by (simp add: ngx_disruptor_consumer_thread_def)
next
  case (CCommit c n)
  assume "dinv st"
  then show ?thesis using CCommit commit_inv [of st t n]
    by (cases "rcursor st = c") (simp_all add: ngx_disruptor_consumer_thread_def set_cons_inv)
next
  case (CRead c)
  assume inv: "dinv st"
  then have "cons_ok st (CRead c)" "rnext st \<le> wcursor st"
    using CRead by (metis dinv_def, simp add: dinv_def cursors_ok_def)
  then show ?thesis using CRead inv
    by (auto simp: ngx_disruptor_consumer_thread_def frame_flags intro!: set_cons_inv)
next
  case (CSeen c)
  assume inv: "dinv st"
  then have "cons_ok st (CSeen c)" "0 < batch_size st"
    using CSeen by (metis dinv_def, simp add: dinv_def geometry_def)
  then show ?thesis using CSeen inv
    by (auto simp: ngx_disruptor_consumer_thread_def intro!: set_cons_inv)
next
  case (CCap c)
  assume inv: "dinv st"
  then have "cons_ok st (CCap c)" "0 < batch_size st"
    using CCap by (metis dinv_def, simp add: dinv_def geometry_def)
  then show ?thesis using CCap inv
    by (auto simp: ngx_disruptor_consumer_thread_def Let_def intro!: set_cons_inv)
qed (auto simp: ngx_disruptor_consumer_thread_def frame_flags intro!: set_cons_inv)

lemma startup_inv: "dinv st \<Longrightarrow> dinv (ngx_disruptor_startup base st)"
proof -
  assume inv: "dinv st"
  define f where "f = (\<lambda>t. if base \<le> t \<and> t < base + work_threads st \<and> conss st t = COff then CNew else conss st t)"
  have same: "claimed (f t) = claimed (conss st t)" "pending (f t) = pending (conss st t)"
    "cons_ok st (f t) = cons_ok st (conss st t)" for t
    by (simp_all add: f_def)
  have "exclusive (st\<lparr>conss := f\<rparr>)" "log_ok (st\<lparr>conss := f\<rparr>)"
    using inv same by (simp_all add: dinv_def exclusive_def log_ok_def)
  then have "dinv (st\<lparr>conss := f\<rparr>)"
    using inv same unfolding dinv_def frame_conss by simp
  then have "dinv ((st\<lparr>conss := f\<rparr>)\<lparr>runing := chr CHR ''1''\<rparr>)" by (simp only: frame_flags)
  moreover have "(st\<lparr>conss := f\<rparr>)\<lparr>runing := chr CHR ''1''\<rparr> = st\<lparr>runing := chr CHR ''1'', conss := f\<rparr>" by simp
  ultimately show ?thesis using inv by (simp only: ngx_disruptor_startup_def f_def [symmetric] split: if_split) simp
qed

lemma dstep_inv: "dstep st st' \<Longrightarrow> dinv st \<Longrightarrow> started st \<Longrightarrow> dinv st'"
  by (induction rule: dstep.induct)
    (simp_all only: next_inv publish_inv consumer_inv startup_inv ngx_disruptor_stop_def ngx_disruptor_free_def
      frame_flags started_def simp_thms)

lemma started_step: "dstep st st' \<Longrightarrow> started st \<Longrightarrow> started st'"
  by (induction rule: dstep.induct)
    (auto simp: started_def ngx_disruptor_next_def ngx_disruptor_publish_def ngx_disruptor_consumer_thread_def
      ngx_disruptor_startup_def ngx_disruptor_stop_def ngx_disruptor_free_def set_prod_def set_cons_def Let_def
      split: producer.splits consumer.splits option.splits)

lemma reachable_inv: "reachable st0 st \<Longrightarrow> dinv st0 \<Longrightarrow> started st0 \<Longrightarrow> dinv st \<and> started st"
  by (induction rule: reachable.induct) (auto intro: dstep_inv started_step)

subsection \<open>Creation\<close>

lemma round_up_power: "\<exists>j. round_up (2 ^ i) n = 2 ^ j \<and> i < j"
proof (induction "2 ^ i :: nat" n arbitrary: i rule: round_up.induct)
  case (1 n)
  show ?case
  proof (cases "2 * 2 ^ i < n")
    case True
    then show ?thesis
      using "1.hyps" [of "Suc i"] by (subst round_up.simps) (auto dest: Suc_lessD)
  next
    case False
    then show ?thesis by (subst round_up.simps) (auto intro: exI [of _ "Suc i"])
  qed
qed

lemma round_up_fix: "i < j \<Longrightarrow> round_up (2 ^ i) (2 ^ j) = 2 ^ j"
proof (induction "j - i" arbitrary: i)
  case (Suc k)
  show ?case
  proof (cases "Suc i = j")
    case True
    then show ?thesis by (subst round_up.simps) auto
  next
    case False
    then have lt: "Suc i < j" using Suc.prems by simp
    then have "(2 :: nat) ^ Suc i < 2 ^ j" by (rule power_strict_increasing) simp
    moreover have "round_up (2 ^ Suc i) (2 ^ j) = 2 ^ j" 
      using Suc.hyps(1) [of "Suc i"] Suc.hyps(2) lt by simp
    ultimately show ?thesis by (subst round_up.simps) (simp add: Let_def)
  qed
qed simp

lemma round_up_iff: "round_up 1 n = n \<longleftrightarrow> (\<exists>k \<ge> 1. n = 2 ^ k)"
  using round_up_power [of 0 n] round_up_fix [of 0] by (auto simp: Suc_le_eq)

lemma create_inv: "ngx_disruptor_create n sz b w = Some st \<Longrightarrow> dinv st"
proof -
  assume c: "ngx_disruptor_create n sz b w = Some st"
  then have "\<exists>k. n = 2 ^ k" "1 \<le> b"
    using round_up_iff [of n] by (auto simp: ngx_disruptor_create_def split: if_splits)
  with c show ?thesis
    by (auto simp: ngx_disruptor_create_def dinv_def geometry_def cursors_ok_def exclusive_def filled_def log_ok_def
        list_all_iff split: if_splits)
qed

text \<open>Executions from the first start on.\<close>

lemma startup_started:
  assumes "ngx_disruptor_create n sz b w = Some st0"
  shows "started (ngx_disruptor_startup base st0)"
  using assms by (auto simp: ngx_disruptor_create_def ngx_disruptor_startup_def started_def split: if_splits)

lemma running_inv:
  assumes "ngx_disruptor_create n sz b w = Some st0" "reachable (ngx_disruptor_startup base st0) st"
  shows "dinv st" "started st"
  using reachable_inv [OF assms(2) startup_inv [OF create_inv [OF assms(1)]] startup_started [OF assms(1)]] by blast+

lemma reachable_trans: "reachable st1 st2 \<Longrightarrow> reachable st0 st1 \<Longrightarrow> reachable st0 st2"
  by (induction rule: reachable.induct) (auto intro: r_step)

subsection \<open>Further invariants\<close>

text \<open>A batch of one slot never reaches past the end of the buffer.\<close>

definition single :: "ngx_disruptor_t \<Rightarrow> bool" where
  "single st \<longleftrightarrow> batch_size st = 1 \<and> (\<forall>(s, v) \<in> set (got st). v \<noteq> None)"

lemma batch_data_single:
  assumes "geometry st" "n \<le> c + 1" "(s, v) \<in> set (batch_data st c n)"
  shows "v \<noteq> None"
  using assms slot_less [OF assms(1), of "c + 1"] by (auto simp: batch_data_def Let_def)

lemma single_step: "dstep st st' \<Longrightarrow> dinv st \<Longrightarrow> single st \<Longrightarrow> single st'"
proof (induction rule: dstep.induct)
  case (d_consume st t)
  have ok: "cons_ok st (conss st t)" "geometry st" using d_consume by (simp_all add: dinv_def)
  show ?case
  proof (cases "conss st t")
    case (CCall c n)
    then have "n \<le> c + 1" using ok d_consume by (simp add: single_def)
    then have "v \<noteq> None" if "(s, v) \<in> set (batch_data st c n)" for s v
      using batch_data_single ok that by blast
    then show ?thesis
      using CCall d_consume by (auto simp: ngx_disruptor_consumer_thread_def set_cons_def single_def)
  qed (use d_consume in \<open>auto simp: ngx_disruptor_consumer_thread_def set_cons_def single_def Let_def\<close>)
qed (auto simp: single_def ngx_disruptor_next_def ngx_disruptor_publish_def ngx_disruptor_startup_def
    ngx_disruptor_stop_def ngx_disruptor_free_def set_prod_def Let_def split: producer.splits option.splits)

lemma single_reachable: "reachable st0 st \<Longrightarrow> dinv st0 \<Longrightarrow> started st0 \<Longrightarrow> single st0 \<Longrightarrow> single st"
  by (induction rule: reachable.induct) (auto intro: single_step dest: reachable_inv)

text \<open>The stop flag is a character that no test takes for false.\<close>

definition unstoppable :: "ngx_disruptor_t \<Rightarrow> bool" where
  "unstoppable st \<longleftrightarrow> (\<forall>t. conss st t \<noteq> CEnd) \<and> (runing st = 0 \<longrightarrow> (\<forall>t. conss st t = COff))"

lemma unstoppable_step: "dstep st st' \<Longrightarrow> unstoppable st \<Longrightarrow> unstoppable st' \<and> runing_threads st \<le> runing_threads st'"
proof (induction rule: dstep.induct)
  case (d_consume st t)
  then show ?case
    by (cases "conss st t") (auto simp: unstoppable_def ngx_disruptor_consumer_thread_def set_cons_def Let_def)
qed (auto simp: unstoppable_def ngx_disruptor_next_def ngx_disruptor_publish_def ngx_disruptor_startup_def
    ngx_disruptor_stop_def ngx_disruptor_free_def set_prod_def Let_def split: producer.splits option.splits)

lemma unstoppable_reachable:
  "reachable st0 st \<Longrightarrow> unstoppable st0 \<Longrightarrow> unstoppable st \<and> runing_threads st0 \<le> runing_threads st"
  by (induction rule: reachable.induct) (auto dest: unstoppable_step)

text \<open>A sequence number that its owner gave up.\<close>

definition lost :: "nat \<Rightarrow> ngx_disruptor_t \<Rightarrow> bool" where
  "lost s st \<longleftrightarrow> wcursor st < s \<and> s \<le> wnext st \<and> (\<forall>t. owned (prods st t) \<noteq> Some s)"

lemma lost_step: "dstep st st' \<Longrightarrow> dinv st \<Longrightarrow> started st \<Longrightarrow> lost s st \<Longrightarrow> lost s st'"
proof (induction rule: dstep.induct)
  case (d_next st t)
  then show ?case
    by (cases "prods st t") (auto simp: lost_def ngx_disruptor_next_def set_prod_def started_def)
next
  case (d_publish st t d)
  show ?case
  proof (cases "prods st t")
    case (PFilled x)
    then have "wcursor st < x" using prod_owned_bounds [of st t x] d_publish by simp
    moreover have "x \<noteq> s" using PFilled d_publish by (auto simp: lost_def dest: spec [of _ t])
    ultimately show ?thesis
      using PFilled d_publish by (auto simp: lost_def ngx_disruptor_publish_def set_prod_def)
  next
    case (POwn x)
    moreover have "x \<noteq> s" using POwn d_publish by (auto simp: lost_def dest: spec [of _ t])
    ultimately show ?thesis
      using d_publish by (auto simp: lost_def ngx_disruptor_publish_def set_prod_def Let_def)
  qed (use d_publish in \<open>simp_all add: lost_def ngx_disruptor_publish_def\<close>)
next
  case (d_consume st t)
  then show ?case
    by (cases "conss st t") (auto simp: lost_def ngx_disruptor_consumer_thread_def set_cons_def Let_def)
qed (auto simp: lost_def started_def ngx_disruptor_startup_def ngx_disruptor_stop_def ngx_disruptor_free_def)

lemma lost_reachable: "reachable st0 st \<Longrightarrow> dinv st0 \<Longrightarrow> started st0 \<Longrightarrow> lost s st0 \<Longrightarrow> lost s st"
  by (induction rule: reachable.induct) (auto intro: lost_step dest: reachable_inv)

subsection \<open>Executions\<close>

text \<open>A schedule as a list of steps, for concrete runs.\<close>

datatype act = ANext nat | APub nat bytes | ACons nat | AStart nat | AStop

fun exec1 :: "act \<Rightarrow> ngx_disruptor_t \<Rightarrow> ngx_disruptor_t" where
  "exec1 (ANext t) st = ngx_disruptor_next t st"
| "exec1 (APub t d) st = ngx_disruptor_publish t d st"
| "exec1 (ACons t) st = ngx_disruptor_consumer_thread t st"
| "exec1 (AStart b) st = ngx_disruptor_startup b st"
| "exec1 AStop st = ngx_disruptor_stop st"

lemma exec1_freed: "freed (exec1 a st) = freed st"
  by (cases a) (auto simp: ngx_disruptor_next_def ngx_disruptor_publish_def ngx_disruptor_consumer_thread_def
    ngx_disruptor_startup_def ngx_disruptor_stop_def set_prod_def set_cons_def Let_def
    split: producer.splits consumer.splits option.splits)

lemma exec1_step: "\<not> freed st \<Longrightarrow> dstep st (exec1 a st)"
  by (cases a) (simp_all add: dstep.intros)

lemma exec_reachable: "reachable st0 st \<Longrightarrow> \<not> freed st \<Longrightarrow> reachable st0 (fold exec1 as st)"
proof (induction as arbitrary: st)
  case (Cons a as)
  have "reachable st0 (exec1 a st)" by (rule r_step [OF Cons.prems(1) exec1_step [OF Cons.prems(2)]])
  then show ?case using Cons.IH [of "exec1 a st"] Cons.prems by (simp add: exec1_freed)
qed simp

definition st_demo :: "nat \<Rightarrow> ngx_disruptor_t" where
  "st_demo b = \<lparr>wcursor = 0, wnext = 0, rcursor = 0, rnext = 0, slots = 2, slot_size = 1,
     ring = [[0], [0]], batch_size = b, runing = 0, runing_threads = 0, work_threads = 1, freed = False,
     prods = (\<lambda>_. PIdle), conss = (\<lambda>_. COff), sent = (\<lambda>_. None), got = []\<rparr>"

lemma st_demo_create: "0 < b \<Longrightarrow> ngx_disruptor_create 2 1 (int b) 1 = Some (st_demo b)"
proof -
  have "round_up 1 2 = 2" by (simp add: round_up.simps)
  moreover have "replicate 2 [0 :: byte] = [[0], [0]]" by (simp add: numeral_2_eq_2)
  ultimately show "0 < b \<Longrightarrow> ngx_disruptor_create 2 1 (int b) 1 = Some (st_demo b)"
    by (simp add: ngx_disruptor_create_def st_demo_def)
qed

definition demo_send :: "nat \<Rightarrow> byte \<Rightarrow> act list" where
  "demo_send t b = [ANext t, ANext t, ANext t, ANext t, APub t [b], APub t []]"

definition demo_take :: "act list" where
  "demo_take = [ACons 0, ACons 0, ACons 0, ACons 0, ACons 0, ACons 0]"

lemma demo1:
  "got (fold exec1 (AStart 0 # demo_send 0 7 @ demo_take) (st_demo 1)) = [(1, Some [7])]"
  "rcursor (fold exec1 (AStart 0 # demo_send 0 7 @ demo_take @ [ACons 0, ACons 0]) (st_demo 1)) = 1"
  by (simp_all add: demo_send_def demo_take_def st_demo_def d_ops slot_of_def store_def batch_data_def)

lemma demo2:
  "got (fold exec1 (AStart 0 # demo_send 0 7 @ demo_send 1 8 @ demo_take) (st_demo 2)) = [(1, Some [7]), (2, None)]"
  by (simp add: demo_send_def demo_take_def st_demo_def d_ops slot_of_def store_def batch_data_def)

subsection \<open>Properties\<close>

text \<open>
  C34: \<open>ngx_disruptor_create\<close> accepts exactly the ring sizes 2, 4, 8, ... with a positive
  batch size, and then in every execution from the first call of \<open>ngx_disruptor_startup\<close> on,
  whatever the interleaving of producers, consumers, further starts and stop, the cursors
  are ordered (a ring never holds more than its slots), no two producers own the same
  sequence number and no two consumers the same message, and every published and not yet
  consumed message is still in its slot. Producers must not run before the first start: the
  number they get there can be another producer's (see \<open>disruptor_stale_number\<close>).
\<close>

theorem disruptor_invariant:
  "(ngx_disruptor_create n sz b w \<noteq> None \<longleftrightarrow> (\<exists>k \<ge> 1. n = 2 ^ k) \<and> 1 \<le> b)
   \<and> (\<forall>st0 st. ngx_disruptor_create n sz b w = Some st0 \<longrightarrow> reachable (ngx_disruptor_startup base st0) st \<longrightarrow>
       cursors_ok st \<and> exclusive st \<and> filled st)"
proof -
  have "ngx_disruptor_create n sz b w \<noteq> None \<longleftrightarrow> (\<exists>k \<ge> 1. n = 2 ^ k) \<and> 1 \<le> b"
    unfolding round_up_iff [symmetric] by (auto simp: ngx_disruptor_create_def)
  then show ?thesis using running_inv(1) unfolding dinv_def by blast
qed

theorem disruptor_invariant_witness:
  "cursors_ok (fold exec1 (demo_send 0 7 @ demo_take) (ngx_disruptor_startup 0 (st_demo 1)))"
proof -
  have "reachable (ngx_disruptor_startup 0 (st_demo 1)) (fold exec1 (demo_send 0 7 @ demo_take) (ngx_disruptor_startup 0 (st_demo 1)))"
    by (rule exec_reachable [OF r_init]) (simp add: st_demo_def ngx_disruptor_startup_def)
  moreover have "ngx_disruptor_create 2 1 1 1 = Some (st_demo 1)" using st_demo_create [of 1] by simp
  ultimately show ?thesis using disruptor_invariant [of 2 1 1 1 0] by blast
qed

text \<open>
  C1: Delivery, in every execution from the first start on: each sequence number is handed
  to a callback at most once, every number up to the read cursor has been, and every number
  handed out had been sent. With batch size 1 the callback of a number gets the slot that
  starts with the bytes sent for it. With a larger batch size it gets that slot or, for a
  number of a batch that crosses the end of the ring, memory past the buffer.
\<close>

theorem disruptor_delivery:
  assumes "ngx_disruptor_create n sz b w = Some st0" "reachable (ngx_disruptor_startup base st0) st"
  shows "distinct (map fst (got st))
    \<and> (\<forall>s. 1 \<le> s \<and> s \<le> rcursor st \<longrightarrow> s \<in> fst ` set (got st))
    \<and> (\<forall>(s, v) \<in> set (got st). \<exists>d. sent st s = Some d \<and>
         (case v of Some r \<Rightarrow> take (length d) r = d | None \<Rightarrow> 1 < b))"
proof (intro conjI)
  have inv: "dinv st" using running_inv [OF assms] by blast
  then have L: "log_ok st" by (simp add: dinv_def)
  then show "distinct (map fst (got st))" by (simp add: log_ok_def)
  show "\<forall>s. 1 \<le> s \<and> s \<le> rcursor st \<longrightarrow> s \<in> fst ` set (got st)"
  proof (intro allI impI)
    fix s assume s: "1 \<le> s \<and> s \<le> rcursor st"
    then have "s \<le> rnext st" using inv by (simp add: dinv_def cursors_ok_def)
    then have "s \<in> fst ` set (got st) \<or> (\<exists>t. s \<in> pending (conss st t))"
      using L s by (simp add: log_ok_def)
    moreover have "s \<notin> pending (conss st t)" for t
    proof -
      have "cons_ok st (conss st t)" using inv by (simp add: dinv_def)
      then show ?thesis using s by (cases "conss st t") auto
    qed
    ultimately show "s \<in> fst ` set (got st)" by blast
  qed
  have b: "1 \<le> b" using assms(1) by (simp add: ngx_disruptor_create_def split: if_splits)
  have "single (ngx_disruptor_startup base st0)" if "b = 1"
    using assms(1) that by (auto simp: ngx_disruptor_create_def ngx_disruptor_startup_def single_def split: if_splits)
  then have one: "b = 1 \<longrightarrow> (\<forall>(s, v) \<in> set (got st). v \<noteq> None)"
    using single_reachable [OF assms(2) startup_inv [OF create_inv [OF assms(1)]] startup_started [OF assms(1)]]
    by (simp add: single_def)
  show "\<forall>(s, v) \<in> set (got st). \<exists>d. sent st s = Some d \<and> (case v of Some r \<Rightarrow> take (length d) r = d | None \<Rightarrow> 1 < b)"
  proof (intro ballI, clarify)
    fix s v assume sv: "(s, v) \<in> set (got st)"
    then have "\<exists>d. sent st s = Some d \<and> (v = None \<or> take (length d) (the v) = d)"
      using L by (auto simp: log_ok_def)
    moreover have "v = None \<Longrightarrow> 1 < b" using one b sv by (cases "b = 1") auto
    ultimately show "\<exists>d. sent st s = Some d \<and> (case v of Some r \<Rightarrow> take (length d) r = d | None \<Rightarrow> 1 < b)"
      by (auto split: option.split)
  qed
qed

theorem disruptor_delivery_witness:
  "1 \<in> fst ` set (got (fold exec1 (demo_send 0 7 @ demo_take @ [ACons 0, ACons 0]) (ngx_disruptor_startup 0 (st_demo 1))))"
proof -
  let ?st = "fold exec1 (demo_send 0 7 @ demo_take @ [ACons 0, ACons 0]) (ngx_disruptor_startup 0 (st_demo 1))"
  have "reachable (ngx_disruptor_startup 0 (st_demo 1)) ?st"
    by (rule exec_reachable [OF r_init]) (simp add: st_demo_def ngx_disruptor_startup_def)
  moreover have "ngx_disruptor_create 2 1 1 1 = Some (st_demo 1)" using st_demo_create [of 1] by simp
  moreover have "rcursor ?st = 1" using demo1(2) by simp
  ultimately show ?thesis using disruptor_delivery [of 2 1 1 1 "st_demo 1" 0 ?st] by simp
qed

text \<open>
  Before the first start two producers can have the same number: both read \<open>wnext\<close> as 0, the
  first takes number 1, the compare-and-set of the second fails, number 2 is taken as well,
  and the second then finds the ring of two slots full. As \<open>runing\<close> is 0, its call returns the
  number 1 of its earlier turn.
\<close>

theorem disruptor_stale_number:
  "\<exists>st0 st. ngx_disruptor_create 2 1 1 1 = Some st0 \<and> reachable st0 st \<and> prods st 0 = POwn 1 \<and> prods st 1 = POwn 1"
proof -
  let ?run = "[ANext 0, ANext 0, ANext 0, ANext 1, ANext 1, ANext 1, ANext 0, ANext 1,
    ANext 2, ANext 2, ANext 2, ANext 2, ANext 1, ANext 1]"
  let ?st = "fold exec1 ?run (st_demo 1)"
  have "reachable (st_demo 1) ?st" by (rule exec_reachable [OF r_init]) (simp add: st_demo_def)
  moreover have "ngx_disruptor_create 2 1 1 1 = Some (st_demo 1)" using st_demo_create [of 1] by simp
  moreover have "prods ?st 0 = POwn 1" "prods ?st 1 = POwn 1"
    by (simp_all add: st_demo_def d_ops)
  ultimately show ?thesis by blast
qed

text \<open>
  The callback of a batch that crosses the end of the ring is given memory past the
  buffer: with two slots, two published messages and a batch size of 2 the first callback
  gets the slot of message 1 and, for message 2 (which is in slot 0), what follows the buffer.
\<close>

theorem disruptor_batch_past_end:
  "\<exists>st0 st. ngx_disruptor_create 2 1 2 1 = Some st0 \<and> reachable st0 st
     \<and> got st = [(1, Some [7]), (2, None)] \<and> sent st 2 = Some [8]"
proof -
  let ?st = "fold exec1 (AStart 0 # demo_send 0 7 @ demo_send 1 8 @ demo_take) (st_demo 2)"
  have "reachable (st_demo 2) ?st"
    by (rule exec_reachable [OF r_init]) (simp add: st_demo_def)
  moreover have "ngx_disruptor_create 2 1 2 1 = Some (st_demo 2)" using st_demo_create [of 2] by simp
  moreover have "sent ?st 2 = Some [8]"
    by (simp add: demo_send_def demo_take_def st_demo_def d_ops slot_of_def store_def batch_data_def)
  ultimately show ?thesis using demo2 by blast
qed

text \<open>
  \<open>ngx_disruptor_destroy\<close> stops no consumer: the flag it sets is the character '0',
  which every loop test takes for true, so in no execution does a consumer thread end and
  the number of running threads never falls; once a thread runs, the wait ends by the
  timeout only, and the buffer is freed under the running threads.
\<close>

theorem disruptor_consumers_never_end:
  assumes "ngx_disruptor_create n sz b w = Some st0" "reachable st0 st" "reachable st st'"
  shows "conss st' t \<noteq> CEnd \<and> runing_threads st \<le> runing_threads st'"
proof -
  have "unstoppable st0"
    using assms(1) by (auto simp: ngx_disruptor_create_def unstoppable_def split: if_splits)
  then have "unstoppable st" using unstoppable_reachable [OF assms(2)] by blast
  then show ?thesis using unstoppable_reachable [OF assms(3)] by (simp add: unstoppable_def)
qed

theorem disruptor_consumers_never_end_witness:
  "1 \<le> runing_threads (ngx_disruptor_free (fold exec1 [AStart 0, ACons 0, AStop] (st_demo 1)))"
proof -
  let ?st = "fold exec1 [AStart 0, ACons 0] (st_demo 1)"
  have "reachable (st_demo 1) ?st" by (rule exec_reachable [OF r_init]) (simp add: st_demo_def)
  moreover have "ngx_disruptor_create 2 1 1 1 = Some (st_demo 1)" using st_demo_create [of 1] by simp
  moreover have "\<not> freed ?st" "\<not> freed (exec1 AStop ?st)" "runing (exec1 AStop ?st) = chr CHR ''0''"
    by (simp_all add: st_demo_def d_ops)
  then have "reachable ?st (ngx_disruptor_free (exec1 AStop ?st))"
    by (intro r_step [OF r_step [OF r_init exec1_step] d_free])
  then have "reachable ?st (ngx_disruptor_free (fold exec1 [AStart 0, ACons 0, AStop] (st_demo 1)))" by simp
  moreover have "runing_threads ?st = 1" by (simp add: st_demo_def d_ops)
  ultimately show ?thesis
    using disruptor_consumers_never_end [of 2 1 1 1 "st_demo 1" ?st] by metis
qed

text \<open>
  A message larger than a slot blocks the queue for good: the publish call returns an
  error, but the sequence number taken for it stays taken, so that from then on the write
  cursor never reaches it and no later message is ever published.
\<close>

theorem disruptor_oversize_blocks:
  assumes "ngx_disruptor_create n sz b w = Some st0" "reachable (ngx_disruptor_startup base st0) st"
    and "prods st t = POwn s" "slot_size st < length data"
    and "reachable (ngx_disruptor_publish t data st) st'"
  shows "wcursor st' < s"
proof -
  have inv: "dinv st" "started st" using running_inv [OF assms(1,2)] by blast+
  let ?st1 = "ngx_disruptor_publish t data st"
  have st1: "?st1 = set_prod t PIdle st" using assms(3,4) by (simp add: ngx_disruptor_publish_def)
  have "owned (prods st u) \<noteq> Some s" if "u \<noteq> t" for u
    using inv that assms(3) unfolding dinv_def exclusive_def by (metis owned.simps(1))
  then have "lost s ?st1"
    using prod_owned_bounds [OF inv(1), of t s] assms(3) unfolding st1 by (auto simp: lost_def set_prod_def)
  moreover have started_after: "started ?st1" using inv(2) unfolding st1 by (simp add: started_def set_prod_def)
  ultimately have "lost s st'" using lost_reachable [OF assms(5) publish_inv [OF inv(1)]] started_after by simp
  then show ?thesis by (simp add: lost_def)
qed

theorem disruptor_oversize_blocks_witness:
  "wcursor (fold exec1 (demo_send 1 8) (ngx_disruptor_publish 0 [1, 2]
     (fold exec1 [ANext 0, ANext 0, ANext 0, ANext 0] (ngx_disruptor_startup 0 (st_demo 1))))) < 1"
proof -
  let ?st1 = "ngx_disruptor_startup 0 (st_demo 1)"
  let ?st = "fold exec1 [ANext 0, ANext 0, ANext 0, ANext 0] ?st1"
  have "reachable ?st1 ?st" by (rule exec_reachable [OF r_init]) (simp add: st_demo_def ngx_disruptor_startup_def)
  moreover have "ngx_disruptor_create 2 1 1 1 = Some (st_demo 1)" using st_demo_create [of 1] by simp
  moreover have "prods ?st 0 = POwn 1" "slot_size ?st < length [1 :: byte, 2]"
    "\<not> freed (ngx_disruptor_publish 0 [1, 2] ?st)"
    by (simp_all add: st_demo_def d_ops)
  moreover from this(3) have "reachable (ngx_disruptor_publish 0 [1, 2] ?st)
      (fold exec1 (demo_send 1 8) (ngx_disruptor_publish 0 [1, 2] ?st))"
    by (rule exec_reachable [OF r_init])
  ultimately show ?thesis using disruptor_oversize_blocks [of 2 1 1 1 "st_demo 1" 0 ?st 0 1 "[1, 2]"] by blast
qed

end
