(* ===== verification/Http_Request_Line.thy ===== *)
theory Http_Request_Line
  imports Ngx_Prelude
begin

unbundle bit_operations_syntax

section \<open>The request line (ngx_http_parse.c, ngx_http_parse_request_line)\<close>

text \<open>
  The state machine that reads "METHOD URI HTTP/x.y" from a buffer that grows as data
  arrive. Pointers into the buffer are offsets from its first byte (a NULL pointer is
  \<open>None\<close>), \<open>seen\<close> holds the bytes read so far, so that \<open>p\<close> is its length. The local
  variable \<open>state\<close>, which the function loads from the request and stores back when the
  buffer ends, is the field \<open>st\<close> throughout. One definition per \<open>case\<close> of the source;
  falling through into the next case is a call of its definition, and \<open>p--\<close>, which makes
  the loop read the same byte again in the new state, is a call of that state's
  definition on the byte. The build is the one without \<open>NGX_WIN32\<close>.
\<close>

subsection \<open>State\<close>

datatype rl_state = sw_start | sw_method | sw_spaces_before_uri | sw_schema | sw_schema_slash
  | sw_schema_slash_slash | sw_host_start | sw_host | sw_host_end | sw_host_ip_literal | sw_port
  | sw_host_http_09 | sw_after_slash_in_uri | sw_check_uri | sw_check_uri_http_09 | sw_uri
  | sw_http_09 | sw_http_H | sw_http_HT | sw_http_HTT | sw_http_HTTP | sw_first_major_digit
  | sw_major_digit | sw_first_minor_digit | sw_minor_digit | sw_spaces_after_digit | sw_almost_done

record ngx_http_request_t =
  st :: rl_state
  seen :: bytes
  request_start :: "nat option"
  method_end :: "nat option"
  r_method :: nat
  schema_start :: "nat option"
  schema_end :: "nat option"
  host_start :: "nat option"
  host_end :: "nat option"
  port_end :: "nat option"
  uri_start :: "nat option"
  uri_end :: "nat option"
  uri_ext :: "nat option"
  args_start :: "nat option"
  request_end :: "nat option"
  http_protocol :: "nat option"
  http_major :: nat
  http_minor :: nat
  http_version :: nat
  complex_uri :: bool
  quoted_uri :: bool
  plus_in_uri :: bool
  space_in_uri :: bool

definition NGX_HTTP_PARSE_INVALID_METHOD :: int where "NGX_HTTP_PARSE_INVALID_METHOD = 10"
definition NGX_HTTP_PARSE_INVALID_REQUEST :: int where "NGX_HTTP_PARSE_INVALID_REQUEST = 11"
definition NGX_HTTP_PARSE_INVALID_09_METHOD :: int where "NGX_HTTP_PARSE_INVALID_09_METHOD = 12"

definition NGX_HTTP_UNKNOWN :: nat where "NGX_HTTP_UNKNOWN = 0x0001"
definition NGX_HTTP_GET :: nat where "NGX_HTTP_GET = 0x0002"
definition NGX_HTTP_HEAD :: nat where "NGX_HTTP_HEAD = 0x0004"
definition NGX_HTTP_POST :: nat where "NGX_HTTP_POST = 0x0008"
definition NGX_HTTP_PUT :: nat where "NGX_HTTP_PUT = 0x0010"
definition NGX_HTTP_DELETE :: nat where "NGX_HTTP_DELETE = 0x0020"
definition NGX_HTTP_MKCOL :: nat where "NGX_HTTP_MKCOL = 0x0040"
definition NGX_HTTP_COPY :: nat where "NGX_HTTP_COPY = 0x0080"
definition NGX_HTTP_MOVE :: nat where "NGX_HTTP_MOVE = 0x0100"
definition NGX_HTTP_OPTIONS :: nat where "NGX_HTTP_OPTIONS = 0x0200"
definition NGX_HTTP_PROPFIND :: nat where "NGX_HTTP_PROPFIND = 0x0400"
definition NGX_HTTP_PROPPATCH :: nat where "NGX_HTTP_PROPPATCH = 0x0800"
definition NGX_HTTP_LOCK :: nat where "NGX_HTTP_LOCK = 0x1000"
definition NGX_HTTP_UNLOCK :: nat where "NGX_HTTP_UNLOCK = 0x2000"
definition NGX_HTTP_PATCH :: nat where "NGX_HTTP_PATCH = 0x4000"
definition NGX_HTTP_TRACE :: nat where "NGX_HTTP_TRACE = 0x8000"

lemmas http_methods = NGX_HTTP_UNKNOWN_def NGX_HTTP_GET_def NGX_HTTP_HEAD_def NGX_HTTP_POST_def
  NGX_HTTP_PUT_def NGX_HTTP_DELETE_def NGX_HTTP_MKCOL_def NGX_HTTP_COPY_def NGX_HTTP_MOVE_def
  NGX_HTTP_OPTIONS_def NGX_HTTP_PROPFIND_def NGX_HTTP_PROPPATCH_def NGX_HTTP_LOCK_def
  NGX_HTTP_UNLOCK_def NGX_HTTP_PATCH_def NGX_HTTP_TRACE_def

lemmas http_codes = NGX_HTTP_PARSE_INVALID_METHOD_def NGX_HTTP_PARSE_INVALID_REQUEST_def
  NGX_HTTP_PARSE_INVALID_09_METHOD_def

text \<open>A new request, as \<open>ngx_http_create_request\<close> leaves it.\<close>

definition new_request :: ngx_http_request_t where
  "new_request = \<lparr>st = sw_start, seen = [], request_start = None, method_end = None,
     r_method = NGX_HTTP_UNKNOWN, schema_start = None, schema_end = None, host_start = None,
     host_end = None, port_end = None, uri_start = None, uri_end = None, uri_ext = None,
     args_start = None, request_end = None, http_protocol = None, http_major = 0, http_minor = 0,
     http_version = 1000, complex_uri = False, quoted_uri = False, plus_in_uri = False,
     space_in_uri = False\<rparr>"

type_synonym rl_res = "(ngx_http_request_t, int \<times> ngx_http_request_t) step_res"

abbreviation go :: "ngx_http_request_t \<Rightarrow> rl_state \<Rightarrow> rl_res" where
  "go r s \<equiv> Go (r\<lparr>st := s\<rparr>)"

abbreviation bad :: "ngx_http_request_t \<Rightarrow> rl_res" where
  "bad r \<equiv> Stop (NGX_HTTP_PARSE_INVALID_REQUEST, r)"

subsection \<open>Character classes\<close>

definition usual :: "u32 list" where
  "usual = [0xffffdbfe, 0x7fff37d6, 0xffffffff, 0xffffffff, 0xffffffff, 0xffffffff, 0xffffffff, 0xffffffff]"

definition is_usual :: "byte \<Rightarrow> bool" where
  "is_usual ch = (usual ! unat (drop_bit 5 ch) AND push_bit (unat (ch AND 0x1f)) 1 \<noteq> 0)"

definition is_token :: "byte \<Rightarrow> bool" where
  "is_token ch = (\<not> ((ch < chr CHR ''A'' \<or> ch > chr CHR ''Z'') \<and> ch \<noteq> chr CHR ''_'' \<and> ch \<noteq> chr CHR ''-''))"

definition is_alpha :: "byte \<Rightarrow> bool" where
  "is_alpha ch = (let c = ch OR 0x20 in c \<ge> chr CHR ''a'' \<and> c \<le> chr CHR ''z'')"

definition http_digit :: "byte \<Rightarrow> bool" where
  "http_digit ch = (ch \<ge> chr CHR ''0'' \<and> ch \<le> chr CHR ''9'')"

subsection \<open>The method\<close>

text \<open>
  \<open>m\<close> is the token between \<open>request_start\<close> and \<open>p\<close>. The comparison macros read four or
  eight bytes at once; where that takes in the space that ends the token, the byte
  compared is known.
\<close>

definition method_code :: "bytes \<Rightarrow> nat \<Rightarrow> nat" where
  "method_code m method =
     (if length m = 3 then
        if m = str ''GET'' then NGX_HTTP_GET
        else if m = str ''PUT'' then NGX_HTTP_PUT
        else method
      else if length m = 4 then
        if m ! 1 = chr CHR ''O'' then
          if m = str ''POST'' then NGX_HTTP_POST
          else if m = str ''COPY'' then NGX_HTTP_COPY
          else if m = str ''MOVE'' then NGX_HTTP_MOVE
          else if m = str ''LOCK'' then NGX_HTTP_LOCK
          else method
        else if m = str ''HEAD'' then NGX_HTTP_HEAD
        else method
      else if length m = 5 then
        if m = str ''MKCOL'' then NGX_HTTP_MKCOL
        else if m = str ''PATCH'' then NGX_HTTP_PATCH
        else if m = str ''TRACE'' then NGX_HTTP_TRACE
        else method
      else if length m = 6 then
        if m = str ''DELETE'' then NGX_HTTP_DELETE
        else if m = str ''UNLOCK'' then NGX_HTTP_UNLOCK
        else method
      else if length m = 7 then
        if m = str ''OPTIONS'' then NGX_HTTP_OPTIONS else method
      else if length m = 8 then
        if m = str ''PROPFIND'' then NGX_HTTP_PROPFIND else method
      else if length m = 9 then
        if m = str ''PROPPATCH'' then NGX_HTTP_PROPPATCH else method
      else method)"

subsection \<open>One definition per state\<close>

text \<open>The label \<open>done\<close>; \<open>p\<close> is the offset of the byte that ended the line.\<close>

definition rl_done :: "ngx_http_request_t \<Rightarrow> nat \<Rightarrow> rl_res" where
  "rl_done r p =
     (let r = (if request_end r = None then r\<lparr>request_end := Some p\<rparr> else r);
          r = r\<lparr>http_version := http_major r * 1000 + http_minor r, st := sw_start\<rparr>
      in if http_version r = 9 \<and> r_method r \<noteq> NGX_HTTP_GET
         then Stop (NGX_HTTP_PARSE_INVALID_09_METHOD, r)
         else Stop (NGX_OK, r))"

definition rl_start :: "ngx_http_request_t \<Rightarrow> nat \<Rightarrow> byte \<Rightarrow> rl_res" where
  "rl_start r p ch =
     (let r = r\<lparr>request_start := Some p\<rparr>
      in if ch = CR \<or> ch = LF then Go r
         else if \<not> is_token ch then Stop (NGX_HTTP_PARSE_INVALID_METHOD, r)
         else go r sw_method)"

definition rl_method :: "ngx_http_request_t \<Rightarrow> nat \<Rightarrow> byte \<Rightarrow> rl_res" where
  "rl_method r p ch =
     (if ch = chr CHR '' '' then
        let m = drop (the (request_start r)) (seen r)
        in go (r\<lparr>method_end := Some (p - 1), r_method := method_code m (r_method r)\<rparr>) sw_spaces_before_uri
      else if \<not> is_token ch then Stop (NGX_HTTP_PARSE_INVALID_METHOD, r)
      else Go r)"

definition rl_spaces_before_uri :: "ngx_http_request_t \<Rightarrow> nat \<Rightarrow> byte \<Rightarrow> rl_res" where
  "rl_spaces_before_uri r p ch =
     (if ch = chr CHR ''/'' then go (r\<lparr>uri_start := Some p\<rparr>) sw_after_slash_in_uri
      else if is_alpha ch then go (r\<lparr>schema_start := Some p\<rparr>) sw_schema
      else if ch = chr CHR '' '' then Go r
      else bad r)"

definition rl_schema :: "ngx_http_request_t \<Rightarrow> nat \<Rightarrow> byte \<Rightarrow> rl_res" where
  "rl_schema r p ch =
     (if is_alpha ch then Go r
      else if ch = chr CHR '':'' then go (r\<lparr>schema_end := Some p\<rparr>) sw_schema_slash
      else bad r)"

definition rl_schema_slash :: "ngx_http_request_t \<Rightarrow> nat \<Rightarrow> byte \<Rightarrow> rl_res" where
  "rl_schema_slash r p ch = (if ch = chr CHR ''/'' then go r sw_schema_slash_slash else bad r)"

definition rl_schema_slash_slash :: "ngx_http_request_t \<Rightarrow> nat \<Rightarrow> byte \<Rightarrow> rl_res" where
  "rl_schema_slash_slash r p ch = (if ch = chr CHR ''/'' then go r sw_host_start else bad r)"

text \<open>"use single / from request line": the URI of a request without one.\<close>

definition uri_from_schema :: "ngx_http_request_t \<Rightarrow> ngx_http_request_t" where
  "uri_from_schema r = r\<lparr>uri_start := Some (the (schema_end r) + 1), uri_end := Some (the (schema_end r) + 2)\<rparr>"

definition rl_host_end :: "ngx_http_request_t \<Rightarrow> nat \<Rightarrow> byte \<Rightarrow> rl_res" where
  "rl_host_end r p ch =
     (let r = r\<lparr>host_end := Some p\<rparr>
      in if ch = chr CHR '':'' then go r sw_port
         else if ch = chr CHR ''/'' then go (r\<lparr>uri_start := Some p\<rparr>) sw_after_slash_in_uri
         else if ch = chr CHR '' '' then go (uri_from_schema r) sw_host_http_09
         else bad r)"

definition rl_host :: "ngx_http_request_t \<Rightarrow> nat \<Rightarrow> byte \<Rightarrow> rl_res" where
  "rl_host r p ch =
     (if is_alpha ch then Go r
      else if http_digit ch \<or> ch = chr CHR ''.'' \<or> ch = chr CHR ''-'' then Go r
      else rl_host_end r p ch)"

definition rl_host_start :: "ngx_http_request_t \<Rightarrow> nat \<Rightarrow> byte \<Rightarrow> rl_res" where
  "rl_host_start r p ch =
     (let r = r\<lparr>host_start := Some p\<rparr>
      in if ch = chr CHR ''['' then go r sw_host_ip_literal
         else rl_host (r\<lparr>st := sw_host\<rparr>) p ch)"

definition ip_literal_chars :: bytes where
  "ip_literal_chars = str ''-._~!$&'' @ [39] @ str ''()*+,;=''"

definition rl_host_ip_literal :: "ngx_http_request_t \<Rightarrow> nat \<Rightarrow> byte \<Rightarrow> rl_res" where
  "rl_host_ip_literal r p ch =
     (if http_digit ch then Go r
      else if is_alpha ch then Go r
      else if ch = chr CHR '':'' then Go r
      else if ch = chr CHR '']'' then go r sw_host_end
      else if ch \<in> set ip_literal_chars then Go r
      else bad r)"

definition rl_port :: "ngx_http_request_t \<Rightarrow> nat \<Rightarrow> byte \<Rightarrow> rl_res" where
  "rl_port r p ch =
     (if http_digit ch then Go r
      else if ch = chr CHR ''/'' then go (r\<lparr>port_end := Some p, uri_start := Some p\<rparr>) sw_after_slash_in_uri
      else if ch = chr CHR '' '' then go (uri_from_schema (r\<lparr>port_end := Some p\<rparr>)) sw_host_http_09
      else bad r)"

definition rl_host_http_09 :: "ngx_http_request_t \<Rightarrow> nat \<Rightarrow> byte \<Rightarrow> rl_res" where
  "rl_host_http_09 r p ch =
     (if ch = chr CHR '' '' then Go r
      else if ch = CR then go (r\<lparr>http_minor := 9\<rparr>) sw_almost_done
      else if ch = LF then rl_done (r\<lparr>http_minor := 9\<rparr>) p
      else if ch = chr CHR ''H'' then go (r\<lparr>http_protocol := Some p\<rparr>) sw_http_H
      else bad r)"

definition rl_after_slash_in_uri :: "ngx_http_request_t \<Rightarrow> nat \<Rightarrow> byte \<Rightarrow> rl_res" where
  "rl_after_slash_in_uri r p ch =
     (if is_usual ch then go r sw_check_uri
      else if ch = chr CHR '' '' then go (r\<lparr>uri_end := Some p\<rparr>) sw_check_uri_http_09
      else if ch = CR then go (r\<lparr>uri_end := Some p, http_minor := 9\<rparr>) sw_almost_done
      else if ch = LF then rl_done (r\<lparr>uri_end := Some p, http_minor := 9\<rparr>) p
      else if ch = chr CHR ''.'' then go (r\<lparr>complex_uri := True\<rparr>) sw_uri
      else if ch = chr CHR ''%'' then go (r\<lparr>quoted_uri := True\<rparr>) sw_uri
      else if ch = chr CHR ''/'' then go (r\<lparr>complex_uri := True\<rparr>) sw_uri
      else if ch = chr CHR ''?'' then go (r\<lparr>args_start := Some (p + 1)\<rparr>) sw_uri
      else if ch = chr CHR ''#'' then go (r\<lparr>complex_uri := True\<rparr>) sw_uri
      else if ch = chr CHR ''+'' then Go (r\<lparr>plus_in_uri := True\<rparr>)
      else if ch = 0 then bad r
      else go r sw_check_uri)"

definition rl_check_uri :: "ngx_http_request_t \<Rightarrow> nat \<Rightarrow> byte \<Rightarrow> rl_res" where
  "rl_check_uri r p ch =
     (if is_usual ch then Go r
      else if ch = chr CHR ''/'' then go (r\<lparr>uri_ext := None\<rparr>) sw_after_slash_in_uri
      else if ch = chr CHR ''.'' then Go (r\<lparr>uri_ext := Some (p + 1)\<rparr>)
      else if ch = chr CHR '' '' then go (r\<lparr>uri_end := Some p\<rparr>) sw_check_uri_http_09
      else if ch = CR then go (r\<lparr>uri_end := Some p, http_minor := 9\<rparr>) sw_almost_done
      else if ch = LF then rl_done (r\<lparr>uri_end := Some p, http_minor := 9\<rparr>) p
      else if ch = chr CHR ''%'' then go (r\<lparr>quoted_uri := True\<rparr>) sw_uri
      else if ch = chr CHR ''?'' then go (r\<lparr>args_start := Some (p + 1)\<rparr>) sw_uri
      else if ch = chr CHR ''#'' then go (r\<lparr>complex_uri := True\<rparr>) sw_uri
      else if ch = chr CHR ''+'' then Go (r\<lparr>plus_in_uri := True\<rparr>)
      else if ch = 0 then bad r
      else Go r)"

definition rl_uri :: "ngx_http_request_t \<Rightarrow> nat \<Rightarrow> byte \<Rightarrow> rl_res" where
  "rl_uri r p ch =
     (if is_usual ch then Go r
      else if ch = chr CHR '' '' then go (r\<lparr>uri_end := Some p\<rparr>) sw_http_09
      else if ch = CR then go (r\<lparr>uri_end := Some p, http_minor := 9\<rparr>) sw_almost_done
      else if ch = LF then rl_done (r\<lparr>uri_end := Some p, http_minor := 9\<rparr>) p
      else if ch = chr CHR ''#'' then Go (r\<lparr>complex_uri := True\<rparr>)
      else if ch = 0 then bad r
      else Go r)"

definition rl_check_uri_http_09 :: "ngx_http_request_t \<Rightarrow> nat \<Rightarrow> byte \<Rightarrow> rl_res" where
  "rl_check_uri_http_09 r p ch =
     (if ch = chr CHR '' '' then Go r
      else if ch = CR then go (r\<lparr>http_minor := 9\<rparr>) sw_almost_done
      else if ch = LF then rl_done (r\<lparr>http_minor := 9\<rparr>) p
      else if ch = chr CHR ''H'' then go (r\<lparr>http_protocol := Some p\<rparr>) sw_http_H
      else rl_check_uri (r\<lparr>space_in_uri := True, st := sw_check_uri\<rparr>) p ch)"

definition rl_http_09 :: "ngx_http_request_t \<Rightarrow> nat \<Rightarrow> byte \<Rightarrow> rl_res" where
  "rl_http_09 r p ch =
     (if ch = chr CHR '' '' then Go r
      else if ch = CR then go (r\<lparr>http_minor := 9\<rparr>) sw_almost_done
      else if ch = LF then rl_done (r\<lparr>http_minor := 9\<rparr>) p
      else if ch = chr CHR ''H'' then go (r\<lparr>http_protocol := Some p\<rparr>) sw_http_H
      else rl_uri (r\<lparr>space_in_uri := True, st := sw_uri\<rparr>) p ch)"

definition rl_expect :: "char \<Rightarrow> rl_state \<Rightarrow> ngx_http_request_t \<Rightarrow> nat \<Rightarrow> byte \<Rightarrow> rl_res" where
  "rl_expect c s r p ch = (if ch = chr c then go r s else bad r)"

definition rl_first_major_digit :: "ngx_http_request_t \<Rightarrow> nat \<Rightarrow> byte \<Rightarrow> rl_res" where
  "rl_first_major_digit r p ch =
     (if ch < chr CHR ''1'' \<or> ch > chr CHR ''9'' then bad r
      else go (r\<lparr>http_major := unat ch - 48\<rparr>) sw_major_digit)"

definition rl_major_digit :: "ngx_http_request_t \<Rightarrow> nat \<Rightarrow> byte \<Rightarrow> rl_res" where
  "rl_major_digit r p ch =
     (if ch = chr CHR ''.'' then go r sw_first_minor_digit
      else if \<not> http_digit ch then bad r
      else if http_major r > 99 then bad r
      else Go (r\<lparr>http_major := http_major r * 10 + unat ch - 48\<rparr>))"

definition rl_first_minor_digit :: "ngx_http_request_t \<Rightarrow> nat \<Rightarrow> byte \<Rightarrow> rl_res" where
  "rl_first_minor_digit r p ch =
     (if \<not> http_digit ch then bad r else go (r\<lparr>http_minor := unat ch - 48\<rparr>) sw_minor_digit)"

definition rl_minor_digit :: "ngx_http_request_t \<Rightarrow> nat \<Rightarrow> byte \<Rightarrow> rl_res" where
  "rl_minor_digit r p ch =
     (if ch = CR then go r sw_almost_done
      else if ch = LF then rl_done r p
      else if ch = chr CHR '' '' then go r sw_spaces_after_digit
      else if \<not> http_digit ch then bad r
      else if http_minor r > 99 then bad r
      else Go (r\<lparr>http_minor := http_minor r * 10 + unat ch - 48\<rparr>))"

definition rl_spaces_after_digit :: "ngx_http_request_t \<Rightarrow> nat \<Rightarrow> byte \<Rightarrow> rl_res" where
  "rl_spaces_after_digit r p ch =
     (if ch = chr CHR '' '' then Go r
      else if ch = CR then go r sw_almost_done
      else if ch = LF then rl_done r p
      else bad r)"

definition rl_almost_done :: "ngx_http_request_t \<Rightarrow> nat \<Rightarrow> byte \<Rightarrow> rl_res" where
  "rl_almost_done r p ch =
     (let r = r\<lparr>request_end := Some (p - 1)\<rparr>
      in if ch = LF then rl_done r p else bad r)"

subsection \<open>The loop\<close>

definition rl_switch :: "ngx_http_request_t \<Rightarrow> nat \<Rightarrow> byte \<Rightarrow> rl_res" where
  "rl_switch r p ch =
     (case st r of
        sw_start \<Rightarrow> rl_start r p ch
      | sw_method \<Rightarrow> rl_method r p ch
      | sw_spaces_before_uri \<Rightarrow> rl_spaces_before_uri r p ch
      | sw_schema \<Rightarrow> rl_schema r p ch
      | sw_schema_slash \<Rightarrow> rl_schema_slash r p ch
      | sw_schema_slash_slash \<Rightarrow> rl_schema_slash_slash r p ch
      | sw_host_start \<Rightarrow> rl_host_start r p ch
      | sw_host \<Rightarrow> rl_host r p ch
      | sw_host_end \<Rightarrow> rl_host_end r p ch
      | sw_host_ip_literal \<Rightarrow> rl_host_ip_literal r p ch
      | sw_port \<Rightarrow> rl_port r p ch
      | sw_host_http_09 \<Rightarrow> rl_host_http_09 r p ch
      | sw_after_slash_in_uri \<Rightarrow> rl_after_slash_in_uri r p ch
      | sw_check_uri \<Rightarrow> rl_check_uri r p ch
      | sw_check_uri_http_09 \<Rightarrow> rl_check_uri_http_09 r p ch
      | sw_uri \<Rightarrow> rl_uri r p ch
      | sw_http_09 \<Rightarrow> rl_http_09 r p ch
      | sw_http_H \<Rightarrow> rl_expect CHR ''T'' sw_http_HT r p ch
      | sw_http_HT \<Rightarrow> rl_expect CHR ''T'' sw_http_HTT r p ch
      | sw_http_HTT \<Rightarrow> rl_expect CHR ''P'' sw_http_HTTP r p ch
      | sw_http_HTTP \<Rightarrow> rl_expect CHR ''/'' sw_first_major_digit r p ch
      | sw_first_major_digit \<Rightarrow> rl_first_major_digit r p ch
      | sw_major_digit \<Rightarrow> rl_major_digit r p ch
      | sw_first_minor_digit \<Rightarrow> rl_first_minor_digit r p ch
      | sw_minor_digit \<Rightarrow> rl_minor_digit r p ch
      | sw_spaces_after_digit \<Rightarrow> rl_spaces_after_digit r p ch
      | sw_almost_done \<Rightarrow> rl_almost_done r p ch)"

definition rl_step :: "ngx_http_request_t \<Rightarrow> byte \<Rightarrow> rl_res" where
  "rl_step r ch =
     (case rl_switch r (length (seen r)) ch of
        Go r' \<Rightarrow> Go (r'\<lparr>seen := seen r @ [ch]\<rparr>)
      | Stop (c, r') \<Rightarrow> Stop (c, r'\<lparr>seen := seen r @ [ch]\<rparr>))"

text \<open>
  The returns: with \<open>NGX_AGAIN\<close>, and where a line was read (a line without a version that is
  not a \<open>GET\<close> included), \<open>b->pos\<close> and \<open>r->state\<close> are stored; with any other error the request
  keeps the state and the position the call began with.
\<close>

definition rl_moves :: "int \<Rightarrow> bool" where
  "rl_moves c \<longleftrightarrow> c = NGX_AGAIN \<or> c = NGX_OK \<or> c = NGX_HTTP_PARSE_INVALID_09_METHOD"

definition rl_keep :: "int \<Rightarrow> ngx_http_request_t \<Rightarrow> ngx_http_request_t \<Rightarrow> ngx_http_request_t" where
  "rl_keep c r r' = (if rl_moves c then r' else r'\<lparr>st := st r, seen := seen r\<rparr>)"

lemma rl_keep_simps [simp]:
  "rl_moves NGX_OK" "rl_moves NGX_AGAIN" "rl_keep NGX_OK r r' = r'" "rl_keep NGX_AGAIN r r' = r'"
  by (simp_all add: rl_moves_def rl_keep_def)

definition ngx_http_parse_request_line ::
    "ngx_http_request_t \<Rightarrow> bytes \<Rightarrow> int \<times> ngx_http_request_t \<times> bytes" where
  "ngx_http_parse_request_line r b = pcall rl_step rl_moves rl_keep r b"

subsection \<open>Lemmas: characters\<close>

lemma usual_iff: "is_usual ch \<longleftrightarrow> ch \<notin> {0, 10, 13, 32, 35, 37, 43, 46, 47, 63}"
proof -
  have "list_all (\<lambda>ch. is_usual ch \<longleftrightarrow> ch \<notin> {0, 10, 13, 32, 35, 37, 43, 46, 47, 63}) all_bytes"
    unfolding all_bytes_list by (simp add: is_usual_def usual_def)
  then show ?thesis using byte_forall by blast
qed

lemma token_facts: "is_token ch \<Longrightarrow> ch \<noteq> 13 \<and> ch \<noteq> 10 \<and> ch \<noteq> 32"
  by (auto simp: is_token_def)

lemma num_facts: "http_digit ch \<Longrightarrow> ch \<noteq> 13 \<and> ch \<noteq> 10 \<and> ch \<noteq> 32 \<and> ch \<noteq> 46 \<and> 48 \<le> unat ch \<and> unat ch \<le> 57"
  by (auto simp: http_digit_def word_le_nat_alt)

subsection \<open>Lemmas: calls on successive buffers\<close>

lemmas rl_defs = rl_start_def rl_method_def rl_spaces_before_uri_def rl_schema_def rl_schema_slash_def
  rl_schema_slash_slash_def rl_host_end_def rl_host_def rl_host_start_def rl_host_ip_literal_def
  rl_port_def rl_host_http_09_def rl_after_slash_in_uri_def rl_check_uri_def rl_uri_def
  rl_check_uri_http_09_def rl_http_09_def rl_expect_def rl_first_major_digit_def rl_major_digit_def
  rl_first_minor_digit_def rl_minor_digit_def rl_spaces_after_digit_def rl_almost_done_def

definition rl_final :: "rl_res \<Rightarrow> bool" where
  "rl_final x = (case x of Go _ \<Rightarrow> True | Stop (c, _) \<Rightarrow> c \<noteq> NGX_AGAIN)"

lemma rl_final_simps [simp]: "rl_final (Go r)" "rl_final (Stop (c, r)) \<longleftrightarrow> c \<noteq> NGX_AGAIN"
  by (simp_all add: rl_final_def)

lemma rl_final_done [simp]: "rl_final (rl_done r p)"
  by (simp add: rl_done_def Let_def http_codes ngx_codes)

lemma rl_final_if: "rl_final x \<Longrightarrow> rl_final y \<Longrightarrow> rl_final (if b then x else y)"
  by simp

lemma rl_final_codes [simp]: "NGX_HTTP_PARSE_INVALID_REQUEST \<noteq> NGX_AGAIN" "NGX_HTTP_PARSE_INVALID_METHOD \<noteq> NGX_AGAIN"
  by (simp_all add: http_codes ngx_codes)

lemmas rl_final_intros = rl_final_if rl_final_simps(1) rl_final_simps(2) [THEN iffD2] rl_final_codes rl_final_done

lemma rl_final_states:
  "rl_final (rl_start r p ch)" "rl_final (rl_method r p ch)" "rl_final (rl_spaces_before_uri r p ch)"
  "rl_final (rl_schema r p ch)" "rl_final (rl_schema_slash r p ch)" "rl_final (rl_schema_slash_slash r p ch)"
  "rl_final (rl_host_end r p ch)" "rl_final (rl_host r p ch)" "rl_final (rl_host_start r p ch)"
  "rl_final (rl_host_ip_literal r p ch)" "rl_final (rl_port r p ch)" "rl_final (rl_host_http_09 r p ch)"
  "rl_final (rl_after_slash_in_uri r p ch)" "rl_final (rl_check_uri r p ch)" "rl_final (rl_uri r p ch)"
  "rl_final (rl_check_uri_http_09 r p ch)" "rl_final (rl_http_09 r p ch)" "rl_final (rl_expect c s r p ch)"
  "rl_final (rl_first_major_digit r p ch)" "rl_final (rl_major_digit r p ch)"
  "rl_final (rl_first_minor_digit r p ch)" "rl_final (rl_minor_digit r p ch)"
  "rl_final (rl_spaces_after_digit r p ch)" "rl_final (rl_almost_done r p ch)"
  unfolding rl_defs Let_def by (intro rl_final_intros)+

lemma rl_final_switch: "rl_final (rl_switch r p ch)"
  by (simp add: rl_switch_def rl_final_states split: rl_state.split)

lemma rl_step_final: "rl_step r ch = Stop (c, r') \<Longrightarrow> c \<noteq> NGX_AGAIN"
  using rl_final_switch [of r "length (seen r)" ch]
  by (auto simp: rl_step_def rl_final_def split: step_res.splits)

interpretation request_line: resumable rl_step rl_moves rl_keep seen
  by unfold_locales (auto simp: rl_step_final rl_moves_def rl_keep_def, auto simp: rl_step_def split: step_res.splits)

subsection \<open>Lemmas: well-formed lines\<close>

lemma prun_Go: "step s b = Go s' \<Longrightarrow> prun step s (b # bs) = prun step s' bs"
  by simp

lemma run_blank_all:
  assumes "st r = sw_start" "list_all (\<lambda>c. c = CR \<or> c = LF) bl"
  shows "\<exists>x. \<forall>bs. prun rl_step r (bl @ bs) = prun rl_step (r\<lparr>seen := seen r @ bl, request_start := x\<rparr>) bs"
  using assms
proof (induction bl arbitrary: r)
  case Nil
  show ?case by (rule exI [of _ "request_start r"]) simp
next
  case (Cons c bl)
  let ?r = "r\<lparr>seen := seen r @ [c], request_start := Some (length (seen r))\<rparr>"
  have "rl_step r c = Go ?r"
    using Cons.prems by (auto simp: rl_step_def rl_switch_def rl_start_def)
  then show ?case using Cons.IH [of ?r] Cons.prems by auto
qed

lemma run_method:
  assumes "st r = sw_method" "list_all is_token ms"
  shows "prun rl_step r (ms @ bs) = prun rl_step (r\<lparr>seen := seen r @ ms\<rparr>) bs"
  using assms
proof (induction ms arbitrary: r)
  case (Cons c ms)
  have "rl_step r c = Go (r\<lparr>seen := seen r @ [c]\<rparr>)"
    using Cons.prems token_facts [of c] by (auto simp: rl_step_def rl_switch_def rl_method_def)
  then show ?case using Cons.IH [of "r\<lparr>seen := seen r @ [c]\<rparr>"] Cons.prems by simp
qed simp

definition space_state :: "rl_state \<Rightarrow> bool" where
  "space_state s \<longleftrightarrow> s = sw_spaces_before_uri \<or> s = sw_check_uri_http_09 \<or> s = sw_http_09 \<or> s = sw_spaces_after_digit"

lemma run_spaces:
  assumes "space_state (st r)"
  shows "prun rl_step r (replicate k 32 @ bs) = prun rl_step (r\<lparr>seen := seen r @ replicate k 32\<rparr>) bs"
  using assms
proof (induction k arbitrary: r)
  case (Suc k)
  have "rl_step r 32 = Go (r\<lparr>seen := seen r @ [32]\<rparr>)"
    using Suc.prems by (auto simp: space_state_def rl_step_def rl_switch_def rl_defs is_alpha_def)
  then show ?case using Suc.IH [of "r\<lparr>seen := seen r @ [32]\<rparr>"] Suc.prems by simp
qed simp

definition uri_state :: "rl_state \<Rightarrow> bool" where
  "uri_state s \<longleftrightarrow> s = sw_after_slash_in_uri \<or> s = sw_check_uri \<or> s = sw_uri"

definition uri_char :: "byte \<Rightarrow> bool" where
  "uri_char ch \<longleftrightarrow> ch \<noteq> 32 \<and> ch \<noteq> CR \<and> ch \<noteq> LF \<and> ch \<noteq> 0"

text \<open>The request apart from what reading the URI changes.\<close>

definition core :: "ngx_http_request_t \<Rightarrow> ngx_http_request_t" where
  "core r = r\<lparr>st := sw_start, uri_ext := None, args_start := None, complex_uri := False, quoted_uri := False,
     plus_in_uri := False\<rparr>"

lemma uri_step:
  assumes "uri_state (st r)" "uri_char c"
  shows "\<exists>r'. rl_step r c = Go r' \<and> uri_state (st r') \<and> core r' = core (r\<lparr>seen := seen r @ [c]\<rparr>)"
proof -
  consider "st r = sw_after_slash_in_uri" | "st r = sw_check_uri" | "st r = sw_uri"
    using assms(1) by (auto simp: uri_state_def)
  then show ?thesis
  proof cases
    case 1
    then show ?thesis
      using assms(2)
      by (auto simp: rl_step_def rl_switch_def rl_after_slash_in_uri_def uri_char_def uri_state_def core_def)
  next
    case 2
    then show ?thesis
      using assms(2)
      by (auto simp: rl_step_def rl_switch_def rl_check_uri_def uri_char_def uri_state_def core_def)
  next
    case 3
    then show ?thesis
      using assms(2)
      by (auto simp: rl_step_def rl_switch_def rl_uri_def uri_char_def uri_state_def core_def)
  qed
qed

lemma run_uri:
  assumes "uri_state (st r)" "list_all uri_char us"
  shows "\<exists>r'. prun rl_step r (us @ bs) = prun rl_step r' bs \<and> uri_state (st r')
    \<and> core r' = core (r\<lparr>seen := seen r @ us\<rparr>)"
  using assms
proof (induction us arbitrary: r)
  case Nil
  then show ?case by auto
next
  case (Cons c us)
  obtain r1 where r1: "rl_step r c = Go r1" "uri_state (st r1)" "core r1 = core (r\<lparr>seen := seen r @ [c]\<rparr>)"
    using uri_step [of r c] Cons.prems by auto
  have sn: "seen r1 = seen r @ [c]" using arg_cong [OF r1(3), of seen] by (simp add: core_def)
  have "core (r1\<lparr>seen := seen r1 @ us\<rparr>) = (core r1)\<lparr>seen := seen r1 @ us\<rparr>" by (simp add: core_def)
  also have "\<dots> = core (r\<lparr>seen := seen r @ c # us\<rparr>)" unfolding r1(3) sn by (simp add: core_def)
  finally show ?case using Cons.IH [of r1] Cons.prems r1 by auto
qed

lemma uri_end_step:
  assumes "uri_state (st r)"
  shows "\<exists>s. (s = sw_check_uri_http_09 \<or> s = sw_http_09)
    \<and> rl_step r 32 = Go (r\<lparr>seen := seen r @ [32], st := s, uri_end := Some (length (seen r))\<rparr>)"
  using assms
  by (auto simp: uri_state_def rl_step_def rl_switch_def rl_after_slash_in_uri_def rl_check_uri_def rl_uri_def
      usual_iff)

lemma run_protocol:
  assumes "st r = sw_check_uri_http_09 \<or> st r = sw_http_09"
  shows "prun rl_step r (str ''HTTP/'' @ bs) = prun rl_step (r\<lparr>seen := seen r @ str ''HTTP/'',
     st := sw_first_major_digit, http_protocol := Some (length (seen r))\<rparr>) bs"
  using assms
  by (cases r) (auto simp: rl_step_def rl_switch_def rl_check_uri_http_09_def rl_http_09_def rl_expect_def)

text \<open>The value of a string of digits.\<close>

definition dig_val :: "nat \<Rightarrow> bytes \<Rightarrow> nat" where
  "dig_val v ds = foldl (\<lambda>a d. a * 10 + (unat d - 48)) v ds"

lemma dig_val_simps [simp]: "dig_val v [] = v" "dig_val v (d # ds) = dig_val (v * 10 + (unat d - 48)) ds"
  by (simp_all add: dig_val_def)

lemma dig_step_less:
  assumes "http_digit d" "v < 10 ^ m"
  shows "v * 10 + (unat d - 48) < 10 ^ Suc m"
proof -
  have "unat d - 48 \<le> 9" using num_facts [OF assms(1)] by linarith
  moreover have "v * 10 + 10 \<le> 10 ^ Suc m" using assms(2) by simp
  ultimately show ?thesis by simp
qed

lemma small_le_99:
  assumes "v < 10 ^ m" "m \<le> 2"
  shows "\<not> (99 :: nat) < v"
proof -
  have "(10 :: nat) ^ m \<le> 10 ^ 2" using assms(2) by (rule power_increasing) simp
  then show ?thesis using assms(1) by simp
qed

lemma run_major:
  assumes "st r = sw_major_digit" "list_all http_digit ds" "http_major r < 10 ^ m" "m + length ds \<le> 3"
  shows "prun rl_step r (ds @ bs) = prun rl_step (r\<lparr>seen := seen r @ ds, http_major := dig_val (http_major r) ds\<rparr>) bs"
  using assms
proof (induction ds arbitrary: r m)
  case (Cons d ds)
  let ?r = "r\<lparr>seen := seen r @ [d], http_major := http_major r * 10 + (unat d - 48)\<rparr>"
  have "\<not> 99 < http_major r" using Cons.prems small_le_99 [of "http_major r" m] by simp
  then have "rl_step r d = Go ?r"
    using Cons.prems num_facts [of d] by (auto simp: rl_step_def rl_switch_def rl_major_digit_def)
  then show ?case
    using Cons.IH [of ?r "Suc m"] Cons.prems dig_step_less [of d "http_major r" m] by simp
qed simp

lemma run_minor:
  assumes "st r = sw_minor_digit" "list_all http_digit ds" "http_minor r < 10 ^ m" "m + length ds \<le> 3"
  shows "prun rl_step r (ds @ bs) = prun rl_step (r\<lparr>seen := seen r @ ds, http_minor := dig_val (http_minor r) ds\<rparr>) bs"
  using assms
proof (induction ds arbitrary: r m)
  case (Cons d ds)
  let ?r = "r\<lparr>seen := seen r @ [d], http_minor := http_minor r * 10 + (unat d - 48)\<rparr>"
  have "\<not> 99 < http_minor r" using Cons.prems small_le_99 [of "http_minor r" m] by simp
  then have "rl_step r d = Go ?r"
    using Cons.prems num_facts [of d] by (auto simp: rl_step_def rl_switch_def rl_minor_digit_def)
  then show ?case
    using Cons.IH [of ?r "Suc m"] Cons.prems dig_step_less [of d "http_minor r" m] by simp
qed simp

lemma run_version:
  assumes "st r = sw_first_major_digit" "list_all http_digit ma" "list_all http_digit mi"
    and "1 \<le> length ma" "length ma \<le> 3" "1 \<le> length mi" "length mi \<le> 3" "hd ma \<noteq> chr CHR ''0''"
  shows "prun rl_step r (ma @ chr CHR ''.'' # mi @ bs) = prun rl_step (r\<lparr>seen := seen r @ ma @ chr CHR ''.'' # mi,
     st := sw_minor_digit, http_major := dig_val 0 ma, http_minor := dig_val 0 mi\<rparr>) bs"
proof -
  obtain d ds e es where ma: "ma = d # ds" and mi: "mi = e # es"
    using assms(4,6) by (cases ma; cases mi) auto
  have d: "http_digit d" "d \<noteq> 48" and e: "http_digit e" using assms ma mi by auto
  then have d1: "\<not> (d < 49 \<or> d > 57)" 
    using num_facts [OF d(1)] by (auto simp: word_less_nat_alt word_unat_eq_iff)
  let ?r1 = "r\<lparr>seen := seen r @ [d], st := sw_major_digit, http_major := unat d - 48\<rparr>"
  have s1: "rl_step r d = Go ?r1"
    using assms(1) d1 by (auto simp: rl_step_def rl_switch_def rl_first_major_digit_def)
  have v: "unat d - 48 < 10 ^ 1" "unat e - 48 < 10 ^ 1"
    using num_facts [OF d(1)] num_facts [OF e] by auto
  let ?r2 = "?r1\<lparr>seen := seen r @ ma, http_major := dig_val 0 ma\<rparr>"
  have s2: "prun rl_step ?r1 (ds @ cs) = prun rl_step ?r2 cs" for cs
    using run_major [of ?r1 ds 1 cs] assms v by (simp add: ma)
  let ?r3 = "?r2\<lparr>seen := seen r @ ma @ [46, e], st := sw_minor_digit, http_minor := unat e - 48\<rparr>"
  have s3: "prun rl_step ?r2 (46 # e # cs) = prun rl_step ?r3 cs" for cs
    using e by (cases r) (simp add: rl_step_def rl_switch_def rl_major_digit_def rl_first_minor_digit_def)
  have s4: "prun rl_step ?r3 (es @ bs) = prun rl_step (?r3\<lparr>seen := seen r @ ma @ 46 # mi, http_minor := dig_val 0 mi\<rparr>) bs"
    using run_minor [of ?r3 es 1 bs] assms v by (simp add: mi)
  have "prun rl_step r (ma @ chr CHR ''.'' # mi @ bs) =
      prun rl_step (?r3\<lparr>seen := seen r @ ma @ 46 # mi, http_minor := dig_val 0 mi\<rparr>) bs"
    using s1 s2 [of "46 # e # es @ bs"] s3 [of "es @ bs"] s4 by (simp add: ma mi)
  also have "?r3\<lparr>seen := seen r @ ma @ 46 # mi, http_minor := dig_val 0 mi\<rparr> =
      r\<lparr>seen := seen r @ ma @ chr CHR ''.'' # mi, st := sw_minor_digit, http_major := dig_val 0 ma,
        http_minor := dig_val 0 mi\<rparr>"
    by (cases r) simp
  finally show ?thesis .
qed

lemma run_eol:
  assumes "st r = sw_minor_digit \<or> st r = sw_spaces_after_digit" "request_end r = None" "1 \<le> http_major r"
    and "eol = [CR, LF] \<or> eol = [LF]"
  shows "prun rl_step r (eol @ bs) = Finished (NGX_OK, r\<lparr>seen := seen r @ eol, request_end := Some (length (seen r)),
     http_version := http_major r * 1000 + http_minor r, st := sw_start\<rparr>) bs"
  using assms
  by (cases r) (auto simp: rl_step_def rl_switch_def rl_minor_digit_def rl_spaces_after_digit_def
      rl_almost_done_def rl_done_def)

lemma run_tail:
  assumes "st r = sw_minor_digit" "request_end r = None" "1 \<le> http_major r"
    and "eol = [CR, LF] \<or> eol = [LF]"
  shows "\<exists>r'. prun rl_step r (replicate k 32 @ eol @ bs) = Finished (NGX_OK, r') bs
    \<and> r' = r\<lparr>seen := seen r @ replicate k 32 @ eol, request_end := Some (length (seen r) + k),
         http_version := http_major r * 1000 + http_minor r, st := sw_start\<rparr>"
proof (cases k)
  case 0
  then show ?thesis using run_eol [OF _ assms(2-4), of bs] assms(1) by simp
next
  case (Suc j)
  let ?r = "r\<lparr>seen := seen r @ [32], st := sw_spaces_after_digit\<rparr>"
  have "rl_step r 32 = Go ?r"
    using assms(1) by (cases r) (simp add: rl_step_def rl_switch_def rl_minor_digit_def)
  moreover have "prun rl_step ?r (replicate j 32 @ eol @ bs) =
      prun rl_step (?r\<lparr>seen := seen ?r @ replicate j 32\<rparr>) (eol @ bs)"
    by (rule run_spaces) (simp add: space_state_def)
  ultimately show ?thesis
    using run_eol [of "?r\<lparr>seen := seen ?r @ replicate j 32\<rparr>" eol bs] assms Suc by (cases r) simp
qed

text \<open>A request line with its parts marked out.\<close>

definition request_line_text :: "bytes \<Rightarrow> bytes \<Rightarrow> nat \<Rightarrow> bytes \<Rightarrow> nat \<Rightarrow> bytes \<Rightarrow> bytes \<Rightarrow> nat \<Rightarrow> bytes \<Rightarrow> bytes" where
  "request_line_text bl ms i uri j ma mi k eol =
     bl @ ms @ replicate (Suc i) 32 @ uri @ replicate (Suc j) 32 @ str ''HTTP/'' @ ma @ chr CHR ''.'' # mi
     @ replicate k 32 @ eol"

definition request_line_ok :: "bytes \<Rightarrow> bytes \<Rightarrow> bytes \<Rightarrow> bytes \<Rightarrow> bytes \<Rightarrow> bytes \<Rightarrow> bool" where
  "request_line_ok bl ms uri ma mi eol \<longleftrightarrow>
     list_all (\<lambda>c. c = CR \<or> c = LF) bl
   \<and> ms \<noteq> [] \<and> list_all is_token ms
   \<and> uri \<noteq> [] \<and> hd uri = chr CHR ''/'' \<and> list_all uri_char uri
   \<and> list_all http_digit ma \<and> 1 \<le> length ma \<and> length ma \<le> 3 \<and> hd ma \<noteq> chr CHR ''0''
   \<and> list_all http_digit mi \<and> 1 \<le> length mi \<and> length mi \<le> 3
   \<and> (eol = [CR, LF] \<or> eol = [LF])"

lemma run_line_start:
  assumes "list_all (\<lambda>c. c = CR \<or> c = LF) bl" "ms \<noteq> []" "list_all is_token ms"
  shows "prun rl_step new_request (bl @ ms @ replicate (Suc i) 32 @ chr CHR ''/'' # bs) =
    prun rl_step (new_request\<lparr>seen := bl @ ms @ replicate (Suc i) 32 @ [chr CHR ''/''], st := sw_after_slash_in_uri,
      request_start := Some (length bl), method_end := Some (length bl + length ms - 1),
      r_method := method_code ms NGX_HTTP_UNKNOWN, uri_start := Some (length bl + length ms + Suc i)\<rparr>) bs"
proof -
  obtain c cs where ms: "ms = c # cs" using assms(2) by (cases ms) auto
  obtain x where s0: "prun rl_step new_request (bl @ ys) = prun rl_step (new_request\<lparr>seen := bl, request_start := x\<rparr>) ys" for ys
  proof -
    have "\<exists>x. \<forall>ys. prun rl_step new_request (bl @ ys) = prun rl_step (new_request\<lparr>seen := bl, request_start := x\<rparr>) ys"
      using run_blank_all [of new_request bl] assms(1) by (simp add: new_request_def)
    then show thesis using that by blast
  qed
  let ?r1 = "new_request\<lparr>seen := bl @ [c], st := sw_method, request_start := Some (length bl)\<rparr>"
  have s1: "rl_step (new_request\<lparr>seen := bl, request_start := x\<rparr>) c = Go ?r1"
    using assms(3) token_facts [of c] ms
    by (auto simp: rl_step_def rl_switch_def rl_start_def new_request_def)
  let ?r2 = "?r1\<lparr>seen := bl @ ms\<rparr>"
  have s2: "prun rl_step ?r1 (cs @ ys) = prun rl_step ?r2 ys" for ys
    using run_method [of ?r1 cs ys] assms(3) ms by simp
  let ?r3 = "?r2\<lparr>seen := bl @ ms @ [32], st := sw_spaces_before_uri,
    method_end := Some (length bl + length ms - 1), r_method := method_code ms NGX_HTTP_UNKNOWN\<rparr>"
  have s3: "rl_step ?r2 32 = Go ?r3"
    by (simp add: rl_step_def rl_switch_def rl_method_def new_request_def)
  have s4: "prun rl_step ?r3 (replicate i 32 @ ys) = prun rl_step (?r3\<lparr>seen := bl @ ms @ replicate (Suc i) 32\<rparr>) ys" for ys
    using run_spaces [of ?r3 i ys] by (simp add: space_state_def)
  have s5: "prun rl_step (?r3\<lparr>seen := bl @ ms @ replicate (Suc i) 32\<rparr>) (47 # bs) =
      prun rl_step (new_request\<lparr>seen := bl @ ms @ replicate (Suc i) 32 @ [47], st := sw_after_slash_in_uri,
      request_start := Some (length bl), method_end := Some (length bl + length ms - 1),
      r_method := method_code ms NGX_HTTP_UNKNOWN, uri_start := Some (length bl + length ms + Suc i)\<rparr>) bs"
    by (simp add: rl_step_def rl_switch_def rl_spaces_before_uri_def new_request_def add.assoc)
  show ?thesis
    using s0 [of "ms @ replicate (Suc i) 32 @ 47 # bs"] s1 s2 [of "replicate (Suc i) 32 @ 47 # bs"] s3
      s4 [of "47 # bs"] s5 by (simp add: ms)
qed

lemma core_fields:
  assumes "core r' = core r"
  shows "seen r' = seen r" "request_start r' = request_start r" "method_end r' = method_end r"
    "r_method r' = r_method r" "uri_start r' = uri_start r" "uri_end r' = uri_end r"
    "request_end r' = request_end r" "http_major r' = http_major r" "http_minor r' = http_minor r"
  using arg_cong [OF assms, of seen] arg_cong [OF assms, of request_start] arg_cong [OF assms, of method_end]
    arg_cong [OF assms, of r_method] arg_cong [OF assms, of uri_start] arg_cong [OF assms, of uri_end]
    arg_cong [OF assms, of request_end] arg_cong [OF assms, of http_major] arg_cong [OF assms, of http_minor]
  by (simp_all add: core_def)

lemma dig_val_pos:
  assumes "list_all http_digit ma" "1 \<le> length ma" "hd ma \<noteq> chr CHR ''0''"
  shows "1 \<le> dig_val 0 ma"
proof -
  obtain d ds where ma: "ma = d # ds" using assms(2) by (cases ma) auto
  have mono: "v \<le> dig_val v xs" for v xs
  proof (induction xs arbitrary: v)
    case (Cons x xs)
    have "v \<le> v * 10 + (unat x - 48)" by simp
    also have "\<dots> \<le> dig_val (v * 10 + (unat x - 48)) xs" by (rule Cons.IH)
    finally show ?case by simp
  qed simp
  have "unat d \<noteq> 48" using assms(3) ma by (auto simp: word_unat_eq_iff)
  then have "1 \<le> unat d - 48" using num_facts [of d] assms(1) ma by auto
  also have "\<dots> \<le> dig_val (unat d - 48) ds" by (rule mono)
  finally show ?thesis by (simp add: ma)
qed

lemma run_line_end:
  fixes j k :: nat and bs ma mi eol :: bytes
  assumes "uri_state (st r)" "request_end r = None"
    and "list_all http_digit ma" "1 \<le> length ma" "length ma \<le> 3" "hd ma \<noteq> chr CHR ''0''"
    and "list_all http_digit mi" "1 \<le> length mi" "length mi \<le> 3" "eol = [CR, LF] \<or> eol = [LF]"
  defines "txt \<equiv> replicate (Suc j) 32 @ str ''HTTP/'' @ ma @ chr CHR ''.'' # mi @ replicate k 32 @ eol"
  shows "\<exists>r'. prun rl_step r (txt @ bs) = Finished (NGX_OK, r') bs \<and> st r' = sw_start
    \<and> seen r' = seen r @ txt \<and> request_start r' = request_start r \<and> method_end r' = method_end r
    \<and> r_method r' = r_method r \<and> uri_start r' = uri_start r \<and> uri_end r' = Some (length (seen r))
    \<and> request_end r' = Some (length (seen r) + length txt - length eol)
    \<and> http_version r' = dig_val 0 ma * 1000 + dig_val 0 mi"
proof -
  obtain s where s: "s = sw_check_uri_http_09 \<or> s = sw_http_09"
    and s1: "rl_step r 32 = Go (r\<lparr>seen := seen r @ [32], st := s, uri_end := Some (length (seen r))\<rparr>)"
    using uri_end_step [OF assms(1)] by blast
  let ?r1 = "r\<lparr>seen := seen r @ [32], st := s, uri_end := Some (length (seen r))\<rparr>"
  let ?r2 = "?r1\<lparr>seen := seen r @ replicate (Suc j) 32\<rparr>"
  have s2: "prun rl_step ?r1 (replicate j 32 @ ys) = prun rl_step ?r2 ys" for ys
    using run_spaces [of ?r1 j ys] s by (auto simp: space_state_def)
  let ?r3 = "?r2\<lparr>seen := seen ?r2 @ str ''HTTP/'', st := sw_first_major_digit, http_protocol := Some (length (seen ?r2))\<rparr>"
  have s3: "prun rl_step ?r2 (str ''HTTP/'' @ ys) = prun rl_step ?r3 ys" for ys
    by (rule run_protocol) (use s in simp)
  let ?r4 = "?r3\<lparr>seen := seen ?r3 @ ma @ chr CHR ''.'' # mi, st := sw_minor_digit, http_major := dig_val 0 ma,
    http_minor := dig_val 0 mi\<rparr>"
  have s4: "prun rl_step ?r3 (ma @ chr CHR ''.'' # mi @ ys) = prun rl_step ?r4 ys" for ys
    by (rule run_version) (use assms in simp_all)
  obtain r' where s5: "prun rl_step ?r4 (replicate k 32 @ eol @ bs) = Finished (NGX_OK, r') bs"
    "r' = ?r4\<lparr>seen := seen ?r4 @ replicate k 32 @ eol, request_end := Some (length (seen ?r4) + k),
         http_version := http_major ?r4 * 1000 + http_minor ?r4, st := sw_start\<rparr>"
    using run_tail [of ?r4 eol k bs] assms(2,10) dig_val_pos [OF assms(3,4,6)] by auto
  have "prun rl_step r (txt @ bs) = Finished (NGX_OK, r') bs"
    unfolding txt_def using s1 s2 s3 s4 s5(1) by (simp del: str_simps)
  then show ?thesis by (intro exI [of _ r']) (simp add: s5(2) txt_def)
qed

subsection \<open>Lemmas: what an accepted line looks like\<close>

definition method_okf :: "nat option \<Rightarrow> nat option \<Rightarrow> nat \<Rightarrow> bytes \<Rightarrow> bool" where
  "method_okf rs me rm bs \<longleftrightarrow> (\<exists>a b. rs = Some a \<and> me = Some b \<and> a \<le> b \<and> b + 1 < length bs
     \<and> list_all is_token (slice bs a (b + 1)) \<and> rm = method_code (slice bs a (b + 1)) NGX_HTTP_UNKNOWN)"

definition method_ok :: "ngx_http_request_t \<Rightarrow> bool" where
  "method_ok r \<longleftrightarrow> method_okf (request_start r) (method_end r) (r_method r) (seen r)"

text \<open>The URI is being read: it starts with a slash after the method.\<close>

definition in_urif :: "nat option \<Rightarrow> nat option \<Rightarrow> bytes \<Rightarrow> bool" where
  "in_urif me us bs \<longleftrightarrow> (\<exists>u. us = Some u \<and> the me < u \<and> u < length bs
     \<and> bs ! u = chr CHR ''/'' \<and> no_eol (slice bs u (length bs)))"

definition in_uri :: "ngx_http_request_t \<Rightarrow> bool" where
  "in_uri r \<longleftrightarrow> in_urif (method_end r) (uri_start r) (seen r)"

text \<open>The URI has been read.\<close>

definition uri_okf :: "nat option \<Rightarrow> nat option \<Rightarrow> nat option \<Rightarrow> bytes \<Rightarrow> bool" where
  "uri_okf me us ue bs \<longleftrightarrow> (\<exists>u v. us = Some u \<and> ue = Some v \<and> the me < u \<and> u < v
     \<and> v < length bs \<and> bs ! u = chr CHR ''/'' \<and> no_eol (slice bs u v))"

definition uri_ok :: "ngx_http_request_t \<Rightarrow> bool" where
  "uri_ok r \<longleftrightarrow> uri_okf (method_end r) (uri_start r) (uri_end r) (seen r)"

definition schema_okf :: "nat option \<Rightarrow> nat option \<Rightarrow> bytes \<Rightarrow> bool" where
  "schema_okf me se bs \<longleftrightarrow> (\<exists>e. se = Some e \<and> the me < e \<and> e + 2 < length bs \<and> bs ! (e + 1) = chr CHR ''/'')"

definition schema_ok :: "ngx_http_request_t \<Rightarrow> bool" where
  "schema_ok r \<longleftrightarrow> schema_okf (method_end r) (schema_end r) (seen r)"

lemmas rl_okf = method_ok_def in_uri_def uri_ok_def schema_ok_def

definition line_ok :: "ngx_http_request_t \<Rightarrow> bool" where
  "line_ok r \<longleftrightarrow> method_ok r \<and> uri_ok r
     \<and> (\<exists>e. request_end r = Some e \<and> the (uri_end r) \<le> e \<and> e < length (seen r))
     \<and> http_major r \<le> 999 \<and> http_minor r \<le> 999 \<and> http_version r = http_major r * 1000 + http_minor r
     \<and> (http_version r = 9 \<longrightarrow> r_method r = NGX_HTTP_GET)"

definition rl_inv :: "ngx_http_request_t \<Rightarrow> bool" where
  "rl_inv r \<longleftrightarrow> http_major r \<le> 999 \<and> http_minor r \<le> 999 \<and> request_end r = None \<and>
     (case st r of
        sw_start \<Rightarrow> r_method r = NGX_HTTP_UNKNOWN
      | sw_method \<Rightarrow> r_method r = NGX_HTTP_UNKNOWN \<and> (\<exists>a. request_start r = Some a \<and> a < length (seen r)
          \<and> list_all is_token (slice (seen r) a (length (seen r))))
      | sw_spaces_before_uri \<Rightarrow> method_ok r
      | sw_schema \<Rightarrow> method_ok r
      | sw_schema_slash \<Rightarrow> method_ok r \<and> (\<exists>e. schema_end r = Some e \<and> the (method_end r) < e \<and> e + 1 = length (seen r))
      | sw_schema_slash_slash \<Rightarrow> method_ok r \<and> (\<exists>e. schema_end r = Some e \<and> the (method_end r) < e
          \<and> e + 2 = length (seen r) \<and> seen r ! (e + 1) = chr CHR ''/'')
      | sw_host_start \<Rightarrow> method_ok r \<and> schema_ok r
      | sw_host \<Rightarrow> method_ok r \<and> schema_ok r
      | sw_host_end \<Rightarrow> method_ok r \<and> schema_ok r
      | sw_host_ip_literal \<Rightarrow> method_ok r \<and> schema_ok r
      | sw_port \<Rightarrow> method_ok r \<and> schema_ok r
      | sw_after_slash_in_uri \<Rightarrow> method_ok r \<and> in_uri r
      | sw_check_uri \<Rightarrow> method_ok r \<and> in_uri r
      | sw_uri \<Rightarrow> method_ok r \<and> in_uri r
      | sw_check_uri_http_09 \<Rightarrow> method_ok r \<and> uri_ok r \<and> in_uri r
      | sw_http_09 \<Rightarrow> method_ok r \<and> uri_ok r \<and> in_uri r
      | _ \<Rightarrow> method_ok r \<and> uri_ok r)"

definition rl_good :: "ngx_http_request_t \<Rightarrow> byte \<Rightarrow> rl_res \<Rightarrow> bool" where
  "rl_good r ch x = (case x of
      Go r' \<Rightarrow> rl_inv (r'\<lparr>seen := seen r @ [ch]\<rparr>)
    | Stop (c, r') \<Rightarrow> c = NGX_OK \<longrightarrow> line_ok (r'\<lparr>seen := seen r @ [ch]\<rparr>))"

lemma rl_good_simps [simp]:
  "rl_good r ch (Go r') \<longleftrightarrow> rl_inv (r'\<lparr>seen := seen r @ [ch]\<rparr>)"
  "rl_good r ch (Stop (c, r')) \<longleftrightarrow> (c = NGX_OK \<longrightarrow> line_ok (r'\<lparr>seen := seen r @ [ch]\<rparr>))"
  by (simp_all add: rl_good_def)

lemma rl_good_if: "(b \<Longrightarrow> rl_good r ch x) \<Longrightarrow> (\<not> b \<Longrightarrow> rl_good r ch y) \<Longrightarrow> rl_good r ch (if b then x else y)"
  by simp

lemma rl_good_bad [simp]: "rl_good r ch (bad r')" "rl_good r ch (Stop (NGX_HTTP_PARSE_INVALID_METHOD, r'))"
  by (simp_all add: http_codes ngx_codes)

lemma method_okf_snoc: "method_okf rs me rm bs \<Longrightarrow> method_okf rs me rm (bs @ [c])"
  unfolding method_okf_def by (force simp: slice_append)

lemma schema_okf_snoc: "schema_okf me se bs \<Longrightarrow> schema_okf me se (bs @ [c])"
  unfolding schema_okf_def by (force simp: nth_append)

lemma uri_okf_snoc: "uri_okf me us ue bs \<Longrightarrow> uri_okf me us ue (bs @ [c])"
  unfolding uri_okf_def by (force simp: slice_append nth_append)

lemma in_urif_snoc: "in_urif me us bs \<Longrightarrow> c \<noteq> CR \<Longrightarrow> c \<noteq> LF \<Longrightarrow> c \<noteq> 0 \<Longrightarrow> in_urif me us (bs @ [c])"
  unfolding in_urif_def by (auto simp: slice_snoc nth_append no_eol_def)

text \<open>The byte that ends the URI.\<close>

lemma uri_okf_end: "in_urif me us bs \<Longrightarrow> uri_okf me us (Some (length bs)) (bs @ [c])"
  unfolding in_urif_def uri_okf_def by (force simp: slice_append nth_append)

lemma in_urif_start: "method_okf rs me rm bs \<Longrightarrow> in_urif me (Some (length bs)) (bs @ [47])"
  unfolding method_okf_def in_urif_def by (auto simp: no_eol_def slice_def)

lemma uri_okf_schema:
  assumes "schema_okf me se bs"
  shows "uri_okf me (Some (the se + 1)) (Some (the se + 2)) (bs @ [c])"
proof -
  obtain e where e: "se = Some e" "the me < e" "e + 2 < length bs" "bs ! (e + 1) = chr CHR ''/''"
    using assms unfolding schema_okf_def by blast
  have "slice bs (e + 1) (e + 2) = [bs ! (e + 1)]"
    using e by (simp add: slice_def take_Suc hd_drop_conv_nth)
  then show ?thesis using e unfolding uri_okf_def by (simp add: nth_append slice_append no_eol_def)
qed

lemmas rl_snoc = method_okf_snoc schema_okf_snoc uri_okf_snoc in_urif_snoc uri_okf_end in_urif_start
  uri_okf_schema uri_okf_schema [simplified]

lemma good_done:
  assumes "method_ok (r'\<lparr>seen := seen r @ [ch]\<rparr>)" "uri_ok (r'\<lparr>seen := seen r @ [ch]\<rparr>)"
    "http_major r' \<le> 999" "http_minor r' \<le> 999"
    "request_end r' = None \<or> (\<exists>e. request_end r' = Some e \<and> the (uri_end r') \<le> e \<and> e \<le> length (seen r))"
  shows "rl_good r ch (rl_done r' (length (seen r)))"
proof -
  have "the (uri_end r') \<le> length (seen r)" using assms(2) unfolding uri_ok_def uri_okf_def by auto
  then show ?thesis
    using assms by (auto simp: rl_done_def Let_def line_ok_def rl_okf http_codes ngx_codes)
qed

lemma good_uri_states:
  assumes "rl_inv r" "st r = sw_after_slash_in_uri \<or> st r = sw_check_uri \<or> st r = sw_uri"
  shows "rl_good r ch (rl_after_slash_in_uri r (length (seen r)) ch)"
    "rl_good r ch (rl_check_uri r (length (seen r)) ch)"
    "rl_good r ch (rl_uri r (length (seen r)) ch)"
proof -
  have inv: "method_ok r" "in_uri r" "http_major r \<le> 999" "http_minor r \<le> 999" "request_end r = None"
    using assms by (auto simp: rl_inv_def)
  note [simp] = rl_snoc inv(1) [unfolded rl_okf] inv(2) [unfolded rl_okf] inv(3-5) rl_okf rl_inv_def usual_iff
  show "rl_good r ch (rl_after_slash_in_uri r (length (seen r)) ch)"
    unfolding rl_after_slash_in_uri_def
    by (intro rl_good_if rl_good_bad good_done) (use assms(2) in auto)
  show "rl_good r ch (rl_check_uri r (length (seen r)) ch)"
    unfolding rl_check_uri_def
    by (intro rl_good_if rl_good_bad good_done) (use assms(2) in auto)
  show "rl_good r ch (rl_uri r (length (seen r)) ch)"
    unfolding rl_uri_def
    by (intro rl_good_if rl_good_bad good_done) (use assms(2) in auto)
qed

lemma rl_good_cong: "seen r = seen r2 \<Longrightarrow> rl_good r ch x = rl_good r2 ch x"
  by (cases x) auto

lemma rl_inv_space:
  "rl_inv r \<Longrightarrow> in_uri r \<Longrightarrow> method_ok r \<Longrightarrow> rl_inv (r\<lparr>space_in_uri := b, st := sw_check_uri\<rparr>)
    \<and> rl_inv (r\<lparr>space_in_uri := b, st := sw_uri\<rparr>)"
  by (simp add: rl_inv_def rl_okf)

lemma good_http_09:
  assumes inv: "rl_inv r" and s: "st r = sw_check_uri_http_09 \<or> st r = sw_http_09"
  shows "rl_good r ch (rl_check_uri_http_09 r (length (seen r)) ch)" "rl_good r ch (rl_http_09 r (length (seen r)) ch)"
proof -
  have i: "method_ok r" "uri_ok r" "in_uri r" "http_major r \<le> 999" "http_minor r \<le> 999" "request_end r = None"
    using inv s by (auto simp: rl_inv_def)
  let ?r1 = "r\<lparr>space_in_uri := True, st := sw_check_uri\<rparr>" and ?r2 = "r\<lparr>space_in_uri := True, st := sw_uri\<rparr>"
  have "rl_inv ?r1" "rl_inv ?r2" using rl_inv_space [OF inv i(3,1)] by blast+
  then have *: "rl_good r ch (rl_check_uri ?r1 (length (seen r)) ch)" "rl_good r ch (rl_uri ?r2 (length (seen r)) ch)"
    using good_uri_states(2) [of ?r1 ch] good_uri_states(3) [of ?r2 ch]
      rl_good_cong [of ?r1 r] rl_good_cong [of ?r2 r] by simp_all
  note [simp] = rl_snoc i(1) [unfolded rl_okf] i(2) [unfolded rl_okf] i(3) [unfolded rl_okf] i(4-6) rl_okf rl_inv_def
  show "rl_good r ch (rl_check_uri_http_09 r (length (seen r)) ch)"
    unfolding rl_check_uri_http_09_def
    by (intro rl_good_if rl_good_bad good_done *(1)) (use s in auto)
  show "rl_good r ch (rl_http_09 r (length (seen r)) ch)"
    unfolding rl_http_09_def
    by (intro rl_good_if rl_good_bad good_done *(2)) (use s in auto)
qed

lemma good_start: "rl_inv r \<Longrightarrow> st r = sw_start \<Longrightarrow> rl_good r ch (rl_start r (length (seen r)) ch)"
  unfolding rl_start_def Let_def
  by (intro rl_good_if rl_good_bad) (auto simp: rl_inv_def slice_def)

lemma good_method:
  assumes inv: "rl_inv r" and s: "st r = sw_method"
  shows "rl_good r ch (rl_method r (length (seen r)) ch)"
proof -
  obtain a where a: "request_start r = Some a" "a < length (seen r)" "r_method r = NGX_HTTP_UNKNOWN"
    "list_all is_token (slice (seen r) a (length (seen r)))"
    using inv s by (auto simp: rl_inv_def)
  have len: "Suc (length (seen r) - Suc 0) = length (seen r)" using a(2) by simp
  have b: "http_major r \<le> 999" "http_minor r \<le> 999" "request_end r = None" using inv by (simp_all add: rl_inv_def)
  have d: "drop a (seen r) = slice (seen r) a (length (seen r))" by (simp add: slice_def)
  show ?thesis
    unfolding rl_method_def Let_def
    by (intro rl_good_if rl_good_bad)
      (use s a b in \<open>auto simp: rl_inv_def rl_okf method_okf_def slice_append slice_snoc d len\<close>)
qed

lemma good_schema:
  assumes inv: "rl_inv r"
  shows "st r = sw_spaces_before_uri \<Longrightarrow> rl_good r ch (rl_spaces_before_uri r (length (seen r)) ch)"
    and "st r = sw_schema \<Longrightarrow> rl_good r ch (rl_schema r (length (seen r)) ch)"
    and "st r = sw_schema_slash \<Longrightarrow> rl_good r ch (rl_schema_slash r (length (seen r)) ch)"
    and "st r = sw_schema_slash_slash \<Longrightarrow> rl_good r ch (rl_schema_slash_slash r (length (seen r)) ch)"
proof -
  note [simp] = rl_snoc rl_okf rl_inv_def
  have b [simp]: "http_major r \<le> 999" "http_minor r \<le> 999" "request_end r = None" using inv by simp_all
  show "rl_good r ch (rl_spaces_before_uri r (length (seen r)) ch)" if s: "st r = sw_spaces_before_uri"
    unfolding rl_spaces_before_uri_def by (intro rl_good_if rl_good_bad) (use inv s in auto)
  show "rl_good r ch (rl_schema r (length (seen r)) ch)" if s: "st r = sw_schema"
  proof -
    have "the (method_end r) < length (seen r)" using inv s by (auto simp: method_okf_def)
    then show ?thesis unfolding rl_schema_def by (intro rl_good_if rl_good_bad) (use inv s in auto)
  qed
  show "rl_good r ch (rl_schema_slash r (length (seen r)) ch)" if s: "st r = sw_schema_slash"
  proof -
    obtain e where e: "schema_end r = Some e" "the (method_end r) < e" "e + 1 = length (seen r)"
      using inv s by auto
    then have "(seen r @ [ch]) ! (e + 1) = ch" by (simp add: nth_append)
    then show ?thesis
      unfolding rl_schema_slash_def by (intro rl_good_if rl_good_bad) (use inv s e in auto)
  qed
  show "rl_good r ch (rl_schema_slash_slash r (length (seen r)) ch)" if s: "st r = sw_schema_slash_slash"
    unfolding rl_schema_slash_slash_def
    by (intro rl_good_if rl_good_bad) (use inv s in \<open>auto simp: schema_okf_def nth_append\<close>)
qed

lemma good_host:
  assumes inv: "rl_inv r" and s: "st r \<in> {sw_host_start, sw_host, sw_host_end, sw_host_ip_literal, sw_port}"
  shows "rl_good r ch (rl_host_end r (length (seen r)) ch)"
    and "st r = sw_host \<Longrightarrow> rl_good r ch (rl_host r (length (seen r)) ch)"
    and "rl_good r ch (rl_host_ip_literal r (length (seen r)) ch)"
    and "rl_good r ch (rl_port r (length (seen r)) ch)"
proof -
  have i: "method_ok r" "schema_ok r" "http_major r \<le> 999" "http_minor r \<le> 999" "request_end r = None"
    using inv s by (auto simp: rl_inv_def)
  note [simp] = rl_snoc i(1) [unfolded rl_okf] i(2) [unfolded rl_okf] i(3-5) rl_okf rl_inv_def uri_from_schema_def
  have st [simp]: "in_urif (method_end r) (Some (length (seen r))) (seen r @ [47])"
    using in_urif_start i(1) [unfolded rl_okf] by blast
  show e: "rl_good r ch (rl_host_end r (length (seen r)) ch)"
    unfolding rl_host_end_def Let_def by (intro rl_good_if rl_good_bad) auto
  show "rl_good r ch (rl_host r (length (seen r)) ch)" if "st r = sw_host"
    unfolding rl_host_def by (intro rl_good_if e) (use that in auto)
  show "rl_good r ch (rl_host_ip_literal r (length (seen r)) ch)"
    unfolding rl_host_ip_literal_def by (intro rl_good_if rl_good_bad) (use s in auto)
  show "rl_good r ch (rl_port r (length (seen r)) ch)"
    unfolding rl_port_def by (intro rl_good_if rl_good_bad) (use s in auto)
qed

lemma good_host_start:
  assumes inv: "rl_inv r" and s: "st r = sw_host_start"
  shows "rl_good r ch (rl_host_start r (length (seen r)) ch)"
proof -
  let ?r = "r\<lparr>host_start := Some (length (seen r)), st := sw_host\<rparr>"
  have r: "rl_inv ?r" using inv s by (simp add: rl_inv_def rl_okf)
  then have "rl_good r ch (rl_host ?r (length (seen r)) ch)"
    using good_host(2) [of ?r ch] rl_good_cong [of ?r r] by simp
  then show ?thesis
    unfolding rl_host_start_def Let_def
    by (intro rl_good_if) (use inv s in \<open>auto simp: rl_inv_def rl_okf rl_snoc\<close>)
qed

lemma good_version:
  assumes inv: "rl_inv r"
    and s: "st r \<in> {sw_host_http_09, sw_http_H, sw_http_HT, sw_http_HTT, sw_http_HTTP, sw_first_major_digit,
      sw_major_digit, sw_first_minor_digit, sw_minor_digit, sw_spaces_after_digit, sw_almost_done}"
  shows "rl_good r ch (rl_host_http_09 r (length (seen r)) ch)"
    and "t \<in> {sw_http_HT, sw_http_HTT, sw_http_HTTP, sw_first_major_digit} \<Longrightarrow>
      rl_good r ch (rl_expect c t r (length (seen r)) ch)"
    and "rl_good r ch (rl_first_major_digit r (length (seen r)) ch)"
    and "rl_good r ch (rl_major_digit r (length (seen r)) ch)"
    and "rl_good r ch (rl_first_minor_digit r (length (seen r)) ch)"
    and "rl_good r ch (rl_minor_digit r (length (seen r)) ch)"
    and "rl_good r ch (rl_spaces_after_digit r (length (seen r)) ch)"
    and "rl_good r ch (rl_almost_done r (length (seen r)) ch)"
proof -
  have i: "method_ok r" "uri_ok r" "http_major r \<le> 999" "http_minor r \<le> 999" "request_end r = None"
    using inv s by (auto simp: rl_inv_def)
  note [simp] = rl_snoc i(1) [unfolded rl_okf] i(2) [unfolded rl_okf] i(3-5) rl_okf rl_inv_def
  have ue: "the (uri_end r) \<le> length (seen r) - 1" "length (seen r) - 1 \<le> length (seen r)"
    using i(2) by (auto simp: uri_okf_def)
  have dig: "unat ch - 48 \<le> 999" "v \<le> 99 \<Longrightarrow> v * 10 + unat ch - 48 \<le> 999" if "http_digit ch" for v
    using num_facts [OF that] by linarith+
  have first: "http_digit ch" if "\<not> (ch < chr CHR ''1'' \<or> ch > chr CHR ''9'')"
    using that by (auto simp: http_digit_def not_less intro: order_trans [of 48 49])
  show "rl_good r ch (rl_host_http_09 r (length (seen r)) ch)"
    unfolding rl_host_http_09_def by (intro rl_good_if rl_good_bad good_done) (use s in auto)
  show "rl_good r ch (rl_expect c t r (length (seen r)) ch)"
    if "t \<in> {sw_http_HT, sw_http_HTT, sw_http_HTTP, sw_first_major_digit}"
    unfolding rl_expect_def by (intro rl_good_if rl_good_bad) (use that in auto)
  show "rl_good r ch (rl_first_major_digit r (length (seen r)) ch)"
    unfolding rl_first_major_digit_def
    by (intro rl_good_if rl_good_bad) (use dig(1) [OF first] in \<open>simp add: not_less\<close>)
  show "rl_good r ch (rl_major_digit r (length (seen r)) ch)"
    unfolding rl_major_digit_def
    by (intro rl_good_if rl_good_bad) (use s dig(2) [of "http_major r"] in auto)
  show "rl_good r ch (rl_first_minor_digit r (length (seen r)) ch)"
    unfolding rl_first_minor_digit_def by (intro rl_good_if rl_good_bad) (use dig(1) in auto)
  show "rl_good r ch (rl_minor_digit r (length (seen r)) ch)"
    unfolding rl_minor_digit_def
    by (intro rl_good_if rl_good_bad good_done) (use s dig(2) [of "http_minor r"] in auto)
  show "rl_good r ch (rl_spaces_after_digit r (length (seen r)) ch)"
    unfolding rl_spaces_after_digit_def
    by (intro rl_good_if rl_good_bad good_done) (use s in auto)
  show "rl_good r ch (rl_almost_done r (length (seen r)) ch)"
    unfolding rl_almost_done_def Let_def
    by (intro rl_good_if rl_good_bad good_done) (use ue in auto)
qed

lemma rl_good_switch: "rl_inv r \<Longrightarrow> rl_good r ch (rl_switch r (length (seen r)) ch)"
  by (cases "st r")
    (simp_all add: rl_switch_def good_start good_method good_schema good_host_start good_host good_uri_states
      good_http_09 good_version)

lemma rl_step_inv: "rl_inv r \<Longrightarrow> rl_step r ch = Go r' \<Longrightarrow> rl_inv r'"
  using rl_good_switch [of r ch] by (auto simp: rl_step_def split: step_res.splits)

lemma rl_step_ok: "rl_inv r \<Longrightarrow> rl_step r ch = Stop (c, r') \<Longrightarrow> c = NGX_OK \<Longrightarrow> line_ok r'"
  using rl_good_switch [of r ch] by (auto simp: rl_step_def split: step_res.splits)

lemma rl_run_ok: "rl_inv r \<Longrightarrow> prun rl_step r b = Finished (NGX_OK, r') rest \<Longrightarrow> line_ok r'"
  using prun_finished_inv [of rl_inv rl_step "\<lambda>(c, r'). c = NGX_OK \<longrightarrow> line_ok r'" r b "(NGX_OK, r')" rest]
    rl_step_inv rl_step_ok by blast

lemma new_request_inv: "rl_inv new_request"
  by (simp add: rl_inv_def new_request_def)

subsection \<open>Properties\<close>

text \<open>
  C2: A well-formed request line is accepted and taken apart exactly: for empty lines, a
  method token, spaces, a URI (a slash and any bytes but space, CR, LF and NUL), spaces, a
  version with one to three digits on each side of the dot, trailing spaces and a line
  end, the parser returns \<open>NGX_OK\<close>, leaves what follows unread, and the method, URI and
  line offsets delimit these very parts; the method code is the one of the token and the
  version is 1000 times the major plus the minor number.
\<close>

theorem request_line_accepts:
  assumes "request_line_ok bl ms uri ma mi eol"
  shows "\<exists>r. ngx_http_parse_request_line new_request (request_line_text bl ms i uri j ma mi k eol @ rest) = (NGX_OK, r, rest)
    \<and> request_start r = Some (length bl) \<and> method_end r = Some (length bl + length ms - 1)
    \<and> slice (seen r) (length bl) (length bl + length ms) = ms
    \<and> r_method r = method_code ms NGX_HTTP_UNKNOWN
    \<and> (\<exists>u v. uri_start r = Some u \<and> uri_end r = Some v \<and> slice (seen r) u v = uri)
    \<and> request_end r = Some (length (request_line_text bl ms i uri j ma mi k eol) - length eol)
    \<and> http_version r = dig_val 0 ma * 1000 + dig_val 0 mi"
proof -
  obtain us where uri: "uri = chr CHR ''/'' # us" and us: "list_all uri_char us"
    using assms by (cases uri) (auto simp: request_line_ok_def)
  let ?r1 = "new_request\<lparr>seen := bl @ ms @ replicate (Suc i) 32 @ [chr CHR ''/''], st := sw_after_slash_in_uri,
      request_start := Some (length bl), method_end := Some (length bl + length ms - 1),
      r_method := method_code ms NGX_HTTP_UNKNOWN, uri_start := Some (length bl + length ms + Suc i)\<rparr>"
  have s1: "prun rl_step new_request (bl @ ms @ replicate (Suc i) 32 @ chr CHR ''/'' # ys) = prun rl_step ?r1 ys" for ys
    using assms by (intro run_line_start) (simp_all add: request_line_ok_def)
  have u1: "uri_state (st ?r1)" by (simp add: uri_state_def)
  define tl where "tl = replicate (Suc j) 32 @ str ''HTTP/'' @ ma @ chr CHR ''.'' # mi @ replicate k 32 @ eol"
  obtain r2 where r2: "prun rl_step ?r1 (us @ tl @ rest) = prun rl_step r2 (tl @ rest)" "uri_state (st r2)"
    "core r2 = core (?r1\<lparr>seen := seen ?r1 @ us\<rparr>)"
    using run_uri [OF u1 us] by blast
  note f = core_fields [OF r2(3)]
  obtain r' where r': "prun rl_step r2 (tl @ rest) = Finished (NGX_OK, r') rest"
    "seen r' = seen r2 @ tl" "request_start r' = request_start r2" "method_end r' = method_end r2"
    "r_method r' = r_method r2" "uri_start r' = uri_start r2" "uri_end r' = Some (length (seen r2))"
    "request_end r' = Some (length (seen r2) + length tl - length eol)"
    "http_version r' = dig_val 0 ma * 1000 + dig_val 0 mi"
    using run_line_end [OF r2(2), of ma mi eol j k rest] assms f(7)
    unfolding tl_def request_line_ok_def by (auto simp: new_request_def)
  have lay: "request_line_text bl ms i uri j ma mi k eol = bl @ ms @ replicate (Suc i) 32 @ uri @ tl"
    by (simp add: request_line_text_def tl_def)
  have "prun rl_step new_request (request_line_text bl ms i uri j ma mi k eol @ rest) = Finished (NGX_OK, r') rest"
    unfolding lay using uri s1 [of "us @ tl @ rest"] r2(1) r'(1) by simp
  then have "ngx_http_parse_request_line new_request (request_line_text bl ms i uri j ma mi k eol @ rest) = (NGX_OK, r', rest)"
    by (simp add: ngx_http_parse_request_line_def pcall_def)
  moreover have sr: "seen r' = bl @ ms @ replicate (Suc i) 32 @ uri @ tl"
    using r'(2) f(1) uri by simp
  moreover have "length (seen r2) = length bl + length ms + Suc i + length uri" using f(1) uri by simp
  ultimately show ?thesis
    using r'(3-9) f lay by (intro exI [of _ r']) (simp add: slice_def)
qed

theorem request_line_accepts_witness:
  "\<exists>r. ngx_http_parse_request_line new_request (str ''GET /a?b=c HTTP/1.1'' @ [13, 10] @ str ''Host'') = (NGX_OK, r, str ''Host'')
     \<and> r_method r = NGX_HTTP_GET \<and> http_version r = 1001"
proof -
  have ok: "request_line_ok [] (str ''GET'') (str ''/a?b=c'') (str ''1'') (str ''1'') [13, 10]"
    by (simp add: request_line_ok_def is_token_def uri_char_def http_digit_def)
  show ?thesis
    using request_line_accepts [OF ok, of 0 0 0 "str ''Host''"]
    by (simp add: request_line_text_def method_code_def) (auto simp: http_methods)
qed

text \<open>
  C7: Whatever the bytes, a line the parser accepts is sane: the offsets it leaves in the
  request are ordered (method, URI, line end) and inside the bytes read, the method is a
  token with its own code, the URI starts with a slash and holds no CR, LF or NUL, both
  version numbers have at most three digits, and a line without a version (HTTP/0.9) is
  accepted with the method GET only.
\<close>

theorem request_line_accepted_sane:
  assumes "ngx_http_parse_request_line new_request b = (NGX_OK, r, rest)"
  shows "b = seen r @ rest \<and> (\<exists>a m u v e.
      request_start r = Some a \<and> method_end r = Some m \<and> uri_start r = Some u \<and> uri_end r = Some v
    \<and> request_end r = Some e \<and> a \<le> m \<and> m < u \<and> u < v \<and> v \<le> e \<and> e < length (seen r)
    \<and> list_all is_token (slice (seen r) a (m + 1))
    \<and> r_method r = method_code (slice (seen r) a (m + 1)) NGX_HTTP_UNKNOWN
    \<and> seen r ! u = chr CHR ''/'' \<and> no_eol (slice (seen r) u v))
    \<and> http_major r \<le> 999 \<and> http_minor r \<le> 999 \<and> http_version r = http_major r * 1000 + http_minor r
    \<and> (http_version r = 9 \<longrightarrow> r_method r = NGX_HTTP_GET)"
proof -
  have run: "prun rl_step new_request b = Finished (NGX_OK, r) rest"
    using assms request_line.pcall_finished by (simp add: ngx_http_parse_request_line_def ngx_codes)
  then have "line_ok r" by (rule rl_run_ok [OF new_request_inv])
  moreover have "b = seen r @ rest" using request_line.finished_read [OF run] by (simp add: new_request_def)
  ultimately show ?thesis
    unfolding line_ok_def method_ok_def method_okf_def uri_ok_def uri_okf_def by auto
qed

theorem request_line_accepted_sane_witness:
  "\<exists>r. ngx_http_parse_request_line new_request (str ''GET /'' @ [10]) = (NGX_OK, r, []) \<and> http_minor r \<le> 999"
proof -
  obtain c r rest where p: "ngx_http_parse_request_line new_request (str ''GET /'' @ [10]) = (c, r, rest)"
    by (cases "ngx_http_parse_request_line new_request (str ''GET /'' @ [10])") auto
  then have "c = NGX_OK" "rest = []"
    by (simp_all add: ngx_http_parse_request_line_def pcall_def rl_step_def rl_switch_def rl_start_def rl_method_def
        rl_spaces_before_uri_def rl_after_slash_in_uri_def rl_done_def new_request_def is_token_def usual_iff
        method_code_def http_methods)
  then show ?thesis using request_line_accepted_sane [of "str ''GET /'' @ [10]" r rest] p by auto
qed

end
