(* ===== verification/Http_Header_Line.thy ===== *)
theory Http_Header_Line
  imports Http_Request_Line
begin

unbundle bit_operations_syntax

section \<open>Header lines (ngx_http_parse.c, ngx_http_parse_header_line)\<close>

text \<open>
  The state machine that reads one "Name: value" line, or the empty line that ends the
  header. The model is laid out as the one of the request line: offsets for pointers, one
  definition per \<open>case\<close>, \<open>hseen\<close> the bytes read so far. The local variables \<open>state\<close>,
  \<open>hash\<close> and \<open>i\<close> are the fields the function loads them from and stores them to (after
  the empty line the source does not store hash and index, which are then no longer used).
\<close>

subsection \<open>State\<close>

datatype hl_state = hsw_start | hsw_name | hsw_space_before_value | hsw_value | hsw_space_after_value
  | hsw_ignore_line | hsw_almost_done | hsw_header_almost_done

record header_parser =
  hst :: hl_state
  hseen :: bytes
  header_hash :: u64
  lowcase_index :: nat
  lowcase_header :: bytes
  header_name_start :: "nat option"
  header_name_end :: "nat option"
  header_start :: "nat option"
  header_end :: "nat option"
  invalid_header :: bool
  upstream :: bool

definition NGX_HTTP_PARSE_HEADER_DONE :: int where "NGX_HTTP_PARSE_HEADER_DONE = 1"
definition NGX_HTTP_PARSE_INVALID_HEADER :: int where "NGX_HTTP_PARSE_INVALID_HEADER = 13"
definition NGX_HTTP_LC_HEADER_LEN :: nat where "NGX_HTTP_LC_HEADER_LEN = 32"

lemmas header_codes = NGX_HTTP_PARSE_HEADER_DONE_def NGX_HTTP_PARSE_INVALID_HEADER_def

type_synonym hl_res = "(header_parser, int \<times> header_parser) step_res"

abbreviation hgo :: "header_parser \<Rightarrow> hl_state \<Rightarrow> hl_res" where
  "hgo r s \<equiv> Go (r\<lparr>hst := s\<rparr>)"

abbreviation hbad :: "header_parser \<Rightarrow> hl_res" where
  "hbad r \<equiv> Stop (NGX_HTTP_PARSE_INVALID_HEADER, r)"

text \<open>The table: letters to lower case, digits and the hyphen to themselves, the rest to 0.\<close>

definition lowcase :: bytes where
  "lowcase =
     replicate 32 0
     @ replicate 13 0 @ str ''-'' @ replicate 2 0 @ str ''0123456789'' @ replicate 6 0
     @ [0] @ str ''abcdefghijklmnopqrstuvwxyz'' @ replicate 5 0
     @ [0] @ str ''abcdefghijklmnopqrstuvwxyz'' @ replicate 5 0
     @ replicate 32 0 @ replicate 32 0 @ replicate 32 0 @ replicate 32 0"

definition ngx_hash :: "u64 \<Rightarrow> byte \<Rightarrow> u64" where
  "ngx_hash key c = key * 31 + ucast c"

subsection \<open>One definition per state\<close>

definition hl_done :: "header_parser \<Rightarrow> hl_res" where
  "hl_done r = Stop (NGX_OK, r\<lparr>hst := hsw_start\<rparr>)"

definition hl_header_done :: "header_parser \<Rightarrow> hl_res" where
  "hl_header_done r = Stop (NGX_HTTP_PARSE_HEADER_DONE, r\<lparr>hst := hsw_start\<rparr>)"

definition hl_start :: "bool \<Rightarrow> header_parser \<Rightarrow> nat \<Rightarrow> byte \<Rightarrow> hl_res" where
  "hl_start allow_underscores r p ch =
     (let r = r\<lparr>header_name_start := Some p, invalid_header := False\<rparr>
      in if ch = CR then hgo (r\<lparr>header_end := Some p\<rparr>) hsw_header_almost_done
         else if ch = LF then hl_header_done (r\<lparr>header_end := Some p\<rparr>)
         else
           let r = r\<lparr>hst := hsw_name\<rparr>; c = lowcase ! unat ch
           in if c \<noteq> 0 then
                Go (r\<lparr>header_hash := ngx_hash 0 c, lowcase_header := (lowcase_header r)[0 := c], lowcase_index := 1\<rparr>)
              else if ch = chr CHR ''_'' then
                if allow_underscores then
                  Go (r\<lparr>header_hash := ngx_hash 0 ch, lowcase_header := (lowcase_header r)[0 := ch], lowcase_index := 1\<rparr>)
                else Go (r\<lparr>invalid_header := True\<rparr>)
              else if ch = 0 then hbad r
              else Go (r\<lparr>invalid_header := True\<rparr>))"

text \<open>\<open>hash = ngx_hash(hash, c); r->lowcase_header[i++] = c; i &= (NGX_HTTP_LC_HEADER_LEN - 1)\<close>\<close>

definition name_char :: "header_parser \<Rightarrow> byte \<Rightarrow> header_parser" where
  "name_char r c =
     r\<lparr>header_hash := ngx_hash (header_hash r) c,
       lowcase_header := (lowcase_header r)[lowcase_index r := c],
       lowcase_index := (lowcase_index r + 1) AND (NGX_HTTP_LC_HEADER_LEN - 1)\<rparr>"

definition hl_name :: "bool \<Rightarrow> header_parser \<Rightarrow> nat \<Rightarrow> byte \<Rightarrow> hl_res" where
  "hl_name allow_underscores r p ch =
     (let c = lowcase ! unat ch in
      if c \<noteq> 0 then Go (name_char r c)
      else if ch = chr CHR ''_'' then
        if allow_underscores then Go (name_char r ch) else Go (r\<lparr>invalid_header := True\<rparr>)
      else if ch = chr CHR '':'' then hgo (r\<lparr>header_name_end := Some p\<rparr>) hsw_space_before_value
      else if ch = CR then
        hgo (r\<lparr>header_name_end := Some p, header_start := Some p, header_end := Some p\<rparr>) hsw_almost_done
      else if ch = LF then
        hl_done (r\<lparr>header_name_end := Some p, header_start := Some p, header_end := Some p\<rparr>)
      else if ch = chr CHR ''/'' \<and> upstream r \<and> p - the (header_name_start r) = 4
          \<and> slice (hseen r) (the (header_name_start r)) p = str ''HTTP'' then hgo r hsw_ignore_line
      else if ch = 0 then hbad r
      else Go (r\<lparr>invalid_header := True\<rparr>))"

definition hl_space_before_value :: "header_parser \<Rightarrow> nat \<Rightarrow> byte \<Rightarrow> hl_res" where
  "hl_space_before_value r p ch =
     (if ch = chr CHR '' '' then Go r
      else if ch = CR then hgo (r\<lparr>header_start := Some p, header_end := Some p\<rparr>) hsw_almost_done
      else if ch = LF then hl_done (r\<lparr>header_start := Some p, header_end := Some p\<rparr>)
      else if ch = 0 then hbad r
      else hgo (r\<lparr>header_start := Some p\<rparr>) hsw_value)"

definition hl_value :: "header_parser \<Rightarrow> nat \<Rightarrow> byte \<Rightarrow> hl_res" where
  "hl_value r p ch =
     (if ch = chr CHR '' '' then hgo (r\<lparr>header_end := Some p\<rparr>) hsw_space_after_value
      else if ch = CR then hgo (r\<lparr>header_end := Some p\<rparr>) hsw_almost_done
      else if ch = LF then hl_done (r\<lparr>header_end := Some p\<rparr>)
      else if ch = 0 then hbad r
      else Go r)"

definition hl_space_after_value :: "header_parser \<Rightarrow> nat \<Rightarrow> byte \<Rightarrow> hl_res" where
  "hl_space_after_value r p ch =
     (if ch = chr CHR '' '' then Go r
      else if ch = CR then hgo r hsw_almost_done
      else if ch = LF then hl_done r
      else if ch = 0 then hbad r
      else hgo r hsw_value)"

definition hl_ignore_line :: "header_parser \<Rightarrow> nat \<Rightarrow> byte \<Rightarrow> hl_res" where
  "hl_ignore_line r p ch = (if ch = LF then hgo r hsw_start else Go r)"

definition hl_almost_done :: "header_parser \<Rightarrow> nat \<Rightarrow> byte \<Rightarrow> hl_res" where
  "hl_almost_done r p ch =
     (if ch = LF then hl_done r else if ch = CR then Go r else hbad r)"

definition hl_header_almost_done :: "header_parser \<Rightarrow> nat \<Rightarrow> byte \<Rightarrow> hl_res" where
  "hl_header_almost_done r p ch = (if ch = LF then hl_header_done r else hbad r)"

subsection \<open>The loop\<close>

definition hl_switch :: "bool \<Rightarrow> header_parser \<Rightarrow> nat \<Rightarrow> byte \<Rightarrow> hl_res" where
  "hl_switch allow_underscores r p ch =
     (case hst r of
        hsw_start \<Rightarrow> hl_start allow_underscores r p ch
      | hsw_name \<Rightarrow> hl_name allow_underscores r p ch
      | hsw_space_before_value \<Rightarrow> hl_space_before_value r p ch
      | hsw_value \<Rightarrow> hl_value r p ch
      | hsw_space_after_value \<Rightarrow> hl_space_after_value r p ch
      | hsw_ignore_line \<Rightarrow> hl_ignore_line r p ch
      | hsw_almost_done \<Rightarrow> hl_almost_done r p ch
      | hsw_header_almost_done \<Rightarrow> hl_header_almost_done r p ch)"

definition hl_step :: "bool \<Rightarrow> header_parser \<Rightarrow> byte \<Rightarrow> hl_res" where
  "hl_step allow_underscores r ch =
     (case hl_switch allow_underscores r (length (hseen r)) ch of
        Go r' \<Rightarrow> Go (r'\<lparr>hseen := hseen r @ [ch]\<rparr>)
      | Stop (c, r') \<Rightarrow> Stop (c, r'\<lparr>hseen := hseen r @ [ch]\<rparr>))"

text \<open>
  The returns: \<open>NGX_AGAIN\<close> and \<open>NGX_OK\<close> store the state, the hash, the index and \<open>b->pos\<close>, the end
  of the header stores the state and \<open>b->pos\<close>, and an error stores nothing.
\<close>

definition hl_moves :: "int \<Rightarrow> bool" where
  "hl_moves c \<longleftrightarrow> c = NGX_AGAIN \<or> c = NGX_OK \<or> c = NGX_HTTP_PARSE_HEADER_DONE"

definition hl_keep :: "int \<Rightarrow> header_parser \<Rightarrow> header_parser \<Rightarrow> header_parser" where
  "hl_keep c r r' =
     (if c = NGX_AGAIN \<or> c = NGX_OK then r'
      else if c = NGX_HTTP_PARSE_HEADER_DONE
      then r'\<lparr>header_hash := header_hash r, lowcase_index := lowcase_index r\<rparr>
      else r'\<lparr>hst := hst r, hseen := hseen r, header_hash := header_hash r, lowcase_index := lowcase_index r\<rparr>)"

lemma hl_keep_simps [simp]:
  "hl_moves NGX_OK" "hl_moves NGX_AGAIN" "hl_keep NGX_OK r r' = r'" "hl_keep NGX_AGAIN r r' = r'"
  by (simp_all add: hl_moves_def hl_keep_def)

definition ngx_http_parse_header_line :: "bool \<Rightarrow> header_parser \<Rightarrow> bytes \<Rightarrow> int \<times> header_parser \<times> bytes" where
  "ngx_http_parse_header_line allow_underscores r b = pcall (hl_step allow_underscores) hl_moves hl_keep r b"

text \<open>The request before its first header line.\<close>

definition new_header :: "bool \<Rightarrow> header_parser" where
  "new_header up = \<lparr>hst = hsw_start, hseen = [], header_hash = 0, lowcase_index = 0,
     lowcase_header = replicate 32 0, header_name_start = None, header_name_end = None,
     header_start = None, header_end = None, invalid_header = False, upstream = up\<rparr>"

lemmas hl_defs = hl_start_def hl_name_def hl_space_before_value_def hl_value_def hl_space_after_value_def
  hl_ignore_line_def hl_almost_done_def hl_header_almost_done_def hl_done_def hl_header_done_def

lemma hl_step_final: "hl_step a r ch = Stop (c, r') \<Longrightarrow> c \<noteq> NGX_AGAIN"
  by (auto simp: hl_step_def hl_switch_def hl_defs header_codes ngx_codes Let_def
      split: step_res.splits hl_state.splits if_splits)

interpretation header_line: resumable "hl_step a" hl_moves hl_keep hseen
  by unfold_locales (auto simp: hl_step_final hl_moves_def hl_keep_def, auto simp: hl_step_def split: step_res.splits)

text \<open>The table agrees with the letters, digits and hyphen.\<close>

definition lower :: "byte \<Rightarrow> byte" where
  "lower ch = (if 65 \<le> ch \<and> ch \<le> 90 then ch + 32 else ch)"

definition name_byte :: "byte \<Rightarrow> bool" where
  "name_byte ch \<longleftrightarrow> 65 \<le> ch \<and> ch \<le> 90 \<or> 97 \<le> ch \<and> ch \<le> 122 \<or> 48 \<le> ch \<and> ch \<le> 57 \<or> ch = 45"

lemma lowcase_explicit: "lowcase =
    [0, 0, 0, 0, 0, 0, 0, 0, 0, 0, 0, 0, 0, 0, 0, 0, 0, 0, 0, 0, 0, 0, 0, 0, 0, 0, 0, 0, 0, 0, 0, 0,
     0, 0, 0, 0, 0, 0, 0, 0, 0, 0, 0, 0, 0, 45, 0, 0, 48, 49, 50, 51, 52, 53, 54, 55, 56, 57, 0, 0, 0, 0, 0, 0,
     0, 97, 98, 99, 100, 101, 102, 103, 104, 105, 106, 107, 108, 109, 110, 111, 112, 113, 114, 115, 116, 117, 118, 119, 120, 121, 122, 0, 0, 0, 0, 0,
     0, 97, 98, 99, 100, 101, 102, 103, 104, 105, 106, 107, 108, 109, 110, 111, 112, 113, 114, 115, 116, 117, 118, 119, 120, 121, 122, 0, 0, 0, 0, 0,
     0, 0, 0, 0, 0, 0, 0, 0, 0, 0, 0, 0, 0, 0, 0, 0, 0, 0, 0, 0, 0, 0, 0, 0, 0, 0, 0, 0, 0, 0, 0, 0,
     0, 0, 0, 0, 0, 0, 0, 0, 0, 0, 0, 0, 0, 0, 0, 0, 0, 0, 0, 0, 0, 0, 0, 0, 0, 0, 0, 0, 0, 0, 0, 0,
     0, 0, 0, 0, 0, 0, 0, 0, 0, 0, 0, 0, 0, 0, 0, 0, 0, 0, 0, 0, 0, 0, 0, 0, 0, 0, 0, 0, 0, 0, 0, 0,
     0, 0, 0, 0, 0, 0, 0, 0, 0, 0, 0, 0, 0, 0, 0, 0, 0, 0, 0, 0, 0, 0, 0, 0, 0, 0, 0, 0, 0, 0, 0, 0]"
  by code_simp

lemma lowcase_byte: "lowcase ! unat ch = (if name_byte ch then lower ch else 0)"
proof -
  have "lowcase = map (\<lambda>ch. if name_byte ch then lower ch else 0) all_bytes"
    unfolding all_bytes_list lowcase_explicit
    by (simp add: name_byte_def lower_def) (simp add: word_le_nat_alt)
  moreover have "all_bytes ! unat ch = ch" "unat ch < length all_bytes"
    by (simp_all add: all_bytes_def)
  ultimately show ?thesis
    using nth_map [of "unat ch" all_bytes "\<lambda>ch. if name_byte ch then lower ch else 0"] by (simp only:)
qed

lemma name_byte_facts:
  assumes "name_byte ch"
  shows "lower ch \<noteq> 0" "ch \<noteq> 13" "ch \<noteq> 10" "ch \<noteq> 58" "ch \<noteq> 0"
proof -
  have "65 \<le> unat ch \<and> unat ch \<le> 90 \<or> 97 \<le> unat ch \<and> unat ch \<le> 122 \<or> 48 \<le> unat ch \<and> unat ch \<le> 57 \<or> unat ch = 45"
    using assms by (auto simp: name_byte_def word_le_nat_alt)
  then show ne: "ch \<noteq> 13" "ch \<noteq> 10" "ch \<noteq> 58" "ch \<noteq> 0" by auto
  show "lower ch \<noteq> 0"
  proof (cases "65 \<le> ch \<and> ch \<le> 90")
    case True
    then have "unat ch + unat (32 :: byte) < 2 ^ LENGTH(8)" by (simp add: word_le_nat_alt)
    then have "unat (ch + 32) = unat ch + unat (32 :: byte)" by (simp only: unat_add_lem)
    then show ?thesis using True by (auto simp: lower_def)
  next
    case False
    then show ?thesis using ne by (auto simp: lower_def)
  qed
qed

subsection \<open>Lemmas: what an accepted line looks like\<close>

definition name_okf :: "nat option \<Rightarrow> nat option \<Rightarrow> bytes \<Rightarrow> bool" where
  "name_okf a b bs \<longleftrightarrow> (\<exists>x y. a = Some x \<and> b = Some y \<and> x < y \<and> y < length bs \<and> no_eol (slice bs x y))"

definition value_okf :: "nat option \<Rightarrow> nat option \<Rightarrow> nat option \<Rightarrow> bytes \<Rightarrow> bool" where
  "value_okf b c d bs \<longleftrightarrow> (\<exists>x y. c = Some x \<and> d = Some y \<and> the b \<le> x \<and> x \<le> y \<and> y < length bs \<and> no_eol (slice bs x y))"

definition in_partf :: "nat option \<Rightarrow> bytes \<Rightarrow> bool" where
  "in_partf a bs \<longleftrightarrow> (\<exists>x. a = Some x \<and> x < length bs \<and> no_eol (slice bs x (length bs)))"

definition hline_ok :: "header_parser \<Rightarrow> bool" where
  "hline_ok r \<longleftrightarrow> name_okf (header_name_start r) (header_name_end r) (hseen r)
     \<and> value_okf (header_name_end r) (header_start r) (header_end r) (hseen r)"

definition hl_inv :: "header_parser \<Rightarrow> bool" where
  "hl_inv r \<longleftrightarrow> lowcase_index r < 32 \<and> length (lowcase_header r) = 32 \<and>
     (case hst r of
        hsw_name \<Rightarrow> in_partf (header_name_start r) (hseen r)
      | hsw_space_before_value \<Rightarrow> name_okf (header_name_start r) (header_name_end r) (hseen r)
      | hsw_value \<Rightarrow> name_okf (header_name_start r) (header_name_end r) (hseen r)
          \<and> in_partf (header_start r) (hseen r) \<and> the (header_name_end r) \<le> the (header_start r)
      | hsw_space_after_value \<Rightarrow> hline_ok r \<and> in_partf (header_start r) (hseen r)
      | hsw_almost_done \<Rightarrow> hline_ok r
      | _ \<Rightarrow> True)"

definition hl_good :: "header_parser \<Rightarrow> byte \<Rightarrow> hl_res \<Rightarrow> bool" where
  "hl_good r ch x = (case x of
      Go r' \<Rightarrow> hl_inv (r'\<lparr>hseen := hseen r @ [ch]\<rparr>)
    | Stop (c, r') \<Rightarrow> lowcase_index r' < 32 \<and> length (lowcase_header r') = 32
        \<and> (c = NGX_OK \<longrightarrow> hline_ok (r'\<lparr>hseen := hseen r @ [ch]\<rparr>)))"

lemma hl_good_simps [simp]:
  "hl_good r ch (Go r') \<longleftrightarrow> hl_inv (r'\<lparr>hseen := hseen r @ [ch]\<rparr>)"
  "hl_good r ch (Stop (c, r')) \<longleftrightarrow> lowcase_index r' < 32 \<and> length (lowcase_header r') = 32
     \<and> (c = NGX_OK \<longrightarrow> hline_ok (r'\<lparr>hseen := hseen r @ [ch]\<rparr>))"
  by (simp_all add: hl_good_def)

lemma hl_good_if: "(b \<Longrightarrow> hl_good r ch x) \<Longrightarrow> (\<not> b \<Longrightarrow> hl_good r ch y) \<Longrightarrow> hl_good r ch (if b then x else y)"
  by simp

lemma header_codes_neq [simp]: "NGX_HTTP_PARSE_INVALID_HEADER \<noteq> NGX_OK" "NGX_HTTP_PARSE_HEADER_DONE \<noteq> NGX_OK"
  by (simp_all add: header_codes ngx_codes)

lemma name_okf_snoc [simp]: "name_okf a b bs \<Longrightarrow> name_okf a b (bs @ [c])"
  unfolding name_okf_def by (force simp: slice_append)

lemma value_okf_snoc [simp]: "value_okf b c d bs \<Longrightarrow> value_okf b c d (bs @ [x])"
  unfolding value_okf_def by (force simp: slice_append)

lemma in_partf_snoc [simp]: "in_partf a bs \<Longrightarrow> c \<noteq> CR \<Longrightarrow> c \<noteq> LF \<Longrightarrow> c \<noteq> 0 \<Longrightarrow> in_partf a (bs @ [c])"
  unfolding in_partf_def by (auto simp: slice_snoc no_eol_def)

lemma in_partf_start [simp]: "c \<noteq> CR \<Longrightarrow> c \<noteq> LF \<Longrightarrow> c \<noteq> 0 \<Longrightarrow> in_partf (Some (length bs)) (bs @ [c])"
  unfolding in_partf_def by (auto simp: slice_def no_eol_def)

lemma name_okf_end [simp]: "in_partf a bs \<Longrightarrow> name_okf a (Some (length bs)) (bs @ [c])"
  unfolding in_partf_def name_okf_def by (auto simp: slice_append)

lemma value_okf_end [simp]: "in_partf c bs \<Longrightarrow> the b \<le> the c \<Longrightarrow> value_okf b c (Some (length bs)) (bs @ [x])"
  unfolding in_partf_def value_okf_def by (auto simp: slice_append)

lemma value_okf_empty [simp]:
  "name_okf a b bs \<Longrightarrow> value_okf b (Some (length bs)) (Some (length bs)) (bs @ [x])"
  "value_okf (Some (length bs)) (Some (length bs)) (Some (length bs)) (bs @ [x])"
  unfolding name_okf_def value_okf_def by (auto simp: slice_def no_eol_def)

lemma name_okf_less: "name_okf a b bs \<Longrightarrow> the b \<le> length bs"
  unfolding name_okf_def by auto

lemma value_okf_le: "value_okf b c d bs \<Longrightarrow> the b \<le> the c"
  unfolding value_okf_def by auto

lemma name_char_mod: "n AND (NGX_HTTP_LC_HEADER_LEN - 1) = n mod 32"
proof -
  have "NGX_HTTP_LC_HEADER_LEN - 1 = mask 5" by (simp add: NGX_HTTP_LC_HEADER_LEN_def mask_eq_exp_minus_1)
  then have "n AND (NGX_HTTP_LC_HEADER_LEN - 1) = take_bit 5 n" by (simp only: take_bit_eq_mask)
  then show ?thesis by (simp add: take_bit_eq_mod)
qed

lemma name_char_index: "(i + 1) AND (NGX_HTTP_LC_HEADER_LEN - 1) < 32"
  unfolding name_char_mod by simp

lemma hl_good_switch:
  assumes inv: "hl_inv r"
  shows "hl_good r ch (hl_switch a r (length (hseen r)) ch)"
proof -
  have b [simp]: "lowcase_index r < 32" "length (lowcase_header r) = 32" using inv by (simp_all add: hl_inv_def)
  note [simp] = hl_inv_def hline_ok_def hl_done_def hl_header_done_def name_char_def
    name_char_index [unfolded One_nat_def, simplified]
  show ?thesis
  proof (cases "hst r")
    case hsw_start
    then show ?thesis
      by (auto simp: hl_switch_def hl_start_def Let_def lowcase_byte dest: name_byte_facts)
  next
    case hsw_name
    then show ?thesis
      using inv by (auto simp: hl_switch_def hl_name_def Let_def lowcase_byte dest: name_byte_facts)
  next
    case hsw_space_before_value
    then show ?thesis
      using inv name_okf_less by (auto simp: hl_switch_def hl_space_before_value_def)
  next
    case hsw_value
    then show ?thesis using inv by (auto simp: hl_switch_def hl_value_def)
  next
    case hsw_space_after_value
    then show ?thesis
      using inv value_okf_le by (auto simp: hl_switch_def hl_space_after_value_def)
  next
    case hsw_ignore_line
    then show ?thesis by (auto simp: hl_switch_def hl_ignore_line_def)
  next
    case hsw_almost_done
    then show ?thesis using inv by (auto simp: hl_switch_def hl_almost_done_def)
  next
    case hsw_header_almost_done
    then show ?thesis by (auto simp: hl_switch_def hl_header_almost_done_def)
  qed
qed

lemma hl_step_inv: "hl_inv r \<Longrightarrow> hl_step a r ch = Go r' \<Longrightarrow> hl_inv r'"
  using hl_good_switch [of r ch a] by (auto simp: hl_step_def split: step_res.splits)

definition hl_result_ok :: "int \<times> header_parser \<Rightarrow> bool" where
  "hl_result_ok = (\<lambda>(c, r). lowcase_index r < 32 \<and> length (lowcase_header r) = 32 \<and> (c = NGX_OK \<longrightarrow> hline_ok r))"

lemma hl_step_ok: "hl_inv r \<Longrightarrow> hl_step a r ch = Stop x \<Longrightarrow> hl_result_ok x"
  using hl_good_switch [of r ch a] by (auto simp: hl_step_def hl_result_ok_def split: step_res.splits)

lemma hl_run_ok: "hl_inv r \<Longrightarrow> prun (hl_step a) r b = Finished x rest \<Longrightarrow> hl_result_ok x"
  using prun_finished_inv [of hl_inv "hl_step a" hl_result_ok r b x rest] hl_step_inv hl_step_ok by blast

lemma new_header_inv: "hl_inv (new_header up)"
  by (simp add: hl_inv_def new_header_def)

subsection \<open>Lemmas: well-formed lines\<close>

lemma name_char_hseen: "name_char (x\<lparr>hseen := y\<rparr>) c = (name_char x c)\<lparr>hseen := y\<rparr>"
  by (cases x) (simp add: name_char_def)

lemma foldl_name_char_hseen: "foldl name_char (x\<lparr>hseen := y\<rparr>) zs = (foldl name_char x zs)\<lparr>hseen := y\<rparr>"
  by (induction zs arbitrary: x) (simp_all add: name_char_hseen)

lemma run_hname:
  assumes "hst r = hsw_name" "list_all name_byte ns"
  shows "prun (hl_step a) r (ns @ bs) =
    prun (hl_step a) ((foldl name_char r (map lower ns))\<lparr>hseen := hseen r @ ns\<rparr>) bs"
  using assms
proof (induction ns arbitrary: r)
  case (Cons c ns)
  have "hl_step a r c = Go ((name_char r (lower c))\<lparr>hseen := hseen r @ [c]\<rparr>)"
    using Cons.prems name_byte_facts [of c] by (simp add: hl_step_def hl_switch_def hl_name_def lowcase_byte)
  moreover have "hst (name_char r (lower c)) = hsw_name" using Cons.prems by (simp add: name_char_def)
  ultimately show ?case
    using Cons.IH [of "(name_char r (lower c))\<lparr>hseen := hseen r @ [c]\<rparr>"] Cons.prems
    by (simp add: foldl_name_char_hseen)
qed simp

lemma foldl_name_char_frame:
  "hst (foldl name_char r cs) = hst r" "hseen (foldl name_char r cs) = hseen r"
  "header_name_start (foldl name_char r cs) = header_name_start r"
  "invalid_header (foldl name_char r cs) = invalid_header r"
  "header_hash (foldl name_char r cs) = foldl ngx_hash (header_hash r) cs"
  by (induction cs arbitrary: r) (simp_all add: name_char_def)

lemma name_char_small: "i < 31 \<Longrightarrow> (i + 1) AND (NGX_HTTP_LC_HEADER_LEN - 1) = i + 1"
  unfolding name_char_mod by simp

lemma foldl_name_char_copy:
  assumes "lowcase_index r + length cs < 32" "length (lowcase_header r) = 32"
  shows "lowcase_index (foldl name_char r cs) = lowcase_index r + length cs
    \<and> take (lowcase_index r + length cs) (lowcase_header (foldl name_char r cs)) = take (lowcase_index r) (lowcase_header r) @ cs"
  using assms
proof (induction cs arbitrary: r)
  case (Cons c cs)
  have i: "lowcase_index (name_char r c) = lowcase_index r + 1"
    using Cons.prems name_char_small [of "lowcase_index r"] by (simp add: name_char_def)
  have "take (lowcase_index r + 1) (lowcase_header (name_char r c)) = take (lowcase_index r) (lowcase_header r) @ [c]"
    using Cons.prems by (simp add: name_char_def take_Suc_conv_app_nth)
  then show ?case using Cons.IH [of "name_char r c"] Cons.prems i by (simp add: name_char_def)
qed simp

definition hcore :: "header_parser \<Rightarrow> header_parser" where
  "hcore r = r\<lparr>hst := hsw_start, header_end := None\<rparr>"

lemma value_step:
  assumes "hst r = hsw_value \<or> hst r = hsw_space_after_value" "c \<noteq> CR" "c \<noteq> LF" "c \<noteq> 0"
  shows "\<exists>r'. hl_step a r c = Go r' \<and> hcore r' = hcore (r\<lparr>hseen := hseen r @ [c]\<rparr>)
    \<and> hst r' = (if c = 32 then hsw_space_after_value else hsw_value)"
  using assms by (cases r) (auto simp: hl_step_def hl_switch_def hl_value_def hl_space_after_value_def hcore_def)

lemma run_value:
  assumes "hst r = hsw_value \<or> hst r = hsw_space_after_value" "no_eol vs" "vs \<noteq> []"
  shows "\<exists>r'. prun (hl_step a) r (vs @ bs) = prun (hl_step a) r' bs \<and> hcore r' = hcore (r\<lparr>hseen := hseen r @ vs\<rparr>)
    \<and> hst r' = (if last vs = 32 then hsw_space_after_value else hsw_value)"
  using assms
proof (induction vs arbitrary: r)
  case (Cons c vs)
  obtain r1 where r1: "hl_step a r c = Go r1" "hcore r1 = hcore (r\<lparr>hseen := hseen r @ [c]\<rparr>)"
    "hst r1 = (if c = 32 then hsw_space_after_value else hsw_value)"
    using value_step [of r c a] Cons.prems by (auto simp: no_eol_def)
  show ?case
  proof (cases "vs = []")
    case True
    then show ?thesis using r1 by auto
  next
    case False
    have st1: "hst r1 = hsw_value \<or> hst r1 = hsw_space_after_value" by (simp add: r1(3))
    obtain r2 where r2: "prun (hl_step a) r1 (vs @ bs) = prun (hl_step a) r2 bs"
      "hcore r2 = hcore (r1\<lparr>hseen := hseen r1 @ vs\<rparr>)"
      "hst r2 = (if last vs = 32 then hsw_space_after_value else hsw_value)"
      using Cons.IH [of r1, OF st1] Cons.prems False by (auto simp: no_eol_def)
    have sn: "hseen r1 = hseen r @ [c]" using arg_cong [OF r1(2), of hseen] by (simp add: hcore_def)
    have "hcore (r1\<lparr>hseen := hseen r1 @ vs\<rparr>) = (hcore r1)\<lparr>hseen := hseen r1 @ vs\<rparr>" by (simp add: hcore_def)
    also have "\<dots> = hcore (r\<lparr>hseen := hseen r @ c # vs\<rparr>)" unfolding r1(2) sn by (simp add: hcore_def)
    finally show ?thesis using r1(1) r2 False by auto
  qed
qed simp

lemma run_hspaces:
  assumes "hst r = hsw_space_before_value \<or> hst r = hsw_space_after_value"
  shows "prun (hl_step a) r (replicate k 32 @ bs) = prun (hl_step a) (r\<lparr>hseen := hseen r @ replicate k 32\<rparr>) bs"
  using assms
proof (induction k arbitrary: r)
  case (Suc k)
  have "hl_step a r 32 = Go (r\<lparr>hseen := hseen r @ [32]\<rparr>)"
    using Suc.prems by (auto simp: hl_step_def hl_switch_def hl_space_before_value_def hl_space_after_value_def)
  then show ?case using Suc.IH [of "r\<lparr>hseen := hseen r @ [32]\<rparr>"] Suc.prems by simp
qed simp

text \<open>The end of a line after a value that does not end in a space.\<close>

lemma run_hend:
  assumes "hst r = hsw_value" "eol = [CR, LF] \<or> eol = [LF]"
  shows "prun (hl_step a) r (replicate k 32 @ eol @ bs) = Finished (NGX_OK, r\<lparr>hseen := hseen r @ replicate k 32 @ eol,
    header_end := Some (length (hseen r)), hst := hsw_start\<rparr>) bs"
proof (cases k)
  case 0
  then show ?thesis
    using assms by (cases r) (auto simp: hl_step_def hl_switch_def hl_value_def hl_almost_done_def hl_done_def)
next
  case (Suc j)
  let ?r = "r\<lparr>hseen := hseen r @ [32], hst := hsw_space_after_value, header_end := Some (length (hseen r))\<rparr>"
  have s1: "hl_step a r 32 = Go ?r"
    using assms(1) by (cases r) (simp add: hl_step_def hl_switch_def hl_value_def)
  have s2: "prun (hl_step a) ?r (replicate j 32 @ eol @ bs) =
      prun (hl_step a) (?r\<lparr>hseen := hseen ?r @ replicate j 32\<rparr>) (eol @ bs)"
    by (rule run_hspaces) simp
  show ?thesis
    using s1 s2 assms(2) Suc
    by (cases r) (auto simp: hl_step_def hl_switch_def hl_space_after_value_def hl_almost_done_def hl_done_def)
qed

definition header_line_text :: "bytes \<Rightarrow> nat \<Rightarrow> bytes \<Rightarrow> nat \<Rightarrow> bytes \<Rightarrow> bytes" where
  "header_line_text ns i vs k eol = ns @ [chr CHR '':''] @ replicate i 32 @ vs @ replicate k 32 @ eol"

definition header_line_ok :: "bytes \<Rightarrow> bytes \<Rightarrow> bytes \<Rightarrow> bool" where
  "header_line_ok ns vs eol \<longleftrightarrow> ns \<noteq> [] \<and> list_all name_byte ns
     \<and> vs \<noteq> [] \<and> no_eol vs \<and> hd vs \<noteq> 32 \<and> last vs \<noteq> 32 \<and> (eol = [CR, LF] \<or> eol = [LF])"

lemma hl_step_colon:
  assumes "hst r = hsw_name"
  shows "hl_step a r 58 = Go (r\<lparr>header_name_end := Some (length (hseen r)), hst := hsw_space_before_value,
    hseen := hseen r @ [58]\<rparr>)"
proof -
  have "lowcase ! 58 = 0" using lowcase_byte [of 58] by (simp add: name_byte_def word_le_nat_alt)
  then show ?thesis using assms by (simp add: hl_step_def hl_switch_def hl_name_def)
qed

lemma run_header_name:
  assumes "hst r = hsw_start" "ns \<noteq> []" "list_all name_byte ns" "length (lowcase_header r) = 32"
  shows "\<exists>r'. (\<forall>bs. prun (hl_step a) r (ns @ chr CHR '':'' # bs) = prun (hl_step a) r' bs)
    \<and> hst r' = hsw_space_before_value \<and> hseen r' = hseen r @ ns @ [chr CHR '':'']
    \<and> header_name_start r' = Some (length (hseen r)) \<and> header_name_end r' = Some (length (hseen r) + length ns)
    \<and> \<not> invalid_header r' \<and> header_hash r' = foldl ngx_hash 0 (map lower ns)
    \<and> (length ns < 32 \<longrightarrow> lowcase_index r' = length ns \<and> take (length ns) (lowcase_header r') = map lower ns)"
proof -
  obtain c cs where ns: "ns = c # cs" using assms(2) by (cases ns) auto
  have c: "name_byte c" and cs: "list_all name_byte cs" using assms(3) ns by auto
  let ?r1 = "r\<lparr>header_name_start := Some (length (hseen r)), invalid_header := False, hst := hsw_name,
    header_hash := ngx_hash 0 (lower c), lowcase_header := (lowcase_header r)[0 := lower c], lowcase_index := 1,
    hseen := hseen r @ [c]\<rparr>"
  have s1: "hl_step a r c = Go ?r1"
    using assms(1) name_byte_facts [OF c] c by (simp add: hl_step_def hl_switch_def hl_start_def lowcase_byte Let_def)
  let ?r2 = "(foldl name_char ?r1 (map lower cs))\<lparr>hseen := hseen ?r1 @ cs\<rparr>"
  have s2: "prun (hl_step a) ?r1 (cs @ ys) = prun (hl_step a) ?r2 ys" for ys
    by (rule run_hname) (simp_all add: cs)
  let ?r3 = "?r2\<lparr>header_name_end := Some (length (hseen ?r2)), hst := hsw_space_before_value, hseen := hseen ?r2 @ [58]\<rparr>"
  have s3: "hl_step a ?r2 58 = Go ?r3"
    by (rule hl_step_colon) (simp add: foldl_name_char_frame)
  have run: "prun (hl_step a) r (ns @ chr CHR '':'' # bs) = prun (hl_step a) ?r3 bs" for bs
    using s1 s2 [of "58 # bs"] s3 by (simp add: ns)
  have copy: "length ns < 32 \<Longrightarrow> lowcase_index ?r3 = length ns \<and> take (length ns) (lowcase_header ?r3) = map lower ns"
    using foldl_name_char_copy [of ?r1 "map lower cs"] assms(4) by (cases "lowcase_header r") (simp_all add: ns)
  show ?thesis
    using run copy by (intro exI [of _ ?r3]) (simp add: foldl_name_char_frame ns)
qed

lemma run_header_value:
  assumes "hst r = hsw_space_before_value" "vs \<noteq> []" "no_eol vs" "hd vs \<noteq> 32" "last vs \<noteq> 32"
    "eol = [CR, LF] \<or> eol = [LF]"
  shows "\<exists>r'. prun (hl_step a) r (replicate i 32 @ vs @ replicate k 32 @ eol @ bs) = Finished (NGX_OK, r') bs
    \<and> hst r' = hsw_start \<and> hseen r' = hseen r @ replicate i 32 @ vs @ replicate k 32 @ eol
    \<and> header_name_start r' = header_name_start r \<and> header_name_end r' = header_name_end r
    \<and> header_start r' = Some (length (hseen r) + i) \<and> header_end r' = Some (length (hseen r) + i + length vs)
    \<and> invalid_header r' = invalid_header r \<and> header_hash r' = header_hash r
    \<and> lowcase_index r' = lowcase_index r \<and> lowcase_header r' = lowcase_header r"
proof -
  obtain c cs where vs: "vs = c # cs" using assms(2) by (cases vs) auto
  let ?r1 = "r\<lparr>hseen := hseen r @ replicate i 32\<rparr>"
  have s1: "prun (hl_step a) r (replicate i 32 @ ys) = prun (hl_step a) ?r1 ys" for ys
    by (rule run_hspaces) (use assms in simp)
  let ?r2 = "?r1\<lparr>header_start := Some (length (hseen ?r1)), hst := hsw_value, hseen := hseen ?r1 @ [c]\<rparr>"
  have s2: "hl_step a ?r1 c = Go ?r2"
    using assms vs by (simp add: hl_step_def hl_switch_def hl_space_before_value_def no_eol_def)
  obtain r3 where r3: "prun (hl_step a) ?r2 (cs @ replicate k 32 @ eol @ bs) = prun (hl_step a) r3 (replicate k 32 @ eol @ bs)"
    "hcore r3 = hcore (?r2\<lparr>hseen := hseen ?r2 @ cs\<rparr>)" "hst r3 = hsw_value"
  proof (cases "cs = []")
    case True
    then show thesis using that [of ?r2] by simp
  next
    case False
    then show thesis
      using run_value [of ?r2 cs a "replicate k 32 @ eol @ bs"] assms vs that by (auto simp: no_eol_def)
  qed
  have f: "hseen r3 = hseen r @ replicate i 32 @ vs" "header_name_start r3 = header_name_start r"
    "header_name_end r3 = header_name_end r" "header_start r3 = Some (length (hseen r) + i)"
    "invalid_header r3 = invalid_header r" "header_hash r3 = header_hash r" "lowcase_index r3 = lowcase_index r"
    "lowcase_header r3 = lowcase_header r"
    using arg_cong [OF r3(2), of hseen] arg_cong [OF r3(2), of header_name_start] arg_cong [OF r3(2), of header_name_end]
      arg_cong [OF r3(2), of header_start] arg_cong [OF r3(2), of invalid_header] arg_cong [OF r3(2), of header_hash]
      arg_cong [OF r3(2), of lowcase_index] arg_cong [OF r3(2), of lowcase_header]
    by (simp_all add: hcore_def vs)
  have "prun (hl_step a) r (replicate i 32 @ vs @ replicate k 32 @ eol @ bs) =
    Finished (NGX_OK, r3\<lparr>hseen := hseen r3 @ replicate k 32 @ eol, header_end := Some (length (hseen r3)), hst := hsw_start\<rparr>) bs"
    using s1 s2 r3(1) run_hend [OF r3(3) assms(6)] by (simp add: vs)
  then show ?thesis by (intro exI) (auto simp: f)
qed

subsection \<open>Properties\<close>

text \<open>
  C12: A well-formed header line is accepted and taken apart exactly: for a name of
  letters, digits and hyphens, a colon, spaces, a value without CR, LF and NUL that neither
  starts nor ends with a space, spaces and a line end, the parser returns \<open>NGX_OK\<close>, the
  offsets delimit name and value, the line is not marked invalid, the hash is the one of
  the name in lower case, and that name has been copied when it is shorter than the 32
  bytes kept for it.
\<close>

theorem header_line_accepts:
  assumes "header_line_ok ns vs eol" "hst r = hsw_start" "length (lowcase_header r) = 32"
  shows "\<exists>r' x y. ngx_http_parse_header_line a r (header_line_text ns i vs k eol @ rest) = (NGX_OK, r', rest)
    \<and> header_name_start r' = Some (length (hseen r)) \<and> header_name_end r' = Some (length (hseen r) + length ns)
    \<and> slice (hseen r') (length (hseen r)) (length (hseen r) + length ns) = ns
    \<and> header_start r' = Some x \<and> header_end r' = Some y \<and> slice (hseen r') x y = vs
    \<and> \<not> invalid_header r' \<and> header_hash r' = foldl ngx_hash 0 (map lower ns)
    \<and> (length ns < 32 \<longrightarrow> take (lowcase_index r') (lowcase_header r') = map lower ns)"
proof -
  obtain r1 where r1: "\<And>bs. prun (hl_step a) r (ns @ chr CHR '':'' # bs) = prun (hl_step a) r1 bs"
    "hst r1 = hsw_space_before_value" "hseen r1 = hseen r @ ns @ [chr CHR '':'']"
    "header_name_start r1 = Some (length (hseen r))" "header_name_end r1 = Some (length (hseen r) + length ns)"
    "\<not> invalid_header r1" "header_hash r1 = foldl ngx_hash 0 (map lower ns)"
    "length ns < 32 \<longrightarrow> lowcase_index r1 = length ns \<and> take (length ns) (lowcase_header r1) = map lower ns"
    using run_header_name [of r ns a] assms unfolding header_line_ok_def by blast
  obtain r2 where r2: "prun (hl_step a) r1 (replicate i 32 @ vs @ replicate k 32 @ eol @ rest) = Finished (NGX_OK, r2) rest"
    "hseen r2 = hseen r1 @ replicate i 32 @ vs @ replicate k 32 @ eol"
    "header_name_start r2 = header_name_start r1" "header_name_end r2 = header_name_end r1"
    "header_start r2 = Some (length (hseen r1) + i)" "header_end r2 = Some (length (hseen r1) + i + length vs)"
    "invalid_header r2 = invalid_header r1" "header_hash r2 = header_hash r1"
    "lowcase_index r2 = lowcase_index r1" "lowcase_header r2 = lowcase_header r1"
    using run_header_value [OF r1(2), of vs eol a i k rest] assms(1) unfolding header_line_ok_def by blast
  have "ngx_http_parse_header_line a r (header_line_text ns i vs k eol @ rest) = (NGX_OK, r2, rest)"
    using r1(1) [of "replicate i 32 @ vs @ replicate k 32 @ eol @ rest"] r2(1)
    by (simp add: ngx_http_parse_header_line_def pcall_def header_line_text_def)
  moreover have "slice (hseen r2) (length (hseen r)) (length (hseen r) + length ns) = ns"
    "slice (hseen r2) (length (hseen r1) + i) (length (hseen r1) + i + length vs) = vs"
    by (simp_all add: r2(2) r1(3) slice_def)
  ultimately show ?thesis using r1(4-8) r2(3-10) by auto
qed

theorem header_line_accepts_witness:
  "\<exists>r'. ngx_http_parse_header_line False (new_header False) (str ''Host: a.b'' @ [13, 10]) = (NGX_OK, r', [])
     \<and> take (lowcase_index r') (lowcase_header r') = str ''host''"
proof -
  have ok: "header_line_ok (str ''Host'') (str ''a.b'') [13, 10]"
    by (simp add: header_line_ok_def name_byte_def no_eol_def)
  show ?thesis
    using header_line_accepts [OF ok, of "new_header False" False 1 0 "[]"]
    by (auto simp: new_header_def header_line_text_def lower_def)
qed

text \<open>
  C13: Whatever the bytes, the header parser keeps its bounds: the index of the next byte of
  the lower-case copy stays below the 32 bytes reserved for it, across any number of
  calls and whatever the outcome, and for an accepted line the name is not empty, name
  and value are ordered, inside the bytes read, and free of CR, LF and NUL.
\<close>

theorem header_line_sane:
  "case ngx_http_parse_header_line a (new_header up) b of (c, r, rest) \<Rightarrow>
     lowcase_index r < 32 \<and> length (lowcase_header r) = 32
   \<and> (if c = NGX_OK then b = hseen r @ rest \<and> (\<exists>x y u v.
        header_name_start r = Some x \<and> header_name_end r = Some y \<and> header_start r = Some u \<and> header_end r = Some v
      \<and> x < y \<and> y \<le> u \<and> u \<le> v \<and> v < length (hseen r)
      \<and> no_eol (slice (hseen r) x y) \<and> no_eol (slice (hseen r) u v)) else True)"
proof (cases "prun (hl_step a) (new_header up) b")
  case (Again r)
  then have "hl_inv r"
    using prun_again_inv [of hl_inv "hl_step a" "new_header up" b r] hl_step_inv new_header_inv by blast
  moreover have "ngx_http_parse_header_line a (new_header up) b = (NGX_AGAIN, r, [])"
    using Again by (simp add: ngx_http_parse_header_line_def pcall_def)
  ultimately show ?thesis by (simp add: hl_inv_def ngx_codes)
next
  case (Finished x rest)
  obtain c r where x: "x = (c, r)" by (cases x)
  have "hl_result_ok (c, r)" using hl_run_ok [OF new_header_inv Finished] x by simp
  moreover have "b = hseen r @ rest"
    using header_line.finished_read [of a "new_header up" b c r rest] Finished x by (simp add: new_header_def)
  moreover have "ngx_http_parse_header_line a (new_header up) b =
      (c, hl_keep c (new_header up) r, if hl_moves c then rest else b)"
    using Finished x by (simp add: ngx_http_parse_header_line_def pcall_def)
  moreover have "lowcase_index (hl_keep c (new_header up) r) \<in> {0, lowcase_index r}"
    "lowcase_header (hl_keep c (new_header up) r) = lowcase_header r"
    by (auto simp: hl_keep_def new_header_def)
  ultimately show ?thesis
    by (auto simp: hl_result_ok_def hline_ok_def name_okf_def value_okf_def)
qed

end
