(* ===== verification/Http_Status_Line.thy ===== *)
theory Http_Status_Line
  imports Http_Request_Line
begin

section \<open>The status line of a response (ngx_http_parse.c, ngx_http_parse_status_line)\<close>

text \<open>
  The state machine that reads "HTTP/x.y code text" from an upstream server. It keeps its
  state in the request and in \<open>ngx_http_status_t\<close>; pointers are offsets from the first byte
  of the buffer, as for the request line, and \<open>sl_seen\<close> are the bytes read so far.
\<close>

subsection \<open>Model\<close>

datatype sl_state = ssw_start | ssw_H | ssw_HT | ssw_HTT | ssw_HTTP | ssw_first_major_digit
  | ssw_major_digit | ssw_first_minor_digit | ssw_minor_digit | ssw_status | ssw_space_after_status
  | ssw_status_text | ssw_almost_done

record status_parser =
  sl_st :: sl_state
  sl_seen :: bytes
  sl_http_major :: nat
  sl_http_minor :: nat
  status_code :: nat
  status_count :: nat
  status_start :: "nat option"
  status_end :: "nat option"
  status_http_version :: nat

type_synonym sl_res = "(status_parser, int \<times> status_parser) step_res"

abbreviation sgo :: "status_parser \<Rightarrow> sl_state \<Rightarrow> sl_res" where
  "sgo r s \<equiv> Go (r\<lparr>sl_st := s\<rparr>)"

abbreviation serr :: "status_parser \<Rightarrow> sl_res" where
  "serr r \<equiv> Stop (NGX_ERROR, r)"

definition sl_expect :: "char \<Rightarrow> sl_state \<Rightarrow> status_parser \<Rightarrow> byte \<Rightarrow> sl_res" where
  "sl_expect c s r ch = (if ch = chr c then sgo r s else serr r)"

definition sl_first_major_digit :: "status_parser \<Rightarrow> byte \<Rightarrow> sl_res" where
  "sl_first_major_digit r ch =
     (if ch < chr CHR ''1'' \<or> ch > chr CHR ''9'' then serr r
      else sgo (r\<lparr>sl_http_major := unat ch - 48\<rparr>) ssw_major_digit)"

definition sl_major_digit :: "status_parser \<Rightarrow> byte \<Rightarrow> sl_res" where
  "sl_major_digit r ch =
     (if ch = chr CHR ''.'' then sgo r ssw_first_minor_digit
      else if \<not> http_digit ch then serr r
      else if sl_http_major r > 99 then serr r
      else Go (r\<lparr>sl_http_major := sl_http_major r * 10 + unat ch - 48\<rparr>))"

definition sl_first_minor_digit :: "status_parser \<Rightarrow> byte \<Rightarrow> sl_res" where
  "sl_first_minor_digit r ch =
     (if \<not> http_digit ch then serr r else sgo (r\<lparr>sl_http_minor := unat ch - 48\<rparr>) ssw_minor_digit)"

definition sl_minor_digit :: "status_parser \<Rightarrow> byte \<Rightarrow> sl_res" where
  "sl_minor_digit r ch =
     (if ch = chr CHR '' '' then sgo r ssw_status
      else if \<not> http_digit ch then serr r
      else if sl_http_minor r > 99 then serr r
      else Go (r\<lparr>sl_http_minor := sl_http_minor r * 10 + unat ch - 48\<rparr>))"

definition sl_status :: "status_parser \<Rightarrow> nat \<Rightarrow> byte \<Rightarrow> sl_res" where
  "sl_status r p ch =
     (if ch = chr CHR '' '' then Go r
      else if \<not> http_digit ch then serr r
      else
        let r = r\<lparr>status_code := status_code r * 10 + unat ch - 48, status_count := status_count r + 1\<rparr>
        in if status_count r = 3 then sgo (r\<lparr>status_start := Some (p - 2)\<rparr>) ssw_space_after_status else Go r)"

definition sl_done :: "status_parser \<Rightarrow> nat \<Rightarrow> sl_res" where
  "sl_done r p =
     (let r = (if status_end r = None then r\<lparr>status_end := Some p\<rparr> else r)
      in Stop (NGX_OK, r\<lparr>status_http_version := sl_http_major r * 1000 + sl_http_minor r, sl_st := ssw_start\<rparr>))"

definition sl_space_after_status :: "status_parser \<Rightarrow> nat \<Rightarrow> byte \<Rightarrow> sl_res" where
  "sl_space_after_status r p ch =
     (if ch = chr CHR '' '' then sgo r ssw_status_text
      else if ch = chr CHR ''.'' then sgo r ssw_status_text
      else if ch = CR then sgo r ssw_almost_done
      else if ch = LF then sl_done r p
      else serr r)"

definition sl_status_text :: "status_parser \<Rightarrow> nat \<Rightarrow> byte \<Rightarrow> sl_res" where
  "sl_status_text r p ch =
     (if ch = CR then sgo r ssw_almost_done else if ch = LF then sl_done r p else Go r)"

definition sl_almost_done :: "status_parser \<Rightarrow> nat \<Rightarrow> byte \<Rightarrow> sl_res" where
  "sl_almost_done r p ch =
     (let r = r\<lparr>status_end := Some (p - 1)\<rparr> in if ch = LF then sl_done r p else serr r)"

definition sl_switch :: "status_parser \<Rightarrow> nat \<Rightarrow> byte \<Rightarrow> sl_res" where
  "sl_switch r p ch = (case sl_st r of
       ssw_start \<Rightarrow> sl_expect CHR ''H'' ssw_H r ch
     | ssw_H \<Rightarrow> sl_expect CHR ''T'' ssw_HT r ch
     | ssw_HT \<Rightarrow> sl_expect CHR ''T'' ssw_HTT r ch
     | ssw_HTT \<Rightarrow> sl_expect CHR ''P'' ssw_HTTP r ch
     | ssw_HTTP \<Rightarrow> sl_expect CHR ''/'' ssw_first_major_digit r ch
     | ssw_first_major_digit \<Rightarrow> sl_first_major_digit r ch
     | ssw_major_digit \<Rightarrow> sl_major_digit r ch
     | ssw_first_minor_digit \<Rightarrow> sl_first_minor_digit r ch
     | ssw_minor_digit \<Rightarrow> sl_minor_digit r ch
     | ssw_status \<Rightarrow> sl_status r p ch
     | ssw_space_after_status \<Rightarrow> sl_space_after_status r p ch
     | ssw_status_text \<Rightarrow> sl_status_text r p ch
     | ssw_almost_done \<Rightarrow> sl_almost_done r p ch)"

text \<open>One turn of the loop; the byte is added to the ones seen.\<close>

definition sl_step :: "status_parser \<Rightarrow> byte \<Rightarrow> sl_res" where
  "sl_step r ch = (case sl_switch r (length (sl_seen r)) ch of
       Go r' \<Rightarrow> Go (r'\<lparr>sl_seen := sl_seen r @ [ch]\<rparr>)
     | Stop (c, r') \<Rightarrow> Stop (c, r'\<lparr>sl_seen := sl_seen r @ [ch]\<rparr>))"

text \<open>The returns: \<open>NGX_AGAIN\<close> and \<open>NGX_OK\<close> store the state and \<open>b->pos\<close>, an error does not.\<close>

definition sl_moves :: "int \<Rightarrow> bool" where
  "sl_moves c \<longleftrightarrow> c = NGX_AGAIN \<or> c = NGX_OK"

definition sl_keep :: "int \<Rightarrow> status_parser \<Rightarrow> status_parser \<Rightarrow> status_parser" where
  "sl_keep c r r' = (if sl_moves c then r' else r'\<lparr>sl_st := sl_st r, sl_seen := sl_seen r\<rparr>)"

lemma sl_keep_simps [simp]:
  "sl_moves NGX_OK" "sl_moves NGX_AGAIN" "sl_keep NGX_OK r r' = r'" "sl_keep NGX_AGAIN r r' = r'"
  by (simp_all add: sl_moves_def sl_keep_def)

definition ngx_http_parse_status_line :: "status_parser \<Rightarrow> bytes \<Rightarrow> int \<times> status_parser \<times> bytes" where
  "ngx_http_parse_status_line r b = pcall sl_step sl_moves sl_keep r b"

definition new_status :: status_parser where
  "new_status = \<lparr>sl_st = ssw_start, sl_seen = [], sl_http_major = 0, sl_http_minor = 0, status_code = 0,
     status_count = 0, status_start = None, status_end = None, status_http_version = 0\<rparr>"

lemmas sl_defs = sl_expect_def sl_first_major_digit_def sl_major_digit_def sl_first_minor_digit_def sl_minor_digit_def
  sl_status_def sl_space_after_status_def sl_status_text_def sl_almost_done_def sl_done_def

interpretation status_line: resumable sl_step sl_moves sl_keep sl_seen
proof
  show "sl_step s b = Stop (c, s') \<Longrightarrow> c \<noteq> NGX_AGAIN" for s b c s'
    by (cases "sl_st s") (auto simp: sl_step_def sl_switch_def sl_defs ngx_codes Let_def split: if_splits)
  show "sl_keep NGX_AGAIN s s' = s'" "sl_keep NGX_OK s s' = s'" "sl_moves NGX_AGAIN" "sl_moves NGX_OK" for s s'
    by (simp_all add: sl_keep_def sl_moves_def)
  show "sl_step s b = Go s' \<Longrightarrow> sl_seen s' = sl_seen s @ [b]" for s b s'
    by (auto simp: sl_step_def split: step_res.splits)
  show "sl_step s b = Stop (c, s') \<Longrightarrow> sl_seen s' = sl_seen s @ [b]" for s b c s'
    by (auto simp: sl_step_def split: step_res.splits)
qed

subsection \<open>Invariant\<close>

text \<open>
  \<open>sl_inv\<close> holds between two bytes: the version numbers and the code stay small, three code
  digits have been counted exactly when the machine is past the code, and the recorded start
  of the code lies within the bytes read.
\<close>

definition sl_inv :: "status_parser \<Rightarrow> bool" where
  "sl_inv r \<longleftrightarrow> sl_http_major r < 1000 \<and> sl_http_minor r < 1000
     \<and> status_code r < 10 ^ status_count r \<and> status_count r \<le> 3
     \<and> (status_count r = 3 \<longleftrightarrow> sl_st r \<in> {ssw_space_after_status, ssw_status_text, ssw_almost_done})
     \<and> status_end r = None
     \<and> status_count r \<le> length (sl_seen r)
     \<and> (sl_st r \<noteq> ssw_start \<longrightarrow> status_count r < length (sl_seen r))
     \<and> (status_count r = 3 \<longrightarrow> (\<exists>x. status_start r = Some x \<and> x + 3 \<le> length (sl_seen r)
          \<and> (sl_st r = ssw_almost_done \<longrightarrow> x + 4 \<le> length (sl_seen r))))"

definition sl_result_ok :: "int \<Rightarrow> status_parser \<Rightarrow> bool" where
  "sl_result_ok c r \<longleftrightarrow> (c = NGX_OK \<longrightarrow>
     status_count r = 3 \<and> status_code r < 1000 \<and> sl_http_major r < 1000 \<and> sl_http_minor r < 1000
     \<and> status_http_version r = sl_http_major r * 1000 + sl_http_minor r
     \<and> (\<exists>x y. status_start r = Some x \<and> status_end r = Some y \<and> x + 3 \<le> y \<and> y < length (sl_seen r)))"

lemma digit_value: "http_digit ch \<Longrightarrow> 48 \<le> unat ch \<and> unat ch \<le> 57"
  by (simp add: http_digit_def word_le_nat_alt)

lemma append_digit: "n < 10 ^ k \<Longrightarrow> http_digit ch \<Longrightarrow> n * 10 + unat ch - 48 < 10 ^ Suc k"
  using digit_value [of ch] by auto

lemma append_version_digit: "\<not> 99 < n \<Longrightarrow> http_digit ch \<Longrightarrow> n * 10 + unat ch - 48 < 1000"
  using digit_value [of ch] by auto

lemma version_digit: "http_digit ch \<Longrightarrow> unat ch - 48 < 1000"
  using digit_value [of ch] by auto

lemma first_major_is_digit: "\<not> (ch < chr CHR ''1'' \<or> ch > chr CHR ''9'') \<Longrightarrow> http_digit ch"
  by (auto simp: http_digit_def word_le_nat_alt word_less_nat_alt)

lemma sl_inv_status: "sl_inv r \<Longrightarrow> sl_st r = ssw_status \<Longrightarrow> sl_step r ch = Go r' \<Longrightarrow> sl_inv r'"
  using append_digit [of "status_code r" "status_count r" ch]
  by (auto simp: sl_step_def sl_switch_def sl_status_def sl_inv_def Let_def numeral_3_eq_3 split: if_splits)

lemma sl_inv_step: "sl_inv r \<Longrightarrow> sl_step r ch = Go r' \<Longrightarrow> sl_inv r'"
  using sl_inv_status [of r ch r'] version_digit [of ch] append_version_digit [of _ ch] first_major_is_digit [of ch]
  by (cases "sl_st r") (auto simp: sl_step_def sl_switch_def sl_defs sl_inv_def Let_def split: if_splits)

lemma sl_result_step: "sl_inv r \<Longrightarrow> sl_step r ch = Stop (c, r') \<Longrightarrow> sl_result_ok c r'"
  by (cases "sl_st r")
    (auto simp: sl_step_def sl_switch_def sl_defs sl_inv_def sl_result_ok_def ngx_codes Let_def split: if_splits)

lemma sl_inv_new: "sl_inv new_status"
  by (simp add: sl_inv_def new_status_def)

subsection \<open>Reading a well-formed line\<close>

lemma run_status_text:
  assumes "sl_st r = ssw_status_text" "list_all (\<lambda>c. c \<noteq> CR \<and> c \<noteq> LF) ts"
  shows "prun sl_step r (ts @ bs) = prun sl_step (r\<lparr>sl_seen := sl_seen r @ ts\<rparr>) bs"
  using assms
proof (induction ts arbitrary: r)
  case (Cons t ts)
  let ?r = "r\<lparr>sl_seen := sl_seen r @ [t]\<rparr>"
  have "sl_step r t = Go ?r" using Cons.prems by (cases r) (simp add: sl_step_def sl_switch_def sl_status_text_def)
  then show ?case using Cons.IH [of ?r] Cons.prems by simp
qed simp

lemma status_digit_step:
  assumes "sl_st r = ssw_status" "http_digit d" "status_count r < 2"
  shows "sl_step r d = Go (r\<lparr>sl_seen := sl_seen r @ [d], status_code := status_code r * 10 + (unat d - 48),
    status_count := Suc (status_count r)\<rparr>)"
proof -
  have "d \<noteq> 32" using assms(2) by (auto simp: http_digit_def word_le_nat_alt)
  then show ?thesis
    using assms digit_value [OF assms(2)] by (simp add: sl_step_def sl_switch_def sl_status_def Let_def)
qed

lemma status_last_digit_step:
  assumes "sl_st r = ssw_status" "http_digit d" "status_count r = 2"
  shows "sl_step r d = Go (r\<lparr>sl_st := ssw_space_after_status, sl_seen := sl_seen r @ [d],
    status_code := status_code r * 10 + (unat d - 48), status_count := 3,
    status_start := Some (length (sl_seen r) - 2)\<rparr>)"
proof -
  have "d \<noteq> 32" using assms(2) by (auto simp: http_digit_def word_le_nat_alt)
  then show ?thesis
    using assms digit_value [OF assms(2)] by (cases r) (simp add: sl_step_def sl_switch_def sl_status_def Let_def)
qed

lemma run_status_code:
  assumes "sl_st r = ssw_status" "status_code r = 0" "status_count r = 0" "http_digit a" "http_digit b" "http_digit c"
  shows "prun sl_step r (a # b # c # bs) = prun sl_step (r\<lparr>sl_st := ssw_space_after_status, sl_seen := sl_seen r @ [a, b, c],
    status_code := ((unat a - 48) * 10 + (unat b - 48)) * 10 + (unat c - 48), status_count := 3,
    status_start := Some (length (sl_seen r))\<rparr>) bs"
  using assms by (cases r) (simp add: status_digit_step status_last_digit_step)

lemma run_status_version:
  assumes "http_digit a" "http_digit b" "a \<noteq> chr CHR ''0''"
  shows "prun sl_step new_status (str ''HTTP/'' @ [a, chr CHR ''.'', b, chr CHR '' ''] @ bs) =
    prun sl_step (new_status\<lparr>sl_st := ssw_status, sl_seen := str ''HTTP/'' @ [a, chr CHR ''.'', b, chr CHR '' ''],
      sl_http_major := unat a - 48, sl_http_minor := unat b - 48\<rparr>) bs"
proof -
  have "\<not> (a < 49 \<or> a > 57)"
    using digit_value [OF assms(1)] assms(3) by (auto simp: word_less_nat_alt word_unat_eq_iff)
  then show ?thesis
    using assms by (simp add: new_status_def sl_step_def sl_switch_def sl_expect_def sl_first_major_digit_def
      sl_major_digit_def sl_first_minor_digit_def sl_minor_digit_def)
qed

text \<open>The line "HTTP/a.b cde text" with either line end.\<close>

definition status_line_text :: "byte \<Rightarrow> byte \<Rightarrow> bytes \<Rightarrow> bytes \<Rightarrow> bytes \<Rightarrow> bytes" where
  "status_line_text a b code reason eol =
     str ''HTTP/'' @ [a, chr CHR ''.'', b, chr CHR '' ''] @ code @ chr CHR '' '' # reason @ eol"

definition status_line_ok :: "byte \<Rightarrow> byte \<Rightarrow> bytes \<Rightarrow> bytes \<Rightarrow> bytes \<Rightarrow> bool" where
  "status_line_ok a b code reason eol \<longleftrightarrow>
     http_digit a \<and> a \<noteq> chr CHR ''0'' \<and> http_digit b \<and> length code = 3 \<and> list_all http_digit code
   \<and> list_all (\<lambda>c. c \<noteq> CR \<and> c \<noteq> LF) reason \<and> (eol = [CR, LF] \<or> eol = [LF])"

lemma run_status_eol:
  assumes "sl_st r = ssw_status_text" "status_end r = None" "eol = [CR, LF] \<or> eol = [LF]"
  shows "prun sl_step r (eol @ bs) = Finished (NGX_OK, r\<lparr>sl_st := ssw_start, sl_seen := sl_seen r @ eol,
    status_end := Some (length (sl_seen r)), status_http_version := sl_http_major r * 1000 + sl_http_minor r\<rparr>) bs"
  using assms(3)
proof
  assume "eol = [CR, LF]"
  then show ?thesis
    using assms(1,2) by (cases r) (simp add: sl_step_def sl_switch_def sl_status_text_def sl_almost_done_def sl_done_def)
next
  assume "eol = [LF]"
  then show ?thesis
    using assms(1,2) by (cases r) (simp add: sl_step_def sl_switch_def sl_status_text_def sl_done_def)
qed

subsection \<open>Properties\<close>

text \<open>
  A status line "HTTP/a.b code text" is read exactly: for one-digit version numbers (the
  first not 0), three code digits, any text without a line end and either line end, the
  parser returns \<open>NGX_OK\<close>, leaves what follows unread, the version is 1000 times the major
  plus the minor number, the code is the number the digits spell, and the recorded status
  text runs from the first code digit to the line end.
\<close>

theorem status_line_accepts:
  assumes "status_line_ok a b [x, y, z] reason eol"
  shows "\<exists>r. ngx_http_parse_status_line new_status (status_line_text a b [x, y, z] reason eol @ rest) = (NGX_OK, r, rest)
    \<and> status_http_version r = (unat a - 48) * 1000 + (unat b - 48)
    \<and> status_code r = ((unat x - 48) * 10 + (unat y - 48)) * 10 + (unat z - 48)
    \<and> (\<exists>s e. status_start r = Some s \<and> status_end r = Some e
         \<and> slice (sl_seen r) s e = [x, y, z] @ chr CHR '' '' # reason)"
proof -
  note ok = assms [unfolded status_line_ok_def]
  let ?v = "str ''HTTP/'' @ [a, chr CHR ''.'', b, chr CHR '' '']"
  let ?r1 = "new_status\<lparr>sl_st := ssw_status, sl_seen := ?v, sl_http_major := unat a - 48, sl_http_minor := unat b - 48\<rparr>"
  let ?r2 = "?r1\<lparr>sl_st := ssw_space_after_status, sl_seen := ?v @ [x, y, z],
    status_code := ((unat x - 48) * 10 + (unat y - 48)) * 10 + (unat z - 48), status_count := 3,
    status_start := Some 9\<rparr>"
  let ?r3 = "?r2\<lparr>sl_st := ssw_status_text, sl_seen := ?v @ [x, y, z, chr CHR '' '']\<rparr>"
  let ?r4 = "?r3\<lparr>sl_seen := ?v @ [x, y, z, chr CHR '' ''] @ reason\<rparr>"
  have s1: "prun sl_step new_status (?v @ bs) = prun sl_step ?r1 bs" for bs
    using ok run_status_version [of a b bs] by simp
  have s2: "prun sl_step ?r1 (x # y # z # bs) = prun sl_step ?r2 bs" for bs
    using ok run_status_code [of ?r1 x y z bs] by (simp add: new_status_def numeral_eq_Suc)
  have s3: "prun sl_step ?r2 (chr CHR '' '' # bs) = prun sl_step ?r3 bs" for bs
    by (simp add: sl_step_def sl_switch_def sl_space_after_status_def new_status_def)
  have s4: "prun sl_step ?r3 (reason @ bs) = prun sl_step ?r4 bs" for bs
    using ok run_status_text [of ?r3 reason bs] by simp
  have "prun sl_step new_status (status_line_text a b [x, y, z] reason eol @ rest) = prun sl_step ?r4 (eol @ rest)"
    unfolding status_line_text_def using s1 [of "[x, y, z] @ chr CHR '' '' # reason @ eol @ rest"]
      s2 [of "chr CHR '' '' # reason @ eol @ rest"] s3 [of "reason @ eol @ rest"] s4 [of "eol @ rest"] by simp
  also have "\<dots> = Finished (NGX_OK, ?r4\<lparr>sl_st := ssw_start, sl_seen := sl_seen ?r4 @ eol,
      status_end := Some (length (sl_seen ?r4)), status_http_version := sl_http_major ?r4 * 1000 + sl_http_minor ?r4\<rparr>) rest"
    using ok by (intro run_status_eol) (simp_all add: new_status_def)
  finally show ?thesis
    by (simp add: ngx_http_parse_status_line_def pcall_def slice_def)
qed

theorem status_line_accepts_witness:
  "\<exists>r. ngx_http_parse_status_line new_status (str ''HTTP/1.1 404 Not Found'' @ [13, 10, 65]) = (NGX_OK, r, [65])
     \<and> status_code r = 404 \<and> status_http_version r = 1001"
proof -
  have ok: "status_line_ok 49 49 [52, 48, 52] (str ''Not Found'') [13, 10]"
    by (simp add: status_line_ok_def http_digit_def)
  show ?thesis
    using status_line_accepts [OF ok, of "[65]"] by (auto simp: status_line_text_def)
qed

text \<open>
  Whatever an upstream server sends, a status line the parser accepts is sane: exactly
  three code digits were read, so the code is below 1000, both version numbers are below
  1000 and make up the stored version, and the recorded status text begins at least three
  bytes before its end and lies inside the bytes read; no byte is lost.
\<close>

theorem status_line_sane:
  assumes "ngx_http_parse_status_line new_status b = (NGX_OK, r, rest)"
  shows "b = sl_seen r @ rest \<and> status_count r = 3 \<and> status_code r < 1000
    \<and> sl_http_major r < 1000 \<and> sl_http_minor r < 1000
    \<and> status_http_version r = sl_http_major r * 1000 + sl_http_minor r
    \<and> (\<exists>s e. status_start r = Some s \<and> status_end r = Some e \<and> s + 3 \<le> e \<and> e < length (sl_seen r))"
proof -
  have run: "prun sl_step new_status b = Finished (NGX_OK, r) rest"
    using assms status_line.pcall_finished by (simp add: ngx_http_parse_status_line_def ngx_codes)
  have "sl_result_ok (fst (NGX_OK, r)) (snd (NGX_OK, r))"
    using _ _ sl_inv_new run
    by (rule prun_finished_inv [where I = sl_inv and step = sl_step and Q = "\<lambda>x. sl_result_ok (fst x) (snd x)"])
      (auto dest: sl_result_step sl_inv_step)
  moreover have "b = sl_seen r @ rest"
    using status_line.finished_read [OF run] by (simp add: new_status_def)
  ultimately show ?thesis by (simp add: sl_result_ok_def)
qed

theorem status_line_sane_witness:
  "\<exists>r. ngx_http_parse_status_line new_status (str ''HTTP/1.0 2 0 0'' @ [10]) = (NGX_OK, r, []) \<and> status_code r < 1000"
proof -
  obtain r where "ngx_http_parse_status_line new_status (str ''HTTP/1.0 2 0 0'' @ [10]) = (NGX_OK, r, [])"
    by (simp add: ngx_http_parse_status_line_def pcall_def sl_step_def sl_switch_def sl_defs new_status_def http_digit_def
        Let_def)
  then show ?thesis using status_line_sane by blast
qed

end
