(* ===== verification/Http_Chunked.thy ===== *)
theory Http_Chunked
  imports Http_Request_Line
begin

unbundle bit_operations_syntax

section \<open>Chunked request bodies (ngx_http_parse.c, ngx_http_request_body.c)\<close>

text \<open>
  \<open>ngx_http_parse_chunked\<close> reads the framing of a chunked body from a buffer and stops
  where data begin; the two filters that call it, one that hands the data on and one that
  throws them away, take the data from the buffer and call it again. Sizes of type
  \<open>off_t\<close> are natural numbers: the parser refuses a size before it passes the largest value
  of the type, and \<open>ck_wf\<close>, which every call keeps, bounds the sizes in the context, so that
  no addition of the source overflows.
\<close>

subsection \<open>The parser\<close>

datatype chunked_state = sw_chunk_start | sw_chunk_size | sw_chunk_extension
  | sw_chunk_extension_almost_done | sw_chunk_data | sw_after_data | sw_after_data_almost_done
  | sw_last_chunk_extension | sw_last_chunk_extension_almost_done | sw_trailer
  | sw_trailer_almost_done | sw_trailer_header | sw_trailer_header_almost_done

record ngx_http_chunked_t =
  ck_state :: chunked_state
  ck_size :: nat
  ck_length :: nat

definition NGX_MAX_OFF_T :: nat where "NGX_MAX_OFF_T = 2 ^ 63 - 1"

text \<open>What the body of the loop does with a byte: go on, or jump to a label.\<close>

datatype ck_act = Ck_next chunked_state nat | Ck_data | Ck_done | Ck_invalid

text \<open>A hexadecimal digit, in either case.\<close>

definition ck_hex :: "byte \<Rightarrow> nat option" where
  "ck_hex ch =
     (if ch \<ge> chr CHR ''0'' \<and> ch \<le> chr CHR ''9'' then Some (unat ch - 48)
      else let c = ch OR 0x20 in
        if c \<ge> chr CHR ''a'' \<and> c \<le> chr CHR ''f'' then Some (unat c - 97 + 10) else None)"

definition ck_ext_start :: "byte \<Rightarrow> bool" where
  "ck_ext_start ch \<longleftrightarrow> ch = chr CHR '';'' \<or> ch = chr CHR '' '' \<or> ch = 9"

definition ck_chunk_start :: "nat \<Rightarrow> byte \<Rightarrow> ck_act" where
  "ck_chunk_start sz ch =
     (case ck_hex ch of Some d \<Rightarrow> Ck_next sw_chunk_size d | None \<Rightarrow> Ck_invalid)"

definition ck_chunk_size :: "nat \<Rightarrow> byte \<Rightarrow> ck_act" where
  "ck_chunk_size sz ch =
     (if sz > NGX_MAX_OFF_T div 16 then Ck_invalid
      else case ck_hex ch of
        Some d \<Rightarrow> Ck_next sw_chunk_size (sz * 16 + d)
      | None \<Rightarrow>
          if sz = 0 then
            if ch = CR then Ck_next sw_last_chunk_extension_almost_done sz
            else if ch = LF then Ck_next sw_trailer sz
            else if ck_ext_start ch then Ck_next sw_last_chunk_extension sz
            else Ck_invalid
          else
            if ch = CR then Ck_next sw_chunk_extension_almost_done sz
            else if ch = LF then Ck_next sw_chunk_data sz
            else if ck_ext_start ch then Ck_next sw_chunk_extension sz
            else Ck_invalid)"

text \<open>
  The states that look for the end of a line: \<open>almost\<close> after CR, \<open>nxt\<close> after LF, else
  unchanged; and those that want LF after CR.
\<close>

definition ck_line :: "chunked_state \<Rightarrow> chunked_state \<Rightarrow> chunked_state \<Rightarrow> nat \<Rightarrow> byte \<Rightarrow> ck_act" where
  "ck_line self almost nxt sz ch =
     (if ch = CR then Ck_next almost sz else if ch = LF then Ck_next nxt sz else Ck_next self sz)"

definition ck_lf :: "chunked_state \<Rightarrow> nat \<Rightarrow> byte \<Rightarrow> ck_act" where
  "ck_lf nxt sz ch = (if ch = LF then Ck_next nxt sz else Ck_invalid)"

fun ck_switch :: "chunked_state \<Rightarrow> nat \<Rightarrow> byte \<Rightarrow> ck_act" where
  "ck_switch sw_chunk_start sz ch = ck_chunk_start sz ch"
| "ck_switch sw_chunk_size sz ch = ck_chunk_size sz ch"
| "ck_switch sw_chunk_extension sz ch =
     ck_line sw_chunk_extension sw_chunk_extension_almost_done sw_chunk_data sz ch"
| "ck_switch sw_chunk_extension_almost_done sz ch = ck_lf sw_chunk_data sz ch"
| "ck_switch sw_chunk_data sz ch = Ck_data"
| "ck_switch sw_after_data sz ch =
     ck_line sw_after_data sw_after_data_almost_done sw_chunk_start sz ch"
| "ck_switch sw_after_data_almost_done sz ch = ck_lf sw_chunk_start sz ch"
| "ck_switch sw_last_chunk_extension sz ch =
     ck_line sw_last_chunk_extension sw_last_chunk_extension_almost_done sw_trailer sz ch"
| "ck_switch sw_last_chunk_extension_almost_done sz ch = ck_lf sw_trailer sz ch"
| "ck_switch sw_trailer sz ch =
     (if ch = CR then Ck_next sw_trailer_almost_done sz
      else if ch = LF then Ck_done
      else Ck_next sw_trailer_header sz)"
| "ck_switch sw_trailer_almost_done sz ch = (if ch = LF then Ck_done else Ck_invalid)"
| "ck_switch sw_trailer_header sz ch =
     ck_line sw_trailer_header sw_trailer_header_almost_done sw_trailer sz ch"
| "ck_switch sw_trailer_header_almost_done sz ch = ck_lf sw_trailer sz ch"

text \<open>The loop: how it was left, the local \<open>state\<close>, \<open>ctx->size\<close> and the bytes from \<open>pos\<close>.\<close>

datatype ck_exit = Ran_out | At_data | At_done | At_invalid

fun ck_loop :: "chunked_state \<Rightarrow> nat \<Rightarrow> bytes \<Rightarrow> ck_exit \<times> chunked_state \<times> nat \<times> bytes" where
  "ck_loop state sz [] = (Ran_out, state, sz, [])"
| "ck_loop state sz (ch # b) =
     (case ck_switch state sz ch of
        Ck_next state' sz' \<Rightarrow> ck_loop state' sz' b
      | Ck_data \<Rightarrow> (At_data, state, sz, ch # b)
      | Ck_done \<Rightarrow> (At_done, state, sz, ch # b)
      | Ck_invalid \<Rightarrow> (At_invalid, state, sz, ch # b))"

fun ck_needed :: "chunked_state \<Rightarrow> nat \<Rightarrow> nat" where
  "ck_needed sw_chunk_start sz = 3"
| "ck_needed sw_chunk_size sz = 1 + (if sz \<noteq> 0 then sz + 4 else 1)"
| "ck_needed sw_chunk_extension sz = 1 + sz + 4"
| "ck_needed sw_chunk_extension_almost_done sz = 1 + sz + 4"
| "ck_needed sw_chunk_data sz = sz + 4"
| "ck_needed sw_after_data sz = 4"
| "ck_needed sw_after_data_almost_done sz = 4"
| "ck_needed sw_last_chunk_extension sz = 2"
| "ck_needed sw_last_chunk_extension_almost_done sz = 2"
| "ck_needed sw_trailer sz = 1"
| "ck_needed sw_trailer_almost_done sz = 1"
| "ck_needed sw_trailer_header sz = 2"
| "ck_needed sw_trailer_header_almost_done sz = 2"

definition ck_enter :: "chunked_state \<Rightarrow> nat \<Rightarrow> chunked_state" where
  "ck_enter state sz = (if state = sw_chunk_data \<and> sz = 0 then sw_after_data else state)"

text \<open>The return value, the context and the bytes from the new \<open>b->pos\<close>.\<close>

definition ngx_http_parse_chunked :: "ngx_http_chunked_t \<Rightarrow> bytes \<Rightarrow> int \<times> ngx_http_chunked_t \<times> bytes" where
  "ngx_http_parse_chunked ctx b =
     (case ck_loop (ck_enter (ck_state ctx) (ck_size ctx)) (ck_size ctx) b of
        (e, state, sz, pos) \<Rightarrow>
          if e = At_invalid then (NGX_ERROR, ctx\<lparr>ck_size := sz\<rparr>, b)
          else if e = At_done then (NGX_DONE, ctx\<lparr>ck_state := sw_chunk_start, ck_size := sz\<rparr>, tl pos)
          else if sz > NGX_MAX_OFF_T - 5 then
            (NGX_ERROR, ctx\<lparr>ck_state := state, ck_size := sz\<rparr>, pos)
          else (if e = At_data then NGX_OK else NGX_AGAIN,
                ctx\<lparr>ck_state := state, ck_size := sz, ck_length := ck_needed state sz\<rparr>, pos))"

text \<open>A context fresh from \<open>ngx_pcalloc\<close>.\<close>

definition new_chunked :: ngx_http_chunked_t where
  "new_chunked = \<lparr>ck_state = sw_chunk_start, ck_size = 0, ck_length = 0\<rparr>"

subsection \<open>The filters\<close>

definition NGX_HTTP_BAD_REQUEST :: int where "NGX_HTTP_BAD_REQUEST = 400"
definition NGX_HTTP_REQUEST_ENTITY_TOO_LARGE :: int where "NGX_HTTP_REQUEST_ENTITY_TOO_LARGE = 413"

lemmas http_status = NGX_HTTP_BAD_REQUEST_def NGX_HTTP_REQUEST_ENTITY_TOO_LARGE_def
  NGX_HTTP_INTERNAL_SERVER_ERROR_def

text \<open>
  Taking the data of a chunk from a buffer: \<open>(taken, left, ctx)\<close>. The comparison is the
  one of the source; the two branches differ when the chunk ends inside the buffer.
\<close>

definition take_data :: "ngx_http_chunked_t \<Rightarrow> bytes \<Rightarrow> bytes \<times> bytes \<times> ngx_http_chunked_t" where
  "take_data ctx b =
     (if length b > ck_size ctx
      then (take (ck_size ctx) b, drop (ck_size ctx) b, ctx\<lparr>ck_size := 0\<rparr>)
      else (b, [], ctx\<lparr>ck_size := ck_size ctx - length b\<rparr>))"

text \<open>
  When the parser answers \<open>NGX_OK\<close> it stands on a byte of data, so that the loops of the
  filters come to an end: each turn consumes a byte, or finds an empty chunk once and
  consumes a byte in the next.
\<close>

lemma ck_switch_Data: "ck_switch state sz ch = Ck_data \<longleftrightarrow> state = sw_chunk_data"
  by (cases state) (simp_all add: ck_chunk_start_def ck_chunk_size_def ck_line_def ck_lf_def split: option.split)

lemma ck_loop_suffix:
  "ck_loop state sz b = (e, state', sz', pos) \<Longrightarrow> \<exists>pre. b = pre @ pos \<and> (state \<noteq> state' \<longrightarrow> pre \<noteq> [])"
proof (induction state sz b rule: ck_loop.induct)
  case (2 state sz ch b)
  show ?case
  proof (cases "ck_switch state sz ch")
    case (Ck_next s z)
    then obtain pre where "b = pre @ pos" using 2 by fastforce
    then show ?thesis by (intro exI [of _ "ch # pre"]) simp
  qed (use 2 in auto)
qed simp

lemma ck_loop_data:
  "ck_loop state sz b = (At_data, state', sz', pos) \<Longrightarrow> state' = sw_chunk_data \<and> pos \<noteq> []"
  by (induction state sz b rule: ck_loop.induct) (auto simp: ck_switch_Data split: ck_act.splits)

lemma ck_loop_ran_out: "ck_loop state sz b = (Ran_out, state', sz', pos) \<Longrightarrow> pos = []"
  by (induction state sz b rule: ck_loop.induct) (auto split: ck_act.splits)

lemma parse_chunked_OK:
  assumes "ngx_http_parse_chunked ctx b = (NGX_OK, ctx', pos)"
  shows "ck_state ctx' = sw_chunk_data" "pos \<noteq> []" "length pos \<le> length b"
    "ck_state ctx = sw_chunk_data \<Longrightarrow> ck_size ctx = 0 \<Longrightarrow> length pos < length b"
proof -
  obtain e state sz p where l: "ck_loop (ck_enter (ck_state ctx) (ck_size ctx)) (ck_size ctx) b = (e, state, sz, p)"
    by (metis prod_cases4)
  have e: "e = At_data" "p = pos" "ck_state ctx' = state"
    using assms l by (auto simp: ngx_http_parse_chunked_def ngx_codes split: if_splits)
  note d = ck_loop_data [of _ _ b state sz p] and s = ck_loop_suffix [OF l]
  show "ck_state ctx' = sw_chunk_data" "pos \<noteq> []" using d l e by auto
  show "length pos \<le> length b" using s e by auto
  show "length pos < length b" if "ck_state ctx = sw_chunk_data" "ck_size ctx = 0"
    using s e d l that by (auto simp: ck_enter_def)
qed

text \<open>
  The buffers the filter puts into its output chain: a slice of the input, or the empty
  buffer that marks the end. \<open>mem n\<close> says whether the \<open>n\<close>-th allocation of the call
  succeeds. The record holds what the filters use of the request: whether
  \<open>r->request_body\<close> is set, its fields \<open>rest\<close> and \<open>chunked\<close>,
  \<open>r->headers_in.content_length_n\<close> and \<open>r->lingering_close\<close>.
\<close>

datatype body_buf = Body_data bytes | Last_buf

record ngx_http_request_body_t =
  request_body :: bool
  rb_rest :: int
  rb_chunked :: ngx_http_chunked_t
  content_length_n :: int
  lingering_close :: bool

text \<open>
  The inner loop for one buffer of the chain: \<open>Inl status\<close> is a \<open>return\<close>; else the
  output chain, the number of allocations so far and the bytes left in the buffer.
\<close>

type_synonym filter_res = "ngx_http_request_body_t \<times> (int + body_buf list \<times> nat \<times> bytes)"

definition ok_measure :: "ngx_http_chunked_t \<Rightarrow> bytes \<Rightarrow> nat" where
  "ok_measure ctx b = 2 * length b + (if ck_state ctx = sw_chunk_data \<and> ck_size ctx = 0 then 0 else 1)"

lemma take_data_measure:
  assumes "ngx_http_parse_chunked ctx b = (NGX_OK, ctx', pos)" "take_data ctx' pos = (taken, left, ctx'')"
  shows "ok_measure ctx'' left < ok_measure ctx b"
proof -
  have l: "length left \<le> length pos" "ck_size ctx' \<noteq> 0 \<Longrightarrow> length left < length pos"
    and z: "ck_size ctx' = 0 \<Longrightarrow> ck_size ctx'' = 0 \<and> ck_state ctx'' = sw_chunk_data"
    using assms(2) parse_chunked_OK(1,2) [OF assms(1)] by (auto simp: take_data_def split: if_splits)
  show ?thesis
    using l z parse_chunked_OK(3,4) [OF assms(1)] by (cases "ck_size ctx' = 0") (auto simp: ok_measure_def)
qed

function (sequential) chunked_filter_buf ::
  "(nat \<Rightarrow> bool) \<Rightarrow> int \<Rightarrow> ngx_http_request_body_t \<Rightarrow> body_buf list \<Rightarrow> nat \<Rightarrow> bytes \<Rightarrow> filter_res" where
  "chunked_filter_buf mem client_max_body_size rb out n b =
     (case ngx_http_parse_chunked (rb_chunked rb) b of
        (rc, ctx, pos) \<Rightarrow>
          if rc = NGX_OK then
            let rb = rb\<lparr>rb_chunked := ctx\<rparr> in
            if client_max_body_size \<noteq> 0 \<and> client_max_body_size - content_length_n rb < int (ck_size ctx) then
              (rb\<lparr>lingering_close := True\<rparr>, Inl NGX_HTTP_REQUEST_ENTITY_TOO_LARGE)
            else if \<not> mem n then (rb, Inl NGX_HTTP_INTERNAL_SERVER_ERROR)
            else
              (case take_data ctx pos of
                 (taken, left, ctx') \<Rightarrow>
                   chunked_filter_buf mem client_max_body_size
                     (rb\<lparr>rb_chunked := ctx', content_length_n := content_length_n rb + int (length taken)\<rparr>)
                     (out @ [Body_data taken]) (n + 1) left)
          else if rc = NGX_DONE then
            let rb = rb\<lparr>rb_chunked := ctx, rb_rest := 0\<rparr> in
            if \<not> mem n then (rb, Inl NGX_HTTP_INTERNAL_SERVER_ERROR)
            else (rb, Inr (out @ [Last_buf], n + 1, pos))
          else if rc = NGX_AGAIN then
            (rb\<lparr>rb_chunked := ctx, rb_rest := int (ck_length ctx)\<rparr>, Inr (out, n, pos))
          else (rb\<lparr>rb_chunked := ctx\<rparr>, Inl NGX_HTTP_BAD_REQUEST))"
  by pat_completeness auto

termination chunked_filter_buf
  by (relation "measure (\<lambda>(mem, m, rb, out, n, b). ok_measure (rb_chunked rb) b)")
    (auto intro: take_data_measure [OF sym sym])

declare chunked_filter_buf.simps [simp del]

text \<open>The loop over the input chain; \<open>lefts\<close> are the unread bytes of its buffers.\<close>

fun chunked_filter_chain ::
  "(nat \<Rightarrow> bool) \<Rightarrow> int \<Rightarrow> ngx_http_request_body_t \<Rightarrow> body_buf list \<Rightarrow> nat \<Rightarrow> bytes list \<Rightarrow> bytes list
   \<Rightarrow> ngx_http_request_body_t \<times> (int + body_buf list \<times> bytes list)" where
  "chunked_filter_chain mem m rb out n lefts [] = (rb, Inr (out, lefts))"
| "chunked_filter_chain mem m rb out n lefts (b # bufs) =
     (case chunked_filter_buf mem m rb out n b of
        (rb, Inl status) \<Rightarrow> (rb, Inl status)
      | (rb, Inr (out, n, left)) \<Rightarrow> chunked_filter_chain mem m rb out n (lefts @ [left]) bufs)"

text \<open>
  The filter. \<open>next_filter\<close> is the next body filter, a function pointer; \<open>Inr\<close> of the result is
  the output chain it was called on, with its return value first. Recycling the buffers
  that the next filter has finished with is left out.
\<close>

definition ngx_http_request_body_chunked_filter ::
  "(nat \<Rightarrow> bool) \<Rightarrow> int \<Rightarrow> (body_buf list \<Rightarrow> int) \<Rightarrow> ngx_http_request_body_t \<Rightarrow> bytes list
   \<Rightarrow> int \<times> ngx_http_request_body_t \<times> body_buf list \<times> bytes list" where
  "ngx_http_request_body_chunked_filter mem client_max_body_size next_filter rb bufs =
     (let fresh = (rb_rest rb = -1) in
      if fresh \<and> \<not> mem 0 then (NGX_HTTP_INTERNAL_SERVER_ERROR, rb, [], bufs)
      else
        let rb = (if fresh then rb\<lparr>rb_chunked := new_chunked, content_length_n := 0, rb_rest := 3\<rparr> else rb) in
        case chunked_filter_chain mem client_max_body_size rb [] (if fresh then 1 else 0) [] bufs of
          (rb, Inl status) \<Rightarrow> (status, rb, [], bufs)
        | (rb, Inr (out, lefts)) \<Rightarrow> (next_filter out, rb, out, lefts))"

text \<open>
  The filter that throws a body away. Without a request body one is allocated first, in two
  allocations; a body of known length is only counted.
\<close>

function (sequential) discard_chunked :: "ngx_http_request_body_t \<Rightarrow> bytes \<Rightarrow> int \<times> ngx_http_request_body_t \<times> bytes" where
  "discard_chunked rb b =
     (case ngx_http_parse_chunked (rb_chunked rb) b of
        (rc, ctx, pos) \<Rightarrow>
          if rc = NGX_OK then
            (case take_data ctx pos of (taken, left, ctx') \<Rightarrow> discard_chunked (rb\<lparr>rb_chunked := ctx'\<rparr>) left)
          else if rc = NGX_DONE then (NGX_OK, rb\<lparr>rb_chunked := ctx, content_length_n := 0\<rparr>, pos)
          else if rc = NGX_AGAIN then
            (NGX_OK, rb\<lparr>rb_chunked := ctx, content_length_n := int (ck_length ctx)\<rparr>, pos)
          else (NGX_HTTP_BAD_REQUEST, rb\<lparr>rb_chunked := ctx\<rparr>, pos))"
  by pat_completeness auto

termination discard_chunked
  by (relation "measure (\<lambda>(rb, b). ok_measure (rb_chunked rb) b)") (auto intro: take_data_measure [OF sym sym])

declare discard_chunked.simps [simp del]

definition discard_sized :: "ngx_http_request_body_t \<Rightarrow> bytes \<Rightarrow> int \<times> ngx_http_request_body_t \<times> bytes" where
  "discard_sized rb b =
     (if int (length b) > content_length_n rb
      then (NGX_OK, rb\<lparr>content_length_n := 0\<rparr>, drop (nat (content_length_n rb)) b)
      else (NGX_OK, rb\<lparr>content_length_n := content_length_n rb - int (length b)\<rparr>, []))"

definition ngx_http_discard_request_body_filter ::
  "bool \<Rightarrow> (nat \<Rightarrow> bool) \<Rightarrow> ngx_http_request_body_t \<Rightarrow> bytes \<Rightarrow> int \<times> ngx_http_request_body_t \<times> bytes" where
  "ngx_http_discard_request_body_filter is_chunked mem rb b =
     (if is_chunked then
        if \<not> request_body rb then
          if \<not> mem 0 then (NGX_HTTP_INTERNAL_SERVER_ERROR, rb, b)
          else if \<not> mem 1 then (NGX_HTTP_INTERNAL_SERVER_ERROR, rb, b)
          else discard_chunked (rb\<lparr>request_body := True, rb_rest := 0, rb_chunked := new_chunked\<rparr>) b
        else discard_chunked rb b
      else discard_sized rb b)"

subsection \<open>Reference: the body decoded byte by byte\<close>

text \<open>
  The same framing read one byte at a time, data bytes included. A configuration is the
  state, the bytes the chunk still has, the length of the body so far and the body itself.
\<close>

datatype body_ref = Body_more chunked_state nat int bytes | Body_done int bytes bytes | Body_fail int

fun decode_body :: "int \<Rightarrow> chunked_state \<Rightarrow> nat \<Rightarrow> int \<Rightarrow> bytes \<Rightarrow> bytes \<Rightarrow> body_ref" where
  "decode_body m state sz cl acc [] = Body_more state sz cl acc"
| "decode_body m state sz cl acc (ch # b) =
     (if state = sw_chunk_data \<and> sz \<noteq> 0 then
        if m \<noteq> 0 \<and> m - cl < int sz then Body_fail NGX_HTTP_REQUEST_ENTITY_TOO_LARGE
        else decode_body m state (sz - 1) (cl + 1) (acc @ [ch]) b
      else case ck_switch (ck_enter state sz) sz ch of
        Ck_next state' sz' \<Rightarrow>
          if sz' > NGX_MAX_OFF_T - 5 then Body_fail NGX_HTTP_BAD_REQUEST
          else decode_body m state' sz' cl acc b
      | Ck_done \<Rightarrow> Body_done cl acc b
      | _ \<Rightarrow> Body_fail NGX_HTTP_BAD_REQUEST)"

lemma decode_body_append:
  "decode_body m state sz cl acc (xs @ ys) =
     (case decode_body m state sz cl acc xs of
        Body_more state' sz' cl' acc' \<Rightarrow> decode_body m state' sz' cl' acc' ys
      | Body_done cl' acc' left \<Rightarrow> Body_done cl' acc' (left @ ys)
      | Body_fail c \<Rightarrow> Body_fail c)"
  by (induction m state sz cl acc xs rule: decode_body.induct) (auto split: ck_act.split)

text \<open>A size out of range is seen at the next byte by the parser too.\<close>

lemma ck_hex_less: "ck_hex ch = Some d \<Longrightarrow> d < 16"
proof -
  have "\<forall>ch. case ck_hex ch of None \<Rightarrow> True | Some d \<Rightarrow> d < 16"
    by (rule byte_forall) (simp add: all_bytes_list ck_hex_def word_le_nat_alt)
  then show "ck_hex ch = Some d \<Longrightarrow> d < 16" by (metis option.simps(5))
qed

lemma ck_switch_large:
  assumes "ck_switch state sz ch = Ck_next state' sz'" "sz' > NGX_MAX_OFF_T - 5" "sz \<le> NGX_MAX_OFF_T - 5"
  shows "state' = sw_chunk_size"
  using assms
  by (cases state) (auto simp: ck_chunk_start_def ck_chunk_size_def ck_line_def ck_lf_def split: option.splits if_splits)

lemma ck_loop_large:
  assumes "sz > NGX_MAX_OFF_T - 5"
  shows "ck_loop sw_chunk_size sz b = (if b = [] then (Ran_out, sw_chunk_size, sz, []) else (At_invalid, sw_chunk_size, sz, b))"
  using assms by (cases b) (simp_all add: ck_chunk_size_def NGX_MAX_OFF_T_def)

lemma ck_loop_decode:
  assumes "ck_loop state sz b = (e, state', sz', pos)" "sz \<le> NGX_MAX_OFF_T - 5"
  shows "decode_body m state sz cl acc b =
    (if e = At_invalid then Body_fail NGX_HTTP_BAD_REQUEST
     else if e = At_done then Body_done cl acc (tl pos)
     else if sz' > NGX_MAX_OFF_T - 5 then Body_fail NGX_HTTP_BAD_REQUEST
     else decode_body m state' sz' cl acc pos)"
  using assms
proof (induction state sz b rule: ck_loop.induct)
  case (2 state sz ch b)
  show ?case
  proof (cases "state = sw_chunk_data")
    case True
    then show ?thesis using 2 by auto
  next
    case False
    then have en: "ck_enter state sz = state" by (simp add: ck_enter_def)
    show ?thesis
    proof (cases "ck_switch state sz ch")
      case (Ck_next s z)
      show ?thesis
      proof (cases "z > NGX_MAX_OFF_T - 5")
        case True
        then show ?thesis
          using Ck_next False en ck_switch_large [OF Ck_next True] 2 ck_loop_large [OF True, of b] by (auto split: if_splits)
      next
        case small: False
        then show ?thesis using Ck_next False en 2 by simp
      qed
    qed (use 2 False en in auto)
  qed
qed auto

text \<open>One call of the parser, and the data it leaves to its caller.\<close>

definition ck_pos :: "chunked_state \<Rightarrow> nat \<Rightarrow> bool" where
  "ck_pos state sz \<longleftrightarrow>
     (state \<in> {sw_chunk_extension, sw_chunk_extension_almost_done, sw_chunk_data} \<longrightarrow> sz \<noteq> 0)"

definition ck_wf :: "ngx_http_chunked_t \<Rightarrow> bool" where
  "ck_wf ctx \<longleftrightarrow> ck_size ctx \<le> NGX_MAX_OFF_T - 5 \<and> ck_pos (ck_enter (ck_state ctx) (ck_size ctx)) (ck_size ctx)"

lemma ck_pos_switch:
  assumes "ck_switch state sz ch = Ck_next state' sz'" "ck_pos state sz"
  shows "ck_pos state' sz'"
  using assms
  by (cases state)
    (auto simp: ck_pos_def ck_chunk_start_def ck_chunk_size_def ck_line_def ck_lf_def split: option.splits if_splits)

lemma ck_pos_loop:
  "ck_loop state sz b = (e, state', sz', pos) \<Longrightarrow> ck_pos state sz \<Longrightarrow> ck_pos state' sz'"
  by (induction state sz b rule: ck_loop.induct) (auto split: ck_act.splits dest: ck_pos_switch)

lemma ck_enter_pos: "ck_pos state sz \<Longrightarrow> ck_enter state sz = state"
  by (auto simp: ck_pos_def ck_enter_def)

definition decode_ctx :: "int \<Rightarrow> ngx_http_chunked_t \<Rightarrow> int \<Rightarrow> bytes \<Rightarrow> bytes \<Rightarrow> body_ref" where
  "decode_ctx m ctx = decode_body m (ck_state ctx) (ck_size ctx)"

lemma decode_body_enter:
  "b \<noteq> [] \<Longrightarrow> decode_body m (ck_enter state sz) sz cl acc b = decode_body m state sz cl acc b"
proof (cases "state = sw_chunk_data \<and> sz = 0")
  case True
  moreover assume "b \<noteq> []"
  then obtain ch b' where "b = ch # b'" by (cases b) auto
  ultimately show ?thesis by (simp add: ck_enter_def)
next
  case False
  then have "ck_enter state sz = state" by (auto simp: ck_enter_def)
  then show ?thesis by (simp only:)
qed

text \<open>Equal up to the state a chunk without data left is in.\<close>

fun norm_ref :: "body_ref \<Rightarrow> body_ref" where
  "norm_ref (Body_more state sz cl acc) = Body_more (ck_enter state sz) sz cl acc"
| "norm_ref (Body_done cl acc left) = Body_done cl acc left"
| "norm_ref (Body_fail c) = Body_fail c"

lemma decode_norm: "norm_ref (decode_body m (ck_enter state sz) sz cl acc b) = norm_ref (decode_body m state sz cl acc b)"
  by (cases "b = []") (simp_all add: decode_body_enter, simp add: ck_enter_def)

lemma parse_chunked_decode:
  assumes "ngx_http_parse_chunked ctx b = (rc, ctx', pos)" "ck_wf ctx"
  shows "norm_ref (decode_ctx m ctx cl acc b) =
    (if rc = NGX_DONE then Body_done cl acc pos
     else if rc = NGX_OK \<or> rc = NGX_AGAIN then norm_ref (decode_ctx m ctx' cl acc pos)
     else Body_fail NGX_HTTP_BAD_REQUEST)"
    and "rc = NGX_OK \<or> rc = NGX_AGAIN \<Longrightarrow> ck_wf ctx' \<and> ck_pos (ck_state ctx') (ck_size ctx')
      \<and> ck_length ctx' = ck_needed (ck_state ctx') (ck_size ctx')"
    and "rc = NGX_AGAIN \<Longrightarrow> pos = []"
    and "rc \<in> {NGX_OK, NGX_AGAIN, NGX_DONE, NGX_ERROR}"
proof -
  obtain e state sz p where l: "ck_loop (ck_enter (ck_state ctx) (ck_size ctx)) (ck_size ctx) b = (e, state, sz, p)"
    by (metis prod_cases4)
  have "norm_ref (decode_ctx m ctx cl acc b) =
      norm_ref (decode_body m (ck_enter (ck_state ctx) (ck_size ctx)) (ck_size ctx) cl acc b)"
    by (simp add: decode_ctx_def decode_norm)
  also have "\<dots> = norm_ref (if e = At_invalid then Body_fail NGX_HTTP_BAD_REQUEST
     else if e = At_done then Body_done cl acc (tl p)
     else if sz > NGX_MAX_OFF_T - 5 then Body_fail NGX_HTTP_BAD_REQUEST
     else decode_body m state sz cl acc p)"
    using assms(2) by (simp add: ck_loop_decode [OF l] ck_wf_def)
  finally show "norm_ref (decode_ctx m ctx cl acc b) =
    (if rc = NGX_DONE then Body_done cl acc pos
     else if rc = NGX_OK \<or> rc = NGX_AGAIN then norm_ref (decode_ctx m ctx' cl acc pos)
     else Body_fail NGX_HTTP_BAD_REQUEST)"
    using assms(1) l by (auto simp: ngx_http_parse_chunked_def ngx_codes decode_ctx_def split: if_splits)
  have "ck_pos state sz" using ck_pos_loop [OF l] assms(2) by (simp add: ck_wf_def)
  then show "rc = NGX_OK \<or> rc = NGX_AGAIN \<Longrightarrow> ck_wf ctx' \<and> ck_pos (ck_state ctx') (ck_size ctx')
      \<and> ck_length ctx' = ck_needed (ck_state ctx') (ck_size ctx')"
    using assms(1) l by (auto simp: ngx_http_parse_chunked_def ngx_codes ck_wf_def ck_enter_pos split: if_splits)
  show "rc = NGX_AGAIN \<Longrightarrow> pos = []"
    using assms(1) l by (cases e) (auto simp: ngx_http_parse_chunked_def ngx_codes dest: ck_loop_ran_out split: if_splits)
  show "rc \<in> {NGX_OK, NGX_AGAIN, NGX_DONE, NGX_ERROR}"
    using assms(1) l by (auto simp: ngx_http_parse_chunked_def split: if_splits)
qed

lemma decode_data:
  assumes "sz \<noteq> 0" "b \<noteq> []"
  shows "decode_body m sw_chunk_data sz cl acc b =
    (if m \<noteq> 0 \<and> m - cl < int sz then Body_fail NGX_HTTP_REQUEST_ENTITY_TOO_LARGE
     else decode_body m sw_chunk_data (sz - length b) (cl + int (min sz (length b))) (acc @ take sz b) (drop sz b))"
  using assms
proof (induction b arbitrary: sz cl acc)
  case (Cons ch b)
  show ?case
  proof (cases "sz = 1 \<or> b = []")
    case True
    then show ?thesis using Cons.prems by (cases sz) auto
  next
    case False
    then obtain k where k: "sz = Suc k" "k \<noteq> 0" using Cons.prems by (cases sz) auto
    show ?thesis using False k Cons.IH [of k "cl + 1" "acc @ [ch]"] by (auto simp: ac_simps)
  qed
qed simp

lemma take_data_decode:
  assumes "take_data ctx b = (taken, left, ctx')" "ck_state ctx = sw_chunk_data" "b \<noteq> []" "ck_wf ctx"
  shows "decode_ctx m ctx cl acc b =
    (if ck_size ctx \<noteq> 0 \<and> m \<noteq> 0 \<and> m - cl < int (ck_size ctx) then Body_fail NGX_HTTP_REQUEST_ENTITY_TOO_LARGE
     else decode_ctx m ctx' (cl + int (length taken)) (acc @ taken) left)"
    and "ck_wf ctx'"
proof -
  have t: "taken = take (ck_size ctx) b" "left = drop (ck_size ctx) b" "ck_size ctx' = ck_size ctx - length b"
    "ck_state ctx' = sw_chunk_data"
    using assms(1,2) by (auto simp: take_data_def split: if_splits)
  show "decode_ctx m ctx cl acc b =
    (if ck_size ctx \<noteq> 0 \<and> m \<noteq> 0 \<and> m - cl < int (ck_size ctx) then Body_fail NGX_HTTP_REQUEST_ENTITY_TOO_LARGE
     else decode_ctx m ctx' (cl + int (length taken)) (acc @ taken) left)"
    using assms(2,3) t decode_data [of "ck_size ctx" b m cl acc] by (cases "ck_size ctx = 0") (auto simp: decode_ctx_def min.commute)
  show "ck_wf ctx'" using assms(4) t by (auto simp: ck_wf_def ck_enter_def ck_pos_def)
qed

subsection \<open>The filter refines the reference\<close>

fun body_data :: "body_buf list \<Rightarrow> bytes" where
  "body_data [] = []"
| "body_data (Body_data d # out) = d @ body_data out"
| "body_data (Last_buf # out) = body_data out"

lemma body_data_append [simp]: "body_data (xs @ ys) = body_data xs @ body_data ys"
  by (induction xs rule: body_data.induct) simp_all

abbreviation enough_memory :: "nat \<Rightarrow> bool" where "enough_memory \<equiv> (\<lambda>_. True)"

text \<open>What the result of the loop over one buffer says of the body.\<close>

fun filter_ref :: "filter_res \<Rightarrow> body_ref" where
  "filter_ref (rb, Inl c) = Body_fail c"
| "filter_ref (rb, Inr (out, n, left)) =
     (if rb_rest rb = 0 then Body_done (content_length_n rb) (body_data out) left
      else Body_more (ck_state (rb_chunked rb)) (ck_size (rb_chunked rb)) (content_length_n rb) (body_data out))"

definition filter_wf :: "filter_res \<Rightarrow> bool" where
  "filter_wf x \<longleftrightarrow> (case x of
       (rb, Inl c) \<Rightarrow> True
     | (rb, Inr (out, n, left)) \<Rightarrow>
         if rb_rest rb = 0 then out \<noteq> [] \<and> last out = Last_buf else
         left = [] \<and> ck_wf (rb_chunked rb) \<and> ck_pos (ck_state (rb_chunked rb)) (ck_size (rb_chunked rb))
         \<and> rb_rest rb = int (ck_needed (ck_state (rb_chunked rb)) (ck_size (rb_chunked rb))))"

lemma ck_needed_pos: "ck_needed state sz \<noteq> 0"
  by (cases state) simp_all

lemma filter_buf_ok:
  assumes "ngx_http_parse_chunked (rb_chunked rb) b = (NGX_OK, ctx, pos)" "take_data ctx pos = (taken, left, ctx')"
  shows "chunked_filter_buf enough_memory m rb out n b =
    (if m \<noteq> 0 \<and> m - content_length_n rb < int (ck_size ctx)
     then (rb\<lparr>rb_chunked := ctx, lingering_close := True\<rparr>, Inl NGX_HTTP_REQUEST_ENTITY_TOO_LARGE)
     else chunked_filter_buf enough_memory m
       (rb\<lparr>rb_chunked := ctx', content_length_n := content_length_n rb + int (length taken)\<rparr>)
       (out @ [Body_data taken]) (n + 1) left)"
  using assms by (subst chunked_filter_buf.simps) (simp add: Let_def)

lemma filter_buf_end:
  assumes "ngx_http_parse_chunked (rb_chunked rb) b = (rc, ctx, pos)" "rc \<noteq> NGX_OK"
  shows "chunked_filter_buf enough_memory m rb out n b =
    (if rc = NGX_DONE then (rb\<lparr>rb_chunked := ctx, rb_rest := 0\<rparr>, Inr (out @ [Last_buf], n + 1, pos))
     else if rc = NGX_AGAIN then (rb\<lparr>rb_chunked := ctx, rb_rest := int (ck_length ctx)\<rparr>, Inr (out, n, pos))
     else (rb\<lparr>rb_chunked := ctx\<rparr>, Inl NGX_HTTP_BAD_REQUEST))"
  using assms by (subst chunked_filter_buf.simps) (simp add: Let_def)

lemma filter_buf_decode:
  assumes "ck_wf (rb_chunked rb)"
  shows "norm_ref (decode_ctx m (rb_chunked rb) (content_length_n rb) (body_data out) b) =
      norm_ref (filter_ref (chunked_filter_buf enough_memory m rb out n b))
    \<and> filter_wf (chunked_filter_buf enough_memory m rb out n b)"
  using assms
proof (induction "ok_measure (rb_chunked rb) b" arbitrary: rb out n b rule: less_induct)
  case less
  obtain rc ctx pos where p: "ngx_http_parse_chunked (rb_chunked rb) b = (rc, ctx, pos)" by (metis prod_cases3)
  note d = parse_chunked_decode [OF p less.prems]
  show ?case
  proof (cases "rc = NGX_OK")
    case ok: True
    obtain taken left ctx' where t: "take_data ctx pos = (taken, left, ctx')" by (metis prod_cases3)
    have st: "ck_state ctx = sw_chunk_data" "pos \<noteq> []" using parse_chunked_OK p ok by blast+
    have nz: "ck_size ctx \<noteq> 0" "ck_wf ctx" using d(2) ok st by (auto simp: ck_pos_def)
    note td = take_data_decode [OF t st nz(2)]
    let ?rb = "rb\<lparr>rb_chunked := ctx', content_length_n := content_length_n rb + int (length taken)\<rparr>"
    let ?lim = "m \<noteq> 0 \<and> m - content_length_n rb < int (ck_size ctx)"
    have "ok_measure (rb_chunked ?rb) left < ok_measure (rb_chunked rb) b"
      using take_data_measure [OF p [unfolded ok] t] by simp
    note IH = less.hyps [OF this, of "out @ [Body_data taken]" "n + 1"]
    have f: "chunked_filter_buf enough_memory m rb out n b =
        (if ?lim then (rb\<lparr>rb_chunked := ctx, lingering_close := True\<rparr>, Inl NGX_HTTP_REQUEST_ENTITY_TOO_LARGE)
         else chunked_filter_buf enough_memory m ?rb (out @ [Body_data taken]) (n + 1) left)"
      using filter_buf_ok [OF p [unfolded ok] t] by simp
    have e: "norm_ref (decode_ctx m (rb_chunked rb) (content_length_n rb) (body_data out) b) =
        norm_ref (if ?lim then Body_fail NGX_HTTP_REQUEST_ENTITY_TOO_LARGE
          else decode_ctx m ctx' (content_length_n rb + int (length taken)) (body_data out @ taken) left)"
      using d(1) td(1) nz ok by (simp add: ngx_codes)
    show ?thesis
    proof (cases ?lim)
      case True
      then show ?thesis unfolding e f by (simp add: filter_wf_def)
    next
      case False
      then show ?thesis unfolding e f using IH td(2) by (simp only: if_False) simp
    qed
  next
    case no: False
    show ?thesis
      unfolding filter_buf_end [OF p no] d(1)
      using d(2-4) no ck_needed_pos [of "ck_state ctx" "ck_size ctx"] by (auto simp: filter_wf_def ngx_codes decode_ctx_def)
  qed
qed

text \<open>The same over the chain, when no buffer but the last completes the body.\<close>

definition body_is_done :: "body_ref \<Rightarrow> bool" where
  "body_is_done x \<longleftrightarrow> (\<exists>cl acc left. x = Body_done cl acc left)"

definition chain_ref :: "ngx_http_request_body_t \<times> (int + body_buf list \<times> bytes list) \<Rightarrow> body_ref" where
  "chain_ref x = (case x of
       (rb, Inl c) \<Rightarrow> Body_fail c
     | (rb, Inr (out, lefts)) \<Rightarrow>
         if rb_rest rb = 0 then Body_done (content_length_n rb) (body_data out) (last lefts)
         else Body_more (ck_state (rb_chunked rb)) (ck_size (rb_chunked rb)) (content_length_n rb) (body_data out))"

definition chain_wf :: "ngx_http_request_body_t \<times> (int + body_buf list \<times> bytes list) \<Rightarrow> bool" where
  "chain_wf x \<longleftrightarrow> (case x of
       (rb, Inl c) \<Rightarrow> True
     | (rb, Inr (out, lefts)) \<Rightarrow>
         if rb_rest rb = 0 then out \<noteq> [] \<and> last out = Last_buf else
         ck_wf (rb_chunked rb) \<and> ck_pos (ck_state (rb_chunked rb)) (ck_size (rb_chunked rb))
         \<and> rb_rest rb = int (ck_needed (ck_state (rb_chunked rb)) (ck_size (rb_chunked rb))))"

lemma norm_ref_done: "body_is_done (norm_ref x) \<longleftrightarrow> body_is_done x"
  by (cases x) (simp_all add: body_is_done_def)

lemma norm_ref_more:
  assumes "norm_ref x = norm_ref (Body_more state sz cl acc)"
  obtains state' where "x = Body_more state' sz cl acc" "ck_enter state' sz = ck_enter state sz"
  using assms by (cases x) auto

lemma decode_norm_append:
  assumes "norm_ref (decode_body m state sz cl acc xs) = norm_ref (Body_more state' sz' cl' acc')"
  shows "norm_ref (decode_body m state sz cl acc (xs @ ys)) = norm_ref (decode_body m state' sz' cl' acc' ys)"
proof -
  obtain s where s: "decode_body m state sz cl acc xs = Body_more s sz' cl' acc'" "ck_enter s sz' = ck_enter state' sz'"
    using assms by (rule norm_ref_more)
  show ?thesis using decode_norm [of m s sz' cl' acc' ys] decode_norm [of m state' sz' cl' acc' ys]
    by (simp add: decode_body_append s)
qed

lemma filter_chain_decode:
  assumes "ck_wf (rb_chunked rb)" "bufs \<noteq> []"
    and "\<And>i. i < length bufs \<Longrightarrow>
      \<not> body_is_done (decode_ctx m (rb_chunked rb) (content_length_n rb) (body_data out) (concat (take i bufs)))"
  shows "norm_ref (decode_ctx m (rb_chunked rb) (content_length_n rb) (body_data out) (concat bufs)) =
      norm_ref (chain_ref (chunked_filter_chain enough_memory m rb out n lefts bufs))
    \<and> chain_wf (chunked_filter_chain enough_memory m rb out n lefts bufs)"
  using assms
proof (induction bufs arbitrary: rb out n lefts)
  case (Cons b bufs)
  obtain rb' y where f: "chunked_filter_buf enough_memory m rb out n b = (rb', y)" by (metis surj_pair)
  note d = filter_buf_decode [OF Cons.prems(1), of m out b n, unfolded f]
  show ?case
  proof (cases y)
    case (Inl c)
    then obtain c where "decode_ctx m (rb_chunked rb) (content_length_n rb) (body_data out) b = Body_fail c" "y = Inl c"
      using d by (cases "decode_ctx m (rb_chunked rb) (content_length_n rb) (body_data out) b") auto
    then show ?thesis by (simp add: f chain_ref_def chain_wf_def decode_ctx_def decode_body_append)
  next
    case (Inr z)
    obtain out' n' left where z: "y = Inr (out', n', left)" using Inr by (cases z) auto
    show ?thesis
    proof (cases "bufs = []")
      case True
      then show ?thesis using d by (simp add: f z chain_ref_def chain_wf_def filter_wf_def)
    next
      case False
      let ?c = "rb_chunked rb'"
      have nd: "\<not> body_is_done (decode_ctx m (rb_chunked rb) (content_length_n rb) (body_data out) b)"
        using Cons.prems(3) [of 1] False by (cases bufs) simp_all
      have more: "rb_rest rb' \<noteq> 0"
      proof
        assume "rb_rest rb' = 0"
        then have "body_is_done (norm_ref (filter_ref (rb', y)))" by (simp add: z body_is_done_def)
        with nd d show False by (metis norm_ref_done)
      qed
      have e: "norm_ref (decode_body m (ck_state (rb_chunked rb)) (ck_size (rb_chunked rb)) (content_length_n rb) (body_data out) b)
          = norm_ref (Body_more (ck_state ?c) (ck_size ?c) (content_length_n rb') (body_data out'))"
        using d more z by (simp add: decode_ctx_def)
      note app = decode_norm_append [OF e]
      have "\<not> body_is_done (decode_ctx m ?c (content_length_n rb') (body_data out') (concat (take i bufs)))"
        if "i < length bufs" for i
        using Cons.prems(3) [of "Suc i"] that app [of "concat (take i bufs)"] norm_ref_done
        by (simp add: decode_ctx_def) metis
      moreover have "ck_wf ?c" using d more z by (simp add: filter_wf_def)
      ultimately show ?thesis
        using Cons.IH [of rb' out' n' "lefts @ [left]"] False app [of "concat bufs"] by (simp add: f z decode_ctx_def)
    qed
  qed
qed simp

subsection \<open>Encoded bodies\<close>

text \<open>A size in hexadecimal, a chunk as it is sent, and a whole body.\<close>

fun chunk_size_from :: "nat \<Rightarrow> bytes \<Rightarrow> nat option" where
  "chunk_size_from v [] = Some v"
| "chunk_size_from v (h # hs) = (case ck_hex h of Some d \<Rightarrow> chunk_size_from (v * 16 + d) hs | None \<Rightarrow> None)"

type_synonym frame = "bytes \<times> bytes \<times> bytes"

fun frame_text :: "frame \<Rightarrow> bytes" where
  "frame_text (hs, ext, d) = hs @ ext @ [CR, LF] @ d @ [CR, LF]"

fun frame_ok :: "frame \<Rightarrow> bool" where
  "frame_ok (hs, ext, d) \<longleftrightarrow> hs \<noteq> [] \<and> d \<noteq> [] \<and> chunk_size_from 0 hs = Some (length d)
     \<and> length d \<le> NGX_MAX_OFF_T div 16
     \<and> (ext \<noteq> [] \<longrightarrow> ck_ext_start (hd ext)) \<and> CR \<notin> set ext \<and> LF \<notin> set ext"

fun frame_data :: "frame \<Rightarrow> bytes" where
  "frame_data (hs, ext, d) = d"

definition body_text :: "frame list \<Rightarrow> bytes" where
  "body_text fs = concat (map frame_text fs) @ [chr CHR ''0'', CR, LF, CR, LF]"

lemma chunk_size_from_ge: "chunk_size_from v hs = Some n \<Longrightarrow> v \<le> n"
proof (induction hs arbitrary: v)
  case (Cons h hs)
  then obtain d where "chunk_size_from (v * 16 + d) hs = Some n" by (auto split: option.splits)
  then show ?case using Cons.IH by fastforce
qed simp

lemma decode_size:
  assumes "chunk_size_from v hs = Some n" "n \<le> NGX_MAX_OFF_T div 16"
  shows "decode_body m sw_chunk_size v cl acc (hs @ b) = decode_body m sw_chunk_size n cl acc b"
  using assms
proof (induction hs arbitrary: v)
  case (Cons h hs)
  obtain d where d: "ck_hex h = Some d" "chunk_size_from (v * 16 + d) hs = Some n"
    using Cons.prems(1) by (auto split: option.splits)
  have v: "v * 16 + d \<le> NGX_MAX_OFF_T div 16" using chunk_size_from_ge [OF d(2)] Cons.prems(2) by simp
  then have "v \<le> NGX_MAX_OFF_T div 16" "\<not> v * 16 + d > NGX_MAX_OFF_T - 5" by (simp_all add: NGX_MAX_OFF_T_def)
  then show ?case using Cons.IH [OF d(2)] Cons.prems(2) d by (simp add: ck_chunk_size_def ck_enter_def)
qed simp

lemma chunk_size_from_0: "ck_hex h = Some d \<Longrightarrow> chunk_size_from 0 (h # hs) = chunk_size_from d hs"
  by simp

lemma decode_frame_head:
  assumes "frame_ok (hs, ext, d)"
  shows "decode_body m sw_chunk_start sz cl acc (hs @ b) = decode_body m sw_chunk_size (length d) cl acc b"
proof -
  obtain h hs' where hs: "hs = h # hs'" using assms by (cases hs) auto
  obtain v where v: "ck_hex h = Some v" "chunk_size_from v hs' = Some (length d)"
    using assms hs by (auto split: option.splits)
  have "v \<le> NGX_MAX_OFF_T - 5" using ck_hex_less [OF v(1)] by (simp add: NGX_MAX_OFF_T_def)
  then show ?thesis
    using decode_size [OF v(2)] assms v(1) by (simp add: hs ck_enter_def ck_chunk_start_def)
qed

lemma decode_extension:
  assumes "CR \<notin> set ext" "LF \<notin> set ext" "sz \<le> NGX_MAX_OFF_T - 5"
  shows "decode_body m sw_chunk_extension sz cl acc (ext @ b) = decode_body m sw_chunk_extension sz cl acc b"
  using assms by (induction ext) (simp_all add: ck_enter_def ck_line_def)

lemma ck_ext_start_not_hex: "ck_ext_start ch \<Longrightarrow> ck_hex ch = None \<and> ch \<noteq> CR \<and> ch \<noteq> LF"
  by (auto simp: ck_ext_start_def ck_hex_def word_le_nat_alt)

lemma ck_hex_eol [simp]: "ck_hex 13 = None" "ck_hex 10 = None"
  by (simp_all add: ck_hex_def word_le_nat_alt)

lemma decode_frame_line:
  assumes "frame_ok (hs, ext, d)"
  shows "decode_body m sw_chunk_size (length d) cl acc (ext @ [CR, LF] @ b) =
    decode_body m sw_chunk_data (length d) cl acc b"
proof -
  have len: "length d \<noteq> 0" "length d \<le> NGX_MAX_OFF_T div 16" "\<not> length d > NGX_MAX_OFF_T - 5"
    using assms by (auto simp: NGX_MAX_OFF_T_def)
  show ?thesis
  proof (cases ext)
    case Nil
    then show ?thesis using len by (simp add: ck_enter_def ck_chunk_size_def ck_lf_def)
  next
    case (Cons e es)
    have e: "ck_ext_start e" "CR \<notin> set es" "LF \<notin> set es" using assms Cons by auto
    have "decode_body m sw_chunk_size (length d) cl acc (ext @ [CR, LF] @ b) =
        decode_body m sw_chunk_extension (length d) cl acc (es @ [CR, LF] @ b)"
      using len ck_ext_start_not_hex [OF e(1)] e(1) by (simp add: Cons ck_enter_def ck_chunk_size_def)
    then show ?thesis
      using decode_extension [OF e(2,3), of "length d" m cl acc "[CR, LF] @ b"] len by (simp add: ck_enter_def ck_line_def ck_lf_def)
  qed
qed

lemma decode_frame:
  assumes "frame_ok f" "m = 0 \<or> cl + int (length (frame_data f)) \<le> m"
  shows "decode_body m sw_chunk_start sz cl acc (frame_text f @ b) =
    decode_body m sw_chunk_start 0 (cl + int (length (frame_data f))) (acc @ frame_data f) b"
proof -
  obtain hs ext d where f: "f = (hs, ext, d)" by (metis prod_cases3)
  have d: "d \<noteq> []" using assms(1) f by simp
  have "decode_body m sw_chunk_start sz cl acc (frame_text f @ b) = decode_body m sw_chunk_data (length d) cl acc (d @ [CR, LF] @ b)"
    using decode_frame_head [of hs ext d m sz cl acc "ext @ [CR, LF] @ d @ [CR, LF] @ b"]
      decode_frame_line [of hs ext d m cl acc "d @ [CR, LF] @ b"] assms(1) by (simp add: f)
  also have "\<dots> = decode_body m sw_chunk_data 0 (cl + int (length d)) (acc @ d) ([CR, LF] @ b)"
    using decode_data [of "length d" "d @ [CR, LF] @ b" m cl acc] d assms(2) by (auto simp: f)
  finally show ?thesis by (simp add: f ck_enter_def ck_line_def ck_lf_def)
qed

lemma decode_frames:
  assumes "list_all frame_ok fs" "m = 0 \<or> cl + int (length (concat (map frame_data fs))) \<le> m"
  shows "decode_body m sw_chunk_start sz cl acc (body_text fs @ b) =
    Body_done (cl + int (length (concat (map frame_data fs)))) (acc @ concat (map frame_data fs)) b"
  using assms
proof (induction fs arbitrary: sz cl acc)
  case Nil
  have "ck_hex 48 = Some 0" by (simp add: ck_hex_def)
  then show ?case
    by (simp add: body_text_def ck_enter_def ck_chunk_start_def ck_chunk_size_def ck_lf_def)
next
  case (Cons f fs)
  have "decode_body m sw_chunk_start sz cl acc (body_text (f # fs) @ b) =
      decode_body m sw_chunk_start 0 (cl + int (length (frame_data f))) (acc @ frame_data f) (body_text fs @ b)"
    using decode_frame [of f m cl sz acc "body_text fs @ b"] Cons.prems by (auto simp: body_text_def)
  then show ?case
    using Cons.IH [of "cl + int (length (frame_data f))" 0 "acc @ frame_data f"] Cons.prems by (auto simp: ac_simps)
qed

subsection \<open>How much is still to come\<close>

lemma ck_needed_step:
  assumes "ck_switch state sz ch = Ck_next state' sz'" "sz' \<le> NGX_MAX_OFF_T - 5"
  shows "ck_needed state sz \<le> Suc (ck_needed state' sz')"
  using assms
  by (cases state) (auto simp: ck_chunk_start_def ck_chunk_size_def ck_line_def ck_lf_def split: option.splits if_splits)

lemma ck_needed_done: "ck_switch state sz ch = Ck_done \<Longrightarrow> ck_needed state sz = 1"
  by (cases state) (auto simp: ck_chunk_start_def ck_chunk_size_def ck_line_def ck_lf_def split: option.splits if_splits)

lemma ck_needed_enter: "ck_needed (ck_enter state sz) sz = ck_needed state sz"
  by (simp add: ck_enter_def)

lemma decode_needs:
  "decode_body m state sz cl acc b = Body_done cl' acc' left \<Longrightarrow> ck_needed state sz + length left \<le> length b"
proof (induction m state sz cl acc b rule: decode_body.induct)
  case (2 m state sz cl acc ch b)
  show ?case
  proof (cases "state = sw_chunk_data \<and> sz \<noteq> 0")
    case True
    then show ?thesis using 2 by (auto split: if_splits)
  next
    case False
    show ?thesis
    proof (cases "ck_switch (ck_enter state sz) sz ch")
      case (Ck_next s z)
      then have z: "z \<le> NGX_MAX_OFF_T - 5" and d: "decode_body m s z cl acc b = Body_done cl' acc' left"
        using 2(3) False by (auto split: if_splits)
      have "ck_needed s z + length left \<le> length b" using 2(2) [OF False Ck_next _ d] z by simp
      then show ?thesis using ck_needed_step [OF Ck_next z] by (simp add: ck_needed_enter)
    qed (use 2(3) False ck_needed_done [of "ck_enter state sz" sz ch] in \<open>auto simp: ck_needed_enter\<close>)
  qed
qed simp

text \<open>A shortest way to the end of the body.\<close>

definition finish_data :: bytes where "finish_data = [LF, chr CHR ''0'', LF, LF]"

fun ck_finish :: "chunked_state \<Rightarrow> nat \<Rightarrow> bytes" where
  "ck_finish sw_chunk_start sz = [chr CHR ''0'', LF, LF]"
| "ck_finish sw_chunk_size sz = LF # (if sz \<noteq> 0 then replicate sz 0 @ finish_data else [LF])"
| "ck_finish sw_chunk_extension sz = LF # replicate sz 0 @ finish_data"
| "ck_finish sw_chunk_extension_almost_done sz = LF # replicate sz 0 @ finish_data"
| "ck_finish sw_chunk_data sz = replicate sz 0 @ finish_data"
| "ck_finish sw_after_data sz = finish_data"
| "ck_finish sw_after_data_almost_done sz = finish_data"
| "ck_finish sw_trailer sz = [LF]"
| "ck_finish sw_trailer_almost_done sz = [LF]"
| "ck_finish _ sz = [LF, LF]"

lemma length_ck_finish: "length (ck_finish state sz) = ck_needed state sz"
  by (cases state) (simp_all add: finish_data_def)

lemma ck_hex_zero [simp]: "ck_hex 48 = Some 0"
  by (simp add: ck_hex_def)

lemma decode_finish_start: "\<exists>cl' acc'. decode_body 0 sw_chunk_start sz cl acc [48, LF, LF] = Body_done cl' acc' []"
  by (simp add: ck_enter_def ck_chunk_start_def ck_chunk_size_def)

lemma decode_finish_after:
  assumes "state \<in> {sw_after_data, sw_after_data_almost_done} \<or> state = sw_chunk_data \<and> sz = 0" "sz \<le> NGX_MAX_OFF_T - 5"
  shows "\<exists>cl' acc'. decode_body 0 state sz cl acc finish_data = Body_done cl' acc' []"
  using assms decode_finish_start [of sz cl acc] by (auto simp: finish_data_def ck_enter_def ck_line_def ck_lf_def)

lemma decode_finish_data:
  assumes "sz \<le> NGX_MAX_OFF_T - 5"
  shows "\<exists>cl' acc'. decode_body 0 sw_chunk_data sz cl acc (replicate sz 0 @ finish_data) = Body_done cl' acc' []"
proof (cases "sz = 0")
  case False
  then show ?thesis
    using decode_data [of sz "replicate sz 0 @ finish_data" 0 cl acc] decode_finish_after [of sw_chunk_data 0] by auto
qed (use decode_finish_after assms in simp)

lemma decode_finish:
  assumes "sz \<le> NGX_MAX_OFF_T div 16"
  shows "\<exists>cl' acc'. decode_body 0 state sz cl acc (ck_finish state sz) = Body_done cl' acc' []"
proof -
  have sz: "sz \<le> NGX_MAX_OFF_T - 5" "\<not> NGX_MAX_OFF_T - 5 < sz" using assms by (simp_all add: NGX_MAX_OFF_T_def)
  note data = decode_finish_data [OF sz(1)]
  show ?thesis
    using assms data sz decode_finish_after [of _ sz] decode_finish_start [of sz cl acc]
    by (cases state) (auto simp: ck_enter_def ck_chunk_size_def ck_line_def ck_lf_def)
qed

lemma filter_buf_done_iff:
  assumes "ck_wf (rb_chunked rb)" "chunked_filter_buf enough_memory m rb out n b = (rb', Inr (out', n', left))"
    "rb_rest rb' = 0"
  shows "decode_ctx m (rb_chunked rb) (content_length_n rb) (body_data out) b =
    Body_done (content_length_n rb') (body_data out') left"
proof -
  let ?d = "decode_ctx m (rb_chunked rb) (content_length_n rb) (body_data out) b"
  have "norm_ref ?d = Body_done (content_length_n rb') (body_data out') left"
    using filter_buf_decode [OF assms(1), of m out b n] assms(2,3) by simp
  then show ?thesis by (cases ?d) auto
qed

lemma filter_buf_completes:
  assumes "ck_wf (rb_chunked rb)"
    "decode_ctx m (rb_chunked rb) (content_length_n rb) (body_data out) b = Body_done cl acc left"
  shows "\<exists>rb' out' n'. chunked_filter_buf enough_memory m rb out n b = (rb', Inr (out', n', left))
    \<and> rb_rest rb' = 0 \<and> body_data out' = acc"
proof -
  obtain rb' y where f: "chunked_filter_buf enough_memory m rb out n b = (rb', y)" by (metis surj_pair)
  have "norm_ref (filter_ref (rb', y)) = Body_done cl acc left"
    using filter_buf_decode [OF assms(1), of m out b n] assms(2) f by simp
  then show ?thesis using f by (cases y) (auto split: if_splits)
qed

lemma filter_not_done_before:
  assumes "decode_body m state sz cl acc (concat bufs) = Body_done cl' acc' []" "[] \<notin> set bufs" "i < length bufs"
  shows "\<not> body_is_done (decode_body m state sz cl acc (concat (take i bufs)))"
proof
  assume "body_is_done (decode_body m state sz cl acc (concat (take i bufs)))"
  then obtain c a l where d: "decode_body m state sz cl acc (concat (take i bufs)) = Body_done c a l"
    by (auto simp: body_is_done_def)
  have "concat bufs = concat (take i bufs) @ concat (drop i bufs)"
    by (metis append_take_drop_id concat_append)
  then have "l @ concat (drop i bufs) = []" using assms(1) d by (simp add: decode_body_append)
  moreover have "concat (drop i bufs) \<noteq> []"
    using assms(2,3) by (metis Cons_nth_drop_Suc append_is_Nil_conv concat.simps(2) nth_mem)
  ultimately show False by simp
qed

lemma new_chunked_wf: "ck_wf new_chunked"
  by (simp add: ck_wf_def new_chunked_def ck_pos_def ck_enter_def)

text \<open>Discarding reads as handing on does.\<close>

lemma discard_chunked_like_filter:
  "case chunked_filter_buf enough_memory 0 rb out n b of
     (rb1, Inl status) \<Rightarrow> \<exists>rb2 left. discard_chunked rb' b = (status, rb2, left)
   | (rb1, Inr (out1, n1, left)) \<Rightarrow> \<exists>rb2. discard_chunked rb' b = (NGX_OK, rb2, left)
        \<and> content_length_n rb2 = rb_rest rb1 \<and> rb_chunked rb2 = rb_chunked rb1"
  if "rb_chunked rb' = rb_chunked rb"
  using that
proof (induction "ok_measure (rb_chunked rb) b" arbitrary: rb rb' out n b rule: less_induct)
  case less
  obtain rc ctx pos where p: "ngx_http_parse_chunked (rb_chunked rb) b = (rc, ctx, pos)" by (metis prod_cases3)
  show ?case
  proof (cases "rc = NGX_OK")
    case ok: True
    obtain taken left ctx' where t: "take_data ctx pos = (taken, left, ctx')" by (metis prod_cases3)
    let ?rb = "rb\<lparr>rb_chunked := ctx', content_length_n := content_length_n rb + int (length taken)\<rparr>"
    have "ok_measure (rb_chunked ?rb) left < ok_measure (rb_chunked rb) b"
      using take_data_measure [OF p [unfolded ok] t] by simp
    note IH = less.hyps [OF this, of "rb'\<lparr>rb_chunked := ctx'\<rparr>" "out @ [Body_data taken]" "n + 1"]
    have "discard_chunked rb' b = discard_chunked (rb'\<lparr>rb_chunked := ctx'\<rparr>) left"
      using p ok t less.prems by (subst discard_chunked.simps) simp
    then show ?thesis using IH by (simp add: filter_buf_ok [OF p [unfolded ok] t])
  next
    case no: False
    then show ?thesis
      unfolding filter_buf_end [OF p no] using p less.prems
      by (subst (1 2) discard_chunked.simps) (auto simp: ngx_codes)
  qed
qed

subsection \<open>Properties\<close>

text \<open>
  C3: The chunked filter decodes: a body sent in non-empty chunks, each with its size in
  hexadecimal and an optional extension, and cut into buffers in any way, is handed on
  whole and in order, followed by the buffer that marks the end; \<open>rest\<close> is 0, the content
  length is the length of the body, the last buffer is read to its end, and the return value
  is the one of the next filter. The body may be as long as the limit, if there is one.
\<close>

theorem chunked_body_roundtrip:
  assumes "list_all frame_ok fs" "concat bufs = body_text fs" "[] \<notin> set bufs" "rb_rest rb = -1"
    and "m = 0 \<or> int (length (concat (map frame_data fs))) \<le> m"
  shows "\<exists>rb' out lefts. ngx_http_request_body_chunked_filter enough_memory m next_filter rb bufs =
      (next_filter out, rb', out, lefts)
    \<and> body_data out = concat (map frame_data fs) \<and> out \<noteq> [] \<and> last out = Last_buf
    \<and> rb_rest rb' = 0 \<and> content_length_n rb' = int (length (concat (map frame_data fs))) \<and> last lefts = []"
proof -
  let ?rb = "rb\<lparr>rb_chunked := new_chunked, content_length_n := 0, rb_rest := 3\<rparr>"
  let ?body = "concat (map frame_data fs)"
  have d: "decode_body m sw_chunk_start 0 0 [] (concat bufs) = Body_done (int (length ?body)) ?body []"
    using decode_frames [OF assms(1), of m 0 0 "[]" "[]"] assms(2,5) by simp
  have ne: "bufs \<noteq> []" using assms(2) by (auto simp: body_text_def)
  obtain rb' y where c: "chunked_filter_chain enough_memory m ?rb [] 1 [] bufs = (rb', y)" by (metis surj_pair)
  have "norm_ref (decode_ctx m new_chunked 0 [] (concat bufs)) = norm_ref (chain_ref (rb', y)) \<and> chain_wf (rb', y)"
    using filter_chain_decode [of ?rb bufs m "[]" 1 "[]"] c new_chunked_wf ne filter_not_done_before [OF d assms(3)]
    by (simp add: decode_ctx_def new_chunked_def)
  then have r: "norm_ref (chain_ref (rb', y)) = Body_done (int (length ?body)) ?body []" "chain_wf (rb', y)"
    using d by (auto simp: decode_ctx_def new_chunked_def)
  then obtain out lefts where y: "y = Inr (out, lefts)" "rb_rest rb' = 0"
    by (cases y) (auto simp: chain_ref_def split: if_splits)
  then show ?thesis
    using r c assms(4) by (auto simp: ngx_http_request_body_chunked_filter_def Let_def chain_ref_def chain_wf_def)
qed

theorem chunked_body_roundtrip_witness:
  "\<exists>rb' out lefts. ngx_http_request_body_chunked_filter enough_memory 5 (\<lambda>_. NGX_OK)
       \<lparr>request_body = True, rb_rest = -1, rb_chunked = new_chunked, content_length_n = 0, lingering_close = False\<rparr>
       [str ''3'', [13, 10] @ str ''ab'', str ''c'' @ [13, 10] @ str ''0'' @ [13], [10, 13, 10]] = (NGX_OK, rb', out, lefts)
     \<and> body_data out = str ''abc''"
proof -
  let ?f = "(str ''3'', [], str ''abc'')"
  have "list_all frame_ok [?f]" by (simp add: ck_hex_def NGX_MAX_OFF_T_def)
  then show ?thesis
    using chunked_body_roundtrip [of "[?f]"
        "[str ''3'', [13, 10] @ str ''ab'', str ''c'' @ [13, 10] @ str ''0'' @ [13], [10, 13, 10]]"
        "\<lparr>request_body = True, rb_rest = -1, rb_chunked = new_chunked, content_length_n = 0, lingering_close = False\<rparr>"
        5 "\<lambda>_. NGX_OK"]
    by (simp add: body_text_def) blast
qed

text \<open>
  C5: Taking the data of a chunk out of the buffers in slices is the same as reading the
  body byte by byte: whatever the bytes, the split into buffers and the limit, the filter
  returns the status the byte-by-byte decoder fails with, and else hands on exactly the
  bytes that decoder has collected, ends in the same state, and sets \<open>rest\<close> to what that
  state needs, or to 0 at the end of the body. No buffer before the last may complete the
  body.
\<close>

theorem chunked_filter_refines:
  assumes "ck_wf (rb_chunked rb)" "bufs \<noteq> []" "rb_rest rb \<noteq> -1"
    and "\<forall>i<length bufs. \<not> body_is_done (decode_ctx m (rb_chunked rb) (content_length_n rb) [] (concat (take i bufs)))"
  shows "case ngx_http_request_body_chunked_filter enough_memory m next_filter rb bufs of (rc, rb', out, lefts) \<Rightarrow>
    (case decode_ctx m (rb_chunked rb) (content_length_n rb) [] (concat bufs) of
       Body_fail status \<Rightarrow> rc = status \<and> out = []
     | Body_done cl acc left \<Rightarrow> rc = next_filter out \<and> body_data out = acc \<and> content_length_n rb' = cl
         \<and> rb_rest rb' = 0 \<and> last lefts = left
     | Body_more state sz cl acc \<Rightarrow> rc = next_filter out \<and> body_data out = acc \<and> content_length_n rb' = cl
         \<and> ck_enter (ck_state (rb_chunked rb')) (ck_size (rb_chunked rb')) = ck_enter state sz
         \<and> ck_size (rb_chunked rb') = sz \<and> rb_rest rb' = int (ck_needed state sz) \<and> ck_wf (rb_chunked rb'))"
proof -
  let ?d = "decode_ctx m (rb_chunked rb) (content_length_n rb) [] (concat bufs)"
  obtain rb' y where c: "chunked_filter_chain enough_memory m rb [] 0 [] bufs = (rb', y)" by (metis surj_pair)
  have r: "norm_ref ?d = norm_ref (chain_ref (rb', y))" "chain_wf (rb', y)"
    using filter_chain_decode [OF assms(1,2), of m "[]" 0 "[]"] c assms(4) by auto
  have f: "ngx_http_request_body_chunked_filter enough_memory m next_filter rb bufs =
    (case y of Inl status \<Rightarrow> (status, rb', [], bufs) | Inr (out, lefts) \<Rightarrow> (next_filter out, rb', out, lefts))"
    using c assms(3) by (auto simp: ngx_http_request_body_chunked_filter_def Let_def split: sum.split)
  show ?thesis
  proof (cases y)
    case (Inl status)
    then show ?thesis using r f by (cases ?d) (simp_all add: chain_ref_def)
  next
    case (Inr z)
    obtain out lefts where z: "z = (out, lefts)" by (cases z)
    show ?thesis
    proof (cases ?d)
      case (Body_more state sz cl acc)
      then have "rb_rest rb' \<noteq> 0" "ck_needed (ck_state (rb_chunked rb')) (ck_size (rb_chunked rb')) = ck_needed state sz"
        using r ck_needed_enter [of state sz] ck_needed_enter [of "ck_state (rb_chunked rb')" sz]
        by (auto simp: Inr z chain_ref_def split: if_splits)
      then show ?thesis using r f Body_more by (auto simp: Inr z chain_ref_def chain_wf_def)
    qed (use r f in \<open>auto simp: Inr z chain_ref_def split: if_splits\<close>)
  qed
qed

theorem chunked_filter_refines_witness:
  "\<exists>rb' lefts. ngx_http_request_body_chunked_filter enough_memory 0 (\<lambda>_. NGX_OK)
       \<lparr>request_body = True, rb_rest = 3, rb_chunked = new_chunked, content_length_n = 0, lingering_close = False\<rparr>
       [str ''g''] = (NGX_HTTP_BAD_REQUEST, rb', [], lefts)"
proof -
  let ?rb = "\<lparr>request_body = True, rb_rest = 3, rb_chunked = new_chunked, content_length_n = 0, lingering_close = False\<rparr>"
  have "decode_ctx 0 new_chunked 0 [] (str ''g'') = Body_fail NGX_HTTP_BAD_REQUEST"
    by (simp add: decode_ctx_def new_chunked_def ck_enter_def ck_chunk_start_def ck_hex_def)
  moreover have "\<not> body_is_done (decode_ctx 0 new_chunked 0 [] [])"
    by (simp add: decode_ctx_def body_is_done_def)
  ultimately show ?thesis
    using chunked_filter_refines [of ?rb "[str ''g'']" 0 "\<lambda>_. NGX_OK"] new_chunked_wf
    by (auto split: prod.splits)
qed

text \<open>
  C4: \<open>rest\<close> is exact. While the body is incomplete, the number of bytes the filter asks for
  next is a lower bound for every continuation that completes the body, so that no byte
  after the body is ever asked for; it is reached by some continuation whenever the size
  read so far is one a chunk can have; and it fits \<open>off_t\<close>.
\<close>

theorem chunked_rest_exact:
  assumes "ck_wf (rb_chunked rb)" "chunked_filter_buf enough_memory 0 rb [] 0 b = (rb1, Inr (out, n, left))" "rb_rest rb1 \<noteq> 0"
  shows "rb_rest rb1 \<le> int NGX_MAX_OFF_T
    \<and> (\<forall>c rb2 out2 n2 left2. chunked_filter_buf enough_memory 0 rb1 out n c = (rb2, Inr (out2, n2, left2)) \<and> rb_rest rb2 = 0
         \<longrightarrow> rb_rest rb1 + int (length left2) \<le> int (length c))
    \<and> (ck_size (rb_chunked rb1) \<le> NGX_MAX_OFF_T div 16 \<longrightarrow>
        (\<exists>c rb2 out2 n2. int (length c) = rb_rest rb1
           \<and> chunked_filter_buf enough_memory 0 rb1 out n c = (rb2, Inr (out2, n2, [])) \<and> rb_rest rb2 = 0))"
proof -
  let ?c = "rb_chunked rb1"
  have wf: "ck_wf ?c" and rest: "rb_rest rb1 = int (ck_needed (ck_state ?c) (ck_size ?c))"
    using filter_buf_decode [OF assms(1), of 0 "[]" b 0] assms(2,3) by (auto simp: filter_wf_def)
  have "rb_rest rb1 \<le> int NGX_MAX_OFF_T"
    unfolding rest using wf by (cases "ck_state ?c") (auto simp: ck_wf_def NGX_MAX_OFF_T_def)
  moreover have "rb_rest rb1 + int (length left2) \<le> int (length c)"
    if "chunked_filter_buf enough_memory 0 rb1 out n c = (rb2, Inr (out2, n2, left2))" "rb_rest rb2 = 0" for c rb2 out2 n2 left2
    using decode_needs [OF filter_buf_done_iff [OF wf that, unfolded decode_ctx_def]] rest by simp
  moreover have "\<exists>c rb2 out2 n2. int (length c) = rb_rest rb1
      \<and> chunked_filter_buf enough_memory 0 rb1 out n c = (rb2, Inr (out2, n2, [])) \<and> rb_rest rb2 = 0"
    if small: "ck_size ?c \<le> NGX_MAX_OFF_T div 16"
  proof -
    let ?b = "ck_finish (ck_state ?c) (ck_size ?c)"
    obtain cl acc where "decode_ctx 0 ?c (content_length_n rb1) (body_data out) ?b = Body_done cl acc []"
      using decode_finish [OF small, of "ck_state ?c"] unfolding decode_ctx_def by blast
    from filter_buf_completes [OF wf this, of n] show ?thesis
      by (intro exI [of _ ?b]) (auto simp: rest length_ck_finish)
  qed
  ultimately show ?thesis by blast
qed

theorem chunked_rest_exact_witness:
  "\<exists>c rb2 out2 n2. length c = 3
     \<and> chunked_filter_buf enough_memory 0
         \<lparr>request_body = True, rb_rest = 3, rb_chunked = \<lparr>ck_state = sw_chunk_start, ck_size = 0, ck_length = 3\<rparr>,
          content_length_n = 0, lingering_close = False\<rparr> [] 0 c = (rb2, Inr (out2, n2, []))"
proof -
  let ?rb = "\<lparr>request_body = True, rb_rest = 3, rb_chunked = new_chunked, content_length_n = 0, lingering_close = False\<rparr>"
  let ?rb1 = "\<lparr>request_body = True, rb_rest = 3, rb_chunked = \<lparr>ck_state = sw_chunk_start, ck_size = 0, ck_length = 3\<rparr>,
    content_length_n = 0, lingering_close = False\<rparr>"
  have "chunked_filter_buf enough_memory 0 ?rb [] 0 [] = (?rb1, Inr ([], 0, []))"
    by (subst chunked_filter_buf.simps)
      (simp add: ngx_http_parse_chunked_def new_chunked_def ck_enter_def NGX_MAX_OFF_T_def ngx_codes)
  from chunked_rest_exact [OF _ this] new_chunked_wf show ?thesis by simp blast
qed

text \<open>
  C6: Throwing a chunked body away reads it exactly as handing it on does: the discarding
  filter fails when the other one does, leaves the same context and the same unread bytes,
  and asks for the same number of bytes next.
\<close>

theorem discard_like_filter:
  "case chunked_filter_buf enough_memory 0 rb out n b of
     (rb1, Inl status) \<Rightarrow>
       \<exists>rb2 left. ngx_http_discard_request_body_filter True mem (rb\<lparr>request_body := True\<rparr>) b = (status, rb2, left)
   | (rb1, Inr (out1, n1, left)) \<Rightarrow>
       \<exists>rb2. ngx_http_discard_request_body_filter True mem (rb\<lparr>request_body := True\<rparr>) b = (NGX_OK, rb2, left)
        \<and> content_length_n rb2 = rb_rest rb1 \<and> rb_chunked rb2 = rb_chunked rb1"
proof -
  have eq: "ngx_http_discard_request_body_filter True mem (rb\<lparr>request_body := True\<rparr>) b = discard_chunked (rb\<lparr>request_body := True\<rparr>) b"
    by (simp add: ngx_http_discard_request_body_filter_def)
  show ?thesis
    unfolding eq
    using discard_chunked_like_filter [where rb' = "rb\<lparr>request_body := True\<rparr>" and rb = rb and out = out and n = n and b = b]
    by simp
qed

end
