(* ===== verification/Http_Uri.thy ===== *)
theory Http_Uri
  imports Http_Request_Line
begin

unbundle bit_operations_syntax

section \<open>The request URI (ngx_http_parse.c, ngx_http_request.c)\<close>

text \<open>
  \<open>ngx_http_parse_uri\<close> only looks at a URI and notes whether it needs work;
  \<open>ngx_http_parse_complex_uri\<close> decodes escapes, merges slashes and resolves dot segments,
  writing into a buffer of its own; \<open>ngx_http_process_request_uri\<close> calls it when the flags
  say so and else uses the bytes as they are. The build is the one without \<open>NGX_WIN32\<close>.
\<close>

subsection \<open>ngx_http_parse_uri\<close>

datatype pu_state = pu_start | pu_after_slash_in_uri | pu_check_uri | pu_uri

definition pu_after_slash :: "ngx_http_request_t \<Rightarrow> nat \<Rightarrow> byte \<Rightarrow> pu_state \<times> ngx_http_request_t" where
  "pu_after_slash r p ch =
     (if is_usual ch then (pu_check_uri, r)
      else if ch = chr CHR '' '' then (pu_check_uri, r\<lparr>space_in_uri := True\<rparr>)
      else if ch = chr CHR ''.'' then (pu_uri, r\<lparr>complex_uri := True\<rparr>)
      else if ch = chr CHR ''%'' then (pu_uri, r\<lparr>quoted_uri := True\<rparr>)
      else if ch = chr CHR ''/'' then (pu_uri, r\<lparr>complex_uri := True\<rparr>)
      else if ch = chr CHR ''?'' then (pu_uri, r\<lparr>args_start := Some (p + 1)\<rparr>)
      else if ch = chr CHR ''#'' then (pu_uri, r\<lparr>complex_uri := True\<rparr>)
      else if ch = chr CHR ''+'' then (pu_after_slash_in_uri, r\<lparr>plus_in_uri := True\<rparr>)
      else (pu_check_uri, r))"

definition pu_check :: "ngx_http_request_t \<Rightarrow> nat \<Rightarrow> byte \<Rightarrow> pu_state \<times> ngx_http_request_t" where
  "pu_check r p ch =
     (if is_usual ch then (pu_check_uri, r)
      else if ch = chr CHR ''/'' then (pu_after_slash_in_uri, r\<lparr>uri_ext := None\<rparr>)
      else if ch = chr CHR ''.'' then (pu_check_uri, r\<lparr>uri_ext := Some (p + 1)\<rparr>)
      else if ch = chr CHR '' '' then (pu_check_uri, r\<lparr>space_in_uri := True\<rparr>)
      else if ch = chr CHR ''%'' then (pu_uri, r\<lparr>quoted_uri := True\<rparr>)
      else if ch = chr CHR ''?'' then (pu_uri, r\<lparr>args_start := Some (p + 1)\<rparr>)
      else if ch = chr CHR ''#'' then (pu_uri, r\<lparr>complex_uri := True\<rparr>)
      else if ch = chr CHR ''+'' then (pu_check_uri, r\<lparr>plus_in_uri := True\<rparr>)
      else (pu_check_uri, r))"

definition pu_rest :: "ngx_http_request_t \<Rightarrow> nat \<Rightarrow> byte \<Rightarrow> pu_state \<times> ngx_http_request_t" where
  "pu_rest r p ch =
     (if is_usual ch then (pu_uri, r)
      else if ch = chr CHR '' '' then (pu_uri, r\<lparr>space_in_uri := True\<rparr>)
      else if ch = chr CHR ''#'' then (pu_uri, r\<lparr>complex_uri := True\<rparr>)
      else (pu_uri, r))"

text \<open>The loop; \<open>p\<close> is an offset into the buffer, the list the bytes from \<open>p\<close> to \<open>uri_end\<close>.\<close>

fun pu_loop :: "pu_state \<Rightarrow> ngx_http_request_t \<Rightarrow> nat \<Rightarrow> bytes \<Rightarrow> int \<times> ngx_http_request_t" where
  "pu_loop state r p [] = (NGX_OK, r)"
| "pu_loop pu_start r p (ch # b) =
     (if ch \<noteq> chr CHR ''/'' then (NGX_ERROR, r) else pu_loop pu_after_slash_in_uri r (p + 1) b)"
| "pu_loop pu_after_slash_in_uri r p (ch # b) = (case pu_after_slash r p ch of (state, r) \<Rightarrow> pu_loop state r (p + 1) b)"
| "pu_loop pu_check_uri r p (ch # b) = (case pu_check r p ch of (state, r) \<Rightarrow> pu_loop state r (p + 1) b)"
| "pu_loop pu_uri r p (ch # b) = (case pu_rest r p ch of (state, r) \<Rightarrow> pu_loop state r (p + 1) b)"

abbreviation uri_text :: "ngx_http_request_t \<Rightarrow> bytes" where
  "uri_text r \<equiv> slice (seen r) (the (uri_start r)) (the (uri_end r))"

definition ngx_http_parse_uri :: "ngx_http_request_t \<Rightarrow> int \<times> ngx_http_request_t" where
  "ngx_http_parse_uri r = pu_loop pu_start r (the (uri_start r)) (uri_text r)"

subsection \<open>ngx_http_parse_complex_uri\<close>

text \<open>
  The states in which \<open>quoted_state\<close> is saved, and the others. \<open>cu_u\<close> holds the bytes from
  \<open>r->uri.data\<close> to \<open>u\<close>, \<open>cu_cap\<close> the number of bytes allocated there; a write past them is
  \<open>Cu_oob\<close>. \<open>cu_ext\<close> is \<open>r->uri_ext\<close> as an offset from \<open>r->uri.data\<close>.
\<close>

datatype cu_plain = cu_usual | cu_slash | cu_dot | cu_dot_dot
datatype cu_state = Plain cu_plain | cu_quoted | cu_quoted_second

record complex_t =
  cu_st :: cu_state
  cu_quoted_state :: cu_plain
  cu_decoded :: byte
  cu_u :: bytes
  cu_cap :: nat
  cu_ext :: "nat option"
  cu_plus :: bool
  cu_quoted_uri :: bool

datatype cu_act = Cu_next complex_t | Cu_args complex_t | Cu_done complex_t | Cu_invalid | Cu_oob

definition cu_put :: "complex_t \<Rightarrow> cu_plain \<Rightarrow> byte \<Rightarrow> cu_act" where
  "cu_put c s ch =
     (if length (cu_u c) < cu_cap c then Cu_next (c\<lparr>cu_st := Plain s, cu_u := cu_u c @ [ch]\<rparr>) else Cu_oob)"

definition cu_quote :: "complex_t \<Rightarrow> cu_plain \<Rightarrow> cu_act" where
  "cu_quote c s = Cu_next (c\<lparr>cu_quoted_state := s, cu_st := cu_quoted\<rparr>)"

definition cu_in_usual :: "complex_t \<Rightarrow> byte \<Rightarrow> cu_act" where
  "cu_in_usual c ch =
     (if is_usual ch then cu_put c cu_usual ch
      else if ch = chr CHR ''/'' then cu_put (c\<lparr>cu_ext := None\<rparr>) cu_slash ch
      else if ch = chr CHR ''%'' then cu_quote c cu_usual
      else if ch = chr CHR ''?'' then Cu_args c
      else if ch = chr CHR ''#'' then Cu_done c
      else if ch = chr CHR ''.'' then cu_put (c\<lparr>cu_ext := Some (length (cu_u c) + 1)\<rparr>) cu_usual ch
      else if ch = chr CHR ''+'' then cu_put (c\<lparr>cu_plus := True\<rparr>) cu_usual ch
      else cu_put c cu_usual ch)"

definition cu_in_slash :: "bool \<Rightarrow> complex_t \<Rightarrow> byte \<Rightarrow> cu_act" where
  "cu_in_slash merge_slashes c ch =
     (if is_usual ch then cu_put c cu_usual ch
      else if ch = chr CHR ''/'' then
        if \<not> merge_slashes then cu_put c cu_slash ch else Cu_next (c\<lparr>cu_st := Plain cu_slash\<rparr>)
      else if ch = chr CHR ''.'' then cu_put c cu_dot ch
      else if ch = chr CHR ''%'' then cu_quote c cu_slash
      else if ch = chr CHR ''?'' then Cu_args c
      else if ch = chr CHR ''#'' then Cu_done c
      else if ch = chr CHR ''+'' then cu_put (c\<lparr>cu_plus := True\<rparr>) cu_usual ch
      else cu_put c cu_usual ch)"

definition cu_in_dot :: "complex_t \<Rightarrow> byte \<Rightarrow> cu_act" where
  "cu_in_dot c ch =
     (if is_usual ch then cu_put c cu_usual ch
      else if ch = chr CHR ''/'' then Cu_next (c\<lparr>cu_st := Plain cu_slash, cu_u := butlast (cu_u c)\<rparr>)
      else if ch = chr CHR ''.'' then cu_put c cu_dot_dot ch
      else if ch = chr CHR ''%'' then cu_quote c cu_dot
      else if ch = chr CHR ''?'' then Cu_args c
      else if ch = chr CHR ''#'' then Cu_done c
      else if ch = chr CHR ''+'' then cu_put (c\<lparr>cu_plus := True\<rparr>) cu_usual ch
      else cu_put c cu_usual ch)"

text \<open>
  The loop that looks for the slash before the last segment: \<open>cu_back u n\<close> starts at the
  byte with index \<open>n - 1\<close>; with \<open>n = 0\<close> the pointer is below \<open>r->uri.data\<close>.
\<close>

fun cu_back :: "bytes \<Rightarrow> nat \<Rightarrow> bytes option" where
  "cu_back u 0 = None"
| "cu_back u (Suc i) = (if u ! i = chr CHR ''/'' then Some (take (Suc i) u) else cu_back u i)"

definition cu_in_dot_dot :: "complex_t \<Rightarrow> byte \<Rightarrow> cu_act" where
  "cu_in_dot_dot c ch =
     (if is_usual ch then cu_put c cu_usual ch
      else if ch = chr CHR ''/'' then
        (case cu_back (cu_u c) (length (cu_u c) - 4) of
           None \<Rightarrow> Cu_invalid
         | Some u \<Rightarrow> Cu_next (c\<lparr>cu_st := Plain cu_slash, cu_u := u\<rparr>))
      else if ch = chr CHR ''%'' then cu_quote c cu_dot_dot
      else if ch = chr CHR ''?'' then Cu_args c
      else if ch = chr CHR ''#'' then Cu_done c
      else if ch = chr CHR ''+'' then cu_put (c\<lparr>cu_plus := True\<rparr>) cu_usual ch
      else cu_put c cu_usual ch)"

fun cu_plain_switch :: "bool \<Rightarrow> cu_plain \<Rightarrow> complex_t \<Rightarrow> byte \<Rightarrow> cu_act" where
  "cu_plain_switch m cu_usual c ch = cu_in_usual c ch"
| "cu_plain_switch m cu_slash c ch = cu_in_slash m c ch"
| "cu_plain_switch m cu_dot c ch = cu_in_dot c ch"
| "cu_plain_switch m cu_dot_dot c ch = cu_in_dot_dot c ch"

definition cu_in_quoted :: "complex_t \<Rightarrow> byte \<Rightarrow> cu_act" where
  "cu_in_quoted c ch =
     (let r = c\<lparr>cu_quoted_uri := True\<rparr>; l = ch OR 0x20 in
      if ch \<ge> chr CHR ''0'' \<and> ch \<le> chr CHR ''9'' then
        Cu_next (r\<lparr>cu_decoded := ch - chr CHR ''0'', cu_st := cu_quoted_second\<rparr>)
      else if l \<ge> chr CHR ''a'' \<and> l \<le> chr CHR ''f'' then
        Cu_next (r\<lparr>cu_decoded := l - chr CHR ''a'' + 10, cu_st := cu_quoted_second\<rparr>)
      else Cu_invalid)"

text \<open>
  The second digit. Where the source leaves the switch without reading the next byte, the
  next turn of the loop handles the decoded byte in the state before the escape; that turn
  is part of the definition.
\<close>

definition cu_in_quoted_second :: "bool \<Rightarrow> complex_t \<Rightarrow> byte \<Rightarrow> cu_act" where
  "cu_in_quoted_second m c ch =
     (let l = ch OR 0x20; q = cu_quoted_state c in
      if ch \<ge> chr CHR ''0'' \<and> ch \<le> chr CHR ''9'' then
        let ch = push_bit 4 (cu_decoded c) + ch - chr CHR ''0'' in
        if ch = chr CHR ''%'' \<or> ch = chr CHR ''#'' then cu_put c cu_usual ch
        else if ch = 0 then Cu_invalid
        else cu_plain_switch m q (c\<lparr>cu_st := Plain q\<rparr>) ch
      else if l \<ge> chr CHR ''a'' \<and> l \<le> chr CHR ''f'' then
        let ch = push_bit 4 (cu_decoded c) + l - chr CHR ''a'' + 10 in
        if ch = chr CHR ''?'' then cu_put c cu_usual ch
        else
          let c = (if ch = chr CHR ''+'' then c\<lparr>cu_plus := True\<rparr> else c) in
          cu_plain_switch m q (c\<lparr>cu_st := Plain q\<rparr>) ch
      else Cu_invalid)"

definition cu_switch :: "bool \<Rightarrow> complex_t \<Rightarrow> byte \<Rightarrow> cu_act" where
  "cu_switch m c ch = (case cu_st c of
       Plain s \<Rightarrow> cu_plain_switch m s c ch
     | cu_quoted \<Rightarrow> cu_in_quoted c ch
     | cu_quoted_second \<Rightarrow> cu_in_quoted_second m c ch)"

text \<open>
  The loop: \<open>ch\<close> is the byte before \<open>p\<close>, the list the bytes from \<open>p\<close> up to and including the
  one at \<open>uri_end\<close>, so that it is empty exactly when \<open>p > uri_end\<close>. The result comes with the
  bytes from \<open>p\<close>.
\<close>

fun cu_loop :: "bool \<Rightarrow> complex_t \<Rightarrow> byte \<Rightarrow> bytes \<Rightarrow> cu_act \<times> bytes" where
  "cu_loop m c ch [] = (Cu_done c, [])"
| "cu_loop m c ch (x # xs) =
     (case cu_switch m c ch of
        Cu_next c' \<Rightarrow> cu_loop m c' x xs
      | act \<Rightarrow> (act, x # xs))"

text \<open>The loop after the label \<open>args\<close>: the number of bytes before a \<open>#\<close>, if there is one.\<close>

fun cu_args_loop :: "nat \<Rightarrow> bytes \<Rightarrow> nat option" where
  "cu_args_loop n [] = None"
| "cu_args_loop n (x # xs) = (if x \<noteq> chr CHR ''#'' then cu_args_loop (n + 1) xs else Some n)"

text \<open>What the function leaves in the request; \<open>args_start\<close> is an offset from \<open>uri_start\<close>.\<close>

record uri_parts =
  up_uri :: bytes
  up_exten :: "bytes option"
  up_args :: "bytes option"
  up_args_start :: "nat option"
  up_plus :: bool
  up_quoted :: bool

datatype uri_result = Uri_ok uri_parts | Uri_invalid | Uri_oob

definition cu_finish :: "complex_t \<Rightarrow> bytes option \<Rightarrow> nat option \<Rightarrow> uri_result" where
  "cu_finish c args astart = Uri_ok
     \<lparr>up_uri = cu_u c, up_exten = map_option (\<lambda>e. drop e (cu_u c)) (cu_ext c), up_args = args,
      up_args_start = astart, up_plus = cu_plus c, up_quoted = cu_quoted_uri c\<rparr>"

definition new_cu :: "nat \<Rightarrow> complex_t" where
  "new_cu cap = \<lparr>cu_st = Plain cu_usual, cu_quoted_state = cu_usual, cu_decoded = 0, cu_u = [], cu_cap = cap,
     cu_ext = None, cu_plus = False, cu_quoted_uri = False\<rparr>"

text \<open>\<open>s\<close> is the URI, \<open>after\<close> the byte at \<open>uri_end\<close>, \<open>cap\<close> the bytes allocated for the result.\<close>

definition ngx_http_parse_complex_uri :: "bool \<Rightarrow> nat \<Rightarrow> bytes \<Rightarrow> byte \<Rightarrow> uri_result" where
  "ngx_http_parse_complex_uri merge_slashes cap s after =
     (case cu_loop merge_slashes (new_cu cap) (hd (s @ [after])) (tl (s @ [after])) of
        (Cu_done c, _) \<Rightarrow> cu_finish c None None
      | (Cu_args c, p) \<Rightarrow>
          let rest = butlast p; start = length s - length rest in
          (case cu_args_loop 0 rest of
             None \<Rightarrow> cu_finish c None (Some start)
           | Some n \<Rightarrow> cu_finish c (Some (take n rest)) None)
      | (Cu_oob, _) \<Rightarrow> Uri_oob
      | _ \<Rightarrow> Uri_invalid)"

subsection \<open>ngx_http_process_request_uri\<close>

record request_uri =
  ru_uri :: bytes
  ru_exten :: bytes
  ru_args :: bytes
  ru_unparsed_uri :: bytes
  ru_valid_unparsed_uri :: bool

text \<open>The request goes on, or is finalized with a status; \<open>mem\<close>: the allocation succeeds.\<close>

datatype uri_outcome = Uri_go request_uri | Uri_status int | Uri_fault

definition request_args :: "bytes \<Rightarrow> nat option \<Rightarrow> bytes option \<Rightarrow> bytes" where
  "request_args s astart args =
     (case astart of
        Some a \<Rightarrow> if length s > a then drop a s else (case args of Some x \<Rightarrow> x | None \<Rightarrow> [])
      | None \<Rightarrow> (case args of Some x \<Rightarrow> x | None \<Rightarrow> []))"

definition ngx_http_process_request_uri :: "bool \<Rightarrow> bool \<Rightarrow> ngx_http_request_t \<Rightarrow> uri_outcome" where
  "ngx_http_process_request_uri merge_slashes mem r =
     (let s = uri_text r; start = the (uri_start r);
          len = (case args_start r of Some a \<Rightarrow> a - 1 - start | None \<Rightarrow> length s)
      in if complex_uri r \<or> quoted_uri r then
           if \<not> mem then Uri_status 500
           else
             (case ngx_http_parse_complex_uri merge_slashes (len + 1) s (seen r ! the (uri_end r)) of
                Uri_oob \<Rightarrow> Uri_fault
              | Uri_invalid \<Rightarrow> Uri_status 400
              | Uri_ok p \<Rightarrow> Uri_go
                  \<lparr>ru_uri = up_uri p, ru_exten = (case up_exten p of Some e \<Rightarrow> e | None \<Rightarrow> []),
                   ru_args = request_args s (up_args_start p) (up_args p),
                   ru_unparsed_uri = s, ru_valid_unparsed_uri = (\<not> space_in_uri r)\<rparr>)
         else Uri_go
           \<lparr>ru_uri = take len s,
            ru_exten = (case uri_ext r of Some e \<Rightarrow> slice s (e - start) len | None \<Rightarrow> []),
            ru_args = request_args s (map_option (\<lambda>a. a - start) (args_start r)) None,
            ru_unparsed_uri = s, ru_valid_unparsed_uri = (\<not> space_in_uri r)\<rparr>)"

subsection \<open>Reference: decode, split, resolve\<close>

text \<open>
  The path of a URI, decoded up to the first \<open>?\<close> or \<open>#\<close> that is not escaped: \<open>None\<close> when an
  escape has a byte that is not a hexadecimal digit or stands for NUL. An escape cut off by
  the end of the URI is dropped, as the source does.
\<close>

definition esc_digit :: "byte \<Rightarrow> byte option" where
  "esc_digit ch =
     (if ch \<ge> 48 \<and> ch \<le> 57 then Some (ch - 48)
      else let l = ch OR 0x20 in if l \<ge> 97 \<and> l \<le> 102 then Some (l - 97 + 10) else None)"

fun uri_decode :: "bytes \<Rightarrow> bytes option" where
  "uri_decode [] = Some []"
| "uri_decode (ch # s) =
     (if ch = chr CHR ''?'' \<or> ch = chr CHR ''#'' then Some []
      else if ch = chr CHR ''%'' then
        (case s of
           [] \<Rightarrow> Some []
         | [x] \<Rightarrow> if esc_digit x = None then None else Some []
         | x # y # s' \<Rightarrow>
             (case (esc_digit x, esc_digit y) of
                (Some d, Some e) \<Rightarrow>
                  let v = push_bit 4 d + e in
                  if v = 0 then None else map_option ((#) v) (uri_decode s')
              | _ \<Rightarrow> None))
      else map_option ((#) ch) (uri_decode s))"

fun segments :: "bytes \<Rightarrow> bytes \<Rightarrow> bytes list" where
  "segments cur [] = [cur]"
| "segments cur (ch # s) = (if ch = chr CHR ''/'' then cur # segments [] s else segments (cur @ [ch]) s)"

text \<open>
  Leaving a directory. With slashes not merged there may be empty segments; the source then
  takes away one more.
\<close>

definition leave_dir :: "bytes list \<Rightarrow> bytes list option" where
  "leave_dir stack =
     (if stack = [] then None
      else if last stack \<noteq> [] then Some (butlast stack)
      else if butlast stack = [] then None
      else Some (butlast (butlast stack)))"

definition enter_dir :: "bool \<Rightarrow> bytes list \<Rightarrow> bytes \<Rightarrow> bytes list option" where
  "enter_dir merge_slashes stack seg =
     (if seg = [] then Some (if merge_slashes then stack else stack @ [seg])
      else if seg = str ''.'' then Some stack
      else if seg = str ''..'' then leave_dir stack
      else Some (stack @ [seg]))"

definition render :: "bytes list \<Rightarrow> bytes \<Rightarrow> bytes" where
  "render stack seg = concat (map ((#) (chr CHR ''/'')) stack) @ chr CHR ''/'' # seg"

fun resolve :: "bool \<Rightarrow> bytes list \<Rightarrow> bytes list \<Rightarrow> bytes option" where
  "resolve m stack [] = None"
| "resolve m stack [seg] = Some (render stack seg)"
| "resolve m stack (seg # segs) =
     (case enter_dir m stack seg of None \<Rightarrow> None | Some stack' \<Rightarrow> resolve m stack' segs)"

definition normal_path :: "bool \<Rightarrow> bytes \<Rightarrow> bytes option" where
  "normal_path m s =
     (case uri_decode s of None \<Rightarrow> None | Some d \<Rightarrow> resolve m [] (segments [] d))"

subsection \<open>The parser computes the reference\<close>

definition plain_of :: "bytes \<Rightarrow> cu_plain" where
  "plain_of cur = (if cur = [] then cu_slash else if cur = [46] then cu_dot
     else if cur = [46, 46] then cu_dot_dot else cu_usual)"

lemma segments_ne: "segments cur s \<noteq> []"
  by (induction cur s rule: segments.induct) simp_all

lemma resolve_Cons:
  "segs \<noteq> [] \<Longrightarrow> resolve m stack (seg # segs) =
     (case enter_dir m stack seg of None \<Rightarrow> None | Some stack' \<Rightarrow> resolve m stack' segs)"
  by (cases segs; cases "enter_dir m stack seg") simp_all

lemma cu_back_find:
  assumes "47 \<notin> set ys"
  shows "cu_back (xs @ 47 # ys @ zs) (Suc (length xs + length ys)) = Some (xs @ [47])"
  using assms
proof (induction ys arbitrary: zs rule: rev_induct)
  case (snoc y ys)
  have "(xs @ 47 # (ys @ [y]) @ zs) ! (length xs + Suc (length ys)) = y" by (simp add: nth_append)
  then show ?case using snoc.IH [of "y # zs"] snoc.prems by simp
qed (simp add: nth_append)

lemma render_snoc: "render (stack @ [seg]) cur = render stack seg @ 47 # cur"
  by (simp add: render_def)

lemma cu_back_render:
  assumes "list_all (\<lambda>s. 47 \<notin> set s) stack"
  shows "cu_back (render stack [46, 46]) (length (render stack [46, 46]) - 4) = map_option (\<lambda>st. render st []) (leave_dir stack)"
proof (cases stack rule: rev_cases)
  case Nil
  then show ?thesis by (simp add: render_def leave_dir_def)
next
  case (snoc st seg)
  let ?p = "concat (map ((#) (47 :: byte)) st)"
  show ?thesis
  proof (cases seg rule: rev_cases)
    case (snoc seg' x)
    have "47 \<notin> set seg'" using assms \<open>stack = st @ [seg]\<close> snoc by simp
    from cu_back_find [OF this, of ?p "x # [47, 46, 46]"] show ?thesis
      using \<open>stack = st @ [seg]\<close> snoc by (simp add: render_def leave_dir_def)
  next
    case Nil
    show ?thesis
    proof (cases st rule: rev_cases)
      case Nil
      then show ?thesis using \<open>stack = st @ [seg]\<close> \<open>seg = []\<close> by (simp add: render_def leave_dir_def)
    next
      case (snoc st' seg')
      have "47 \<notin> set seg'" using assms \<open>stack = st @ [seg]\<close> snoc by simp
      from cu_back_find [OF this, of "concat (map ((#) 47) st')" "[47, 47, 46, 46]"] show ?thesis
        using \<open>stack = st @ [seg]\<close> \<open>seg = []\<close> snoc by (simp add: render_def leave_dir_def butlast_append)
    qed
  qed
qed

lemma length_render_leave:
  assumes "leave_dir stack = Some ds"
  shows "length (render ds []) \<le> length (render stack cur)"
proof -
  obtain k where "ds = take k stack"
    using assms by (auto simp: leave_dir_def butlast_conv_take split: if_splits)
  then have "stack = ds @ drop k stack" by simp
  then obtain d where "stack = ds @ d" by blast
  then show ?thesis by (simp add: render_def)
qed

text \<open>The invariant: what has been written is the resolved part of the path.\<close>

definition cu_inv :: "complex_t \<Rightarrow> bytes list \<Rightarrow> bytes \<Rightarrow> bool" where
  "cu_inv c stack cur \<longleftrightarrow> cu_u c = render stack cur \<and> list_all (\<lambda>s. 47 \<notin> set s) stack \<and> 47 \<notin> set cur
     \<and> length (cu_u c) \<le> cu_cap c"

lemma cu_plain_byte:
  assumes "cu_inv c stack cur" "length (cu_u c) < cu_cap c" "ch \<notin> {47, 63, 35, 37}"
  shows "\<exists>c'. cu_plain_switch m (plain_of cur) c ch = Cu_next c' \<and> cu_inv c' stack (cur @ [ch])
    \<and> cu_st c' = Plain (plain_of (cur @ [ch])) \<and> cu_cap c' = cu_cap c \<and> length (cu_u c') = Suc (length (cu_u c))"
  using assms
  by (auto simp: plain_of_def cu_in_usual_def cu_in_slash_def cu_in_dot_def cu_in_dot_dot_def cu_put_def cu_inv_def
      usual_iff render_def)

lemma cu_plain_slash:
  assumes "cu_inv c stack cur" "length (cu_u c) < cu_cap c"
  shows "case enter_dir m stack cur of
      None \<Rightarrow> cu_plain_switch m (plain_of cur) c 47 = Cu_invalid
    | Some stack' \<Rightarrow> \<exists>c'. cu_plain_switch m (plain_of cur) c 47 = Cu_next c' \<and> cu_inv c' stack' []
        \<and> cu_st c' = Plain cu_slash \<and> cu_cap c' = cu_cap c \<and> length (cu_u c') \<le> Suc (length (cu_u c))"
proof -
  consider "cur = []" | "cur = [46]" | "cur = [46, 46]" | "cur \<noteq> []" "cur \<noteq> [46]" "cur \<noteq> [46, 46]" by blast
  then show ?thesis
  proof cases
    case 3
    have b: "cu_back (cu_u c) (length (cu_u c) - 4) = map_option (\<lambda>st. render st []) (leave_dir stack)"
      using assms(1) cu_back_render 3 by (simp add: cu_inv_def)
    have "list_all (\<lambda>s. 47 \<notin> set s) ds" if "leave_dir stack = Some ds" for ds
      using assms(1) that by (auto simp: leave_dir_def cu_inv_def list_all_iff split: if_splits dest!: in_set_butlastD)
    moreover have "length (render ds []) \<le> length (cu_u c)" if "leave_dir stack = Some ds" for ds
      using assms(1) that 3 length_render_leave by (simp add: cu_inv_def)
    ultimately show ?thesis
      using assms b 3
      by (cases "leave_dir stack") (auto simp: plain_of_def cu_in_dot_dot_def enter_dir_def usual_iff cu_inv_def)
  qed (use assms in \<open>auto simp: plain_of_def cu_in_usual_def cu_in_slash_def cu_in_dot_def cu_put_def cu_inv_def
      usual_iff enter_dir_def render_snoc, simp_all add: render_def butlast_append\<close>)
qed

text \<open>The loop over the bytes it looks at, without the one after the URI.\<close>

fun cu_run :: "bool \<Rightarrow> complex_t \<Rightarrow> bytes \<Rightarrow> cu_act \<times> bytes" where
  "cu_run m c [] = (Cu_done c, [])"
| "cu_run m c (ch # t) = (case cu_switch m c ch of Cu_next c' \<Rightarrow> cu_run m c' t | act \<Rightarrow> (act, t))"

lemma cu_loop_run:
  "\<exists>y. cu_loop m c (hd (t @ [a])) (tl (t @ [a])) = (fst (cu_run m c t), y)
     \<and> ((\<exists>c'. fst (cu_run m c t) = Cu_args c') \<longrightarrow> y = snd (cu_run m c t) @ [a])"
proof (induction t arbitrary: c)
  case (Cons ch t)
  obtain x xs where t: "t @ [a] = x # xs" by (cases "t @ [a]") auto
  show ?case
  proof (cases "cu_switch m c ch")
    case (Cu_next c')
    then show ?thesis using Cons.IH [of c'] t by simp
  qed (use t in auto)
qed simp

text \<open>The number of bytes before a \<open>?\<close>, which bounds what is written.\<close>

definition path_room :: "bytes \<Rightarrow> nat" where
  "path_room t = length (takeWhile (\<lambda>x. x \<noteq> chr CHR ''?'') t)"

lemma path_room_simps [simp]: "path_room [] = 0" "path_room (63 # t) = 0" "x \<noteq> 63 \<Longrightarrow> path_room (x # t) = Suc (path_room t)"
  by (simp_all add: path_room_def)

lemma esc_digit_low:
  "esc_digit y = Some e \<Longrightarrow> \<not> (48 \<le> y \<and> y \<le> 57) \<Longrightarrow> push_bit 4 d + e \<notin> {0, 35, 37}"
  "esc_digit y = Some e \<Longrightarrow> 48 \<le> y \<and> y \<le> 57 \<Longrightarrow> push_bit 4 d + e \<notin> {43, 63}"
proof -
  have t: "take_bit 4 (push_bit 4 d + e) = take_bit 4 e" for e :: byte
    by transfer (simp add: take_bit_eq_mod push_bit_eq_mult mod_mod_cancel)
  have a: "list_all (\<lambda>y. \<forall>e. esc_digit y = Some e \<longrightarrow>
      (if 48 \<le> y \<and> y \<le> 57 then take_bit 4 e \<notin> {11, 15} else take_bit 4 e \<notin> {0, 3, 5})) all_bytes"
    unfolding all_bytes_list by (simp add: esc_digit_def word_le_nat_alt)
  note b = byte_forall [OF a, rule_format]
  show "esc_digit y = Some e \<Longrightarrow> \<not> (48 \<le> y \<and> y \<le> 57) \<Longrightarrow> push_bit 4 d + e \<notin> {0, 35, 37}"
    "esc_digit y = Some e \<Longrightarrow> 48 \<le> y \<and> y \<le> 57 \<Longrightarrow> push_bit 4 d + e \<notin> {43, 63}"
    using b [of y e] t [of e] by (auto dest: arg_cong [of _ _ "take_bit 4"])
qed

text \<open>One byte of the decoded path.\<close>

definition advance :: "bool \<Rightarrow> bytes list \<Rightarrow> bytes \<Rightarrow> byte \<Rightarrow> (bytes list \<times> bytes) option" where
  "advance m stack cur v =
     (if v = 47 then map_option (\<lambda>ds. (ds, [])) (enter_dir m stack cur) else Some (stack, cur @ [v]))"

lemma resolve_advance:
  "resolve m stack (segments cur (v # d)) =
     (case advance m stack cur v of None \<Rightarrow> None | Some (ds, cur') \<Rightarrow> resolve m ds (segments cur' d))"
  by (auto simp: advance_def resolve_Cons segments_ne split: option.split)

definition cu_at :: "complex_t \<Rightarrow> nat \<Rightarrow> nat \<Rightarrow> bytes list \<Rightarrow> bytes \<Rightarrow> bool" where
  "cu_at c cap n stack cur \<longleftrightarrow> cu_inv c stack cur \<and> cu_st c = Plain (plain_of cur) \<and> cu_cap c = cap \<and> length (cu_u c) \<le> n"

definition cu_advances :: "cu_act \<Rightarrow> nat \<Rightarrow> nat \<Rightarrow> (bytes list \<times> bytes) option \<Rightarrow> bool" where
  "cu_advances act cap n x \<longleftrightarrow> (case x of
       None \<Rightarrow> act = Cu_invalid
     | Some (ds, cur) \<Rightarrow> \<exists>c. act = Cu_next c \<and> cu_at c cap n ds cur)"

lemma cu_plain_any:
  assumes "cu_inv c stack cur" "length (cu_u c) < cu_cap c" "v \<notin> {63, 35, 37}"
  shows "cu_advances (cu_plain_switch m (plain_of cur) c v) (cu_cap c) (Suc (length (cu_u c))) (advance m stack cur v)"
proof (cases "v = 47")
  case True
  then show ?thesis
    using cu_plain_slash [OF assms(1,2), of m]
    by (cases "enter_dir m stack cur") (auto simp: advance_def cu_advances_def cu_at_def plain_of_def)
next
  case False
  then show ?thesis
    using cu_plain_byte [OF assms(1,2), of v m] assms(3) by (auto simp: advance_def cu_advances_def cu_at_def)
qed

lemma cu_put_literal:
  assumes "cu_inv c stack cur" "length (cu_u c) < cu_cap c" "v \<in> {63, 35, 37}"
  shows "cu_advances (cu_put c cu_usual v) (cu_cap c) (Suc (length (cu_u c))) (advance m stack cur v)"
  using assms by (auto simp: advance_def cu_advances_def cu_at_def cu_put_def plain_of_def cu_inv_def render_def)

text \<open>An escape.\<close>

lemma cu_percent:
  "cu_st c = Plain s \<Longrightarrow> cu_switch m c 37 = Cu_next (c\<lparr>cu_quoted_state := s, cu_st := cu_quoted\<rparr>)"
  by (cases s) (simp_all add: cu_switch_def cu_in_usual_def cu_in_slash_def cu_in_dot_def cu_in_dot_dot_def cu_quote_def usual_iff)

lemma cu_first_digit:
  "cu_st c = cu_quoted \<Longrightarrow> cu_switch m c ch = (case esc_digit ch of
       None \<Rightarrow> Cu_invalid
     | Some d \<Rightarrow> Cu_next (c\<lparr>cu_quoted_uri := True, cu_decoded := d, cu_st := cu_quoted_second\<rparr>))"
  by (simp add: cu_switch_def cu_in_quoted_def esc_digit_def Let_def)

lemma cu_second_digit:
  assumes "cu_st c = cu_quoted_second" "cu_quoted_state c = plain_of cur" "cu_inv c stack cur" "length (cu_u c) < cu_cap c"
    "esc_digit ch = Some e"
  shows "push_bit 4 (cu_decoded c) + e = 0 \<Longrightarrow> cu_switch m c ch = Cu_invalid"
    and "push_bit 4 (cu_decoded c) + e \<noteq> 0 \<Longrightarrow>
      cu_advances (cu_switch m c ch) (cu_cap c) (Suc (length (cu_u c))) (advance m stack cur (push_bit 4 (cu_decoded c) + e))"
proof -
  let ?v = "push_bit 4 (cu_decoded c) + e"
  let ?c = "c\<lparr>cu_plus := True\<rparr>"
  have inv: "cu_inv (c\<lparr>cu_st := x\<rparr>) stack cur" "cu_inv (?c\<lparr>cu_st := x\<rparr>) stack cur" for x
    using assms(3) by (auto simp: cu_inv_def)
  note lit = cu_put_literal [OF assms(3,4), where m = m]
  note plain = cu_plain_any [where m = m, OF inv(1)] cu_plain_any [where m = m, OF inv(2)]
  have z: "cu_switch m c ch = (if ?v = 0 then Cu_invalid else if ?v \<in> {63, 35, 37} then cu_put c cu_usual ?v
      else cu_plain_switch m (plain_of cur) ((if \<not> (48 \<le> ch \<and> ch \<le> 57) \<and> ?v = 43 then ?c else c)\<lparr>cu_st := Plain (plain_of cur)\<rparr>) ?v)"
  proof (cases "48 \<le> ch \<and> ch \<le> 57")
    case True
    have e: "e = ch - 48" "?v \<notin> {43, 63}" using True assms(5) esc_digit_low(2) [OF assms(5) True] by (auto simp: esc_digit_def)
    have v: "push_bit 4 (cu_decoded c) + ch - chr CHR ''0'' = ?v" by (simp add: e(1))
    show ?thesis
      using True assms(1,2) e(2) unfolding cu_switch_def cu_in_quoted_second_def Let_def v by simp
  next
    case False
    let ?l = "ch OR 0x20"
    have l: "97 \<le> ?l" "?l \<le> 102" "e = ?l - 97 + 10"
      using assms(5) False by (auto simp: esc_digit_def Let_def split: if_splits)
    have v: "push_bit 4 (cu_decoded c) + ?l - chr CHR ''a'' + 10 = ?v" by (simp add: l(3))
    show ?thesis
      using l(1,2) assms(1,2) esc_digit_low(1) [OF assms(5) False, of "cu_decoded c"]
      unfolding cu_switch_def cu_in_quoted_second_def Let_def v by (simp add: False)
  qed
  show "?v = 0 \<Longrightarrow> cu_switch m c ch = Cu_invalid" by (simp add: z)
  show "cu_advances (cu_switch m c ch) (cu_cap c) (Suc (length (cu_u c))) (advance m stack cur ?v)" if "?v \<noteq> 0"
    using that lit plain assms(4) by (auto simp: z)
qed

definition path_of :: "cu_act \<Rightarrow> bytes option \<Rightarrow> bool" where
  "path_of act x \<longleftrightarrow> (case x of
       None \<Rightarrow> act = Cu_invalid
     | Some path \<Rightarrow> \<exists>c. (act = Cu_done c \<or> act = Cu_args c) \<and> cu_u c = path)"

definition rest_path :: "bool \<Rightarrow> bytes list \<Rightarrow> bytes \<Rightarrow> bytes \<Rightarrow> bytes option" where
  "rest_path m stack cur t = (case uri_decode t of None \<Rightarrow> None | Some d \<Rightarrow> resolve m stack (segments cur d))"

lemma rest_path_Cons:
  assumes "uri_decode t = map_option ((#) v) (uri_decode t')"
  shows "rest_path m stack cur t =
    (case advance m stack cur v of None \<Rightarrow> None | Some (ds, cur') \<Rightarrow> rest_path m ds cur' t')"
  using assms
  by (cases "uri_decode t'"; cases "advance m stack cur v")
    (auto simp: rest_path_def resolve_advance simp del: segments.simps)

lemma cu_run_advances:
  assumes "cu_advances act cap n (advance m stack cur v)"
    and "\<And>c ds cur'. cu_at c cap n ds cur' \<Longrightarrow> path_of (fst (cu_run m c t')) (rest_path m ds cur' t')"
    and "uri_decode t = map_option ((#) v) (uri_decode t')"
  shows "path_of (fst (case act of Cu_next c' \<Rightarrow> cu_run m c' t' | a \<Rightarrow> (a, t'))) (rest_path m stack cur t)"
proof (cases "advance m stack cur v")
  case None
  then show ?thesis using assms(1) by (simp add: rest_path_Cons [OF assms(3)] cu_advances_def path_of_def)
next
  case (Some x)
  obtain ds cur' where x: "x = (ds, cur')" by (cases x)
  then obtain c where "act = Cu_next c" "cu_at c cap n ds cur'" using assms(1) Some by (auto simp: cu_advances_def)
  then show ?thesis using assms(2) [of c ds cur'] Some x by (simp add: rest_path_Cons [OF assms(3)])
qed

text \<open>The rest of an escape, after its first digit and after the percent sign.\<close>

lemma cu_run_second:
  assumes c: "cu_st c = cu_quoted_second" "cu_quoted_state c = plain_of cur" "cu_inv c stack cur" "length (cu_u c) < cu_cap c"
    and x: "esc_digit x = Some (cu_decoded c)"
    and IH: "\<And>y t' c' ds cur'. t = y # t' \<Longrightarrow> y \<noteq> 63 \<Longrightarrow> cu_at c' (cu_cap c) (Suc (length (cu_u c))) ds cur' \<Longrightarrow>
      path_of (fst (cu_run m c' t')) (rest_path m ds cur' t')"
  shows "path_of (fst (cu_run m c t)) (rest_path m stack cur (37 # x # t))"
proof (cases t)
  case Nil
  then show ?thesis using c(3) x by (simp add: rest_path_def path_of_def cu_inv_def)
next
  case (Cons y t')
  show ?thesis
  proof (cases "esc_digit y")
    case None
    then have "cu_switch m c y = Cu_invalid"
      using c(1) by (auto simp: cu_switch_def cu_in_quoted_second_def esc_digit_def Let_def split: if_splits)
    then show ?thesis using x None Cons by (simp add: rest_path_def path_of_def)
  next
    case e: (Some e)
    let ?v = "push_bit 4 (cu_decoded c) + e"
    note second = cu_second_digit [OF c e, of m]
    show ?thesis
    proof (cases "?v = 0")
      case True
      then show ?thesis using second(1) x e Cons by (simp add: rest_path_def path_of_def)
    next
      case False
      have y: "y \<noteq> 63" using e by (auto simp: esc_digit_def)
      have "uri_decode (37 # x # t) = map_option ((#) ?v) (uri_decode t')" using False x e Cons by simp
      from cu_run_advances [OF second(2) [OF False] IH [OF Cons y] this] show ?thesis by (simp add: Cons)
    qed
  qed
qed

lemma cu_run_escape:
  assumes c: "cu_inv c stack cur" "cu_st c = Plain (plain_of cur)" "length (cu_u c) < cu_cap c"
    and IH: "\<And>x y t' c' ds cur'. t = x # y # t' \<Longrightarrow> x \<noteq> 63 \<Longrightarrow> y \<noteq> 63 \<Longrightarrow>
      cu_at c' (cu_cap c) (Suc (length (cu_u c))) ds cur' \<Longrightarrow> path_of (fst (cu_run m c' t')) (rest_path m ds cur' t')"
  shows "path_of (fst (cu_run m c (37 # t))) (rest_path m stack cur (37 # t))"
proof -
  let ?c1 = "c\<lparr>cu_quoted_state := plain_of cur, cu_st := cu_quoted\<rparr>"
  have run: "cu_run m c (37 # t) = cu_run m ?c1 t" using cu_percent [OF c(2), of m] by simp
  show ?thesis
  proof (cases t)
    case Nil
    then show ?thesis using run c(1) by (simp add: rest_path_def path_of_def cu_inv_def)
  next
    case (Cons x t1)
    show ?thesis
    proof (cases "esc_digit x")
      case None
      then show ?thesis
        using run cu_first_digit [of ?c1 m x] Cons by (cases t1) (simp_all add: rest_path_def path_of_def)
    next
      case (Some d)
      let ?c2 = "?c1\<lparr>cu_quoted_uri := True, cu_decoded := d, cu_st := cu_quoted_second\<rparr>"
      have x: "x \<noteq> 63" using Some by (auto simp: esc_digit_def)
      have inv: "cu_inv ?c2 stack cur" using c(1) by (auto simp: cu_inv_def)
      have "path_of (fst (cu_run m ?c2 t1)) (rest_path m stack cur (37 # x # t1))"
        by (rule cu_run_second [OF _ _ inv]) (use c(3) Some IH Cons x in auto)
      then show ?thesis using run cu_first_digit [of ?c1 m x] Some Cons by simp
    qed
  qed
qed

lemma cu_terminator:
  assumes "cu_st c = Plain s" "ch = 63 \<or> ch = 35"
  shows "cu_switch m c ch = (if ch = 63 then Cu_args c else Cu_done c)"
  using assms
  by (cases s) (auto simp: cu_switch_def cu_in_usual_def cu_in_slash_def cu_in_dot_def cu_in_dot_dot_def usual_iff)

lemma cu_run_path:
  assumes "cu_at c cap n stack cur" "n + path_room t \<le> cap"
  shows "path_of (fst (cu_run m c t)) (rest_path m stack cur t)"
  using assms
proof (induction "length t" arbitrary: c n stack cur t rule: less_induct)
  case less
  have c: "cu_inv c stack cur" "cu_st c = Plain (plain_of cur)" "cu_cap c = cap" "length (cu_u c) \<le> n"
    using less.prems(1) by (auto simp: cu_at_def)
  show ?case
  proof (cases t)
    case Nil
    then show ?thesis using c(1) by (simp add: rest_path_def path_of_def cu_inv_def)
  next
    case (Cons ch t1)
    have IH: "path_of (fst (cu_run m c' t')) (rest_path m ds cur' t')"
      if "cu_at c' cap (Suc (length (cu_u c))) ds cur'" "length t' < length t" "Suc (path_room t') \<le> path_room t" for c' ds cur' t'
      using less.hyps [OF that(2,1)] that(3) less.prems(2) c(4) by simp
    consider "ch = 63 \<or> ch = 35" | "ch = 37" | "ch \<notin> {63, 35, 37}" by blast
    then show ?thesis
    proof cases
      case 1
      then show ?thesis using cu_terminator [OF c(2), of ch m] c(1) Cons by (auto simp: rest_path_def path_of_def cu_inv_def)
    next
      case 2
      then have "length (cu_u c) < cu_cap c" using less.prems(2) c(3,4) Cons by simp
      from cu_run_escape [OF c(1,2) this, of t1 m] show ?thesis using IH 2 Cons c(3) by simp
    next
      case 3
      then have room: "length (cu_u c) < cu_cap c" using less.prems(2) c(3,4) Cons by simp
      have "cu_switch m c ch = cu_plain_switch m (plain_of cur) c ch" using c(2) by (simp add: cu_switch_def)
      then have adv: "cu_advances (cu_switch m c ch) cap (Suc (length (cu_u c))) (advance m stack cur ch)"
        using cu_plain_any [OF c(1) room 3, of m] c(3) by simp
      from cu_run_advances [OF adv IH, of t1 t] show ?thesis using 3 Cons by simp
    qed
  qed
qed

text \<open>The whole parser.\<close>

definition uri_is :: "uri_result \<Rightarrow> bytes option \<Rightarrow> bool" where
  "uri_is x path \<longleftrightarrow> (case path of None \<Rightarrow> x = Uri_invalid | Some u \<Rightarrow> \<exists>p. x = Uri_ok p \<and> up_uri p = u)"

lemma complex_uri_run:
  "ngx_http_parse_complex_uri m cap s a =
     (case cu_run m (new_cu cap) s of
        (Cu_done c, _) \<Rightarrow> cu_finish c None None
      | (Cu_args c, rest) \<Rightarrow>
          (case cu_args_loop 0 rest of
             None \<Rightarrow> cu_finish c None (Some (length s - length rest))
           | Some n \<Rightarrow> cu_finish c (Some (take n rest)) None)
      | (Cu_oob, _) \<Rightarrow> Uri_oob
      | _ \<Rightarrow> Uri_invalid)"
proof -
  obtain act r where run: "cu_run m (new_cu cap) s = (act, r)" by (metis surj_pair)
  obtain y where y: "cu_loop m (new_cu cap) (hd (s @ [a])) (tl (s @ [a])) = (act, y)" "(\<exists>c. act = Cu_args c) \<Longrightarrow> y = r @ [a]"
    using cu_loop_run [of m "new_cu cap" s a] run by auto
  show ?thesis
    unfolding ngx_http_parse_complex_uri_def run y(1) using y(2) by (cases act) (simp_all add: Let_def split: option.split)
qed

lemma cu_start:
  assumes "0 < cap"
  shows "cu_run m (new_cu cap) (47 # s) = cu_run m (new_cu cap\<lparr>cu_st := Plain cu_slash, cu_u := [47]\<rparr>) s"
    and "cu_at (new_cu cap\<lparr>cu_st := Plain cu_slash, cu_u := [47]\<rparr>) cap 1 [] []"
  using assms
  by (simp_all add: new_cu_def cu_switch_def cu_in_usual_def cu_put_def usual_iff cu_at_def cu_inv_def render_def plain_of_def)

lemma complex_uri_path:
  assumes "path_room (47 # s) \<le> cap"
  shows "uri_is (ngx_http_parse_complex_uri m cap (47 # s) a) (normal_path m s)"
proof -
  let ?c = "new_cu cap\<lparr>cu_st := Plain cu_slash, cu_u := [47]\<rparr>"
  have cap: "0 < cap" "1 + path_room s \<le> cap" using assms by simp_all
  have "path_of (fst (cu_run m ?c s)) (rest_path m [] [] s)"
    by (rule cu_run_path [OF cu_start(2) cap(2)]) (rule cap(1))
  moreover have "rest_path m [] [] s = normal_path m s" by (simp add: rest_path_def normal_path_def)
  ultimately have p: "path_of (fst (cu_run m (new_cu cap) (47 # s))) (normal_path m s)"
    using cu_start(1) [OF cap(1), of m s] by simp
  obtain act r where run: "cu_run m (new_cu cap) (47 # s) = (act, r)" by (metis surj_pair)
  show ?thesis
    using p unfolding complex_uri_run run
    by (cases act; cases "normal_path m s") (auto simp: path_of_def uri_is_def cu_finish_def split: option.split)
qed

subsection \<open>No way out of the root\<close>

definition clean_dir :: "bool \<Rightarrow> bytes \<Rightarrow> bool" where
  "clean_dir m seg \<longleftrightarrow> 47 \<notin> set seg \<and> seg \<noteq> [46] \<and> seg \<noteq> [46, 46] \<and> (m \<longrightarrow> seg \<noteq> [])"

lemma leave_dir_subset: "leave_dir stack = Some ds \<Longrightarrow> set ds \<subseteq> set stack"
  by (auto simp: leave_dir_def split: if_splits dest: in_set_butlastD)

lemma enter_dir_clean:
  assumes "enter_dir m stack seg = Some ds" "\<forall>x\<in>set stack. clean_dir m x" "47 \<notin> set seg"
  shows "\<forall>x\<in>set ds. clean_dir m x"
proof (cases "seg = [46, 46]")
  case True
  then show ?thesis using assms leave_dir_subset [of stack ds] by (auto simp: enter_dir_def)
next
  case False
  then have "ds = stack \<or> ds = stack @ [seg] \<and> clean_dir m seg"
    using assms(1,3) by (auto simp: enter_dir_def clean_dir_def split: if_splits)
  then show ?thesis using assms(2) by auto
qed

lemma resolve_clean:
  assumes "resolve m stack (segments cur d) = Some path" "\<forall>x\<in>set stack. clean_dir m x" "47 \<notin> set cur"
  shows "\<exists>ds seg. path = render ds seg \<and> (\<forall>x\<in>set ds. clean_dir m x) \<and> 47 \<notin> set seg"
  using assms
proof (induction d arbitrary: stack cur)
  case (Cons v d)
  show ?case
  proof (cases "v = 47")
    case True
    then obtain ds where ds: "enter_dir m stack cur = Some ds" "resolve m ds (segments [] d) = Some path"
      using Cons.prems(1) by (auto simp: resolve_Cons segments_ne split: option.splits)
    show ?thesis using Cons.IH [OF ds(2) enter_dir_clean [OF ds(1) Cons.prems(2,3)]] by simp
  next
    case False
    then show ?thesis using Cons.IH [of stack "cur @ [v]"] Cons.prems by simp
  qed
qed auto

lemma render_Cons: "render (x # ds) seg = 47 # x @ render ds seg"
  by (simp add: render_def)

lemma split_at_slash:
  assumes "a @ 47 # b = c @ 47 # d" "47 \<notin> set a" "47 \<notin> set c"
  shows "a = c \<and> b = (d :: bytes)"
  using assms
proof (induction a arbitrary: c)
  case Nil
  then show ?case by (cases c) auto
next
  case (Cons x a)
  then show ?case by (cases c) auto
qed

lemma render_directory:
  assumes "render ds seg = x @ 47 # w @ 47 # y" "\<forall>s\<in>set ds. 47 \<notin> set s" "47 \<notin> set seg" "47 \<notin> set w"
  shows "w \<in> set ds"
  using assms
proof (induction ds arbitrary: x)
  case Nil
  have "seg = w @ 47 # y \<or> (\<exists>x'. seg = x' @ 47 # w @ 47 # y)"
    using Nil.prems(1) by (cases x) (auto simp: render_def)
  then show ?case using Nil.prems(3) by auto
next
  case (Cons d ds)
  obtain r where r: "render ds seg = 47 # r" by (cases ds) (simp_all add: render_def)
  show ?case
  proof (cases x)
    case Nil
    then have "d @ 47 # r = w @ 47 # y" using Cons.prems(1) r by (simp add: render_Cons)
    then show ?thesis using split_at_slash [of d r w y] Cons.prems by simp
  next
    case (Cons x1 xs)
    then have eq: "d @ render ds seg = xs @ 47 # w @ 47 # y" using \<open>render (d # ds) seg = _\<close> by (simp add: render_Cons)
    then obtain us where "d = xs @ us \<and> us @ render ds seg = 47 # w @ 47 # y \<or> d @ us = xs \<and> render ds seg = us @ 47 # w @ 47 # y"
      by (auto simp: append_eq_append_conv2)
    then show ?thesis
    proof
      assume "d @ us = xs \<and> render ds seg = us @ 47 # w @ 47 # y"
      then show ?thesis using Cons.IH Cons.prems by auto
    next
      assume "d = xs @ us \<and> us @ render ds seg = 47 # w @ 47 # y"
      moreover from this have "us = []" using Cons.prems(2) by (cases us) auto
      ultimately show ?thesis using Cons.IH [of "[]"] Cons.prems by auto
    qed
  qed
qed

text \<open>A path without \<open>/../\<close> and \<open>/./\<close>, and without \<open>//\<close> when slashes are merged.\<close>

definition no_dot_dirs :: "bool \<Rightarrow> bytes \<Rightarrow> bool" where
  "no_dot_dirs m path \<longleftrightarrow> (\<forall>x y. path \<noteq> x @ str ''/../'' @ y \<and> path \<noteq> x @ str ''/./'' @ y \<and> (m \<longrightarrow> path \<noteq> x @ str ''//'' @ y))"

lemma normal_path_clean:
  assumes "normal_path m s = Some path"
  shows "no_dot_dirs m path \<and> hd path = 47"
proof -
  obtain d where "resolve m [] (segments [] d) = Some path"
    using assms by (auto simp: normal_path_def split: option.splits)
  then obtain ds seg where p: "path = render ds seg" "\<forall>x\<in>set ds. clean_dir m x" "47 \<notin> set seg"
    using resolve_clean [of m "[]" "[]" d path] by auto
  have d: "w \<in> set ds" if "path = x @ 47 # w @ 47 # y" "47 \<notin> set w" for x w y
    using render_directory [of ds seg x w y] p that by (auto simp: clean_dir_def)
  show ?thesis
    using d [of _ "[46, 46]"] d [of _ "[46]"] d [of _ "[]"] p by (auto simp: no_dot_dirs_def clean_dir_def render_def, cases ds, auto)
qed

subsection \<open>The short cut\<close>

text \<open>What the steps of \<open>ngx_http_parse_uri\<close> leave alone, and the flags they only set.\<close>

definition pu_keeps :: "ngx_http_request_t \<Rightarrow> ngx_http_request_t \<Rightarrow> bool" where
  "pu_keeps r r' \<longleftrightarrow> seen r' = seen r \<and> uri_start r' = uri_start r \<and> uri_end r' = uri_end r
     \<and> (complex_uri r \<longrightarrow> complex_uri r') \<and> (quoted_uri r \<longrightarrow> quoted_uri r')"

lemma pu_keeps_trans: "pu_keeps r r1 \<Longrightarrow> pu_keeps r1 r2 \<Longrightarrow> pu_keeps r r2"
  by (auto simp: pu_keeps_def)

lemma pu_steps_keep:
  "pu_keeps r (snd (pu_after_slash r p ch))" "pu_keeps r (snd (pu_check r p ch))" "pu_keeps r (snd (pu_rest r p ch))"
  by (simp_all add: pu_keeps_def pu_after_slash_def pu_check_def pu_rest_def)

lemma pu_loop_keeps: "pu_loop state r p t = (rc, r') \<Longrightarrow> pu_keeps r r'"
proof (induction state r p t rule: pu_loop.induct)
  case (3 r p ch b)
  then show ?case using pu_steps_keep(1) [of r p ch] by (auto split: prod.splits intro: pu_keeps_trans)
next
  case (4 r p ch b)
  then show ?case using pu_steps_keep(2) [of r p ch] by (auto split: prod.splits intro: pu_keeps_trans)
next
  case (5 r p ch b)
  then show ?case using pu_steps_keep(3) [of r p ch] by (auto split: prod.splits intro: pu_keeps_trans)
qed (auto simp: pu_keeps_def split: if_splits)

text \<open>After \<open>?\<close> or an escape nothing is recorded but a fragment and spaces.\<close>

lemma pu_loop_uri:
  assumes "pu_loop pu_uri r p t = (rc, r')"
  shows "rc = NGX_OK" "args_start r' = args_start r" "uri_ext r' = uri_ext r" "\<not> complex_uri r' \<Longrightarrow> 35 \<notin> set t"
proof -
  have "rc = NGX_OK \<and> args_start r' = args_start r \<and> uri_ext r' = uri_ext r \<and> (\<not> complex_uri r' \<longrightarrow> 35 \<notin> set t)"
    using assms
  proof (induction t arbitrary: r p)
    case (Cons ch t)
    define r1 where "r1 = snd (pu_rest r p ch)"
    have r1: "pu_rest r p ch = (pu_uri, r1)" "args_start r1 = args_start r" "uri_ext r1 = uri_ext r"
      "ch = 35 \<longrightarrow> complex_uri r1"
      by (simp_all add: r1_def pu_rest_def usual_iff)
    then have l: "pu_loop pu_uri r1 (p + 1) t = (rc, r')" using Cons.prems by simp
    then have "complex_uri r1 \<longrightarrow> complex_uri r'" using pu_loop_keeps by (auto simp: pu_keeps_def)
    then show ?case using Cons.IH [OF l] r1 by auto
  qed simp
  then show "rc = NGX_OK" "args_start r' = args_start r" "uri_ext r' = uri_ext r" "\<not> complex_uri r' \<Longrightarrow> 35 \<notin> set t"
    by auto
qed

text \<open>The two parsers side by side on a URI that sets no flag.\<close>

definition uri_sim :: "nat \<Rightarrow> pu_state \<Rightarrow> ngx_http_request_t \<Rightarrow> nat \<Rightarrow> complex_t \<Rightarrow> bool" where
  "uri_sim start state r p c \<longleftrightarrow>
     p = start + length (cu_u c) \<and> args_start r = None \<and> cu_ext c = map_option (\<lambda>e. e - start) (uri_ext r)
     \<and> (state = pu_after_slash_in_uri \<and> cu_st c \<in> {Plain cu_slash, Plain cu_usual}
        \<or> state = pu_check_uri \<and> cu_st c = Plain cu_usual)"

definition uri_sim_end :: "nat \<Rightarrow> ngx_http_request_t \<Rightarrow> complex_t \<Rightarrow> bytes \<Rightarrow> cu_act \<Rightarrow> bytes \<Rightarrow> bool" where
  "uri_sim_end start r c t act rest \<longleftrightarrow>
     (\<exists>c'. cu_ext c' = map_option (\<lambda>e. e - start) (uri_ext r) \<and>
        (act = Cu_done c' \<and> args_start r = None \<and> cu_u c' = cu_u c @ t
         \<or> act = Cu_args c' \<and> 35 \<notin> set rest \<and> (\<exists>pre. t = pre @ 63 # rest \<and> cu_u c' = cu_u c @ pre
             \<and> args_start r = Some (start + length (cu_u c) + length pre + 1))))"

lemma uri_sim_step:
  assumes "uri_sim start state r p c" "length (cu_u c) < cu_cap c" "ch \<noteq> 63"
    and "(state', r1) = (if state = pu_check_uri then pu_check r p ch else pu_after_slash r p ch)"
    and "\<not> complex_uri r1" "\<not> quoted_uri r1"
  shows "\<exists>c'. cu_switch m c ch = Cu_next c' \<and> uri_sim start state' r1 (p + 1) c' \<and> cu_u c' = cu_u c @ [ch] \<and> cu_cap c' = cu_cap c"
  using assms
  by (auto simp: uri_sim_def pu_check_def pu_after_slash_def cu_switch_def cu_in_usual_def cu_in_slash_def cu_put_def usual_iff
      split: if_splits)

lemma uri_sim_run:
  assumes "uri_sim start state r p c" "pu_loop state r p t = (NGX_OK, r')" "\<not> complex_uri r'" "\<not> quoted_uri r'"
    "length (cu_u c) + path_room t \<le> cu_cap c" "cu_run m c t = (act, rest)"
  shows "uri_sim_end start r' c t act rest"
  using assms
proof (induction t arbitrary: state r p c)
  case Nil
  then show ?case by (auto simp: uri_sim_end_def uri_sim_def)
next
  case (Cons ch t)
  obtain state' r1 where s: "(state', r1) = (if state = pu_check_uri then pu_check r p ch else pu_after_slash r p ch)"
    by (metis surj_pair)
  have l: "pu_loop state' r1 (p + 1) t = (NGX_OK, r')"
    using Cons.prems(1,2) s by (cases state) (auto simp: uri_sim_def split: prod.splits)
  have k: "\<not> complex_uri r1" "\<not> quoted_uri r1" using pu_loop_keeps [OF l] Cons.prems(3,4) by (auto simp: pu_keeps_def)
  show ?case
  proof (cases "ch = 63")
    case True
    then have r1: "state' = pu_uri" "r1 = r\<lparr>args_start := Some (p + 1)\<rparr>"
      using s by (auto simp: pu_check_def pu_after_slash_def usual_iff split: if_splits)
    have "act = Cu_args c" "rest = t"
      using Cons.prems(1,6) True by (auto simp: uri_sim_def cu_switch_def cu_in_usual_def cu_in_slash_def usual_iff)
    then show ?thesis
      using pu_loop_uri [of r1 "p + 1" t NGX_OK r'] l r1 Cons.prems(1,3) True
      by (auto simp: uri_sim_end_def uri_sim_def)
  next
    case False
    obtain c' where c': "cu_switch m c ch = Cu_next c'" "uri_sim start state' r1 (p + 1) c'" "cu_u c' = cu_u c @ [ch]" "cu_cap c' = cu_cap c"
      using uri_sim_step [OF Cons.prems(1) _ False s k, of m] Cons.prems(5) False by auto
    have "uri_sim_end start r' c' t act rest"
      using Cons.IH [OF c'(2) l] Cons.prems(3-6) c' False by simp
    then show ?thesis unfolding uri_sim_end_def c'(3) by (force simp: c'(3) intro: exI [of _ "ch # pre" for pre])
  qed
qed

text \<open>The start of the arguments is the byte after a \<open>?\<close>.\<close>

lemma path_room_le: "i < length t \<Longrightarrow> t ! i = 63 \<Longrightarrow> path_room t \<le> i"
proof (induction t arbitrary: i)
  case (Cons x t)
  then show ?case by (cases "x = 63"; cases i) simp_all
qed simp

lemma path_room_length: "path_room t \<le> length t"
  by (simp add: path_room_def length_takeWhile_le)

lemma pu_loop_args:
  assumes "pu_loop state r p t = (rc, r')" "args_start r = None" "args_start r' = Some a"
  shows "\<exists>i<length t. t ! i = 63 \<and> a = p + i + 1"
  using assms
proof (induction t arbitrary: state r p)
  case (Cons ch t)
  show ?case
  proof (cases "ch = 63 \<and> state \<in> {pu_after_slash_in_uri, pu_check_uri}")
    case True
    then have "pu_loop pu_uri (r\<lparr>args_start := Some (p + 1)\<rparr>) (p + 1) t = (rc, r')"
      using Cons.prems(1) by (auto simp: pu_after_slash_def pu_check_def usual_iff)
    then have "a = p + 1" using pu_loop_uri(2) Cons.prems(3) by fastforce
    then show ?thesis using True by auto
  next
    case False
    obtain state' r1 where "pu_loop state' r1 (p + 1) t = (rc, r')" "args_start r1 = None"
      using Cons.prems False
      by (cases state) (auto simp: pu_after_slash_def pu_check_def pu_rest_def split: if_splits prod.splits)
    then obtain i where "i < length t" "t ! i = 63" "a = p + 1 + i + 1" using Cons.IH Cons.prems(3) by blast
    then show ?thesis by (intro exI [of _ "Suc i"]) simp
  qed
qed simp

definition uri_len :: "ngx_http_request_t \<Rightarrow> nat" where
  "uri_len r = (case args_start r of Some a \<Rightarrow> a - 1 - the (uri_start r) | None \<Rightarrow> length (uri_text r))"

lemma parse_uri_facts:
  assumes "ngx_http_parse_uri r = (NGX_OK, r')" "args_start r = None"
  shows "uri_text r' = uri_text r" "uri_start r' = uri_start r" "path_room (uri_text r) \<le> uri_len r'"
    "uri_text r = [] \<and> r' = r \<or> (\<exists>t. uri_text r = 47 # t
       \<and> pu_loop pu_after_slash_in_uri r (the (uri_start r) + 1) t = (NGX_OK, r'))"
proof -
  note l = assms(1) [unfolded ngx_http_parse_uri_def]
  have k: "pu_keeps r r'" by (rule pu_loop_keeps [OF l])
  then show t: "uri_text r' = uri_text r" "uri_start r' = uri_start r" by (simp_all add: pu_keeps_def)
  show "path_room (uri_text r) \<le> uri_len r'"
  proof (cases "args_start r'")
    case None
    then show ?thesis using path_room_length t by (simp add: uri_len_def)
  next
    case (Some a)
    obtain i where "i < length (uri_text r)" "uri_text r ! i = 63" "a = the (uri_start r) + i + 1"
      using pu_loop_args [OF l assms(2) Some] by blast
    then show ?thesis using path_room_le [of i "uri_text r"] Some t by (simp add: uri_len_def)
  qed
  show "uri_text r = [] \<and> r' = r \<or> (\<exists>t. uri_text r = 47 # t
       \<and> pu_loop pu_after_slash_in_uri r (the (uri_start r) + 1) t = (NGX_OK, r'))"
    using l by (cases "uri_text r") (auto simp: ngx_codes split: if_splits)
qed

lemma process_complex:
  assumes "complex_uri r \<or> quoted_uri r"
  shows "ngx_http_process_request_uri m True r =
    (case ngx_http_parse_complex_uri m (uri_len r + 1) (uri_text r) (seen r ! the (uri_end r)) of
       Uri_oob \<Rightarrow> Uri_fault
     | Uri_invalid \<Rightarrow> Uri_status 400
     | Uri_ok p \<Rightarrow> Uri_go
         \<lparr>ru_uri = up_uri p, ru_exten = (case up_exten p of Some e \<Rightarrow> e | None \<Rightarrow> []),
          ru_args = request_args (uri_text r) (up_args_start p) (up_args p),
          ru_unparsed_uri = uri_text r, ru_valid_unparsed_uri = (\<not> space_in_uri r)\<rparr>)"
  using assms by (simp add: ngx_http_process_request_uri_def uri_len_def Let_def)

lemma process_simple:
  assumes "\<not> complex_uri r" "\<not> quoted_uri r"
  shows "ngx_http_process_request_uri m mem r = Uri_go
    \<lparr>ru_uri = take (uri_len r) (uri_text r),
     ru_exten = (case uri_ext r of Some e \<Rightarrow> slice (uri_text r) (e - the (uri_start r)) (uri_len r) | None \<Rightarrow> []),
     ru_args = request_args (uri_text r) (map_option (\<lambda>a. a - the (uri_start r)) (args_start r)) None,
     ru_unparsed_uri = uri_text r, ru_valid_unparsed_uri = (\<not> space_in_uri r)\<rparr>"
  using assms by (simp add: ngx_http_process_request_uri_def uri_len_def Let_def split: option.split)

lemma cu_args_loop_none: "35 \<notin> set t \<Longrightarrow> cu_args_loop n t = None"
  by (induction t arbitrary: n) simp_all

lemma slice_drop_take: "slice s a b = drop a (take b s)"
  by (simp add: slice_def drop_take)

lemma simple_parts:
  assumes "ngx_http_parse_uri r = (NGX_OK, r')" "args_start r = None" "uri_ext r = None" "\<not> complex_uri r'" "\<not> quoted_uri r'"
    and start: "start = the (uri_start r)" and path: "u = take (uri_len r') (uri_text r)"
  shows "\<exists>p. ngx_http_parse_complex_uri m (uri_len r' + 1) (uri_text r) after = Uri_ok p
    \<and> up_uri p = u \<and> up_exten p = map_option (\<lambda>e. drop (e - start) u) (uri_ext r')
    \<and> up_args p = None \<and> up_args_start p = map_option (\<lambda>a. a - start) (args_start r')"
proof (cases "uri_text r = []")
  case True
  then have "r' = r" using parse_uri_facts(4) [OF assms(1,2)] by auto
  then show ?thesis using True assms(2,3) path by (simp add: complex_uri_run cu_finish_def new_cu_def)
next
  case False
  let ?cap = "uri_len r' + 1"
  let ?c = "new_cu ?cap\<lparr>cu_st := Plain cu_slash, cu_u := [47]\<rparr>"
  obtain t where t: "uri_text r = 47 # t" "pu_loop pu_after_slash_in_uri r (start + 1) t = (NGX_OK, r')"
    using parse_uri_facts(4) [OF assms(1,2)] False start by auto
  obtain act rest where run: "cu_run m ?c t = (act, rest)" by (metis surj_pair)
  have sim: "uri_sim start pu_after_slash_in_uri r (start + 1) ?c"
    using assms(2,3) by (simp add: uri_sim_def new_cu_def)
  have room: "length (cu_u ?c) + path_room t \<le> cu_cap ?c"
    using parse_uri_facts(3) [OF assms(1,2)] t(1) by (simp add: new_cu_def)
  obtain c' where c': "cu_ext c' = map_option (\<lambda>e. e - start) (uri_ext r')"
    "act = Cu_done c' \<and> args_start r' = None \<and> cu_u c' = 47 # t
     \<or> act = Cu_args c' \<and> 35 \<notin> set rest \<and> (\<exists>pre. t = pre @ 63 # rest \<and> cu_u c' = 47 # pre
         \<and> args_start r' = Some (start + length pre + 2))"
    using uri_sim_run [OF sim t(2) assms(4,5) room run] by (auto simp: uri_sim_end_def)
  have r: "cu_run m (new_cu ?cap) (uri_text r) = (act, rest)" using cu_start(1) [of ?cap m t] run t(1) by simp
  have len: "uri_len r' = (case args_start r' of Some a \<Rightarrow> a - 1 - start | None \<Rightarrow> Suc (length t))"
    using parse_uri_facts(1,2) [OF assms(1,2)] t(1) start by (simp add: uri_len_def split: option.split)
  have u: "cu_u c' = u" using c'(2) path len t(1) by auto
  show ?thesis
    using c' u t(1) unfolding complex_uri_run r
    by (cases "uri_ext r'") (auto simp: cu_finish_def cu_args_loop_none)
qed

text \<open>A request whose buffer holds a URI and the space after it.\<close>

definition sample_request :: "bytes \<Rightarrow> ngx_http_request_t" where
  "sample_request s = new_request\<lparr>seen := s @ [32], uri_start := Some 0, uri_end := Some (length s)\<rparr>"

lemma new_request_sample: "args_start (sample_request s) = None" "uri_ext (sample_request s) = None"
  by (simp_all add: sample_request_def new_request_def)

subsection \<open>Properties\<close>

text \<open>
  C8: \<open>ngx_http_parse_complex_uri\<close> is decode, split and resolve: for a URI that starts with
  a slash, with room for the bytes before the first \<open>?\<close>, it refuses exactly when an escape
  is malformed or stands for NUL or when \<open>..\<close> would leave the root, and else its result is
  the decoded path, cut into segments, with \<open>.\<close> and empty segments dropped (the latter when
  slashes are merged) and each \<open>..\<close> resolved, except that the last segment is kept as it is.
\<close>

theorem complex_uri_normalises:
  assumes "path_room (chr CHR ''/'' # s) \<le> cap"
  shows "case normal_path m s of
      None \<Rightarrow> ngx_http_parse_complex_uri m cap (chr CHR ''/'' # s) after = Uri_invalid
    | Some path \<Rightarrow> \<exists>p. ngx_http_parse_complex_uri m cap (chr CHR ''/'' # s) after = Uri_ok p \<and> up_uri p = path"
  using complex_uri_path [of s cap m after] assms by (cases "normal_path m s") (simp_all add: uri_is_def)

theorem complex_uri_normalises_witness:
  "\<exists>p. ngx_http_parse_complex_uri True 100 (str ''/a/b/../c//d/./e%2e/x%2f..%2Fy.html?a=b#c'') 32 = Uri_ok p
     \<and> up_uri p = str ''/a/c/d/e./y.html''"
proof -
  let ?s = "str ''a/b/../c//d/./e%2e/x%2f..%2Fy.html?a=b#c''"
  have "normal_path True ?s = Some (str ''/a/c/d/e./y.html'')" by code_simp
  then show ?thesis using complex_uri_normalises [of ?s 100 True 32] by (simp add: path_room_def)
qed

text \<open>
  C10: The short cut is right: when \<open>ngx_http_parse_uri\<close> has looked at a URI and set neither
  the flag for complex nor the one for quoted URIs, \<open>ngx_http_process_request_uri\<close>, which
  then takes the bytes as they are, leaves the same path, extension, arguments and flags
  in the request as it would had it run the full parser.
\<close>

theorem simple_uri_unchanged:
  assumes "ngx_http_parse_uri r = (NGX_OK, r')" "args_start r = None" "uri_ext r = None"
    and "\<not> complex_uri r'" "\<not> quoted_uri r'"
  shows "ngx_http_process_request_uri m True r' = ngx_http_process_request_uri m True (r'\<lparr>complex_uri := True\<rparr>)"
proof -
  let ?u = "take (uri_len r') (uri_text r)"
  let ?r = "r'\<lparr>complex_uri := True\<rparr>"
  have len: "uri_len ?r = uri_len r'" by (simp add: uri_len_def split: option.split)
  note f = parse_uri_facts [OF assms(1,2)]
  obtain p where p: "ngx_http_parse_complex_uri m (uri_len r' + 1) (uri_text r) (seen r' ! the (uri_end r')) = Uri_ok p"
    "up_uri p = ?u" "up_exten p = map_option (\<lambda>e. drop (e - the (uri_start r)) ?u) (uri_ext r')"
    "up_args p = None" "up_args_start p = map_option (\<lambda>a. a - the (uri_start r)) (args_start r')"
    using simple_parts [OF assms refl refl] by blast
  have "ngx_http_process_request_uri m True ?r = Uri_go
    \<lparr>ru_uri = up_uri p, ru_exten = (case up_exten p of Some e \<Rightarrow> e | None \<Rightarrow> []),
     ru_args = request_args (uri_text r) (up_args_start p) (up_args p),
     ru_unparsed_uri = uri_text r, ru_valid_unparsed_uri = (\<not> space_in_uri r')\<rparr>"
    using p(1) f(1) by (simp add: process_complex len)
  then show ?thesis
    unfolding process_simple [OF assms(4,5)] using f(1,2) p(2-5) by (simp add: slice_drop_take split: option.split)
qed

theorem simple_uri_unchanged_witness:
  "ngx_http_process_request_uri True True (snd (ngx_http_parse_uri (sample_request (str ''/a.b?c'')))) =
   ngx_http_process_request_uri True True ((snd (ngx_http_parse_uri (sample_request (str ''/a.b?c''))))\<lparr>complex_uri := True\<rparr>)"
proof -
  let ?r = "sample_request (str ''/a.b?c'')" and ?r' = "snd (ngx_http_parse_uri (sample_request (str ''/a.b?c'')))"
  have "fst (ngx_http_parse_uri ?r) = NGX_OK" "\<not> complex_uri ?r'" "\<not> quoted_uri ?r'" by code_simp+
  then show ?thesis
    using simple_uri_unchanged [of ?r ?r' True] by (metis new_request_sample prod.collapse)
qed

text \<open>
  C9: Whatever the bytes of a URI, when \<open>ngx_http_parse_uri\<close> accepts them, processing the URI
  writes nothing past the memory allocated for the result, and when the request goes on
  its path starts with a slash (unless the URI is empty) and has no directory \<open>.\<close> or \<open>..\<close> in
  it, and no \<open>//\<close> when slashes are merged. A last segment \<open>.\<close> or \<open>..\<close>, with no slash behind it, is
  not a directory here and may be kept.
\<close>

theorem request_uri_safe:
  assumes "ngx_http_parse_uri r = (NGX_OK, r')" "args_start r = None" "uri_ext r = None"
  shows "ngx_http_process_request_uri m mem r' \<noteq> Uri_fault
    \<and> (\<forall>x. ngx_http_process_request_uri m mem r' = Uri_go x \<longrightarrow>
         no_dot_dirs m (ru_uri x) \<and> (uri_text r \<noteq> [] \<longrightarrow> hd (ru_uri x) = chr CHR ''/''))"
proof -
  let ?after = "seen r' ! the (uri_end r')"
  let ?res = "ngx_http_parse_complex_uri m (uri_len r' + 1) (uri_text r) ?after"
  note f = parse_uri_facts [OF assms(1,2)]
  have ok: "?res \<noteq> Uri_oob \<and> (\<forall>p. ?res = Uri_ok p \<longrightarrow> no_dot_dirs m (up_uri p) \<and> (uri_text r \<noteq> [] \<longrightarrow> hd (up_uri p) = 47))"
  proof (cases "uri_text r = []")
    case True
    then show ?thesis by (simp add: complex_uri_run cu_finish_def new_cu_def no_dot_dirs_def)
  next
    case False
    then obtain t where t: "uri_text r = 47 # t" using f(4) by auto
    have "uri_is ?res (normal_path m t)" using complex_uri_path [of t "uri_len r' + 1" m ?after] f(3) t by simp
    then show ?thesis using normal_path_clean [of m t] by (cases "normal_path m t") (auto simp: uri_is_def)
  qed
  show ?thesis
  proof (cases "complex_uri r' \<or> quoted_uri r'")
    case True
    then show ?thesis
      using ok f(1) process_complex [OF True, of m]
      by (cases mem) (auto simp: ngx_http_process_request_uri_def Let_def split: uri_result.splits)
  next
    case False
    then obtain p where "?res = Uri_ok p" "up_uri p = take (uri_len r') (uri_text r)"
      using simple_parts [OF assms _ _ refl refl, of m ?after] by auto
    then show ?thesis using ok False f(1) by (simp add: process_simple)
  qed
qed

theorem request_uri_safe_witness:
  "ngx_http_process_request_uri True True (snd (ngx_http_parse_uri (sample_request (str ''/%2e./x'')))) \<noteq> Uri_fault"
proof -
  let ?r = "sample_request (str ''/%2e./x'')"
  have "fst (ngx_http_parse_uri ?r) = NGX_OK" by code_simp
  then show ?thesis
    using request_uri_safe [of ?r "snd (ngx_http_parse_uri ?r)" True True] by (metis new_request_sample prod.collapse)
qed

end
