(* ===== verification/Http_Unsafe_Uri.thy ===== *)
theory Http_Unsafe_Uri
  imports Http_Request_Line Ngx_Escape
begin

section \<open>URIs from inside (ngx_http_parse.c, ngx_http_parse_unsafe_uri)\<close>

text \<open>
  The test of a URI that comes from a response header, an include or a copy request, before
  it is used for an internal redirect: it splits off the arguments, undoes escapes and
  refuses NUL bytes and \<open>..\<close> segments. Looking ahead is inside the URI because the number of
  bytes left is tested first.
\<close>

subsection \<open>Model\<close>

text \<open>
  The bytes from \<open>p\<close> start with a segment \<open>..\<close>: the test that stands twice before the loops and,
  after a slash, twice inside them (there \<open>len\<close> counts the slash too).
\<close>

definition dot_dot_ahead :: "bytes \<Rightarrow> bool" where
  "dot_dot_ahead p \<longleftrightarrow> length p > 1 \<and> p ! 0 = chr CHR ''.'' \<and> p ! 1 = chr CHR ''.''
     \<and> (length p = 2 \<or> p ! 2 = chr CHR ''/'')"

text \<open>The first loop: \<open>None\<close> is \<open>goto unsafe\<close>; else \<open>quoted\<close>, the URI up to a question mark and the arguments.\<close>

fun unsafe_scan :: "bool \<Rightarrow> bytes \<Rightarrow> bytes \<Rightarrow> (bool \<times> bytes \<times> bytes option) option" where
  "unsafe_scan quoted uri [] = Some (quoted, uri, None)"
| "unsafe_scan quoted uri (ch # p) =
     (if ch = chr CHR ''%'' then unsafe_scan True (uri @ [ch]) p
      else if is_usual ch then unsafe_scan quoted (uri @ [ch]) p
      else if ch = chr CHR ''?'' then Some (quoted, uri, Some p)
      else if ch = 0 then None
      else if ch = chr CHR ''/'' \<and> dot_dot_ahead p then None
      else unsafe_scan quoted (uri @ [ch]) p)"

text \<open>The second loop, on the unescaped URI.\<close>

fun unsafe_rescan :: "bytes \<Rightarrow> bool" where
  "unsafe_rescan [] = True"
| "unsafe_rescan (ch # p) =
     (if ch = 0 then False
      else if ch = chr CHR ''/'' \<and> dot_dot_ahead p then False
      else unsafe_rescan p)"

text \<open>The return value, the URI and the arguments; \<open>mem\<close>: the allocation succeeds.\<close>

definition ngx_http_parse_unsafe_uri :: "bool \<Rightarrow> bytes \<Rightarrow> int \<times> bytes \<times> bytes option" where
  "ngx_http_parse_unsafe_uri mem uri =
     (if uri = [] \<or> hd uri = chr CHR ''?'' then (NGX_ERROR, uri, None)
      else if dot_dot_ahead uri then (NGX_ERROR, uri, None)
      else (case unsafe_scan False [] uri of
          None \<Rightarrow> (NGX_ERROR, uri, None)
        | Some (quoted, u, args) \<Rightarrow>
            if quoted then
              if \<not> mem then (NGX_ERROR, u, args)
              else let u = fst (ngx_unescape_uri 0 u) in
                if dot_dot_ahead u \<or> \<not> unsafe_rescan u then (NGX_ERROR, u, args) else (NGX_OK, u, args)
            else (NGX_OK, u, args)))"

subsection \<open>What passes\<close>

lemma rescan_clean:
  "unsafe_rescan u \<Longrightarrow> 0 \<notin> set u \<and> (\<forall>x y. u = x @ 47 # y \<longrightarrow> \<not> dot_dot_ahead y)"
proof (induction u)
  case (Cons ch p)
  then have p: "ch \<noteq> 0" "ch = 47 \<longrightarrow> \<not> dot_dot_ahead p" "0 \<notin> set p" "\<And>x y. p = x @ 47 # y \<Longrightarrow> \<not> dot_dot_ahead y"
    by (auto split: if_splits)
  have "\<not> dot_dot_ahead y" if "ch # p = x @ 47 # y" for x y
    using that p(2,4) by (cases x) auto
  then show ?case using p by auto
qed simp

lemma dot_dot_prefix: "dot_dot_ahead y \<Longrightarrow> y = str ''..'' \<or> (\<exists>z. y = str ''../'' @ z)"
proof -
  assume d: "dot_dot_ahead y"
  then obtain z where "y = 46 # 46 # z" by (cases y; cases "tl y") (auto simp: dot_dot_ahead_def)
  then show ?thesis using d by (cases z) (auto simp: dot_dot_ahead_def)
qed

text \<open>The first loop looks at the bytes up to the question mark.\<close>

lemma scan_result:
  assumes "unsafe_scan q pre s = Some (quoted, u, args)"
  shows "\<exists>t. u = pre @ t \<and> 0 \<notin> set t \<and> s = t @ (case args of None \<Rightarrow> [] | Some a \<Rightarrow> 63 # a)
    \<and> 63 \<notin> set t \<and> (\<forall>x y. t = x @ 47 # y \<longrightarrow> \<not> dot_dot_ahead (y @ (case args of None \<Rightarrow> [] | Some a \<Rightarrow> 63 # a)))"
  using assms
proof (induction s arbitrary: q pre)
  case (Cons ch p)
  show ?case
  proof (cases "ch = 63")
    case True
    then show ?thesis using Cons.prems by (auto simp: usual_iff)
  next
    case False
    then obtain q' where "unsafe_scan q' (pre @ [ch]) p = Some (quoted, u, args)" "ch \<noteq> 0" "ch = 47 \<longrightarrow> \<not> dot_dot_ahead p"
      using Cons.prems by (auto simp: usual_iff split: if_splits)
    then obtain t where t: "u = (pre @ [ch]) @ t" "0 \<notin> set t" "p = t @ (case args of None \<Rightarrow> [] | Some a \<Rightarrow> 63 # a)" "63 \<notin> set t"
      "\<forall>x y. t = x @ 47 # y \<longrightarrow> \<not> dot_dot_ahead (y @ (case args of None \<Rightarrow> [] | Some a \<Rightarrow> 63 # a))"
      using Cons.IH by blast
    have "\<not> dot_dot_ahead (y @ (case args of None \<Rightarrow> [] | Some a \<Rightarrow> 63 # a))" if "ch # t = x @ 47 # y" for x y
      using that t(3,5) \<open>ch = 47 \<longrightarrow> \<not> dot_dot_ahead p\<close> by (cases x) auto
    then show ?thesis using t False \<open>ch \<noteq> 0\<close> by (intro exI [of _ "ch # t"]) auto
  qed
qed auto

subsection \<open>Properties\<close>

text \<open>
  C31: A URI that passes the test is safe to use as a path: it has no NUL, does not begin
  with \<open>../\<close>, has \<open>/../\<close> nowhere in it, escapes undone, and if the input had no question
  mark it does not end in a segment \<open>..\<close> either. With arguments behind it a last segment \<open>..\<close>
  passes (\<open>unsafe_uri_args_gap\<close>).
\<close>

theorem unsafe_uri_checked:
  assumes "ngx_http_parse_unsafe_uri mem uri = (NGX_OK, u, args)"
  shows "0 \<notin> set u \<and> (\<forall>x y. u \<noteq> x @ str ''/../'' @ y) \<and> (\<forall>y. u \<noteq> str ''../'' @ y)
    \<and> (chr CHR ''?'' \<notin> set uri \<longrightarrow> u \<noteq> str ''..'' \<and> (\<forall>x. u \<noteq> x @ str ''/..''))"
proof -
  let ?tail = "case args of None \<Rightarrow> [] | Some a \<Rightarrow> 63 # a"
  obtain quoted t where sc: "unsafe_scan False [] uri = Some (quoted, t, args)" and nd: "\<not> dot_dot_ahead uri"
    and u: "if quoted then u = fst (ngx_unescape_uri 0 t) \<and> \<not> dot_dot_ahead u \<and> unsafe_rescan u else u = t"
    using assms by (auto simp: ngx_http_parse_unsafe_uri_def ngx_codes Let_def split: if_splits option.splits)
  note r = scan_result [OF sc]
  have dd: "dot_dot_ahead (str ''../'' @ y)" "dot_dot_ahead (str ''..'')" for y by (simp_all add: dot_dot_ahead_def)
  show ?thesis
  proof (cases quoted)
    case True
    then have c: "0 \<notin> set u" "\<And>x y. u = x @ 47 # y \<Longrightarrow> \<not> dot_dot_ahead y" "\<not> dot_dot_ahead u"
      using rescan_clean u by auto
    have "u \<noteq> x @ str ''/../'' @ y" "u \<noteq> x @ str ''/..''" for x y
      using c(2) [of x "str ''../'' @ y"] c(2) [of x "str ''..''"] dd by auto
    then show ?thesis using c dd by blast
  next
    case False
    then have t: "0 \<notin> set u" "uri = u @ ?tail" "\<And>x y. u = x @ 47 # y \<Longrightarrow> \<not> dot_dot_ahead (y @ ?tail)"
      using r u by auto
    have a: "u \<noteq> x @ str ''/../'' @ y" "u \<noteq> str ''../'' @ y" for x y
      using t(3) [of x "str ''../'' @ y"] dd(1) [of "y @ ?tail"] nd t(2) by auto
    have b: "u \<noteq> str ''..''" "u \<noteq> x @ str ''/..''" if "63 \<notin> set uri" for x
    proof -
      have "?tail = []" using that t(2) by (cases args) auto
      then show "u \<noteq> str ''..''" "u \<noteq> x @ str ''/..''" using t(3) [of x "str ''..''"] dd(2) nd t(2) by auto
    qed
    show ?thesis using t(1) a b by auto
  qed
qed

theorem unsafe_uri_checked_witness:
  "ngx_http_parse_unsafe_uri True (str ''/a%20b?c'') = (NGX_OK, str ''/a b'', Some (str ''c'')) \<and> 0 \<notin> set (str ''/a b'')"
proof -
  have "ngx_http_parse_unsafe_uri True (str ''/a%20b?c'') = (NGX_OK, str ''/a b'', Some (str ''c''))" by code_simp
  from this unsafe_uri_checked [OF this] show ?thesis by blast
qed

text \<open>
  The test for \<open>..\<close> looks at the byte after the two dots before the arguments are split
  off: \<open>/..\<close> and \<open>..\<close> followed by a question mark pass and are returned as the URI, although
  without the question mark both are refused.
\<close>

theorem unsafe_uri_args_gap:
  "ngx_http_parse_unsafe_uri mem (str ''/..?'' @ a) = (NGX_OK, str ''/..'', Some a)
   \<and> ngx_http_parse_unsafe_uri mem (str ''..?'' @ a) = (NGX_OK, str ''..'', Some a)
   \<and> fst (ngx_http_parse_unsafe_uri mem (str ''/..'')) = NGX_ERROR
   \<and> fst (ngx_http_parse_unsafe_uri mem (str ''..'')) = NGX_ERROR"
  by (simp add: ngx_http_parse_unsafe_uri_def dot_dot_ahead_def usual_iff)

end
