(* ===== verification/Http_Args.thy ===== *)
theory Http_Args
  imports Ngx_Prelude
begin

unbundle bit_operations_syntax

section \<open>Arguments and cookies (ngx_http_parse.c, ngx_string.c)\<close>

text \<open>
  Looking up an argument, a cookie or a header parameter, and splitting a URI at its question
  mark. Pointers into a string are offsets; memory is the list of the
  bytes that exist, and an access outside it is \<open>Inl Oob\<close>.
\<close>

subsection \<open>Comparison and search\<close>

definition lc :: "byte \<Rightarrow> byte" where
  "lc c = (if c \<ge> chr CHR ''A'' \<and> c \<le> chr CHR ''Z'' then c OR 0x20 else c)"

text \<open>\<open>ngx_strncasecmp\<close> on two memories, from offsets: the difference of the first pair that differs.\<close>

fun ngx_strncasecmp :: "bytes \<Rightarrow> nat \<Rightarrow> bytes \<Rightarrow> nat \<Rightarrow> nat \<Rightarrow> int cm" where
  "ngx_strncasecmp m1 s1 m2 s2 0 = Inr 0"
| "ngx_strncasecmp m1 s1 m2 s2 (Suc n) =
     cbind (rd m1 s1) (\<lambda>a. cbind (rd m2 s2) (\<lambda>b.
       let c1 = lc a; c2 = lc b in
       if c1 = c2 then (if c1 \<noteq> 0 then ngx_strncasecmp m1 (s1 + 1) m2 (s2 + 1) n else Inr 0)
       else Inr (uint c1 - uint c2)))"

text \<open>\<open>ngx_strlchr\<close>: the first offset of a byte in \<open>p..stop\<close>.\<close>

function ngx_strlchr :: "bytes \<Rightarrow> nat \<Rightarrow> nat \<Rightarrow> byte \<Rightarrow> nat option cm" where
  "ngx_strlchr m p stop c =
     (if p < stop then cbind (rd m p) (\<lambda>x. if x = c then Inr (Some p) else ngx_strlchr m (p + 1) stop c)
      else Inr None)"
  by pat_completeness auto

termination
  by (relation "measure (\<lambda>(m, p, stop, c). stop - p)") auto

declare ngx_strlchr.simps [simp del]

text \<open>
  \<open>ngx_strlcasestrn\<close>: \<open>c2\<close> is the first byte of the name in lower case, \<open>name\<close> the bytes of
  the name, \<open>n\<close> its length minus one; \<open>stop\<close> is already reduced by \<open>n\<close>.
\<close>

function strlcasestrn_loop :: "bytes \<Rightarrow> nat \<Rightarrow> int \<Rightarrow> byte \<Rightarrow> bytes \<Rightarrow> nat \<Rightarrow> nat option cm" where
  "strlcasestrn_loop m s1 stop c2 name n =
     (if int s1 \<ge> stop then Inr None
      else cbind (rd m s1) (\<lambda>a.
        if lc a \<noteq> c2 then strlcasestrn_loop m (s1 + 1) stop c2 name n
        else cbind (ngx_strncasecmp m (s1 + 1) name 1 n) (\<lambda>d.
          if d \<noteq> 0 then strlcasestrn_loop m (s1 + 1) stop c2 name n else Inr (Some s1))))"
  by pat_completeness auto

termination
  by (relation "measure (\<lambda>(m, s1, stop, c2, name, n). nat (stop - int s1))") auto

declare strlcasestrn_loop.simps [simp del]

definition ngx_strlcasestrn :: "bytes \<Rightarrow> nat \<Rightarrow> int \<Rightarrow> bytes \<Rightarrow> nat \<Rightarrow> nat option cm" where
  "ngx_strlcasestrn m s1 stop name n =
     cbind (rd name 0) (\<lambda>c. strlcasestrn_loop m s1 (stop - int n) (lc c) name n)"

subsection \<open>ngx_http_arg and ngx_http_split_args\<close>

text \<open>
  \<open>args\<close> is the memory of \<open>r->args\<close>. The result is \<open>None\<close> for \<open>NGX_DECLINED\<close> and else the
  offset and length of the value.
\<close>

lemma cbind_cong [fundef_cong]:
  "m = m' \<Longrightarrow> (\<And>x. m' = Inr x \<Longrightarrow> f x = g x) \<Longrightarrow> cbind m f = cbind m' g"
  by (cases m') auto

lemma strlcasestrn_ge: "strlcasestrn_loop m s1 stop c2 name n = Inr (Some q) \<Longrightarrow> s1 \<le> q \<and> int q < stop"
proof (induction m s1 stop c2 name n rule: strlcasestrn_loop.induct)
  case (1 m s1 stop c2 name n)
  show ?case
  proof (cases "int s1 \<ge> stop \<or> \<not> s1 < length m")
    case True
    then show ?thesis using 1(3) by (subst (asm) strlcasestrn_loop.simps) (auto simp: rd_def split: if_splits)
  next
    case False
    then show ?thesis
      using 1 by (cases "ngx_strncasecmp m (s1 + 1) name 1 n"; subst (asm) (3) strlcasestrn_loop.simps)
        (auto simp: rd_def split: if_splits intro: Suc_leD)
  qed
qed

function arg_loop :: "bytes \<Rightarrow> bytes \<Rightarrow> nat \<Rightarrow> (nat \<times> nat) option cm" where
  "arg_loop args name p =
     (if p < length args then
        cbind (ngx_strlcasestrn args p (int (length args) - 1) name (length name - 1)) (\<lambda>f. case f of
          None \<Rightarrow> Inr None
        | Some q \<Rightarrow>
            cbind (if q = 0 then Inr True else cbind (rd args (q - 1)) (\<lambda>x. Inr (x = chr CHR ''&''))) (\<lambda>at_start.
            cbind (if at_start then cbind (rd args (q + length name)) (\<lambda>x. Inr (x = chr CHR ''='')) else Inr False) (\<lambda>found.
              if found then
                cbind (ngx_strlchr args q (length args) (chr CHR ''&'')) (\<lambda>e.
                  let v = q + length name + 1;
                      endp = (case e of None \<Rightarrow> length args | Some x \<Rightarrow> x)
                  in Inr (Some (v, endp - v)))
              else arg_loop args name (q + 1))))
      else Inr None)"
  by pat_completeness auto

termination
proof (relation "measure (\<lambda>(args, name, p). length args - p)")
  fix args name :: bytes and p f q
  assume "ngx_strlcasestrn args p (int (length args) - 1) name (length name - 1) = Inr f" "f = Some q" "p < length args"
  then have "p \<le> q"
    using strlcasestrn_ge by (cases name) (auto simp: ngx_strlcasestrn_def rd_def)
  then show "((args, name, q + 1), args, name, p) \<in> measure (\<lambda>(args, name, p). length args - p)"
    using \<open>p < length args\<close> by auto
qed simp

declare arg_loop.simps [simp del]

definition ngx_http_arg :: "bytes \<Rightarrow> bytes \<Rightarrow> (nat \<times> nat) option cm" where
  "ngx_http_arg args name = (if length args = 0 then Inr None else arg_loop args name 0)"

text \<open>\<open>ngx_http_split_args\<close>: the path, and the arguments (none when their length is set to 0).\<close>

definition ngx_http_split_args :: "bytes \<Rightarrow> (bytes \<times> bytes) cm" where
  "ngx_http_split_args uri =
     cbind (ngx_strlchr uri 0 (length uri) (chr CHR ''?'')) (\<lambda>p. case p of
       Some p \<Rightarrow> Inr (take p uri, drop (p + 1) uri)
     | None \<Rightarrow> Inr (uri, []))"

subsection \<open>What the searches find\<close>

lemma lc_zero [simp]: "lc c = 0 \<longleftrightarrow> c = 0"
proof -
  have "list_all (\<lambda>c. lc c = 0 \<longleftrightarrow> c = 0) all_bytes"
    unfolding all_bytes_list by (simp add: lc_def word_le_nat_alt)
  then show ?thesis using byte_forall by blast
qed

definition same_text :: "bytes \<Rightarrow> bytes \<Rightarrow> bool" where
  "same_text a b \<longleftrightarrow> map lc a = map lc b"

lemma strncasecmp_text:
  assumes "s1 + n \<le> length m1" "s2 + n \<le> length m2" "0 \<notin> set (take n (drop s2 m2))"
  shows "\<exists>d. ngx_strncasecmp m1 s1 m2 s2 n = Inr d \<and> (d = 0 \<longleftrightarrow> same_text (take n (drop s1 m1)) (take n (drop s2 m2)))"
  using assms
proof (induction n arbitrary: s1 s2)
  case (Suc n)
  have c: "take (Suc n) (drop s1 m1) = m1 ! s1 # take n (drop (s1 + 1) m1)" "take (Suc n) (drop s2 m2) = m2 ! s2 # take n (drop (s2 + 1) m2)"
    using Suc.prems(1,2) by (simp_all add: Cons_nth_drop_Suc [symmetric])
  have nz: "m2 ! s2 \<noteq> 0" and IH: "\<exists>d. ngx_strncasecmp m1 (s1 + 1) m2 (s2 + 1) n = Inr d
      \<and> (d = 0 \<longleftrightarrow> same_text (take n (drop (s1 + 1) m1)) (take n (drop (s2 + 1) m2)))"
    using Suc.IH [of "s1 + 1" "s2 + 1"] Suc.prems c by auto
  show ?case
  proof (cases "lc (m1 ! s1) = lc (m2 ! s2)")
    case True
    then show ?thesis using IH nz Suc.prems(1,2) c by (simp add: rd_def same_text_def)
  next
    case False
    then have "uint (lc (m1 ! s1)) - uint (lc (m2 ! s2)) \<noteq> 0" by (simp add: word_uint_eq_iff)
    then show ?thesis using False Suc.prems(1,2) c by (simp add: rd_def same_text_def Let_def)
  qed
qed (simp add: same_text_def)

definition text_at :: "bytes \<Rightarrow> bytes \<Rightarrow> nat \<Rightarrow> bool" where
  "text_at m name q \<longleftrightarrow> same_text (take (length name) (drop q m)) name"

lemma text_at_Cons:
  assumes "q + length (c # cs) \<le> length m"
  shows "text_at m (c # cs) q \<longleftrightarrow> lc (m ! q) = lc c \<and> same_text (take (length cs) (drop (q + 1) m)) cs"
  using assms by (simp add: text_at_def same_text_def Cons_nth_drop_Suc [symmetric])

lemma strlcasestrn_finds:
  assumes "stop + int (length cs) \<le> int (length m)" "0 \<notin> set cs"
  shows "strlcasestrn_loop m s1 stop (lc c) (c # cs) (length cs) = Inr (find (text_at m (c # cs)) [s1..<nat stop])"
proof (induction "nat stop - s1" arbitrary: s1)
  case 0
  then show ?case by (subst strlcasestrn_loop.simps) auto
next
  case (Suc k)
  then have s: "s1 < nat stop" "int s1 < stop" by auto
  then have r: "s1 + length (c # cs) \<le> length m" using assms(1) by simp
  have IH: "strlcasestrn_loop m (s1 + 1) stop (lc c) (c # cs) (length cs) = Inr (find (text_at m (c # cs)) [s1 + 1..<nat stop])"
    using Suc by (intro Suc.hyps) simp
  obtain d where d: "ngx_strncasecmp m (s1 + 1) (c # cs) 1 (length cs) = Inr d"
    "d = 0 \<longleftrightarrow> same_text (take (length cs) (drop (s1 + 1) m)) cs"
    using strncasecmp_text [of "s1 + 1" "length cs" m 1 "c # cs"] r assms(2) by auto
  have u: "[s1..<nat stop] = s1 # [s1 + 1..<nat stop]" using s by (simp add: upt_conv_Cons)
  show ?case
    using s r IH d text_at_Cons [OF r] by (subst strlcasestrn_loop.simps) (auto simp: rd_def u)
qed

lemma strlchr_finds:
  assumes "stop \<le> length m"
  shows "ngx_strlchr m p stop c = Inr (find (\<lambda>i. m ! i = c) [p..<stop])"
proof (induction "stop - p" arbitrary: p)
  case 0
  then show ?case by (subst ngx_strlchr.simps) auto
next
  case (Suc k)
  then have "ngx_strlchr m (p + 1) stop c = Inr (find (\<lambda>i. m ! i = c) [p + 1..<stop])" by (intro Suc.hyps) simp
  then show ?case
    using Suc(2) assms by (subst ngx_strlchr.simps) (auto simp: rd_def upt_conv_Cons)
qed

subsection \<open>Arguments one by one\<close>

text \<open>The reference: the arguments are separated by \<open>&\<close>; the first whose name is the one sought.\<close>

function arg_ref :: "bytes \<Rightarrow> bytes \<Rightarrow> bytes option" where
  "arg_ref name args =
     (let seg = takeWhile (\<lambda>c. c \<noteq> chr CHR ''&'') args; rest = drop (length seg) args in
      if length name < length seg \<and> text_at seg name 0 \<and> seg ! length name = chr CHR ''=''
      then Some (drop (length name + 1) seg)
      else if rest = [] then None else arg_ref name (tl rest))"
  by pat_completeness auto

termination
  by (relation "measure (\<lambda>(name, args). length args)") auto

declare arg_ref.simps [simp del]

definition arg_at :: "bytes \<Rightarrow> bytes \<Rightarrow> nat \<Rightarrow> bool" where
  "arg_at args name q \<longleftrightarrow> text_at args name q \<and> (q = 0 \<or> args ! (q - 1) = 38) \<and> args ! (q + length name) = 61"

text \<open>The loop finds the first place where an argument of that name starts.\<close>

lemma find_from: "find P [p..<n] = Some q \<Longrightarrow> p \<le> q \<and> q < n \<and> P q \<and> (\<forall>i. p \<le> i \<and> i < q \<longrightarrow> \<not> P i)"
proof (induction "n - p" arbitrary: p)
  case (Suc k)
  then have u: "[p..<n] = p # [p + 1..<n]" by (simp add: upt_conv_Cons)
  show ?case
  proof (cases "P p")
    case True
    then show ?thesis using Suc.prems Suc(2) u by auto
  next
    case False
    then have "find P [p + 1..<n] = Some q" using Suc.prems u by simp
    from Suc.hyps(1) [OF _ this] Suc(2) have *: "p + 1 \<le> q \<and> q < n \<and> P q \<and> (\<forall>i. p + 1 \<le> i \<and> i < q \<longrightarrow> \<not> P i)" by simp
    moreover have "\<not> P i" if "p \<le> i" "i < q" for i using that False * by (cases "i = p") auto
    ultimately show ?thesis by auto
  qed
qed simp

lemma find_skip: "p \<le> q \<Longrightarrow> q \<le> n \<Longrightarrow> (\<forall>i. p \<le> i \<and> i < q \<longrightarrow> \<not> P i) \<Longrightarrow> find P [p..<n] = find P [q..<n]"
proof (induction "q - p" arbitrary: p)
  case (Suc k)
  then have "[p..<n] = p # [p + 1..<n]" "\<not> P p" by (simp_all add: upt_conv_Cons)
  then show ?case using Suc by simp
qed simp

lemma arg_loop_finds:
  assumes "name \<noteq> []" "0 \<notin> set name" "38 \<notin> set name"
  shows "arg_loop args name p = Inr (case find (arg_at args name) [p..<length args - length name] of
      None \<Rightarrow> None
    | Some q \<Rightarrow> let v = q + length name + 1 in
        Some (v, (case find (\<lambda>i. args ! i = 38) [q..<length args] of None \<Rightarrow> length args | Some x \<Rightarrow> x) - v))"
proof (induction "length args - p" arbitrary: p rule: less_induct)
  case less
  let ?n = "length args - length name"
  let ?t = "find (text_at args name) [p..<?n]" and ?a = "find (arg_at args name) [p..<?n]"
  obtain c cs where name: "name = c # cs" using assms(1) by (cases name) auto
  show ?case
  proof (cases "p < length args")
    case False
    then show ?thesis by (subst arg_loop.simps) simp
  next
    case True
    have "nat (int (length args) - 1 - int (length cs)) = ?n" by (simp add: name)
    then have search: "ngx_strlcasestrn args p (int (length args) - 1) name (length name - 1) = Inr ?t"
      using strlcasestrn_finds [of "int (length args) - 1 - int (length cs)" cs args p c] assms(2)
      by (simp add: ngx_strlcasestrn_def rd_def name)
    show ?thesis
    proof (cases ?t)
      case None
      then have "?a = None" by (auto simp: find_None_iff arg_at_def)
      then show ?thesis using True search None by (subst arg_loop.simps) simp
    next
      case (Some q)
      have q: "p \<le> q" "q < ?n" "text_at args name q" "\<forall>i. p \<le> i \<and> i < q \<longrightarrow> \<not> arg_at args name i"
        using find_from [OF Some] by (auto simp: arg_at_def)
      have step: "arg_loop args name p = (if arg_at args name q then
          Inr (let v = q + length name + 1 in
            Some (v, (case find (\<lambda>i. args ! i = 38) [q..<length args] of None \<Rightarrow> length args | Some x \<Rightarrow> x) - v))
          else arg_loop args name (q + 1))"
        using True search Some q by (subst arg_loop.simps) (auto simp: rd_def strlchr_finds arg_at_def Let_def)
      show ?thesis
      proof (cases "arg_at args name q")
        case True
        have "?a = Some q" using find_skip [OF q(1) _ q(4), of ?n] q(2) True by (simp add: upt_conv_Cons)
        then show ?thesis using step True by simp
      next
        case False
        have "?a = find (arg_at args name) [q + 1..<?n]"
          using find_skip [of p "q + 1" ?n "arg_at args name"] q False by (auto simp: less_Suc_eq)
        then show ?thesis using step False less.hyps [of "q + 1"] q True by simp
      qed
    qed
  qed
qed

text \<open>From one argument to the next.\<close>

lemma lc_amp: "lc c = lc d \<Longrightarrow> d \<noteq> 38 \<Longrightarrow> c \<noteq> 38"
proof -
  have "list_all (\<lambda>d. d \<noteq> 38 \<longrightarrow> lc d \<noteq> 38) all_bytes"
    unfolding all_bytes_list by (simp add: lc_def word_le_nat_alt)
  then have "d \<noteq> 38 \<longrightarrow> lc d \<noteq> 38" using byte_forall by blast
  moreover have "lc 38 = 38" by (simp add: lc_def word_le_nat_alt)
  ultimately show "lc c = lc d \<Longrightarrow> d \<noteq> 38 \<Longrightarrow> c \<noteq> 38" by auto
qed

lemma drop_takeWhile: "k \<le> length (takeWhile P xs) \<Longrightarrow> drop k (takeWhile P xs) = takeWhile P (drop k xs)"
proof (induction xs arbitrary: k)
  case (Cons x xs)
  then show ?case by (cases k) (auto split: if_splits)
qed simp

lemma take_takeWhile: "k \<le> length (takeWhile P xs) \<Longrightarrow> take k (takeWhile P xs) = take k xs"
proof (induction xs arbitrary: k)
  case (Cons x xs)
  then show ?case by (cases k) (auto split: if_splits)
qed simp

text \<open>The first argument of \<open>s\<close> has the name: seen from the segment and from the whole text.\<close>

lemma arg_here:
  fixes name s :: bytes
  assumes "38 \<notin> set name"
  defines "seg \<equiv> takeWhile (\<lambda>c. c \<noteq> 38) s"
  shows "length name < length seg \<and> text_at seg name 0 \<and> seg ! length name = 61 \<longleftrightarrow>
    length name < length s \<and> text_at s name 0 \<and> s ! length name = 61"
proof
  assume l: "length name < length seg \<and> text_at seg name 0 \<and> seg ! length name = 61"
  then have "take (length name) seg = take (length name) s" "seg ! length name = s ! length name" "length seg \<le> length s"
    using takeWhile_nth [of "length name" "\<lambda>c. c \<noteq> 38" s] by (auto simp: seg_def take_takeWhile length_takeWhile_le)
  then show "length name < length s \<and> text_at s name 0 \<and> s ! length name = 61" using l by (simp add: text_at_def)
next
  assume r: "length name < length s \<and> text_at s name 0 \<and> s ! length name = 61"
  have lc: "lc (s ! i) = lc (name ! i)" if "i < length name" for i
  proof -
    have "map lc (take (length name) s) = map lc name" using r by (simp add: text_at_def same_text_def)
    then have "map lc (take (length name) s) ! i = map lc name ! i" by (simp only:)
    then show ?thesis using that r by simp
  qed
  have "\<not> length seg \<le> length name"
  proof
    assume "length seg \<le> length name"
    then have "length seg < length s" using r by simp
    then have "s ! length seg = 38" using nth_length_takeWhile [of "\<lambda>c. c \<noteq> 38" s] by (simp add: seg_def)
    moreover have "s ! length seg \<noteq> 38"
    proof (cases "length seg = length name")
      case False
      then have i: "length seg < length name" using \<open>length seg \<le> length name\<close> by simp
      have "name ! length seg \<noteq> 38" using nth_mem [OF i] assms(1) by metis
      then show ?thesis using lc_amp [OF lc [OF i]] by simp
    qed (use r in simp)
    ultimately show False by simp
  qed
  then show "length name < length seg \<and> text_at seg name 0 \<and> seg ! length name = 61"
    using r by (simp add: seg_def text_at_def take_takeWhile takeWhile_nth)
qed

lemma arg_ref_finds:
  assumes "name \<noteq> []" "38 \<notin> set name" "p \<le> length args" "p = 0 \<or> args ! (p - 1) = 38"
  shows "arg_ref name (drop p args) = (case find (arg_at args name) [p..<length args - length name] of
      None \<Rightarrow> None
    | Some q \<Rightarrow> Some (takeWhile (\<lambda>c. c \<noteq> 38) (drop (q + length name + 1) args)))"
  using assms(3,4)
proof (induction "length args - p" arbitrary: p rule: less_induct)
  case less
  let ?s = "drop p args" and ?n = "length args - length name"
  let ?seg = "takeWhile (\<lambda>c. c \<noteq> 38) ?s" and ?find = "\<lambda>p. find (arg_at args name) [p..<length args - length name]"
  have here: "length name < length ?seg \<and> text_at ?seg name 0 \<and> ?seg ! length name = 61 \<longleftrightarrow> p < ?n \<and> arg_at args name p"
    unfolding arg_here [OF assms(2)] using less.prems by (auto simp: arg_at_def text_at_def add.commute)
  have len: "length ?seg \<le> length args - p" using length_takeWhile_le [of "\<lambda>c. c \<noteq> 38" ?s] by simp
  show ?case
  proof (cases "p < ?n \<and> arg_at args name p")
    case True
    then have "?find p = Some p" by (simp add: upt_conv_Cons)
    moreover have "drop (length name + 1) ?seg = takeWhile (\<lambda>c. c \<noteq> 38) (drop (p + length name + 1) args)"
      using here True by (simp add: drop_takeWhile add.commute add.left_commute)
    ultimately show ?thesis using here True by (subst arg_ref.simps) (simp add: Let_def)
  next
    case False
    have none: "\<not> arg_at args name i" if "p \<le> i" "i \<le> p + length ?seg" "i < ?n" for i
    proof (cases "i = p")
      case True
      then show ?thesis using False that by simp
    next
      case ne: False
      let ?j = "i - 1 - p"
      have j: "?j < length ?seg" "p + ?j = i - 1" using that ne by auto
      then have "args ! (i - 1) = ?seg ! ?j" using less.prems(1) by (simp add: takeWhile_nth)
      moreover have "?seg ! ?j \<noteq> 38" using nth_mem [OF j(1)] set_takeWhileD by fastforce
      ultimately show ?thesis using that ne by (simp add: arg_at_def)
    qed
    show ?thesis
    proof (cases "drop (length ?seg) ?s = []")
      case True
      then have "?find p = None" using none len by (auto simp: find_None_iff)
      then show ?thesis using here False True by (subst arg_ref.simps) (simp add: Let_def)
    next
      case rest: False
      let ?q = "p + length ?seg + 1"
      have "length ?seg < length ?s" using rest by (metis drop_eq_Nil not_le)
      then have amp: "args ! (?q - 1) = 38" "?q \<le> length args"
        using nth_length_takeWhile [of "\<lambda>c. c \<noteq> 38" ?s] less.prems(1) by auto
      have "?find p = ?find ?q"
      proof (cases "?q \<le> ?n")
        case True
        then show ?thesis using none by (intro find_skip) auto
      next
        case False
        then have "?find p = None" using none by (auto simp: find_None_iff)
        then show ?thesis using False by simp
      qed
      moreover have "tl (drop (length ?seg) ?s) = drop ?q args" by (simp add: drop_Suc tl_drop add.commute)
      moreover have "arg_ref name ?s = arg_ref name (tl (drop (length ?seg) ?s))"
        using here False rest by (subst arg_ref.simps) (auto simp: Let_def)
      ultimately show ?thesis using less.hyps [of ?q] amp by simp
    qed
  qed
qed

text \<open>The value ends where the next argument begins.\<close>

lemma find_takeWhile:
  "length (takeWhile (\<lambda>c. c \<noteq> x) (drop v s)) + v = (case find (\<lambda>i. s ! i = x) [v..<length s] of None \<Rightarrow> length s | Some i \<Rightarrow> i)"
  if "v \<le> length s"
  using that
proof (induction "length s - v" arbitrary: v)
  case (Suc k)
  then have d: "drop v s = s ! v # drop (v + 1) s" "[v..<length s] = v # [v + 1..<length s]"
    by (simp_all add: Cons_nth_drop_Suc upt_conv_Cons)
  then show ?case using Suc.hyps(1) [of "v + 1"] Suc by (auto split: option.splits)
qed simp

lemma arg_value_end:
  fixes args name :: bytes
  assumes "q + length name < length args" "arg_at args name q" "38 \<notin> set name"
  defines "v \<equiv> q + length name + 1"
    and "e \<equiv> (case find (\<lambda>i. args ! i = 38) [q..<length args] of None \<Rightarrow> length args | Some x \<Rightarrow> x)"
  shows "v \<le> e \<and> e \<le> length args \<and> take (e - v) (drop v args) = takeWhile (\<lambda>c. c \<noteq> 38) (drop v args)"
proof -
  have v: "v \<le> length args" using assms(1) by (simp add: v_def)
  have "args ! i \<noteq> 38" if "q \<le> i" "i < v" for i
  proof (cases "i = q + length name")
    case False
    then have j: "i - q < length name" using that by (simp add: v_def)
    have "map lc (take (length name) (drop q args)) = map lc name"
      using assms(2) by (simp add: arg_at_def text_at_def same_text_def)
    then have "map lc (take (length name) (drop q args)) ! (i - q) = map lc name ! (i - q)" by (simp only:)
    then have "lc (args ! i) = lc (name ! (i - q))" using j that assms(1) by simp
    moreover have "name ! (i - q) \<noteq> 38" using nth_mem [OF j] assms(3) by metis
    ultimately show ?thesis using lc_amp by blast
  qed (use assms(2) in \<open>simp add: arg_at_def\<close>)
  then have "find (\<lambda>i. args ! i = 38) [q..<length args] = find (\<lambda>i. args ! i = 38) [v..<length args]"
    using v by (intro find_skip) (auto simp: v_def)
  then have len: "length (takeWhile (\<lambda>c. c \<noteq> 38) (drop v args)) + v = e"
    using find_takeWhile [OF v, of 38] by (simp add: e_def)
  moreover have "length (takeWhile (\<lambda>c. c \<noteq> 38) (drop v args)) + v \<le> length args"
    using length_takeWhile_le [of "\<lambda>c. c \<noteq> 38" "drop v args"] v by simp
  moreover have "take (length (takeWhile (\<lambda>c. c \<noteq> 38) (drop v args))) (drop v args) = takeWhile (\<lambda>c. c \<noteq> 38) (drop v args)"
    by (metis takeWhile_eq_take)
  ultimately show ?thesis by (metis add_diff_cancel_right' le_add2)
qed

subsection \<open>Header parameters and cookies\<close>

text \<open>
  A header value is followed by a NUL in memory; \<open>h\<close> is its memory, that byte included, and
  \<open>len\<close> its length. The loops of the source over spaces and up to a separator, then the two
  look-ups; a value is returned as its offset and length.
\<close>

function skip_spaces :: "bytes \<Rightarrow> nat \<Rightarrow> nat \<Rightarrow> nat cm" where
  "skip_spaces h start endp =
     (if start < endp then cbind (rd h start) (\<lambda>c. if c = chr CHR '' '' then skip_spaces h (start + 1) endp else Inr start)
      else Inr start)"
  by pat_completeness auto

termination
  by (relation "measure (\<lambda>(h, start, endp). endp - start)") auto

function find_semicolon :: "bytes \<Rightarrow> nat \<Rightarrow> nat \<Rightarrow> nat cm" where
  "find_semicolon h p endp =
     (if p < endp then cbind (rd h p) (\<lambda>c. if c \<noteq> chr CHR '';'' then find_semicolon h (p + 1) endp else Inr p)
      else Inr p)"
  by pat_completeness auto

termination
  by (relation "measure (\<lambda>(h, p, endp). endp - p)") auto

function skip_param :: "bytes \<Rightarrow> nat \<Rightarrow> nat \<Rightarrow> nat cm" where
  "skip_param h start endp =
     (if start < endp then
        cbind (rd h start) (\<lambda>ch. if ch = chr CHR '';'' \<or> ch = chr CHR '','' then Inr (start + 1) else skip_param h (start + 1) endp)
      else Inr start)"
  by pat_completeness auto

termination
  by (relation "measure (\<lambda>(h, start, endp). endp - start)") auto

declare skip_spaces.simps [simp del] find_semicolon.simps [simp del] skip_param.simps [simp del]

text \<open>From the name on: \<open>None\<close> is \<open>goto skip\<close> or \<open>continue\<close>.\<close>

definition value_after_name :: "bytes \<Rightarrow> nat \<Rightarrow> nat \<Rightarrow> (nat \<times> nat) option cm" where
  "value_after_name h start endp =
     cbind (if start = endp then Inr True else cbind (rd h start) (\<lambda>c. Inr (c \<noteq> chr CHR ''=''))) (\<lambda>invalid.
       if invalid then Inr None
       else cbind (skip_spaces h (start + 1) endp) (\<lambda>v.
         cbind (find_semicolon h v endp) (\<lambda>p. Inr (Some (v, p - v)))))"

lemma skip_spaces_ge: "skip_spaces h start endp = Inr v \<Longrightarrow> start \<le> v"
  by (induction h start endp rule: skip_spaces.induct, subst (asm) (2) skip_spaces.simps)
    (auto simp: rd_def split: if_splits intro: Suc_leD)

lemma skip_param_gt: "skip_param h start endp = Inr v \<Longrightarrow> start < endp \<Longrightarrow> start < v"
proof (induction h start endp rule: skip_param.induct)
  case (1 h start endp)
  show ?case
  proof (cases "start + 1 < endp")
    case True
    then show ?thesis using 1 by (subst (asm) (2) skip_param.simps) (auto simp: rd_def split: if_splits)
  next
    case False
    then have "skip_param h (start + 1) endp = Inr (start + 1)" by (subst skip_param.simps) simp
    then show ?thesis using 1(2,3) by (subst (asm) skip_param.simps) (auto simp: rd_def split: if_splits)
  qed
qed

lemma skip_param_ge: "skip_param h start endp = Inr v \<Longrightarrow> start \<le> v"
  using skip_param_gt [of h start endp v] by (cases "start < endp") (auto simp: skip_param.simps [of h start])

text \<open>
  \<open>ngx_http_parse_multi_header_lines\<close>: one turn of its \<open>while\<close> loop, which finds the
  parameter or goes to \<open>skip\<close> with a new \<open>start\<close>. \<open>want\<close> says whether the caller asks for a
  value; without, a parameter is found when its name ends at a comma or at the end.
\<close>

datatype multi_res = Mv_found "(nat \<times> nat) option" | Mv_skip nat

definition multi_try :: "bytes \<Rightarrow> bytes \<Rightarrow> bool \<Rightarrow> nat \<Rightarrow> nat \<Rightarrow> multi_res cm" where
  "multi_try h name want start endp =
     cbind (ngx_strncasecmp h start name 0 (length name)) (\<lambda>d.
       if d \<noteq> 0 then Inr (Mv_skip start)
       else cbind (skip_spaces h (start + length name) endp) (\<lambda>s.
         if \<not> want then
           cbind (if s = endp then Inr True else cbind (rd h s) (\<lambda>c. Inr (c = chr CHR '',''))) (\<lambda>found.
             if found then Inr (Mv_found None) else Inr (Mv_skip s))
         else cbind (value_after_name h s endp) (\<lambda>v. case v of
             Some x \<Rightarrow> Inr (Mv_found (Some x))
           | None \<Rightarrow> Inr (Mv_skip (if s = endp then s else s + 1)))))"

lemma multi_try_ge: "multi_try h name want start endp = Inr (Mv_skip t) \<Longrightarrow> start \<le> t"
proof (cases "ngx_strncasecmp h start name 0 (length name)")
  case (Inr d)
  assume t: "multi_try h name want start endp = Inr (Mv_skip t)"
  show ?thesis
  proof (cases "d = 0")
    case True
    then obtain s where s: "skip_spaces h (start + length name) endp = Inr s"
      using t Inr by (cases "skip_spaces h (start + length name) endp") (auto simp: multi_try_def)
    have "s \<le> t"
    proof (cases want)
      case w: True
      then show ?thesis
        using t Inr True s by (cases "value_after_name h s endp") (auto simp: multi_try_def split: option.splits if_splits)
    next
      case False
      then show ?thesis
        using t Inr True s by (cases "rd h s") (auto simp: multi_try_def split: if_splits)
    qed
    then show ?thesis using skip_spaces_ge [OF s] by simp
  next
    case False
    then show ?thesis using t Inr by (simp add: multi_try_def)
  qed
qed (simp add: multi_try_def)

function multi_value :: "bytes \<Rightarrow> bytes \<Rightarrow> bool \<Rightarrow> nat \<Rightarrow> nat \<Rightarrow> (nat \<times> nat) option option cm" where
  "multi_value h name want start endp =
     (if start < endp then
        cbind (multi_try h name want start endp) (\<lambda>r. case r of
          Mv_found v \<Rightarrow> Inr (Some v)
        | Mv_skip t \<Rightarrow> cbind (skip_param h t endp) (\<lambda>t1.
            cbind (skip_spaces h t1 endp) (\<lambda>t2. multi_value h name want t2 endp)))
      else Inr None)"
  by pat_completeness auto

termination
proof (relation "measure (\<lambda>(h, name, want, start, endp). endp - start)")
  fix h name :: bytes and want start endp r t t1 t2
  assume a: "start < endp" "multi_try h name want start endp = Inr r" "r = Mv_skip t" "skip_param h t endp = Inr t1"
    "skip_spaces h t1 endp = Inr t2"
  have "start < t1"
    using multi_try_ge [of h name want start endp t] skip_param_gt [OF a(4)] skip_param_ge [OF a(4)] a(1-3)
    by (cases "t < endp") auto
  then have "start < t2" using skip_spaces_ge [OF a(5)] by simp
  then show "((h, name, want, t2, endp), h, name, want, start, endp) \<in> measure (\<lambda>(h, name, want, start, endp). endp - start)"
    using a(1) by auto
qed simp

declare multi_value.simps [simp del]

text \<open>The loops over the headers; each header is its value, and \<open>i\<close> its index.\<close>

fun ngx_http_parse_multi_header_lines :: "nat \<Rightarrow> bytes list \<Rightarrow> bytes \<Rightarrow> bool \<Rightarrow> (nat \<times> (nat \<times> nat) option) option cm" where
  "ngx_http_parse_multi_header_lines i [] name want = Inr None"
| "ngx_http_parse_multi_header_lines i (v # hs) name want =
     (if length name > length v then ngx_http_parse_multi_header_lines (i + 1) hs name want
      else cbind (multi_value (v @ [0]) name want 0 (length v)) (\<lambda>r. case r of
        Some x \<Rightarrow> Inr (Some (i, x))
      | None \<Rightarrow> ngx_http_parse_multi_header_lines (i + 1) hs name want))"

fun ngx_http_parse_set_cookie_lines :: "nat \<Rightarrow> bytes list \<Rightarrow> bytes \<Rightarrow> (nat \<times> nat \<times> nat) option cm" where
  "ngx_http_parse_set_cookie_lines i [] name = Inr None"
| "ngx_http_parse_set_cookie_lines i (v # hs) name =
     (if length name \<ge> length v then ngx_http_parse_set_cookie_lines (i + 1) hs name
      else cbind (ngx_strncasecmp (v @ [0]) 0 name 0 (length name)) (\<lambda>d.
        if d \<noteq> 0 then ngx_http_parse_set_cookie_lines (i + 1) hs name
        else cbind (skip_spaces (v @ [0]) (length name) (length v)) (\<lambda>s.
          cbind (value_after_name (v @ [0]) s (length v)) (\<lambda>r. case r of
            None \<Rightarrow> ngx_http_parse_set_cookie_lines (i + 1) hs name
          | Some (x, l) \<Rightarrow> Inr (Some (i, x, l))))))"

subsection \<open>The look-ups stay inside the header\<close>

lemma strncasecmp_stops:
  assumes "start \<le> length v" "0 \<notin> set (take n (drop k name))" "k + n \<le> length name"
  shows "\<exists>d. ngx_strncasecmp (v @ [0]) start name k n = Inr d \<and> (d = 0 \<longrightarrow> start + n \<le> length v)"
  using assms
proof (induction n arbitrary: start k)
  case (Suc n)
  have nz: "name ! k \<noteq> 0" and rest: "0 \<notin> set (take n (drop (k + 1) name))"
    using Suc.prems(2,3) by (auto simp: Cons_nth_drop_Suc [symmetric])
  show ?case
  proof (cases "start < length v")
    case True
    then obtain d where "ngx_strncasecmp (v @ [0]) (start + 1) name (k + 1) n = Inr d" "d = 0 \<longrightarrow> start + 1 + n \<le> length v"
      using Suc.IH [of "start + 1" "k + 1"] Suc.prems(3) rest by auto
    moreover have "lc a \<noteq> lc b \<Longrightarrow> uint (lc a) - uint (lc b) \<noteq> 0" for a b by (simp add: word_uint_eq_iff)
    ultimately show ?thesis using True nz Suc.prems(3) by (auto simp: rd_def nth_append Let_def)
  next
    case False
    then have "start = length v" using Suc.prems(1) by simp
    moreover have "lc 0 \<noteq> lc (name ! k)" using nz lc_zero by metis
    moreover from this have "uint (lc 0) \<noteq> uint (lc (name ! k))" by (simp add: word_uint_eq_iff)
    ultimately show ?thesis using Suc.prems(3) by (simp add: rd_def Let_def)
  qed
qed simp

lemma skip_spaces_in:
  "start \<le> endp \<Longrightarrow> endp \<le> length h \<Longrightarrow> \<exists>v. skip_spaces h start endp = Inr v \<and> start \<le> v \<and> v \<le> endp"
proof (induction h start endp rule: skip_spaces.induct)
  case (1 h start endp)
  then show ?case by (subst skip_spaces.simps) (fastforce simp: rd_def)
qed

lemma find_semicolon_in:
  "p \<le> endp \<Longrightarrow> endp \<le> length h \<Longrightarrow> \<exists>v. find_semicolon h p endp = Inr v \<and> p \<le> v \<and> v \<le> endp"
proof (induction h p endp rule: find_semicolon.induct)
  case (1 h p endp)
  then show ?case by (subst find_semicolon.simps) (fastforce simp: rd_def)
qed

lemma skip_param_in:
  "start \<le> endp \<Longrightarrow> endp \<le> length h \<Longrightarrow> \<exists>v. skip_param h start endp = Inr v \<and> start \<le> v \<and> v \<le> endp"
proof (induction h start endp rule: skip_param.induct)
  case (1 h start endp)
  then show ?case by (subst skip_param.simps) (fastforce simp: rd_def)
qed

lemma value_after_name_in:
  assumes "start \<le> endp" "endp \<le> length h"
  shows "value_after_name h start endp = Inr None
    \<or> (\<exists>v l. value_after_name h start endp = Inr (Some (v, l)) \<and> start < v \<and> v + l \<le> endp)"
proof (cases "start = endp \<or> h ! start \<noteq> 61")
  case True
  then show ?thesis using assms by (auto simp: value_after_name_def rd_def)
next
  case False
  then obtain v where v: "skip_spaces h (start + 1) endp = Inr v" "start + 1 \<le> v" "v \<le> endp"
    using skip_spaces_in [of "start + 1" endp h] assms by auto
  then obtain p where "find_semicolon h v endp = Inr p" "v \<le> p" "p \<le> endp"
    using find_semicolon_in [of v endp h] assms by auto
  then show ?thesis using False v assms by (simp add: value_after_name_def rd_def)
qed

definition in_value :: "bytes \<Rightarrow> (nat \<times> nat) option \<Rightarrow> bool" where
  "in_value v x \<longleftrightarrow> (case x of None \<Rightarrow> True | Some (p, l) \<Rightarrow> p + l \<le> length v)"

lemma multi_try_in:
  assumes "start \<le> length v" "0 \<notin> set name"
  shows "(\<exists>x. multi_try (v @ [0]) name want start (length v) = Inr (Mv_found x) \<and> in_value v x)
    \<or> (\<exists>t. multi_try (v @ [0]) name want start (length v) = Inr (Mv_skip t) \<and> t \<le> length v)"
proof -
  obtain d where d: "ngx_strncasecmp (v @ [0]) start name 0 (length name) = Inr d" "d = 0 \<longrightarrow> start + length name \<le> length v"
    using strncasecmp_stops [of start v "length name" 0 name] assms by auto
  show ?thesis
  proof (cases "d = 0")
    case True
    then obtain s where s: "skip_spaces (v @ [0]) (start + length name) (length v) = Inr s" "s \<le> length v"
      using skip_spaces_in [of "start + length name" "length v" "v @ [0]"] d by auto
    show ?thesis
    proof (cases want)
      case w: True
      then show ?thesis
        using value_after_name_in [of s "length v" "v @ [0]"] d True s by (auto simp: multi_try_def in_value_def)
    next
      case False
      then show ?thesis using d True s by (auto simp: multi_try_def in_value_def rd_def)
    qed
  next
    case False
    then show ?thesis using d assms by (simp add: multi_try_def)
  qed
qed

lemma multi_value_in:
  assumes "start \<le> length v" "0 \<notin> set name"
  shows "multi_value (v @ [0]) name want start (length v) = Inr None
    \<or> (\<exists>x. multi_value (v @ [0]) name want start (length v) = Inr (Some x) \<and> in_value v x)"
  using assms(1)
proof (induction "length v - start" arbitrary: start rule: less_induct)
  case less
  show ?case
  proof (cases "start < length v")
    case False
    then show ?thesis by (subst multi_value.simps) simp
  next
    case True
    show ?thesis
    proof (cases "\<exists>x. multi_try (v @ [0]) name want start (length v) = Inr (Mv_found x) \<and> in_value v x")
      case found: True
      then show ?thesis using True by (subst (2) multi_value.simps) auto
    next
      case no: False
      then obtain t where t: "multi_try (v @ [0]) name want start (length v) = Inr (Mv_skip t)" "t \<le> length v"
        using multi_try_in [OF less.prems assms(2), of want] by auto
      have "start \<le> t" using multi_try_ge [OF t(1)] .
      obtain t1 where t1: "skip_param (v @ [0]) t (length v) = Inr t1" "t \<le> t1" "t1 \<le> length v"
        using skip_param_in [of t "length v" "v @ [0]"] t(2) by auto
      have gt: "start < t1" using skip_param_gt [OF t1(1)] t1(2) \<open>start \<le> t\<close> True by (cases "t < length v") auto
      obtain t2 where t2: "skip_spaces (v @ [0]) t1 (length v) = Inr t2" "t1 \<le> t2" "t2 \<le> length v"
        using skip_spaces_in [of t1 "length v" "v @ [0]"] t1(3) by auto
      have "multi_value (v @ [0]) name want start (length v) = multi_value (v @ [0]) name want t2 (length v)"
        using True t(1) t1(1) t2(1) by (subst multi_value.simps) simp
      then show ?thesis using less.hyps [of t2] gt t2 True by auto
    qed
  qed
qed

lemma set_cookie_in:
  assumes "0 \<notin> set name"
  shows "\<exists>r. ngx_http_parse_set_cookie_lines i hs name = Inr r
    \<and> (\<forall>j p l. r = Some (j, p, l) \<longrightarrow> i \<le> j \<and> j < i + length hs \<and> p + l \<le> length (hs ! (j - i)))"
proof (induction hs arbitrary: i)
  case (Cons v hs)
  have next_in: "\<exists>r. ngx_http_parse_set_cookie_lines (i + 1) hs name = Inr r
    \<and> (\<forall>j p l. r = Some (j, p, l) \<longrightarrow> i \<le> j \<and> j < i + length (v # hs) \<and> p + l \<le> length ((v # hs) ! (j - i)))"
    using Cons.IH [of "i + 1"] by (auto simp: nth_Cons' Suc_le_eq)
  show ?case
  proof (cases "length name \<ge> length v")
    case False
    obtain d where d: "ngx_strncasecmp (v @ [0]) 0 name 0 (length name) = Inr d"
      using strncasecmp_stops [of 0 v "length name" 0 name] assms by auto
    obtain s where s: "skip_spaces (v @ [0]) (length name) (length v) = Inr s" "s \<le> length v"
      using skip_spaces_in [of "length name" "length v" "v @ [0]"] False by auto
    show ?thesis
      using value_after_name_in [of s "length v" "v @ [0]"] next_in False d s by auto
  qed (use next_in in simp)
qed simp

lemma multi_header_in:
  assumes "0 \<notin> set name"
  shows "\<exists>r. ngx_http_parse_multi_header_lines i hs name want = Inr r
    \<and> (\<forall>j x. r = Some (j, x) \<longrightarrow> i \<le> j \<and> j < i + length hs \<and> in_value (hs ! (j - i)) x)"
proof (induction hs arbitrary: i)
  case (Cons v hs)
  have next_in: "\<exists>r. ngx_http_parse_multi_header_lines (i + 1) hs name want = Inr r
    \<and> (\<forall>j x. r = Some (j, x) \<longrightarrow> i \<le> j \<and> j < i + length (v # hs) \<and> in_value ((v # hs) ! (j - i)) x)"
    using Cons.IH [of "i + 1"] by (auto simp: nth_Cons' Suc_le_eq)
  show ?case
  proof (cases "length name > length v")
    case False
    then show ?thesis
      using multi_value_in [of 0 v name want, OF _ assms] next_in by auto
  qed (use next_in in simp)
qed simp

subsection \<open>Properties\<close>

text \<open>
  C32: \<open>ngx_http_arg\<close> finds the first argument of a name: for a name without NUL and \<open>&\<close> it
  reads nothing outside the arguments and returns exactly the value of the first of the
  \<open>&\<close>-separated arguments that consists of that name, in any case, an equals sign and the
  value; when there is none it declines.
\<close>

theorem http_arg_finds_first:
  assumes "name \<noteq> []" "0 \<notin> set name" "chr CHR ''&'' \<notin> set name"
  shows "case arg_ref name args of
      None \<Rightarrow> ngx_http_arg args name = Inr None
    | Some val \<Rightarrow> \<exists>v l. ngx_http_arg args name = Inr (Some (v, l)) \<and> v + l \<le> length args \<and> slice args v (v + l) = val"
proof (cases "args = []")
  case True
  then show ?thesis using assms(1) by (simp add: ngx_http_arg_def arg_ref.simps Let_def)
next
  case False
  let ?f = "find (arg_at args name) [0..<length args - length name]"
  have amp: "38 \<notin> set name" using assms(3) by simp
  have loop: "ngx_http_arg args name = Inr (case ?f of None \<Rightarrow> None | Some q \<Rightarrow> let v = q + length name + 1 in
      Some (v, (case find (\<lambda>i. args ! i = 38) [q..<length args] of None \<Rightarrow> length args | Some x \<Rightarrow> x) - v))"
    using arg_loop_finds [OF assms(1,2) amp, of args 0] False by (simp add: ngx_http_arg_def)
  have ref: "arg_ref name args = (case ?f of None \<Rightarrow> None
      | Some q \<Rightarrow> Some (takeWhile (\<lambda>c. c \<noteq> 38) (drop (q + length name + 1) args)))"
    using arg_ref_finds [OF assms(1) amp, of 0 args] by simp
  show ?thesis
  proof (cases ?f)
    case None
    then show ?thesis using loop ref by simp
  next
    case (Some q)
    then have q: "q + length name < length args" "arg_at args name q" using find_from [OF Some] by auto
    let ?v = "q + length name + 1"
    let ?e = "case find (\<lambda>i. args ! i = 38) [q..<length args] of None \<Rightarrow> length args | Some x \<Rightarrow> x"
    have end_of: "?v \<le> ?e" "?e \<le> length args" "take (?e - ?v) (drop ?v args) = takeWhile (\<lambda>c. c \<noteq> 38) (drop ?v args)"
      using arg_value_end [OF q amp] by auto
    then show ?thesis using loop ref Some by (auto simp: Let_def slice_def)
  qed
qed

theorem http_arg_finds_first_witness:
  "\<exists>v l. ngx_http_arg (str ''xid=1&ID=42&b'') (str ''id'') = Inr (Some (v, l))
     \<and> slice (str ''xid=1&ID=42&b'') v (v + l) = str ''42''"
proof -
  have r: "arg_ref (str ''id'') (str ''xid=1&ID=42&b'') = Some (str ''42'')" by code_simp
  show ?thesis using http_arg_finds_first [of "str ''id''" "str ''xid=1&ID=42&b''"] unfolding r by auto
qed

text \<open>
  C33: Looking up a header parameter or a cookie never reads outside the header values and
  the NUL that follows each of them, although names are compared without looking at what is
  left of the value; and a value found lies inside the header it is found in. The name has
  no NUL.
\<close>

theorem header_lookup_memory_safe:
  assumes "0 \<notin> set name"
  shows "(\<exists>r. ngx_http_parse_multi_header_lines 0 hs name want = Inr r
      \<and> (\<forall>j x. r = Some (j, x) \<longrightarrow> j < length hs \<and> in_value (hs ! j) x))
    \<and> (\<exists>r. ngx_http_parse_set_cookie_lines 0 hs name = Inr r
      \<and> (\<forall>j p l. r = Some (j, p, l) \<longrightarrow> j < length hs \<and> p + l \<le> length (hs ! j)))"
  using multi_header_in [OF assms, of 0 hs want] set_cookie_in [OF assms, of 0 hs] by auto

theorem header_lookup_memory_safe_witness:
  "\<exists>r. ngx_http_parse_multi_header_lines 0 [str ''q=1; sid=7''] (str ''sid'') True = Inr r
     \<and> r = Some (0, Some (9, 1))"
proof -
  have "ngx_http_parse_multi_header_lines 0 [str ''q=1; sid=7''] (str ''sid'') True = Inr (Some (0, Some (9, 1)))"
    by code_simp
  moreover have "0 \<notin> set (str ''sid'')" by simp
  note header_lookup_memory_safe [OF this, of "[str ''q=1; sid=7'']" True]
  ultimately show ?thesis by auto
qed

end
