(* ===== verification/Upstream_Check.thy ===== *)
theory Upstream_Check
  imports Http_Status_Line
begin

section \<open>Health checks of upstream servers (ngx_http_upstream_check_module.c)\<close>

text \<open>
  The state the check module keeps of a server in shared memory and the operations on it
  (src/modules/nginx_upstream_check_module/ngx_http_upstream_check_module.c): the result of
  a check is counted by \<open>ngx_http_upstream_check_status_update\<close>, which takes the server out
  of service after \<open>fall_count\<close> failures in a row and back after \<open>rise_count\<close> successes in a
  row; the balancers ask \<open>ngx_http_upstream_check_peer_down\<close>. The reply to an HTTP check is
  judged by \<open>ngx_http_upstream_check_http_parse\<close> on a copy of the core's status line
  parser. Counters are words of 64 bits. The locks around the counters are not modelled:
  each operation is one step.
\<close>

subsection \<open>Model: the state in shared memory\<close>

record check_peer_shm =
  access_time :: u64
  fall_count :: u64
  rise_count :: u64
  busyness :: u64
  access_count :: u64
  shm_down :: bool

record check_srv_conf =
  conf_fall_count :: u64
  conf_rise_count :: u64
  status_alive :: u64
  default_down :: bool

text \<open>A checked server with its part of the shared memory; \<open>check_peers_ctx\<close> is NULL without checks.\<close>

record check_peer =
  peer_shm :: check_peer_shm
  peer_conf :: check_srv_conf

type_synonym check_peers = "check_peer list option"

definition ngx_http_upstream_check_init_shm_peer :: "check_peer_shm option \<Rightarrow> bool \<Rightarrow> check_peer_shm" where
  "ngx_http_upstream_check_init_shm_peer opsh init_down =
     (case opsh of
        Some o' \<Rightarrow> \<lparr>access_time = access_time o', fall_count = fall_count o', rise_count = rise_count o',
          busyness = busyness o', access_count = access_count o', shm_down = shm_down o'\<rparr>
      | None \<Rightarrow> \<lparr>access_time = 0, fall_count = 0, rise_count = 0, busyness = 0, access_count = 0,
          shm_down = init_down\<rparr>)"

definition ngx_http_upstream_check_status_update :: "u64 \<Rightarrow> check_peer \<Rightarrow> bool \<Rightarrow> check_peer" where
  "ngx_http_upstream_check_status_update now p ok =
     (let s = peer_shm p; c = peer_conf p;
          s = (if ok then
                 let s = s\<lparr>rise_count := rise_count s + 1, fall_count := 0\<rparr>
                 in if shm_down s \<and> rise_count s \<ge> conf_rise_count c then s\<lparr>shm_down := False\<rparr> else s
               else
                 let s = s\<lparr>rise_count := 0, fall_count := fall_count s + 1\<rparr>
                 in if \<not> shm_down s \<and> fall_count s \<ge> conf_fall_count c then s\<lparr>shm_down := True\<rparr> else s)
      in p\<lparr>peer_shm := s\<lparr>access_time := now\<rparr>\<rparr>)"

definition ngx_http_upstream_check_peer_down :: "check_peers \<Rightarrow> u64 \<Rightarrow> bool" where
  "ngx_http_upstream_check_peer_down ctx index =
     (case ctx of
        None \<Rightarrow> False
      | Some ps \<Rightarrow> if length ps \<le> unat index then False else shm_down (peer_shm (ps ! unat index)))"

definition ngx_http_upstream_check_get_peer :: "check_peers \<Rightarrow> u64 \<Rightarrow> check_peers" where
  "ngx_http_upstream_check_get_peer ctx index =
     (case ctx of
        None \<Rightarrow> None
      | Some ps \<Rightarrow>
          if length ps \<le> unat index then Some ps
          else
            let p = ps ! unat index; s = peer_shm p;
                s = s\<lparr>busyness := busyness s + 1, access_count := access_count s + 1\<rparr>
            in Some (ps[unat index := p\<lparr>peer_shm := s\<rparr>]))"

definition ngx_http_upstream_check_free_peer :: "check_peers \<Rightarrow> u64 \<Rightarrow> check_peers" where
  "ngx_http_upstream_check_free_peer ctx index =
     (case ctx of
        None \<Rightarrow> None
      | Some ps \<Rightarrow>
          if length ps \<le> unat index then Some ps
          else
            let p = ps ! unat index; s = peer_shm p;
                s = (if busyness s > 0 then s\<lparr>busyness := busyness s - 1\<rparr> else s)
            in Some (ps[unat index := p\<lparr>peer_shm := s\<rparr>]))"

subsection \<open>Model: the reply to an HTTP check\<close>

text \<open>
  The module's copy of the status line parser. It has the states of the core's parser but
  keeps no version numbers, so \<open>http_major\<close> and \<open>http_minor\<close> have no bound.
\<close>

record check_ctx =
  cs_st :: sl_state
  cs_seen :: bytes
  cs_code :: nat
  cs_count :: nat
  cs_start :: "nat option"
  cs_end :: "nat option"

type_synonym cs_res = "(check_ctx, int \<times> check_ctx) step_res"

definition cs_expect :: "char \<Rightarrow> sl_state \<Rightarrow> check_ctx \<Rightarrow> byte \<Rightarrow> cs_res" where
  "cs_expect c s r ch = (if ch \<noteq> chr c then Stop (NGX_ERROR, r) else Go (r\<lparr>cs_st := s\<rparr>))"

definition cs_digit_or :: "char \<Rightarrow> sl_state \<Rightarrow> check_ctx \<Rightarrow> byte \<Rightarrow> cs_res" where
  "cs_digit_or c s r ch =
     (if ch = chr c then Go (r\<lparr>cs_st := s\<rparr>) else if \<not> http_digit ch then Stop (NGX_ERROR, r) else Go r)"

definition cs_status :: "check_ctx \<Rightarrow> nat \<Rightarrow> byte \<Rightarrow> cs_res" where
  "cs_status r p ch =
     (if ch = chr CHR '' '' then Go r
      else if \<not> http_digit ch then Stop (NGX_ERROR, r)
      else
        let r = r\<lparr>cs_code := cs_code r * 10 + unat ch - 48, cs_count := cs_count r + 1\<rparr>
        in if cs_count r = 3 then Go (r\<lparr>cs_start := Some (p - 2), cs_st := ssw_space_after_status\<rparr>) else Go r)"

definition cs_done :: "check_ctx \<Rightarrow> nat \<Rightarrow> cs_res" where
  "cs_done r p =
     (let r = (if cs_end r = None then r\<lparr>cs_end := Some p\<rparr> else r) in Stop (NGX_OK, r\<lparr>cs_st := ssw_start\<rparr>))"

definition cs_switch :: "check_ctx \<Rightarrow> nat \<Rightarrow> byte \<Rightarrow> cs_res" where
  "cs_switch r p ch = (case cs_st r of
       ssw_start \<Rightarrow> cs_expect CHR ''H'' ssw_H r ch
     | ssw_H \<Rightarrow> cs_expect CHR ''T'' ssw_HT r ch
     | ssw_HT \<Rightarrow> cs_expect CHR ''T'' ssw_HTT r ch
     | ssw_HTT \<Rightarrow> cs_expect CHR ''P'' ssw_HTTP r ch
     | ssw_HTTP \<Rightarrow> cs_expect CHR ''/'' ssw_first_major_digit r ch
     | ssw_first_major_digit \<Rightarrow>
         (if ch < chr CHR ''1'' \<or> ch > chr CHR ''9'' then Stop (NGX_ERROR, r) else Go (r\<lparr>cs_st := ssw_major_digit\<rparr>))
     | ssw_major_digit \<Rightarrow> cs_digit_or CHR ''.'' ssw_first_minor_digit r ch
     | ssw_first_minor_digit \<Rightarrow>
         (if \<not> http_digit ch then Stop (NGX_ERROR, r) else Go (r\<lparr>cs_st := ssw_minor_digit\<rparr>))
     | ssw_minor_digit \<Rightarrow> cs_digit_or CHR '' '' ssw_status r ch
     | ssw_status \<Rightarrow> cs_status r p ch
     | ssw_space_after_status \<Rightarrow>
         (if ch = chr CHR '' '' \<or> ch = chr CHR ''.'' then Go (r\<lparr>cs_st := ssw_status_text\<rparr>)
          else if ch = CR then Go (r\<lparr>cs_st := ssw_almost_done\<rparr>)
          else if ch = LF then cs_done r p
          else Stop (NGX_ERROR, r))
     | ssw_status_text \<Rightarrow>
         (if ch = CR then Go (r\<lparr>cs_st := ssw_almost_done\<rparr>) else if ch = LF then cs_done r p else Go r)
     | ssw_almost_done \<Rightarrow>
         (let r = r\<lparr>cs_end := Some (p - 1)\<rparr> in if ch = LF then cs_done r p else Stop (NGX_ERROR, r)))"

definition cs_step :: "check_ctx \<Rightarrow> byte \<Rightarrow> cs_res" where
  "cs_step r ch = (case cs_switch r (length (cs_seen r)) ch of
       Go r' \<Rightarrow> Go (r'\<lparr>cs_seen := cs_seen r @ [ch]\<rparr>)
     | Stop (c, r') \<Rightarrow> Stop (c, r'\<lparr>cs_seen := cs_seen r @ [ch]\<rparr>))"

definition cs_keep :: "int \<Rightarrow> check_ctx \<Rightarrow> check_ctx \<Rightarrow> check_ctx" where
  "cs_keep c r r' = (if sl_moves c then r' else r'\<lparr>cs_st := cs_st r, cs_seen := cs_seen r\<rparr>)"

lemma cs_keep_simps [simp]: "cs_keep NGX_OK r r' = r'" "cs_keep NGX_AGAIN r r' = r'"
  by (simp_all add: cs_keep_def)

definition ngx_http_upstream_check_parse_status_line :: "check_ctx \<Rightarrow> bytes \<Rightarrow> int \<times> check_ctx \<times> bytes" where
  "ngx_http_upstream_check_parse_status_line r b = pcall cs_step sl_moves cs_keep r b"

definition ngx_http_upstream_check_http_reinit :: check_ctx where
  "ngx_http_upstream_check_http_reinit =
     \<lparr>cs_st = ssw_start, cs_seen = [], cs_code = 0, cs_count = 0, cs_start = None, cs_end = None\<rparr>"

text \<open>The bit of a status code in the mask of the codes that count as alive.\<close>

definition code_class :: "nat \<Rightarrow> u64" where
  "code_class code =
     (if code \<ge> 200 \<and> code < 300 then 0x0002
      else if code \<ge> 300 \<and> code < 400 then 0x0004
      else if code \<ge> 400 \<and> code < 500 then 0x0008
      else if code \<ge> 500 \<and> code < 600 then 0x0010
      else 0x8000)"

text \<open>
  \<open>ngx_http_upstream_check_http_parse\<close> with the received bytes \<open>recv\<close>. The result also says
  whether the connection was marked as unusable for the next check (\<open>connection->error\<close>).
\<close>

definition ngx_http_upstream_check_http_parse ::
    "check_srv_conf \<Rightarrow> check_ctx \<Rightarrow> bytes \<Rightarrow> int \<times> bool \<times> check_ctx \<times> bytes" where
  "ngx_http_upstream_check_http_parse conf ctx recv =
     (if recv = [] then (NGX_AGAIN, False, ctx, recv)
      else case ngx_http_upstream_check_parse_status_line ctx recv of (rc, ctx, recv) \<Rightarrow>
        if rc = NGX_AGAIN \<or> rc = NGX_ERROR then (rc, False, ctx, recv)
        else
          let code_n = code_class (cs_code ctx); err = \<not> (cs_code ctx \<ge> 200 \<and> cs_code ctx < 400)
          in (if code_n AND status_alive conf \<noteq> 0 then NGX_OK else NGX_ERROR, err, ctx, recv))"

subsection \<open>The counters\<close>

text \<open>How many of the last results were equal to \<open>b\<close>, without interruption.\<close>

definition streak :: "bool \<Rightarrow> bool list \<Rightarrow> nat" where
  "streak b rs = length (takeWhile (\<lambda>x. x = b) (rev rs))"

lemma streak_simps [simp]: "streak b [] = 0" "streak b (rs @ [x]) = (if x = b then Suc (streak b rs) else 0)"
  by (simp_all add: streak_def)

lemma streak_le: "streak b rs \<le> length rs"
  by (metis length_rev length_takeWhile_le streak_def)

text \<open>A server after a sequence of check results, each with the time it came at.\<close>

definition checked_peer :: "check_srv_conf \<Rightarrow> bool \<Rightarrow> (u64 \<times> bool) list \<Rightarrow> check_peer" where
  "checked_peer c d rs = foldl (\<lambda>p (now, ok). ngx_http_upstream_check_status_update now p ok)
     \<lparr>peer_shm = ngx_http_upstream_check_init_shm_peer None d, peer_conf = c\<rparr> rs"

lemma checked_peer_snoc:
  "checked_peer c d (rs @ [(now, ok)]) = ngx_http_upstream_check_status_update now (checked_peer c d rs) ok"
  by (simp add: checked_peer_def)

lemma of_nat_Suc_u64: "n < 2 ^ 64 \<Longrightarrow> unat (of_nat n :: u64) = n"
  by (simp add: unat_of_nat take_bit_nat_eq_self)

lemma checked_peer_counts:
  "peer_conf (checked_peer c d rs) = c
   \<and> rise_count (peer_shm (checked_peer c d rs)) = of_nat (streak True (map snd rs))
   \<and> fall_count (peer_shm (checked_peer c d rs)) = of_nat (streak False (map snd rs))"
proof (induction rs rule: rev_induct)
  case (snoc x rs)
  then show ?case
    by (cases x) (auto simp: checked_peer_snoc ngx_http_upstream_check_status_update_def Let_def)
qed (simp add: checked_peer_def ngx_http_upstream_check_init_shm_peer_def)

lemma count_reached: "n < 2 ^ 64 \<Longrightarrow> limit \<le> (of_nat n :: u64) \<longleftrightarrow> unat limit \<le> n"
  by (simp add: word_le_nat_alt of_nat_Suc_u64)

lemma checked_peer_down_snoc:
  assumes "length rs < 2 ^ 64 - 1"
  shows "shm_down (peer_shm (checked_peer c d (rs @ [(now, ok)]))) =
    (if ok then shm_down (peer_shm (checked_peer c d rs)) \<and> Suc (streak True (map snd rs)) < unat (conf_rise_count c)
     else shm_down (peer_shm (checked_peer c d rs)) \<or> unat (conf_fall_count c) \<le> Suc (streak False (map snd rs)))"
proof -
  have "Suc (streak b (map snd rs)) < 2 ^ 64" for b
    using streak_le [of b "map snd rs"] assms by simp
  from count_reached [OF this] have "limit \<le> 1 + of_nat (streak b (map snd rs)) \<longleftrightarrow> unat limit \<le> Suc (streak b (map snd rs))"
    for b and limit :: u64 by simp
  then show ?thesis
    using checked_peer_counts [of c d rs]
    by (auto simp: checked_peer_snoc ngx_http_upstream_check_status_update_def Let_def add.commute)
qed

lemma checked_peer_down:
  assumes "0 < conf_rise_count c" "0 < conf_fall_count c" "length rs < 2 ^ 64"
  shows "shm_down (peer_shm (checked_peer c d rs)) =
    (if unat (conf_rise_count c) \<le> streak True (map snd rs) then False
     else if unat (conf_fall_count c) \<le> streak False (map snd rs) then True
     else if rs = [] then d else shm_down (peer_shm (checked_peer c d (butlast rs))))"
proof (cases rs rule: rev_cases)
  case Nil
  then show ?thesis
    using assms by (simp add: checked_peer_def ngx_http_upstream_check_init_shm_peer_def word_less_nat_alt)
next
  case (snoc ys y)
  obtain now ok where y: "y = (now, ok)" by (cases y)
  show ?thesis
    using checked_peer_down_snoc [of ys c d now ok] assms by (auto simp: snoc y word_less_nat_alt)
qed

subsection \<open>The reply parser and the core's parser\<close>

text \<open>The two parsers agree on everything but the version numbers.\<close>

definition same_line :: "status_parser \<Rightarrow> check_ctx \<Rightarrow> bool" where
  "same_line s r \<longleftrightarrow> sl_st s = cs_st r \<and> sl_seen s = cs_seen r \<and> status_code s = cs_code r
     \<and> status_count s = cs_count r \<and> status_start s = cs_start r \<and> status_end s = cs_end r"

lemma same_line_go:
  assumes "same_line s r" "sl_step s ch = Go s'"
  shows "\<exists>r'. cs_step r ch = Go r' \<and> same_line s' r'"
  using assms
  by (cases "sl_st s")
    (auto simp: same_line_def sl_step_def sl_switch_def sl_defs cs_step_def cs_switch_def cs_expect_def cs_digit_or_def
      cs_status_def cs_done_def Let_def split: if_splits)

lemma same_line_stop:
  assumes "same_line s r" "sl_step s ch = Stop (NGX_OK, s')"
  shows "\<exists>r'. cs_step r ch = Stop (NGX_OK, r') \<and> same_line s' r'"
  using assms
  by (cases "sl_st s")
    (auto simp: same_line_def sl_step_def sl_switch_def sl_defs cs_step_def cs_switch_def cs_done_def ngx_codes Let_def
      split: if_splits)

lemma same_line_run:
  "same_line s r \<Longrightarrow> prun sl_step s b = Finished (NGX_OK, s') rest \<Longrightarrow>
    \<exists>r'. prun cs_step r b = Finished (NGX_OK, r') rest \<and> same_line s' r'"
proof (induction b arbitrary: s r)
  case (Cons x b)
  show ?case
  proof (cases "sl_step s x")
    case (Go s1)
    with Cons.prems(1) obtain r1 where "cs_step r x = Go r1" "same_line s1 r1" using same_line_go by blast
    with Go Cons.prems(2) Cons.IH [of s1 r1] show ?thesis by simp
  next
    case (Stop y)
    with Cons.prems same_line_stop [of s r x s'] show ?thesis by auto
  qed
qed simp

subsection \<open>Properties\<close>

text \<open>
  C28: The health state of a server follows its check results with hysteresis: it is up as
  soon as the last \<open>rise_count\<close> results were successes, down as soon as the last
  \<open>fall_count\<close> results were failures, and otherwise what it was before the last result; a
  server just configured is in the state \<open>default_down\<close> says.
\<close>

theorem check_rise_fall:
  assumes "0 < conf_rise_count c" "0 < conf_fall_count c" "length rs < 2 ^ 64"
  shows "shm_down (peer_shm (checked_peer c d rs)) =
    (if unat (conf_rise_count c) \<le> streak True (map snd rs) then False
     else if unat (conf_fall_count c) \<le> streak False (map snd rs) then True
     else if rs = [] then d else shm_down (peer_shm (checked_peer c d (butlast rs))))"
  using checked_peer_down [OF assms] .

theorem check_rise_fall_witness:
  "shm_down (peer_shm (checked_peer \<lparr>conf_fall_count = 2, conf_rise_count = 1, status_alive = 6, default_down = True\<rparr> True
     [(1, True), (2, False), (3, False)]))"
  using check_rise_fall [of "\<lparr>conf_fall_count = 2, conf_rise_count = 1, status_alive = 6, default_down = True\<rparr>"
    "[(1, True), (2, False), (3, False)]" True]
  by (simp add: streak_def)

text \<open>
  The health check reads a reply as the proxy would: for every reply whose status line
  the core's parser accepts, the check module's own parser accepts it too, finds the same
  code and the same unread bytes, and the check succeeds exactly when the class of that
  code is one of those configured as alive.
\<close>

theorem check_http_verdict:
  assumes "ngx_http_parse_status_line new_status b = (NGX_OK, s, rest)"
  shows "\<exists>ctx. ngx_http_upstream_check_http_parse conf ngx_http_upstream_check_http_reinit b =
      (if code_class (status_code s) AND status_alive conf \<noteq> 0 then NGX_OK else NGX_ERROR,
       \<not> (status_code s \<in> {200..<400}), ctx, rest)
    \<and> cs_code ctx = status_code s"
proof -
  have run: "prun sl_step new_status b = Finished (NGX_OK, s) rest"
    using assms status_line.pcall_finished by (simp add: ngx_http_parse_status_line_def ngx_codes)
  have "same_line new_status ngx_http_upstream_check_http_reinit"
    by (simp add: same_line_def new_status_def ngx_http_upstream_check_http_reinit_def)
  then obtain r where r: "prun cs_step ngx_http_upstream_check_http_reinit b = Finished (NGX_OK, r) rest" "same_line s r"
    using same_line_run run by blast
  moreover have "b \<noteq> []" using run by auto
  moreover from r(1) have "ngx_http_upstream_check_parse_status_line ngx_http_upstream_check_http_reinit b = (NGX_OK, r, rest)"
    by (simp add: ngx_http_upstream_check_parse_status_line_def pcall_def)
  ultimately show ?thesis
    by (auto simp: ngx_http_upstream_check_http_parse_def same_line_def ngx_codes Let_def)
qed

theorem check_http_verdict_witness:
  "\<exists>ctx. ngx_http_upstream_check_http_parse \<lparr>conf_fall_count = 5, conf_rise_count = 2, status_alive = 6, default_down = True\<rparr>
      ngx_http_upstream_check_http_reinit (str ''HTTP/1.0 503 '' @ [10]) = (NGX_ERROR, True, ctx, [])"
proof -
  obtain s where s: "ngx_http_parse_status_line new_status (str ''HTTP/1.0 503 '' @ [10]) = (NGX_OK, s, [])" "status_code s = 503"
    by (simp add: ngx_http_parse_status_line_def pcall_def sl_step_def sl_switch_def sl_defs new_status_def http_digit_def
        Let_def)
  show ?thesis
    using check_http_verdict [OF s(1), of "\<lparr>conf_fall_count = 5, conf_rise_count = 2, status_alive = 6, default_down = True\<rparr>"]
    by (auto simp: s(2) code_class_def)
qed

end
