(* ===== verification/Upstream_Round_Robin.thy ===== *)
theory Upstream_Round_Robin
  imports Upstream_Check
begin

section \<open>Weighted round robin over upstream servers (ngx_http_upstream_round_robin.c)\<close>

text \<open>
  The default balancer, src/ngx-1.12.0/src/http/ngx_http_upstream_round_robin.c, in the build
  with the check module: the groups of servers made from the configuration (the servers,
  then the backup servers), the data a request keeps (the group it is in, the server it
  has, the bitmap of servers it has tried) and the calls that get and free a server.
  Weights and times are integers: weights come from the configuration, and the property
  below bounds what is added up from them. Connection and failure counters are words of
  64 bits. A pointer to a server is its group and its place in the group. Locks and the
  saved TLS sessions are left out.
\<close>

subsection \<open>Model: state\<close>

record rr_peer =
  rr_name :: bytes
  rr_server :: bytes
  current_weight :: int
  effective_weight :: int
  weight :: int
  conns :: u64
  max_conns :: u64
  fails :: u64
  accessed :: int
  checked :: int
  max_fails :: u64
  fail_timeout :: int
  check_index :: u64
  rr_down :: bool

record rr_peers =
  number :: nat
  total_weight :: nat
  single :: bool
  weighted :: bool
  peer :: "rr_peer list"

text \<open>A group and the groups reached by \<open>next\<close> from it are a list.\<close>

record rr_data =
  peers_at :: nat
  current :: "(nat \<times> nat) option"
  tried :: "u64 list"

record upstream_server =
  srv_name :: bytes
  addrs :: "bytes list"
  srv_weight :: nat
  srv_max_conns :: u64
  srv_max_fails :: u64
  srv_fail_timeout :: int
  srv_down :: bool
  backup :: bool

subsection \<open>Model: configuration\<close>

text \<open>
  The index under which the check module watches an address is an argument (\<open>check_add\<close>,
  \<open>ngx_http_upstream_check_add_peer\<close>).
\<close>

definition rr_server_peer :: "(bytes \<Rightarrow> u64) \<Rightarrow> upstream_server \<Rightarrow> bytes \<Rightarrow> rr_peer" where
  "rr_server_peer check_add s a =
     \<lparr>rr_name = a, rr_server = srv_name s, current_weight = 0, effective_weight = int (srv_weight s), weight = int (srv_weight s),
      conns = 0, max_conns = srv_max_conns s, fails = 0, accessed = 0, checked = 0,
      max_fails = srv_max_fails s, fail_timeout = srv_fail_timeout s,
      check_index = (if \<not> srv_down s then check_add a else - 1), rr_down = srv_down s\<rparr>"

definition rr_default_peer :: "bytes \<Rightarrow> rr_peer" where
  "rr_default_peer a =
     \<lparr>rr_name = a, rr_server = [], current_weight = 0, effective_weight = 1, weight = 1, conns = 0, max_conns = 0, fails = 0,
      accessed = 0, checked = 0, max_fails = 1, fail_timeout = 10, check_index = - 1, rr_down = False\<rparr>"

definition rr_group :: "(bytes \<Rightarrow> u64) \<Rightarrow> bool \<Rightarrow> upstream_server list \<Rightarrow> rr_peers" where
  "rr_group check_add b servers =
     (let ss = filter (\<lambda>s. backup s = b) servers;
          n = (\<Sum>s\<leftarrow>ss. length (addrs s));
          w = (\<Sum>s\<leftarrow>ss. length (addrs s) * srv_weight s)
      in \<lparr>number = n, total_weight = w, single = (n = 1), weighted = (w \<noteq> n),
          peer = concat (map (\<lambda>s. map (rr_server_peer check_add s) (addrs s)) ss)\<rparr>)"

text \<open>
  \<open>ngx_http_upstream_init_round_robin\<close> with the servers of an upstream block; \<open>None\<close> is
  \<open>NGX_ERROR\<close>.
\<close>

definition ngx_http_upstream_init_round_robin ::
    "(bytes \<Rightarrow> u64) \<Rightarrow> upstream_server list \<Rightarrow> rr_peers list option" where
  "ngx_http_upstream_init_round_robin check_add servers =
     (let peers = rr_group check_add False servers; bk = rr_group check_add True servers
      in if number peers = 0 then None
         else if number bk = 0 then Some [peers]
         else Some [peers\<lparr>single := False\<rparr>, bk\<lparr>single := False\<rparr>])"

text \<open>An upstream that is implied by an address, with the addresses it resolves to.\<close>

definition rr_implicit :: "bytes list \<Rightarrow> rr_peers list" where
  "rr_implicit as =
     [\<lparr>number = length as, total_weight = length as, single = (length as = 1), weighted = False,
       peer = map rr_default_peer as\<rparr>]"

text \<open>The group \<open>ngx_http_upstream_create_round_robin_peer\<close> makes; it leaves \<open>total_weight\<close> at 0.\<close>

definition rr_resolved :: "bytes list \<Rightarrow> rr_peers list" where
  "rr_resolved as =
     [\<lparr>number = length as, total_weight = 0, single = (length as = 1), weighted = False,
       peer = map rr_default_peer as\<rparr>]"

subsection \<open>Model: requests\<close>

definition ngx_http_upstream_tries :: "rr_peers list \<Rightarrow> nat" where
  "ngx_http_upstream_tries chain =
     number (hd chain) + (case tl chain of [] \<Rightarrow> 0 | p # _ \<Rightarrow> number p)"

text \<open>The words for \<open>n\<close> bits.\<close>

definition tried_words :: "nat \<Rightarrow> nat" where "tried_words n = (n + (8 * 8 - 1)) div (8 * 8)"

definition ngx_http_upstream_init_round_robin_peer :: "rr_peers list \<Rightarrow> rr_data \<times> nat" where
  "ngx_http_upstream_init_round_robin_peer chain =
     (let n = number (hd chain);
          n = (case tl chain of [] \<Rightarrow> n | p # _ \<Rightarrow> if number p > n then number p else n)
      in (\<lparr>peers_at = 0, current = None, tried = (if n \<le> 8 * 8 then [0] else replicate (tried_words n) 0)\<rparr>,
          ngx_http_upstream_tries chain))"

definition rr_mask :: "nat \<Rightarrow> u64" where "rr_mask i = push_bit (i mod (8 * 8)) 1"

definition is_tried :: "u64 list \<Rightarrow> nat \<Rightarrow> bool" where
  "is_tried t i = (t ! (i div (8 * 8)) AND rr_mask i \<noteq> 0)"

definition full_conns :: "rr_peer \<Rightarrow> bool" where
  "full_conns p \<longleftrightarrow> max_conns p \<noteq> 0 \<and> conns p \<ge> max_conns p"

definition rr_skip :: "check_peers \<Rightarrow> int \<Rightarrow> u64 list \<Rightarrow> nat \<Rightarrow> rr_peer \<Rightarrow> bool" where
  "rr_skip ctx now t i p \<longleftrightarrow>
     is_tried t i \<or> rr_down p \<or> ngx_http_upstream_check_peer_down ctx (check_index p)
   \<or> max_fails p \<noteq> 0 \<and> fails p \<ge> max_fails p \<and> now - checked p \<le> fail_timeout p
   \<or> full_conns p"

text \<open>
  The loop of \<open>ngx_http_upstream_get_peer\<close> over the servers that \<open>skip\<close> does not leave out: \<open>best\<close>
  is the place of the best server so far with its current weight, which does not change any
  more in the loop.
\<close>

fun get_peer_loop ::
    "(nat \<Rightarrow> rr_peer \<Rightarrow> bool) \<Rightarrow> nat \<Rightarrow> int \<Rightarrow> (nat \<times> int) option \<Rightarrow> rr_peer list \<Rightarrow>
     rr_peer list \<times> int \<times> (nat \<times> int) option" where
  "get_peer_loop skip i tot best [] = ([], tot, best)"
| "get_peer_loop skip i tot best (p # ps) =
     (if skip i p
      then case get_peer_loop skip (i + 1) tot best ps of (ps', r) \<Rightarrow> (p # ps', r)
      else
        let p = p\<lparr>current_weight := current_weight p + effective_weight p\<rparr>;
            tot = tot + effective_weight p;
            p = (if effective_weight p < weight p then p\<lparr>effective_weight := effective_weight p + 1\<rparr> else p);
            best = (case best of
                None \<Rightarrow> Some (i, current_weight p)
              | Some (_, w) \<Rightarrow> if current_weight p > w then Some (i, current_weight p) else best)
        in case get_peer_loop skip (i + 1) tot best ps of (ps', r) \<Rightarrow> (p # ps', r))"

text \<open>The loop and what is done with the best server.\<close>

definition best_peer ::
    "(nat \<Rightarrow> rr_peer \<Rightarrow> bool) \<Rightarrow> int \<Rightarrow> u64 list \<Rightarrow> rr_peer list \<Rightarrow> rr_peer list \<times> u64 list \<times> nat option" where
  "best_peer skip now t ps =
     (case get_peer_loop skip 0 0 None ps of
        (ps, tot, None) \<Rightarrow> (ps, t, None)
      | (ps, tot, Some (p, _)) \<Rightarrow>
          let n = p div (8 * 8);
              t = t[n := t ! n OR rr_mask p];
              b = ps ! p;
              b = b\<lparr>current_weight := current_weight b - tot\<rparr>;
              b = (if now - checked b > fail_timeout b then b\<lparr>checked := now\<rparr> else b)
          in (ps[p := b], t, Some p))"

definition ngx_http_upstream_get_peer ::
    "check_peers \<Rightarrow> int \<Rightarrow> u64 list \<Rightarrow> rr_peer list \<Rightarrow> rr_peer list \<times> u64 list \<times> nat option" where
  "ngx_http_upstream_get_peer ctx now t ps = best_peer (rr_skip ctx now t) now t ps"

text \<open>One group: the only server of a group of one, or the best of several.\<close>

definition rr_pick ::
    "check_peers \<Rightarrow> int \<Rightarrow> u64 list \<Rightarrow> rr_peers \<Rightarrow> rr_peers \<times> u64 list \<times> nat option" where
  "rr_pick ctx now t g =
     (if single g
      then let p = hd (peer g)
           in if rr_down p \<or> full_conns p \<or> ngx_http_upstream_check_peer_down ctx (check_index p)
              then (g, t, None) else (g, t, Some 0)
      else case ngx_http_upstream_get_peer ctx now t (peer g) of (ps, t, r) \<Rightarrow> (g\<lparr>peer := ps\<rparr>, t, r))"

definition add_conn :: "rr_peers \<Rightarrow> nat \<Rightarrow> rr_peers" where
  "add_conn g p = g\<lparr>peer := (peer g)[p := (peer g ! p)\<lparr>conns := conns (peer g ! p) + 1\<rparr>]\<rparr>"

text \<open>
  \<open>ngx_http_upstream_get_round_robin_peer\<close>: the return value, the groups and the data of the
  request. When a group has no server left, the next group is tried with a cleared bitmap.
\<close>

function ngx_http_upstream_get_round_robin_peer ::
    "check_peers \<Rightarrow> int \<Rightarrow> rr_peers list \<Rightarrow> rr_data \<Rightarrow> int \<times> rr_peers list \<times> rr_data" where
  "ngx_http_upstream_get_round_robin_peer ctx now chain d =
     (let k = peers_at d
      in case rr_pick ctx now (tried d) (chain ! k) of
           (g, t, Some p) \<Rightarrow> (NGX_OK, chain[k := add_conn g p], d\<lparr>current := Some (k, p), tried := t\<rparr>)
         | (g, t, None) \<Rightarrow>
             if k + 1 < length chain
             then let n = tried_words (number (chain ! (k + 1)))
                  in ngx_http_upstream_get_round_robin_peer ctx now chain
                       (d\<lparr>peers_at := k + 1, tried := replicate n 0 @ drop n (tried d)\<rparr>)
             else (NGX_BUSY, chain, d))"
  by auto
termination
  by (relation "measure (\<lambda>(ctx, now, chain, d). length chain - peers_at d)") auto

declare ngx_http_upstream_get_round_robin_peer.simps [simp del]

definition NGX_PEER_FAILED :: u64 where "NGX_PEER_FAILED = 4"

text \<open>What freeing does to the server in a group of several.\<close>

definition rr_freed :: "int \<Rightarrow> u64 \<Rightarrow> rr_peer \<Rightarrow> rr_peer" where
  "rr_freed now state p =
     (if state AND NGX_PEER_FAILED \<noteq> 0
      then
        let p = p\<lparr>fails := fails p + 1, accessed := now, checked := now\<rparr>;
            p = (if max_fails p \<noteq> 0
                 then p\<lparr>effective_weight := effective_weight p - weight p div uint (max_fails p)\<rparr> else p)
        in if effective_weight p < 0 then p\<lparr>effective_weight := 0\<rparr> else p
      else if accessed p < checked p then p\<lparr>fails := 0\<rparr> else p)"

text \<open>
  \<open>ngx_http_upstream_free_round_robin_peer\<close>: \<open>tries\<close> is \<open>pc->tries\<close>. Without a current server
  the C code follows a NULL pointer; here the result is \<open>None\<close>.
\<close>

definition ngx_http_upstream_free_round_robin_peer ::
    "int \<Rightarrow> u64 \<Rightarrow> rr_peers list \<Rightarrow> rr_data \<Rightarrow> nat \<Rightarrow> (rr_peers list \<times> nat) option" where
  "ngx_http_upstream_free_round_robin_peer now state chain d tries =
     (case current d of
        None \<Rightarrow> None
      | Some (k, i) \<Rightarrow>
          let one = single (chain ! peers_at d);
              g = chain ! k;
              p = peer g ! i;
              p = (if one then p else rr_freed now state p);
              p = p\<lparr>conns := conns p - 1\<rparr>
          in Some (chain[k := g\<lparr>peer := (peer g)[i := p]\<rparr>], if one then 0 else tries - 1))"

subsection \<open>The bitmap\<close>

lemma rr_mask_bit: "t ! n AND rr_mask i \<noteq> 0 \<longleftrightarrow> bit (t ! n) (i mod 64)"
proof -
  have "t ! n AND rr_mask i = (if bit (t ! n) (i mod 64) then rr_mask i else 0)"
    by (rule bit_eqI) (auto simp: rr_mask_def bit_simps)
  moreover have "bit (rr_mask i) (i mod 64)" by (simp add: rr_mask_def bit_simps)
  then have "rr_mask i \<noteq> 0" by auto
  ultimately show ?thesis by simp
qed

lemma is_tried_bit: "is_tried t i \<longleftrightarrow> bit (t ! (i div 64)) (i mod 64)"
  using rr_mask_bit by (simp add: is_tried_def)

lemma is_tried_set:
  assumes "p div 64 < length t"
  shows "is_tried (t[p div 64 := t ! (p div 64) OR rr_mask p]) i \<longleftrightarrow> i = p \<or> is_tried t i"
proof (cases "i div 64 = p div 64")
  case True
  then have "i = p \<longleftrightarrow> i mod 64 = p mod 64" by (metis div_mult_mod_eq)
  then show ?thesis using True assms by (auto simp: is_tried_bit rr_mask_def bit_simps)
next
  case False
  then show ?thesis by (auto simp: is_tried_bit nth_list_update)
qed

lemma is_tried_cleared: "i < n \<Longrightarrow> \<not> is_tried (replicate (tried_words n) 0 @ ts) i"
proof -
  assume "i < n"
  then have "i div 64 < tried_words n" by (simp add: tried_words_def)
  then show ?thesis by (simp add: is_tried_bit nth_append)
qed

subsection \<open>Choosing a server\<close>

text \<open>What the loop does to a server it considers.\<close>

definition rr_bump :: "rr_peer \<Rightarrow> rr_peer" where
  "rr_bump p = p\<lparr>current_weight := current_weight p + effective_weight p,
     effective_weight := (if effective_weight p < weight p then effective_weight p + 1 else effective_weight p)\<rparr>"

lemma rr_bump_simps [simp]:
  "rr_name (rr_bump p) = rr_name p" "rr_server (rr_bump p) = rr_server p" "current_weight (rr_bump p) = current_weight p + effective_weight p"
  "weight (rr_bump p) = weight p" "conns (rr_bump p) = conns p" "max_conns (rr_bump p) = max_conns p"
  "fails (rr_bump p) = fails p" "accessed (rr_bump p) = accessed p" "checked (rr_bump p) = checked p"
  "max_fails (rr_bump p) = max_fails p" "fail_timeout (rr_bump p) = fail_timeout p"
  "check_index (rr_bump p) = check_index p" "rr_down (rr_bump p) = rr_down p"
  by (simp_all add: rr_bump_def)

definition better :: "nat \<Rightarrow> rr_peer \<Rightarrow> (nat \<times> int) option \<Rightarrow> (nat \<times> int) option" where
  "better i p best = (case best of
       None \<Rightarrow> Some (i, current_weight (rr_bump p))
     | Some (_, w) \<Rightarrow> if current_weight (rr_bump p) > w then Some (i, current_weight (rr_bump p)) else best)"

lemma get_peer_loop_Cons:
  "get_peer_loop skip i tot best (p # ps) =
     (if skip i p
      then let r = get_peer_loop skip (Suc i) tot best ps in (p # fst r, snd r)
      else let r = get_peer_loop skip (Suc i) (tot + effective_weight p) (better i p best) ps
           in (rr_bump p # fst r, snd r))"
  by (auto simp: Let_def rr_bump_def better_def split_beta split: option.splits)

declare get_peer_loop.simps(2) [simp del] get_peer_loop_Cons [simp]

lemma get_peer_loop_peers:
  "fst (get_peer_loop skip i tot best ps) =
     map (\<lambda>(j, p). if skip j p then p else rr_bump p) (enumerate i ps)"
  by (induction ps arbitrary: i tot best) (simp_all add: Let_def)

lemma get_peer_loop_total:
  "fst (snd (get_peer_loop skip i tot best ps)) =
     tot + (\<Sum>(j, p)\<leftarrow>enumerate i ps. if skip j p then 0 else effective_weight p)"
  by (induction ps arbitrary: i tot best) (simp_all add: Let_def)

definition best_of :: "(nat \<Rightarrow> rr_peer \<Rightarrow> bool) \<Rightarrow> nat \<Rightarrow> rr_peer list \<Rightarrow> (nat \<times> int) option \<Rightarrow> (nat \<times> int) option \<Rightarrow> bool" where
  "best_of skip i ps b0 b \<longleftrightarrow> (case b of
       None \<Rightarrow> b0 = None \<and> (\<forall>j<length ps. skip (i + j) (ps ! j))
     | Some (q, w) \<Rightarrow>
         (b0 = Some (q, w) \<or> (\<exists>j<length ps. q = i + j \<and> \<not> skip (i + j) (ps ! j) \<and> w = current_weight (rr_bump (ps ! j))))
       \<and> (\<forall>c v. b0 = Some (c, v) \<longrightarrow> v \<le> w)
       \<and> (\<forall>j<length ps. \<not> skip (i + j) (ps ! j) \<longrightarrow> current_weight (rr_bump (ps ! j)) \<le> w))"

lemma best_of_skip: "skip i p \<Longrightarrow> best_of skip (Suc i) ps b0 b \<Longrightarrow> best_of skip i (p # ps) b0 b"
  unfolding best_of_def
  by (cases b) (auto simp: nth_Cons less_Suc_eq_0_disj split: nat.splits)

lemma best_of_take:
  assumes "\<not> skip i p" "best_of skip (Suc i) ps (better i p b0) b"
  shows "best_of skip i (p # ps) b0 b"
proof (cases b)
  case None
  then show ?thesis using assms(2) by (auto simp: best_of_def better_def split: option.splits if_splits)
next
  case (Some qw)
  obtain q w where qw: "qw = (q, w)" by (cases qw)
  let ?cw = "\<lambda>x. current_weight (rr_bump x)"
  have "(\<forall>c v. better i p b0 = Some (c, v) \<longrightarrow> v \<le> w)" and rest: "\<forall>j<length ps. \<not> skip (Suc i + j) (ps ! j) \<longrightarrow> ?cw (ps ! j) \<le> w"
    and from_: "better i p b0 = Some (q, w) \<or> (\<exists>j<length ps. q = Suc i + j \<and> \<not> skip (Suc i + j) (ps ! j) \<and> w = ?cw (ps ! j))"
    using assms(2) by (simp_all add: best_of_def Some qw)
  then have p: "?cw p \<le> w" and b0: "\<forall>c v. b0 = Some (c, v) \<longrightarrow> v \<le> w"
    by (auto simp: better_def split: option.splits if_splits)
  have "b0 = Some (q, w) \<or> (\<exists>j<length (p # ps). q = i + j \<and> \<not> skip (i + j) ((p # ps) ! j) \<and> w = ?cw ((p # ps) ! j))"
    using from_
  proof
    assume "better i p b0 = Some (q, w)"
    then have "b0 = Some (q, w) \<or> q = i \<and> w = ?cw p" by (auto simp: better_def split: option.splits if_splits)
    then show ?thesis using assms(1) by force
  next
    assume "\<exists>j<length ps. q = Suc i + j \<and> \<not> skip (Suc i + j) (ps ! j) \<and> w = ?cw (ps ! j)"
    then obtain j where "j < length ps" "q = Suc i + j" "\<not> skip (Suc i + j) (ps ! j)" "w = ?cw (ps ! j)" by blast
    then show ?thesis by (intro disjI2 exI [of _ "Suc j"]) simp
  qed
  then show ?thesis
    using p b0 rest by (auto simp: best_of_def Some qw nth_Cons less_Suc_eq_0_disj split: nat.splits)
qed

lemma get_peer_loop_best:
  "best_of skip i ps best (snd (snd (get_peer_loop skip i tot best ps)))"
  by (induction ps arbitrary: i tot best)
    (auto simp: best_of_skip best_of_take Let_def, auto simp: best_of_def split: option.split)

definition bumped :: "(nat \<Rightarrow> rr_peer \<Rightarrow> bool) \<Rightarrow> rr_peer list \<Rightarrow> rr_peer list" where
  "bumped skip ps = map (\<lambda>(j, p). if skip j p then p else rr_bump p) (enumerate 0 ps)"

lemma length_bumped [simp]: "length (bumped skip ps) = length ps"
  by (simp add: bumped_def)

lemma nth_bumped [simp]:
  "j < length ps \<Longrightarrow> bumped skip ps ! j = (if skip j (ps ! j) then ps ! j else rr_bump (ps ! j))"
  by (simp add: bumped_def nth_enumerate_eq)

text \<open>The weight given out in one round.\<close>

definition round_total :: "(nat \<Rightarrow> rr_peer \<Rightarrow> bool) \<Rightarrow> rr_peer list \<Rightarrow> int" where
  "round_total skip ps = (\<Sum>(j, p)\<leftarrow>enumerate 0 ps. if skip j p then 0 else effective_weight p)"

definition rr_chosen :: "int \<Rightarrow> int \<Rightarrow> rr_peer \<Rightarrow> rr_peer" where
  "rr_chosen now tot b =
     (let b = b\<lparr>current_weight := current_weight b - tot\<rparr>
      in if now - checked b > fail_timeout b then b\<lparr>checked := now\<rparr> else b)"

lemma rr_chosen_simps [simp]:
  "rr_name (rr_chosen now tot p) = rr_name p" "rr_server (rr_chosen now tot p) = rr_server p" "current_weight (rr_chosen now tot p) = current_weight p - tot"
  "effective_weight (rr_chosen now tot p) = effective_weight p"
  "weight (rr_chosen now tot p) = weight p" "conns (rr_chosen now tot p) = conns p"
  "max_conns (rr_chosen now tot p) = max_conns p" "fails (rr_chosen now tot p) = fails p"
  "accessed (rr_chosen now tot p) = accessed p" "max_fails (rr_chosen now tot p) = max_fails p"
  "fail_timeout (rr_chosen now tot p) = fail_timeout p"
  "check_index (rr_chosen now tot p) = check_index p" "rr_down (rr_chosen now tot p) = rr_down p"
  by (simp_all add: rr_chosen_def Let_def)

lemma best_peer_none:
  "best_peer skip now t ps = (ps', t', None) \<Longrightarrow>
     ps' = ps \<and> t' = t \<and> (\<forall>j<length ps. skip j (ps ! j))"
  using get_peer_loop_best [of skip 0 ps None 0] get_peer_loop_peers [of skip 0 0 None ps]
  by (auto simp: best_peer_def best_of_def Let_def nth_enumerate_eq split: prod.splits option.splits
      intro!: nth_equalityI)

lemma best_peer_some:
  assumes "best_peer skip now t ps = (ps', t', Some p)"
  shows "p < length ps \<and> \<not> skip p (ps ! p)
    \<and> (\<forall>j<length ps. \<not> skip j (ps ! j) \<longrightarrow> current_weight (rr_bump (ps ! j)) \<le> current_weight (rr_bump (ps ! p)))
    \<and> t' = t[p div 64 := t ! (p div 64) OR rr_mask p]
    \<and> ps' = (bumped skip ps)[p := rr_chosen now (round_total skip ps) (rr_bump (ps ! p))]"
proof -
  obtain qs tot b where l: "get_peer_loop skip 0 0 None ps = (qs, tot, b)" by (cases "get_peer_loop skip 0 0 None ps")
  with assms obtain w where b: "b = Some (p, w)"
    by (auto simp: best_peer_def Let_def split: option.splits)
  have best: "p < length ps" "\<not> skip p (ps ! p)"
    "\<forall>j<length ps. \<not> skip j (ps ! j) \<longrightarrow> current_weight (rr_bump (ps ! j)) \<le> current_weight (rr_bump (ps ! p))"
    using get_peer_loop_best [of skip 0 ps None 0] by (auto simp: l b best_of_def)
  have q: "qs = bumped skip ps" "tot = round_total skip ps"
    using get_peer_loop_peers [of skip 0 0 None ps] get_peer_loop_total [of skip 0 0 None ps]
    by (simp_all add: l bumped_def round_total_def)
  have p: "bumped skip ps ! p = rr_bump (ps ! p)" using best by simp
  show ?thesis
    using assms best p by (auto simp: best_peer_def l b q rr_chosen_def Let_def)
qed

subsection \<open>Weights add up\<close>

definition effective_ok :: "rr_peer \<Rightarrow> bool" where
  "effective_ok p \<longleftrightarrow> 0 \<le> effective_weight p \<and> effective_weight p \<le> weight p"

definition weights_ok :: "rr_peer list \<Rightarrow> bool" where
  "weights_ok ps \<longleftrightarrow> (\<Sum>p\<leftarrow>ps. current_weight p) = 0 \<and> (\<forall>p\<in>set ps. effective_ok p)"

lemma sum_list_update_int:
  "i < length xs \<Longrightarrow> (\<Sum>x\<leftarrow>xs[i := y]. (f x :: int)) = (\<Sum>x\<leftarrow>xs. f x) - f (xs ! i) + f y"
  by (induction xs arbitrary: i) (auto simp: nth_Cons split: nat.splits)

lemma sum_bumped:
  "(\<Sum>p\<leftarrow>bumped skip ps. current_weight p) = (\<Sum>p\<leftarrow>ps. current_weight p) + round_total skip ps"
proof -
  have "(\<Sum>p\<leftarrow>map (\<lambda>(j, p). if skip j p then p else rr_bump p) (enumerate i ps). current_weight p) =
    (\<Sum>p\<leftarrow>ps. current_weight p) + (\<Sum>(j, p)\<leftarrow>enumerate i ps. if skip j p then 0 else effective_weight p)" for i
    by (induction ps arbitrary: i) auto
  then show ?thesis by (simp add: bumped_def round_total_def)
qed

lemma effective_bump: "effective_ok p \<Longrightarrow> effective_ok (rr_bump p)"
  by (simp add: effective_ok_def rr_bump_def)

lemma effective_chosen: "effective_ok p \<Longrightarrow> effective_ok (rr_chosen now tot p)"
  by (simp add: effective_ok_def)

lemma bumped_effective: "\<forall>p\<in>set ps. effective_ok p \<Longrightarrow> p \<in> set (bumped skip ps) \<Longrightarrow> effective_ok p"
  using effective_bump by (auto simp: bumped_def in_set_enumerate_eq)

lemma best_peer_weights:
  assumes "weights_ok ps" "best_peer skip now t ps = (ps', t', r)"
  shows "weights_ok ps'"
proof (cases r)
  case None
  then show ?thesis using assms best_peer_none by blast
next
  case (Some p)
  note g = best_peer_some [OF assms(2) [unfolded Some]]
  let ?b = "rr_chosen now (round_total skip ps) (rr_bump (ps ! p))"
  have ps: "ps' = (bumped skip ps)[p := ?b]" and p: "p < length ps" using g by auto
  have bp: "bumped skip ps ! p = rr_bump (ps ! p)" using p g by simp
  have "(\<Sum>q\<leftarrow>ps'. current_weight q) = (\<Sum>q\<leftarrow>bumped skip ps. current_weight q) - round_total skip ps"
    using p by (simp add: ps sum_list_update_int bp)
  then have "(\<Sum>q\<leftarrow>ps'. current_weight q) = 0"
    using assms(1) by (simp add: sum_bumped weights_ok_def)
  moreover have "effective_ok q" if q: "q \<in> set ps'" for q
  proof -
    have "q = ?b \<or> q \<in> set (bumped skip ps)"
      using q set_update_subset_insert [of "bumped skip ps" p ?b] unfolding ps by blast
    moreover have "effective_ok ?b" "\<forall>p\<in>set ps. effective_ok p"
      using assms(1) p by (simp_all add: weights_ok_def effective_chosen effective_bump)
    ultimately show ?thesis using bumped_effective by blast
  qed
  ultimately show ?thesis by (simp add: weights_ok_def)
qed

subsection \<open>What a call leaves alone\<close>

text \<open>The fields a balancer call does not change, for every server of every group.\<close>

definition same_conns :: "rr_peer list \<Rightarrow> rr_peer list \<Rightarrow> bool" where
  "same_conns ps qs \<longleftrightarrow> length ps = length qs \<and>
     (\<forall>j<length ps. conns (ps ! j) = conns (qs ! j) \<and> max_conns (ps ! j) = max_conns (qs ! j))"

lemma best_peer_same_conns:
  assumes "best_peer skip now t ps = (ps', t', r)"
  shows "same_conns ps ps'"
proof (cases r)
  case None
  then show ?thesis using best_peer_none [OF assms [unfolded None]] by (simp add: same_conns_def)
next
  case (Some p)
  then show ?thesis
    using best_peer_some [OF assms [unfolded Some]] by (auto simp: same_conns_def nth_list_update)
qed

lemmas get_peer_none = best_peer_none [where skip = "rr_skip ctx now t" and now = now and t = t for ctx now t,
    folded ngx_http_upstream_get_peer_def]
  and get_peer_some = best_peer_some [where skip = "rr_skip ctx now t" and now = now and t = t for ctx now t,
    folded ngx_http_upstream_get_peer_def]
  and get_peer_weights = best_peer_weights [where skip = "rr_skip ctx now t" and now = now and t = t for ctx now t,
    folded ngx_http_upstream_get_peer_def]
  and get_peer_same_conns = best_peer_same_conns [where skip = "rr_skip ctx now t" and now = now and t = t for ctx now t,
    folded ngx_http_upstream_get_peer_def]

text \<open>A group as the configuration makes it, and as every call keeps it.\<close>

definition group_ok :: "rr_peers \<Rightarrow> bool" where
  "group_ok g \<longleftrightarrow> weights_ok (peer g) \<and> number g = length (peer g) \<and> peer g \<noteq> [] \<and> (single g \<longrightarrow> number g = 1)"

lemma rr_pick_facts:
  assumes "group_ok g" "rr_pick ctx now t g = (g', t', r)"
  shows "group_ok g' \<and> same_conns (peer g) (peer g') \<and> number g' = number g \<and> single g' = single g \<and> length t' = length t
    \<and> (\<forall>p. r = Some p \<longrightarrow> p < number g \<and> \<not> full_conns (peer g ! p)) \<and> (r = None \<longrightarrow> g' = g \<and> t' = t)"
proof (cases "single g")
  case True
  then show ?thesis
    using assms by (auto simp: rr_pick_def group_ok_def Let_def same_conns_def hd_conv_nth split: if_splits)
next
  case False
  obtain ps where g: "ngx_http_upstream_get_peer ctx now t (peer g) = (ps, t', r)" "g' = g\<lparr>peer := ps\<rparr>"
    using assms(2) False by (auto simp: rr_pick_def split: prod.splits)
  have r: "p < length (peer g) \<and> \<not> full_conns (peer g ! p) \<and> length t' = length t" if "r = Some p" for p
    using get_peer_some [OF g(1) [unfolded that]] by (auto simp: rr_skip_def)
  have n: "ps = peer g \<and> t' = t" if "r = None"
    using get_peer_none [OF g(1) [unfolded that]] by blast
  have s: "same_conns (peer g) ps" using get_peer_same_conns [OF g(1)] .
  moreover have "weights_ok ps" using get_peer_weights [OF _ g(1)] assms(1) by (simp add: group_ok_def)
  moreover have "ps \<noteq> []" using s assms(1) by (auto simp: same_conns_def group_ok_def)
  ultimately show ?thesis
    using assms(1) False g r n by (cases r) (auto simp: group_ok_def same_conns_def)
qed

lemma weights_ok_update:
  assumes "weights_ok ps" "i < length ps" "current_weight q = current_weight (ps ! i)" "effective_ok q"
  shows "weights_ok (ps[i := q])"
proof -
  have "effective_ok x" if "x \<in> set (ps[i := q])" for x
    using that set_update_subset_insert [of ps i q] assms(1,4) by (auto simp: weights_ok_def)
  then show ?thesis
    using assms(1-3) by (simp add: weights_ok_def sum_list_update_int)
qed

lemma add_conn_ok:
  assumes "group_ok g" "p < number g"
  shows "group_ok (add_conn g p)"
proof -
  have "effective_ok (peer g ! p)" using assms by (simp add: group_ok_def weights_ok_def)
  then have "weights_ok ((peer g)[p := (peer g ! p)\<lparr>conns := conns (peer g ! p) + 1\<rparr>])"
    using assms by (intro weights_ok_update) (auto simp: group_ok_def effective_ok_def)
  then show ?thesis using assms by (auto simp: group_ok_def add_conn_def)
qed

lemma effective_freed: "effective_ok p \<Longrightarrow> effective_ok (rr_freed now state p)"
proof -
  assume ok: "effective_ok p"
  then have "0 \<le> weight p div uint (max_fails p)"
    by (intro div_int_pos_iff [THEN iffD2]) (auto simp: effective_ok_def)
  then show ?thesis using ok by (auto simp: effective_ok_def rr_freed_def Let_def)
qed

lemma current_weight_freed [simp]: "current_weight (rr_freed now state p) = current_weight p"
  by (simp add: rr_freed_def Let_def)

lemma conns_freed [simp]: "conns (rr_freed now state p) = conns p" "max_conns (rr_freed now state p) = max_conns p"
  by (simp_all add: rr_freed_def Let_def)

subsection \<open>Getting and freeing a server\<close>

definition chain_ok :: "rr_peers list \<Rightarrow> bool" where
  "chain_ok chain \<longleftrightarrow> list_all group_ok chain \<and> chain \<noteq> [] \<and> length chain \<le> 2"

definition data_ok :: "rr_peers list \<Rightarrow> rr_data \<Rightarrow> bool" where
  "data_ok chain d \<longleftrightarrow> peers_at d < length chain \<and> (\<forall>g\<in>set chain. tried_words (number g) \<le> length (tried d))"

text \<open>The groups keep their shape and the connection counters change by \<open>f\<close>.\<close>

definition conns_step :: "rr_peers list \<Rightarrow> rr_peers list \<Rightarrow> (nat \<times> nat \<Rightarrow> u64) \<Rightarrow> bool" where
  "conns_step chain chain' f \<longleftrightarrow> length chain' = length chain \<and>
     (\<forall>k<length chain. number (chain' ! k) = number (chain ! k) \<and>
       (\<forall>p<number (chain ! k). max_conns (peer (chain' ! k) ! p) = max_conns (peer (chain ! k) ! p)
          \<and> conns (peer (chain' ! k) ! p) = conns (peer (chain ! k) ! p) + f (k, p)))"

lemma conns_step_refl: "conns_step chain chain (\<lambda>_. 0)"
  by (simp add: conns_step_def)

lemma chain_update:
  assumes "chain_ok chain" "k < length chain" "group_ok g"
  shows "chain_ok (chain[k := g])"
proof -
  have "set (chain[k := g]) \<subseteq> insert g (set chain)" by (rule set_update_subset_insert)
  then show ?thesis using assms by (auto simp: chain_ok_def list_all_iff)
qed

lemma data_ok_shape:
  assumes "data_ok chain d" "conns_step chain chain' f" "peers_at d' < length chain" "length (tried d') = length (tried d)"
  shows "data_ok chain' d'"
  using assms by (auto simp: data_ok_def conns_step_def set_conv_nth)

lemma pick_chain:
  assumes "chain_ok chain" "k < length chain" "rr_pick ctx now t (chain ! k) = (g, t', Some p)"
  shows "chain_ok (chain[k := add_conn g p]) \<and> p < number (chain ! k) \<and> \<not> full_conns (peer (chain ! k) ! p)
    \<and> length t' = length t \<and> conns_step chain (chain[k := add_conn g p]) (\<lambda>x. if x = (k, p) then 1 else 0)"
proof -
  have ok: "group_ok (chain ! k)" using assms(1,2) by (simp add: chain_ok_def list_all_length)
  note f = rr_pick_facts [OF ok assms(3)]
  have "group_ok (add_conn g p)" using f by (intro add_conn_ok) auto
  then show ?thesis
    using f chain_update [OF assms(1,2)] assms(2)
    by (auto simp: conns_step_def add_conn_def same_conns_def nth_list_update group_ok_def)
qed

text \<open>What a call that asks for a server leaves behind, with any method of balancing.\<close>

definition got :: "rr_peers list \<Rightarrow> int \<Rightarrow> rr_peers list \<Rightarrow> rr_data \<Rightarrow> bool" where
  "got chain rc chain' d' \<longleftrightarrow> chain_ok chain' \<and> data_ok chain' d'
    \<and> (rc = NGX_BUSY \<and> chain' = chain
       \<or> rc = NGX_OK \<and> (\<exists>p. current d' = Some (peers_at d', p) \<and> p < number (chain ! peers_at d')
           \<and> \<not> full_conns (peer (chain ! peers_at d') ! p)
           \<and> conns_step chain chain' (\<lambda>x. if x = (peers_at d', p) then 1 else 0)))"

lemma get_round_robin:
  assumes "chain_ok chain" "data_ok chain d"
    and "ngx_http_upstream_get_round_robin_peer ctx now chain d = (rc, chain', d')"
  shows "got chain rc chain' d'"
  using assms unfolding got_def
proof (induction ctx now chain d rule: ngx_http_upstream_get_round_robin_peer.induct)
  case (1 ctx now chain d)
  let ?k = "peers_at d"
  have k: "?k < length chain" using "1.prems"(2) by (simp add: data_ok_def)
  obtain g t r where pick: "rr_pick ctx now (tried d) (chain ! ?k) = (g, t, r)"
    by (cases "rr_pick ctx now (tried d) (chain ! ?k)") auto
  show ?case
  proof (cases r)
    case (Some p)
    note f = pick_chain [OF "1.prems"(1) k pick [unfolded Some]]
    have e: "rc = NGX_OK" "chain' = chain[?k := add_conn g p]" "d' = d\<lparr>current := Some (?k, p), tried := t\<rparr>"
      using "1.prems"(3) by (simp_all add: ngx_http_upstream_get_round_robin_peer.simps [of ctx] pick Some Let_def)
    moreover have "data_ok chain' d'"
      using data_ok_shape [OF "1.prems"(2)] f k e by auto
    ultimately show ?thesis using f by auto
  next
    case None
    show ?thesis
    proof (cases "?k + 1 < length chain")
      case True
      define n where "n = tried_words (number (chain ! (?k + 1)))"
      define d1 where "d1 = d\<lparr>peers_at := ?k + 1, tried := replicate n 0 @ drop n (tried d)\<rparr>"
      have "n \<le> length (tried d)" using True "1.prems"(2) by (simp add: data_ok_def n_def)
      then have "data_ok chain d1" using "1.prems"(2) True by (simp add: data_ok_def d1_def)
      moreover have "ngx_http_upstream_get_round_robin_peer ctx now chain d1 = (rc, chain', d')"
        using "1.prems"(3) True
        by (simp add: ngx_http_upstream_get_round_robin_peer.simps [of ctx now chain d] pick None Let_def d1_def n_def)
      ultimately show ?thesis
        using "1.IH" [OF refl pick [symmetric] refl None True n_def] "1.prems"(1) unfolding d1_def by blast
    next
      case False
      then show ?thesis
        using "1.prems" by (simp add: ngx_http_upstream_get_round_robin_peer.simps [of ctx] pick None Let_def)
    qed
  qed
qed

lemma free_round_robin:
  assumes "chain_ok chain" "current d = Some (k, p)" "k < length chain" "p < number (chain ! k)"
  shows "\<exists>chain' tries'. ngx_http_upstream_free_round_robin_peer now state chain d tries = Some (chain', tries')
    \<and> chain_ok chain' \<and> conns_step chain chain' (\<lambda>x. if x = (k, p) then - 1 else 0)"
proof -
  let ?one = "single (chain ! peers_at d)"
  let ?p = "(if ?one then peer (chain ! k) ! p else rr_freed now state (peer (chain ! k) ! p))"
  let ?q = "?p\<lparr>conns := conns ?p - 1\<rparr>"
  let ?g = "(chain ! k)\<lparr>peer := (peer (chain ! k))[p := ?q]\<rparr>"
  have ok: "group_ok (chain ! k)" using assms(1,3) by (simp add: chain_ok_def list_all_length)
  then have "effective_ok (peer (chain ! k) ! p)" using assms(4) by (simp add: group_ok_def weights_ok_def)
  then have "effective_ok ?p" by (simp add: effective_freed)
  then have "weights_ok ((peer (chain ! k))[p := ?q])"
    using ok assms(4) by (intro weights_ok_update) (auto simp: group_ok_def effective_ok_def)
  then have "group_ok ?g" using ok by (auto simp: group_ok_def)
  then have "chain_ok (chain[k := ?g])" using chain_update assms(1,3) by blast
  moreover have "conns_step chain (chain[k := ?g]) (\<lambda>x. if x = (k, p) then - 1 else 0)"
    using ok assms(3,4) by (auto simp: conns_step_def nth_list_update group_ok_def)
  ultimately show ?thesis
    using assms(2) by (auto simp: ngx_http_upstream_free_round_robin_peer_def Let_def)
qed

subsection \<open>Requests in any order\<close>

text \<open>
  The servers, the health checks and the requests that are under way, each with its data,
  its \<open>tries\<close> and whether it has a server. An event is a new request, a request that gets a
  server (also again, after it gave one back), one that frees its server, or a check result.
\<close>

record rr_sys =
  groups :: "rr_peers list"
  watch :: check_peers
  reqs :: "(rr_data \<times> nat \<times> bool) list"

datatype rr_event = Arrive | Get nat int | Free nat int u64 | Health nat u64 bool

fun rr_event_step :: "rr_sys \<Rightarrow> rr_event \<Rightarrow> rr_sys" where
  "rr_event_step s Arrive =
     (case ngx_http_upstream_init_round_robin_peer (groups s) of (d, tries) \<Rightarrow> s\<lparr>reqs := reqs s @ [(d, tries, False)]\<rparr>)"
| "rr_event_step s (Get i now) =
     (if i < length (reqs s)
      then case reqs s ! i of (d, tries, held) \<Rightarrow>
        if held then s
        else case ngx_http_upstream_get_round_robin_peer (watch s) now (groups s) d of (rc, chain, d) \<Rightarrow>
          s\<lparr>groups := chain, reqs := (reqs s)[i := (d, tries, rc = NGX_OK)]\<rparr>
      else s)"
| "rr_event_step s (Free i now state) =
     (if i < length (reqs s)
      then case reqs s ! i of (d, tries, held) \<Rightarrow>
        if held
        then case ngx_http_upstream_free_round_robin_peer now state (groups s) d tries of
               Some (chain, tries) \<Rightarrow> s\<lparr>groups := chain, reqs := (reqs s)[i := (d, tries, False)]\<rparr>
             | None \<Rightarrow> s
        else s
      else s)"
| "rr_event_step s (Health i now ok) =
     (case watch s of
        None \<Rightarrow> s
      | Some ps \<Rightarrow>
          if i < length ps
          then s\<lparr>watch := Some (ps[i := ngx_http_upstream_check_status_update now (ps ! i) ok])\<rparr> else s)"

definition rr_run :: "rr_sys \<Rightarrow> rr_event list \<Rightarrow> rr_sys" where
  "rr_run s evs = foldl rr_event_step s evs"

definition has_server :: "nat \<times> nat \<Rightarrow> rr_data \<times> nat \<times> bool \<Rightarrow> bool" where
  "has_server x r \<longleftrightarrow> (case r of (d, _, held) \<Rightarrow> held \<and> current d = Some x)"

definition holders :: "rr_sys \<Rightarrow> nat \<times> nat \<Rightarrow> nat" where
  "holders s x = length (filter (has_server x) (reqs s))"

definition req_ok :: "rr_peers list \<Rightarrow> rr_data \<times> nat \<times> bool \<Rightarrow> bool" where
  "req_ok chain r \<longleftrightarrow> (case r of (d, _, held) \<Rightarrow> data_ok chain d \<and>
     (held \<longrightarrow> (\<exists>p. current d = Some (peers_at d, p) \<and> p < number (chain ! peers_at d))))"

definition conns_ok :: "rr_sys \<Rightarrow> bool" where
  "conns_ok s \<longleftrightarrow> (\<forall>k<length (groups s). \<forall>p<number (groups s ! k).
     conns (peer (groups s ! k) ! p) = of_nat (holders s (k, p))
     \<and> (max_conns (peer (groups s ! k) ! p) \<noteq> 0 \<longrightarrow> holders s (k, p) \<le> unat (max_conns (peer (groups s ! k) ! p))))"

definition rr_inv :: "rr_sys \<Rightarrow> bool" where
  "rr_inv s \<longleftrightarrow> chain_ok (groups s) \<and> list_all (req_ok (groups s)) (reqs s) \<and> conns_ok s"

lemma length_filter_update:
  "i < length xs \<Longrightarrow>
    length (filter P (xs[i := y])) + (if P (xs ! i) then 1 else 0) = length (filter P xs) + (if P y then 1 else 0)"
proof (induction xs arbitrary: i)
  case (Cons x xs)
  then show ?case using Cons.IH [of "i - 1"] Cons.prems by (cases i) auto
qed simp

lemma u64_bound: "unat (w :: u64) < 2 ^ 64"
  by (rule order_less_le_trans [OF unsigned_less]) simp

lemma list_all_update: "list_all P xs \<Longrightarrow> P y \<Longrightarrow> list_all P (xs[i := y])"
  using set_update_subset_insert [of xs i y] by (auto simp: list_all_iff)

lemma req_ok_shape:
  assumes "conns_step chain chain' f" "req_ok chain r"
  shows "req_ok chain' r"
proof -
  obtain d tries held where r: "r = (d, tries, held)" by (cases r)
  have d: "data_ok chain d" using assms(2) by (simp add: req_ok_def r)
  then have "data_ok chain' d" using data_ok_shape [OF d assms(1), of d] d by (simp add: data_ok_def)
  moreover have "number (chain' ! peers_at d) = number (chain ! peers_at d)"
    using assms(1) d by (simp add: conns_step_def data_ok_def)
  ultimately show ?thesis using assms(2) by (simp add: req_ok_def r)
qed

lemma init_data_ok:
  assumes "chain_ok chain" "ngx_http_upstream_init_round_robin_peer chain = (d, tries)"
  shows "data_ok chain d"
proof -
  have mono: "m \<le> n \<Longrightarrow> tried_words m \<le> tried_words n" for m n by (simp add: tried_words_def div_le_mono)
  have one: "n \<le> 64 \<Longrightarrow> tried_words n \<le> 1" for n using mono [of n 64] by (simp add: tried_words_def)
  consider g where "chain = [g]" | g h where "chain = [g, h]"
    using assms(1) by (cases chain; cases "tl chain") (auto simp: chain_ok_def)
  then show ?thesis
  proof cases
    case 1
    then show ?thesis
      using assms(2) one by (auto simp: ngx_http_upstream_init_round_robin_peer_def data_ok_def Let_def split: if_splits)
  next
    case 2
    then show ?thesis
      using assms(2) one [of "number g"] one [of "number h"] mono [of "number g" "number h"] mono [of "number h" "number g"]
      by (auto simp: ngx_http_upstream_init_round_robin_peer_def data_ok_def Let_def split: if_splits)
  qed
qed

lemma inv_got:
  assumes "rr_inv s" "i < length (reqs s)" "reqs s ! i = (d, tries, False)" "got (groups s) rc chain d'"
  shows "rr_inv (s\<lparr>groups := chain, reqs := (reqs s)[i := (d', tries, rc = NGX_OK)]\<rparr>)" (is "rr_inv ?s")
proof -
  have inv: "chain_ok (groups s)" "list_all (req_ok (groups s)) (reqs s)" "conns_ok s"
    using assms(1) by (simp_all add: rr_inv_def)
  note g = assms(4) [unfolded got_def]
  have h: "holders ?s x = holders s x + (if has_server x (d', tries, rc = NGX_OK) then 1 else 0)" for x
    using length_filter_update [OF assms(2), of "has_server x" "(d', tries, rc = NGX_OK)"] assms(3)
    by (simp add: holders_def has_server_def)
  show ?thesis
  proof (cases "rc = NGX_OK")
    case False
    then have "chain = groups s" using g by auto
    then show ?thesis
      using inv g False h
      by (auto simp: rr_inv_def conns_ok_def has_server_def req_ok_def intro!: list_all_update)
  next
    case True
    then obtain p where p: "current d' = Some (peers_at d', p)" "p < number (groups s ! peers_at d')"
      "\<not> full_conns (peer (groups s ! peers_at d') ! p)"
      and st: "conns_step (groups s) chain (\<lambda>x. if x = (peers_at d', p) then 1 else 0)"
      using g by (auto simp: ngx_codes)
    have k: "peers_at d' < length (groups s)" using g st by (auto simp: data_ok_def conns_step_def)
    have "req_ok chain (d', tries, True)"
      using g p(1,2) st k by (auto simp: req_ok_def conns_step_def)
    moreover have "list_all (req_ok chain) (reqs s)"
      using inv(2) req_ok_shape [OF st] by (auto simp: list_all_iff)
    ultimately have "list_all (req_ok chain) (reqs ?s)" using True by (simp add: list_all_update)
    moreover have "conns_ok ?s" unfolding conns_ok_def
    proof (intro allI impI)
      fix k q
      assume kq: "k < length (groups ?s)" "q < number (groups ?s ! k)"
      let ?old = "peer (groups s ! k) ! q"
      have kq': "k < length (groups s)" "q < number (groups s ! k)" using kq st by (simp_all add: conns_step_def)
      have old: "conns ?old = of_nat (holders s (k, q))"
        "max_conns ?old \<noteq> 0 \<Longrightarrow> holders s (k, q) \<le> unat (max_conns ?old)"
        using inv(3) kq' by (simp_all add: conns_ok_def)
      have new: "max_conns (peer (chain ! k) ! q) = max_conns ?old"
        "conns (peer (chain ! k) ! q) = conns ?old + (if (k, q) = (peers_at d', p) then 1 else 0)"
        using st kq' by (simp_all add: conns_step_def)
      have hs: "holders ?s (k, q) = holders s (k, q) + (if (k, q) = (peers_at d', p) then 1 else 0)"
        using h p(1) True by (auto simp: has_server_def)
      have "holders s (k, q) < unat (max_conns ?old)" if "(k, q) = (peers_at d', p)" "max_conns ?old \<noteq> 0"
      proof -
        have "unat (of_nat (holders s (k, q)) :: u64) = holders s (k, q)"
          using old(2) [OF that(2)] by (intro of_nat_Suc_u64 le_less_trans [OF _ u64_bound])
        then show ?thesis using p(3) that old(1) by (simp add: full_conns_def word_le_nat_alt)
      qed
      then show "conns (peer (groups ?s ! k) ! q) = of_nat (holders ?s (k, q))
        \<and> (max_conns (peer (groups ?s ! k) ! q) \<noteq> 0 \<longrightarrow> holders ?s (k, q) \<le> unat (max_conns (peer (groups ?s ! k) ! q)))"
        using old new hs by (auto simp: Suc_le_eq)
    qed
    ultimately show ?thesis using g by (simp add: rr_inv_def)
  qed
qed

lemma inv_get:
  assumes "rr_inv s" "i < length (reqs s)" "reqs s ! i = (d, tries, False)"
    and "ngx_http_upstream_get_round_robin_peer (watch s) now (groups s) d = (rc, chain, d')"
  shows "rr_inv (s\<lparr>groups := chain, reqs := (reqs s)[i := (d', tries, rc = NGX_OK)]\<rparr>)"
proof -
  have "chain_ok (groups s)" "data_ok (groups s) d"
    using assms(1-3) by (auto simp: rr_inv_def list_all_length req_ok_def)
  from inv_got [OF assms(1-3) get_round_robin [OF this assms(4)]] show ?thesis .
qed

lemma inv_free:
  assumes "rr_inv s" "i < length (reqs s)" "reqs s ! i = (d, tries, True)"
    and free: "ngx_http_upstream_free_round_robin_peer now state (groups s) d tries = Some (chain, tries')"
  shows "rr_inv (s\<lparr>groups := chain, reqs := (reqs s)[i := (d, tries', False)]\<rparr>)" (is "rr_inv ?s")
proof -
  have inv: "chain_ok (groups s)" "list_all (req_ok (groups s)) (reqs s)" "conns_ok s"
    using assms(1) by (simp_all add: rr_inv_def)
  have r: "req_ok (groups s) (d, tries, True)" using inv(2) assms(2,3) by (auto simp: list_all_length)
  then obtain p where p: "current d = Some (peers_at d, p)" "p < number (groups s ! peers_at d)" "peers_at d < length (groups s)"
    by (auto simp: req_ok_def data_ok_def)
  have st: "chain_ok chain" "conns_step (groups s) chain (\<lambda>x. if x = (peers_at d, p) then - 1 else 0)"
    using free_round_robin [OF inv(1) p(1,3,2), of now state tries] free by auto
  have h: "holders ?s x + (if x = (peers_at d, p) then 1 else 0) = holders s x" for x
    using length_filter_update [OF assms(2), of "has_server x" "(d, tries', False)"] assms(3) p(1)
    by (auto simp: holders_def has_server_def)
  have "req_ok chain (d, tries', False)" using req_ok_shape [OF st(2) r] by (simp add: req_ok_def)
  moreover have "list_all (req_ok chain) (reqs s)"
    using inv(2) req_ok_shape [OF st(2)] by (auto simp: list_all_iff)
  ultimately have "list_all (req_ok chain) (reqs ?s)" by (simp add: list_all_update)
  moreover have "conns_ok ?s" unfolding conns_ok_def
  proof (intro allI impI)
    fix k q
    assume kq: "k < length (groups ?s)" "q < number (groups ?s ! k)"
    have kq': "k < length (groups s)" "q < number (groups s ! k)" using kq st by (simp_all add: conns_step_def)
    have "conns (peer (groups s ! k) ! q) = of_nat (holders s (k, q))"
      "max_conns (peer (groups s ! k) ! q) \<noteq> 0 \<Longrightarrow> holders s (k, q) \<le> unat (max_conns (peer (groups s ! k) ! q))"
      using inv(3) kq' by (simp_all add: conns_ok_def)
    moreover have "max_conns (peer (chain ! k) ! q) = max_conns (peer (groups s ! k) ! q)"
      "conns (peer (chain ! k) ! q) = conns (peer (groups s ! k) ! q) + (if (k, q) = (peers_at d, p) then - 1 else 0)"
      using st kq' by (simp_all add: conns_step_def)
    ultimately show "conns (peer (groups ?s ! k) ! q) = of_nat (holders ?s (k, q))
      \<and> (max_conns (peer (groups ?s ! k) ! q) \<noteq> 0 \<longrightarrow> holders ?s (k, q) \<le> unat (max_conns (peer (groups ?s ! k) ! q)))"
      using h [of "(k, q)"] by (auto simp flip: h)
  qed
  ultimately show ?thesis using st by (simp add: rr_inv_def)
qed

lemma inv_step: "rr_inv s \<Longrightarrow> rr_inv (rr_event_step s ev)"
proof (cases ev)
  case Arrive
  assume inv: "rr_inv s"
  obtain d tries where d: "ngx_http_upstream_init_round_robin_peer (groups s) = (d, tries)" by (cases "ngx_http_upstream_init_round_robin_peer (groups s)")
  then have "data_ok (groups s) d" using inv init_data_ok by (simp add: rr_inv_def)
  then show ?thesis
    using inv by (simp add: Arrive d rr_inv_def req_ok_def conns_ok_def holders_def has_server_def)
next
  case (Get i now)
  assume "rr_inv s"
  then show ?thesis using inv_get [of s i] by (auto simp: Get split: prod.split)
next
  case (Free i now state)
  assume "rr_inv s"
  then show ?thesis using inv_free [of s i] by (auto simp: Free split: prod.split option.split)
next
  case (Health i now ok)
  assume "rr_inv s"
  then show ?thesis by (auto simp: Health rr_inv_def conns_ok_def holders_def split: option.split)
qed

lemma inv_run: "rr_inv s \<Longrightarrow> rr_inv (rr_run s evs)"
  unfolding rr_run_def by (induction evs arbitrary: s) (simp_all add: inv_step)

subsection \<open>Configured groups\<close>

lemma rr_group_ok: "number (rr_group add b servers) \<noteq> 0 \<Longrightarrow> group_ok (rr_group add b servers)"
proof -
  assume n: "number (rr_group add b servers) \<noteq> 0"
  have cw: "(\<Sum>p\<leftarrow>concat (map (\<lambda>s. map (rr_server_peer add s) (addrs s)) ss). current_weight p) = 0" for ss
    by (induction ss) (simp_all add: rr_server_peer_def comp_def sum_list_triv)
  have len: "length (concat (map (\<lambda>s. map (rr_server_peer add s) (addrs s)) ss)) = (\<Sum>s\<leftarrow>ss. length (addrs s))" for ss
    by (induction ss) simp_all
  have num: "number (rr_group add b servers) = length (peer (rr_group add b servers))"
    unfolding rr_group_def Let_def using len by simp
  moreover have "peer (rr_group add b servers) \<noteq> []" using n num by auto
  moreover have "weights_ok (peer (rr_group add b servers))"
    using cw by (auto simp: rr_group_def Let_def weights_ok_def effective_ok_def rr_server_peer_def)
  ultimately show ?thesis by (simp add: group_ok_def) (simp add: rr_group_def Let_def)
qed

lemma init_chain_ok: "ngx_http_upstream_init_round_robin add servers = Some chain \<Longrightarrow> chain_ok chain"
  using rr_group_ok [of add False servers] rr_group_ok [of add True servers]
  by (auto simp: ngx_http_upstream_init_round_robin_def Let_def chain_ok_def group_ok_def split: if_splits)

lemma init_conns:
  "ngx_http_upstream_init_round_robin add servers = Some chain \<Longrightarrow> g \<in> set chain \<Longrightarrow> p \<in> set (peer g) \<Longrightarrow> conns p = 0"
  by (auto simp: ngx_http_upstream_init_round_robin_def Let_def rr_group_def rr_server_peer_def split: if_splits)

lemma rr_inv_init:
  assumes "ngx_http_upstream_init_round_robin add servers = Some chain"
  shows "rr_inv \<lparr>groups = chain, watch = ctx, reqs = []\<rparr>"
proof -
  have c: "chain_ok chain" using init_chain_ok [OF assms] .
  have "conns (peer (chain ! k) ! p) = 0" if "k < length chain" "p < number (chain ! k)" for k p
    using init_conns [OF assms, of "chain ! k" "peer (chain ! k) ! p"] c that
    by (simp add: chain_ok_def list_all_length group_ok_def)
  then show ?thesis using c by (simp add: rr_inv_def conns_ok_def holders_def)
qed

subsection \<open>Which server is chosen\<close>

text \<open>A server a call may hand out, with the bitmap \<open>t\<close>.\<close>

definition eligible :: "check_peers \<Rightarrow> int \<Rightarrow> u64 list \<Rightarrow> rr_peers \<Rightarrow> nat \<Rightarrow> bool" where
  "eligible ctx now t g p \<longleftrightarrow> p < number g \<and>
     (if single g
      then \<not> rr_down (peer g ! p) \<and> \<not> full_conns (peer g ! p) \<and> \<not> ngx_http_upstream_check_peer_down ctx (check_index (peer g ! p))
      else \<not> rr_skip ctx now t p (peer g ! p))"

definition fresh_bitmap :: "rr_peers \<Rightarrow> u64 list" where
  "fresh_bitmap g = replicate (tried_words (number g)) 0"

lemma eligible_cleared:
  "eligible ctx now (replicate (tried_words (number g)) 0 @ ts) g p \<longleftrightarrow> eligible ctx now (fresh_bitmap g) g p"
  using is_tried_cleared [of p "number g" ts] is_tried_cleared [of p "number g" "[]"]
  by (auto simp: eligible_def fresh_bitmap_def rr_skip_def)

lemma rr_pick_none:
  assumes "group_ok g" "rr_pick ctx now t g = (g', t', None)"
  shows "\<not> eligible ctx now t g p"
proof (cases "single g")
  case True
  then have "number g = 1" "peer g \<noteq> []" using assms(1) by (simp_all add: group_ok_def)
  then have "p < number g \<Longrightarrow> peer g ! p = hd (peer g)" by (simp add: hd_conv_nth)
  then show ?thesis using assms(2) True by (auto simp: rr_pick_def eligible_def Let_def split: if_splits)
next
  case False
  obtain ps where "ngx_http_upstream_get_peer ctx now t (peer g) = (ps, t', None)"
    using assms(2) False by (auto simp: rr_pick_def split: prod.splits)
  from get_peer_none [OF this] show ?thesis using assms(1) False by (simp add: eligible_def group_ok_def)
qed

lemma rr_pick_some:
  assumes "group_ok g" "rr_pick ctx now t g = (g', t', Some p)"
  shows "eligible ctx now t g p \<and> (\<not> single g \<longrightarrow>
    (\<forall>q. eligible ctx now t g q \<longrightarrow> current_weight (rr_bump (peer g ! q)) \<le> current_weight (rr_bump (peer g ! p)))
    \<and> (p div 64 < length t \<longrightarrow> is_tried t' p))"
proof (cases "single g")
  case True
  then show ?thesis
    using assms by (auto simp: rr_pick_def eligible_def group_ok_def hd_conv_nth Let_def split: if_splits)
next
  case False
  obtain ps where "ngx_http_upstream_get_peer ctx now t (peer g) = (ps, t', Some p)"
    using assms(2) False by (auto simp: rr_pick_def split: prod.splits)
  from get_peer_some [OF this] show ?thesis
    using assms(1) False by (auto simp: eligible_def group_ok_def is_tried_set)
qed

text \<open>The bitmap a call looks at in group \<open>k\<close>.\<close>

definition bitmap_in :: "rr_peers list \<Rightarrow> rr_data \<Rightarrow> nat \<Rightarrow> u64 list" where
  "bitmap_in chain d k = (if k = peers_at d then tried d else fresh_bitmap (chain ! k))"

text \<open>
  The right answer from group \<open>lo\<close> on, when \<open>E k p\<close> says that server \<open>p\<close> of group \<open>k\<close> may be
  handed out and \<open>w k p\<close> is its weight in the comparison.
\<close>

definition right_choice ::
    "(nat \<Rightarrow> nat \<Rightarrow> bool) \<Rightarrow> (nat \<Rightarrow> nat \<Rightarrow> int) \<Rightarrow> nat \<Rightarrow> nat \<Rightarrow> int \<Rightarrow> rr_data \<Rightarrow> bool" where
  "right_choice E w lo len rc d' \<longleftrightarrow>
     rc = NGX_BUSY \<and> (\<forall>k p. lo \<le> k \<and> k < len \<longrightarrow> \<not> E k p)
   \<or> rc = NGX_OK \<and> lo \<le> peers_at d' \<and> peers_at d' < len
     \<and> (\<exists>p. current d' = Some (peers_at d', p) \<and> E (peers_at d') p
          \<and> (\<forall>q. E (peers_at d') q \<longrightarrow> w (peers_at d') q \<le> w (peers_at d') p))
     \<and> (\<forall>k p. lo \<le> k \<and> k < peers_at d' \<longrightarrow> \<not> E k p)"

lemma right_choice_next:
  assumes "right_choice E1 w (Suc lo) len rc d'" "\<And>k p. Suc lo \<le> k \<Longrightarrow> E1 k p = E k p" "\<And>p. \<not> E lo p"
  shows "right_choice E w lo len rc d'"
proof -
  have "lo \<le> k \<longleftrightarrow> k = lo \<or> Suc lo \<le> k" for k by auto
  moreover have "\<not> E k p \<longleftrightarrow> \<not> E1 k p" if "Suc lo \<le> k" for k p using assms(2) that by simp
  ultimately show ?thesis
    using assms(1,3) unfolding right_choice_def by (elim disjE; simp) (metis assms(2) Suc_leD)+
qed

text \<open>In a group of one there is nothing to compare.\<close>

definition rank :: "rr_peers list \<Rightarrow> nat \<Rightarrow> nat \<Rightarrow> int" where
  "rank chain k p = (if single (chain ! k) then 0 else current_weight (rr_bump (peer (chain ! k) ! p)))"

lemma get_round_robin_choice:
  assumes "chain_ok chain" "data_ok chain d"
    and "ngx_http_upstream_get_round_robin_peer ctx now chain d = (rc, chain', d')"
  shows "right_choice (\<lambda>k. eligible ctx now (bitmap_in chain d k) (chain ! k)) (rank chain)
     (peers_at d) (length chain) rc d'"
  using assms
proof (induction ctx now chain d rule: ngx_http_upstream_get_round_robin_peer.induct)
  case (1 ctx now chain d)
  let ?k = "peers_at d"
  have k: "?k < length chain" using "1.prems"(2) by (simp add: data_ok_def)
  have ok: "group_ok (chain ! ?k)" using "1.prems"(1) k by (simp add: chain_ok_def list_all_length)
  obtain g t r where pick: "rr_pick ctx now (tried d) (chain ! ?k) = (g, t, r)"
    by (cases "rr_pick ctx now (tried d) (chain ! ?k)") auto
  show ?case
  proof (cases r)
    case (Some p)
    have "rc = NGX_OK" "d' = d\<lparr>current := Some (?k, p), tried := t\<rparr>"
      using "1.prems"(3) by (simp_all add: ngx_http_upstream_get_round_robin_peer.simps [of ctx] pick Some Let_def)
    then show ?thesis
      using rr_pick_some [OF ok pick [unfolded Some]] k by (auto simp: right_choice_def bitmap_in_def rank_def)
  next
    case None
    have no: "\<not> eligible ctx now (bitmap_in chain d ?k) (chain ! ?k) p" for p
      using rr_pick_none [OF ok pick [unfolded None]] by (simp add: bitmap_in_def)
    show ?thesis
    proof (cases "?k + 1 < length chain")
      case True
      define n where "n = tried_words (number (chain ! (?k + 1)))"
      define d1 where "d1 = d\<lparr>peers_at := ?k + 1, tried := replicate n 0 @ drop n (tried d)\<rparr>"
      have "n \<le> length (tried d)" using True "1.prems"(2) by (simp add: data_ok_def n_def)
      then have "data_ok chain d1" using "1.prems"(2) True by (simp add: data_ok_def d1_def)
      moreover have "ngx_http_upstream_get_round_robin_peer ctx now chain d1 = (rc, chain', d')"
        using "1.prems"(3) True
        by (simp add: ngx_http_upstream_get_round_robin_peer.simps [of ctx now chain d] pick None Let_def d1_def n_def)
      ultimately have "right_choice (\<lambda>k. eligible ctx now (bitmap_in chain d1 k) (chain ! k)) (rank chain)
          (peers_at d1) (length chain) rc d'"
        using "1.IH" [OF refl pick [symmetric] refl None True n_def] "1.prems"(1) unfolding d1_def by blast
      moreover have "eligible ctx now (bitmap_in chain d1 j) (chain ! j) p = eligible ctx now (bitmap_in chain d j) (chain ! j) p"
        if "Suc ?k \<le> j" for j p
        using that eligible_cleared by (auto simp: bitmap_in_def d1_def n_def)
      ultimately show ?thesis using right_choice_next no by (simp add: d1_def)
    next
      case False
      then have "rc = NGX_BUSY"
        using "1.prems" by (simp add: ngx_http_upstream_get_round_robin_peer.simps [of ctx] pick None Let_def)
      moreover have "j = ?k" if "?k \<le> j" "j < length chain" for j using that False by simp
      ultimately show ?thesis using no unfolding right_choice_def by blast
    qed
  qed
qed

subsection \<open>Fairness\<close>

text \<open>
  Servers that stay in service: a request gets one, requests end without failure, check
  results are successes, all in any order.
\<close>

definition steady :: "check_peers \<Rightarrow> rr_peer \<Rightarrow> bool" where
  "steady ctx p \<longleftrightarrow> \<not> rr_down p \<and> \<not> ngx_http_upstream_check_peer_down ctx (check_index p) \<and> max_conns p = 0
     \<and> (max_fails p \<noteq> 0 \<longrightarrow> fails p < max_fails p) \<and> effective_weight p = weight p \<and> 0 < weight p"

datatype rr_round = Serve int | Done nat int | Passed nat u64

fun round_events :: "rr_sys \<Rightarrow> rr_round \<Rightarrow> rr_event list" where
  "round_events s (Serve now) = [Arrive, Get (length (reqs s)) now]"
| "round_events s (Done i now) = [Free i now 0]"
| "round_events s (Passed i now) = [Health i now True]"

definition rr_rounds :: "rr_sys \<Rightarrow> rr_round list \<Rightarrow> rr_sys" where
  "rr_rounds s rs = foldl (\<lambda>s r. rr_run s (round_events s r)) s rs"

text \<open>How many requests got server \<open>p\<close> of the first group.\<close>

definition served :: "rr_sys \<Rightarrow> nat \<Rightarrow> nat" where
  "served s p = length (filter (\<lambda>(d, _). current d = Some (0, p)) (reqs s))"

definition weight_sum :: "rr_peer list \<Rightarrow> int" where
  "weight_sum ps = (\<Sum>p\<leftarrow>ps. weight p)"

definition fair_inv :: "int list \<Rightarrow> rr_sys \<Rightarrow> bool" where
  "fair_inv ws s \<longleftrightarrow> rr_inv s \<and> \<not> single (hd (groups s)) \<and> map weight (peer (hd (groups s))) = ws
     \<and> list_all (steady (watch s)) (peer (hd (groups s)))
     \<and> (\<forall>p<length ws. current_weight (peer (hd (groups s)) ! p) = int (length (reqs s)) * ws ! p - sum_list ws * int (served s p)
          \<and> - sum_list ws < int (length (reqs s)) * ws ! p - sum_list ws * int (served s p))
     \<and> (\<Sum>p<length ws. served s p) = length (reqs s)"

text \<open>A round in which no server is skipped.\<close>

lemma steady_not_skipped: "steady ctx p \<Longrightarrow> \<not> is_tried t i \<Longrightarrow> \<not> rr_skip ctx now t i p"
  by (auto simp: steady_def rr_skip_def full_conns_def)

lemma round_total_steady:
  assumes "list_all (steady ctx) ps" "\<And>j. j < length ps \<Longrightarrow> \<not> is_tried t j"
  shows "round_total (rr_skip ctx now t) ps = sum_list (map weight ps)"
proof -
  have "map (\<lambda>(j, p). if rr_skip ctx now t j p then 0 else effective_weight p) (enumerate 0 ps) = map weight ps"
    using assms steady_not_skipped
    by (intro nth_equalityI) (auto simp: nth_enumerate_eq list_all_length steady_def)
  then show ?thesis by (simp add: round_total_def)
qed

lemma steady_bump: "steady ctx p \<Longrightarrow> rr_bump p = p\<lparr>current_weight := current_weight p + weight p\<rparr>"
  by (simp add: rr_bump_def steady_def)

text \<open>The greatest of numbers that add up to something positive is positive.\<close>

lemma max_pos:
  assumes "0 < sum_list xs" "\<And>x. x \<in> set xs \<Longrightarrow> x \<le> (m :: int)"
  shows "0 < m"
proof (rule ccontr)
  assume "\<not> 0 < m"
  then have "sum_list xs \<le> 0" using assms(2) by (intro sum_list_nonpos) force
  then show False using assms(1) by simp
qed

lemma steady_weight_pos: "list_all (steady ctx) ps \<Longrightarrow> ps \<noteq> [] \<Longrightarrow> 0 < sum_list (map weight ps)"
proof (induction ps)
  case (Cons p ps)
  then show ?case by (cases "ps = []") (auto simp: steady_def)
qed simp

lemma steady_pick:
  assumes "group_ok g" "\<not> single g" "list_all (steady ctx) (peer g)" "\<And>j. j < number g \<Longrightarrow> \<not> is_tried t j"
    and pick: "rr_pick ctx now t g = (g', t', r)"
  shows "\<exists>p. r = Some p \<and> p < number g \<and> \<not> single g' \<and> list_all (steady ctx) (peer g') \<and> map weight (peer g') = map weight (peer g)
    \<and> (\<forall>q<number g. current_weight (peer g' ! q) =
         current_weight (peer g ! q) + weight (peer g ! q) - (if q = p then sum_list (map weight (peer g)) else 0))
    \<and> 0 < current_weight (peer g ! p) + weight (peer g ! p)"
proof -
  let ?ps = "peer g"
  let ?W = "sum_list (map weight ?ps)"
  have n: "number g = length ?ps" "?ps \<noteq> []" "weights_ok ?ps" using assms(1) by (auto simp: group_ok_def)
  have use: "\<not> rr_skip ctx now t j (?ps ! j)" if "j < length ?ps" for j
    using steady_not_skipped assms(3,4) that n by (auto simp: list_all_length)
  obtain ps' where g: "ngx_http_upstream_get_peer ctx now t ?ps = (ps', t', r)" "g' = g\<lparr>peer := ps'\<rparr>"
    using pick assms(2) by (auto simp: rr_pick_def split: prod.splits)
  obtain p where p: "r = Some p" using get_peer_none [of ctx now t ?ps] g(1) use n(2) by (cases r) auto
  note c = get_peer_some [OF g(1) [unfolded p]]
  have W: "round_total (rr_skip ctx now t) ?ps = ?W" using round_total_steady assms(3,4) n(1) by simp
  have bp: "bumped (rr_skip ctx now t) ?ps ! q = rr_bump (?ps ! q)" if "q < length ?ps" for q using use that by simp
  have st: "steady ctx (?ps ! q)" if "q < length ?ps" for q using assms(3) that by (simp add: list_all_length)
  have ps': "ps' ! q = (if q = p then rr_chosen now ?W (rr_bump (?ps ! p)) else rr_bump (?ps ! q))" if "q < length ?ps" for q
    using c W bp that by (auto simp: nth_list_update)
  have len: "length ps' = length ?ps" using c by simp
  have "steady ctx (ps' ! q)" if "q < length ?ps" for q
    using ps' [OF that] st that c by (auto simp: steady_def) (simp_all add: rr_bump_def)
  then have "list_all (steady ctx) ps'" by (simp add: list_all_length len)
  moreover have "map weight ps' = map weight ?ps"
    using ps' len by (auto intro!: nth_equalityI)
  moreover have "current_weight (ps' ! q) = current_weight (?ps ! q) + weight (?ps ! q) - (if q = p then ?W else 0)"
    if "q < length ?ps" for q
    using ps' [OF that] st [OF that] by (auto simp: steady_def)
  moreover have "0 < current_weight (?ps ! p) + weight (?ps ! p)"
  proof (rule max_pos [of "map (\<lambda>q. current_weight q + weight q) ?ps"])
    have "0 < ?W" using steady_weight_pos assms(3) n(2) by blast
    then show "0 < (\<Sum>q\<leftarrow>?ps. current_weight q + weight q)" using n(3) by (simp add: sum_list_addf weights_ok_def)
    show "x \<le> current_weight (?ps ! p) + weight (?ps ! p)" if "x \<in> set (map (\<lambda>q. current_weight q + weight q) ?ps)" for x
      using that c use st by (auto simp: in_set_conv_nth steady_def)
  qed
  ultimately show ?thesis using p c g(2) assms(2) n(1) by auto
qed

lemma data_ok_word: "data_ok chain d \<Longrightarrow> g \<in> set chain \<Longrightarrow> j < number g \<Longrightarrow> j div 64 < length (tried d)"
  by (fastforce simp: data_ok_def tried_words_def)

lemma init_not_tried:
  assumes "ngx_http_upstream_init_round_robin_peer chain = (d, tries)" "j div 64 < length (tried d)"
  shows "\<not> is_tried (tried d) j"
proof -
  have "set (tried d) \<subseteq> {0}"
    using assms(1) by (auto simp: ngx_http_upstream_init_round_robin_peer_def Let_def split: if_splits)
  then have "tried d ! (j div 64) = 0" using assms(2) nth_mem by blast
  then show ?thesis by (simp add: is_tried_bit)
qed

lemma nth_update_field:
  assumes "f y = f (xs ! i)"
  shows "f (xs[i := y] ! j) = f (xs ! j)"
proof (cases "i < length xs")
  case True
  then show ?thesis using assms by (simp add: nth_list_update)
qed (simp add: list_update_beyond)

lemma add_conn_nth:
  "current_weight (peer (add_conn g p) ! q) = current_weight (peer g ! q)"
  "weight (peer (add_conn g p) ! q) = weight (peer g ! q)"
  "length (peer (add_conn g p)) = length (peer g)"
  by (simp_all add: add_conn_def nth_update_field)

lemma add_conn_weights: "map weight (peer (add_conn g p)) = map weight (peer g)"
  by (rule nth_equalityI) (simp_all add: add_conn_nth)

lemma steady_conns [simp]: "steady ctx (p\<lparr>conns := n\<rparr>) = steady ctx p"
  by (simp add: steady_def)

lemma fair_serve:
  assumes "fair_inv ws s"
  shows "fair_inv ws (rr_run s (round_events s (Serve now)))"
proof -
  have inv: "rr_inv s" "\<not> single (hd (groups s))" "map weight (peer (hd (groups s))) = ws"
    "list_all (steady (watch s)) (peer (hd (groups s)))"
    "\<And>p. p < length ws \<Longrightarrow> current_weight (peer (hd (groups s)) ! p) = int (length (reqs s)) * ws ! p - sum_list ws * int (served s p)"
    "\<And>p. p < length ws \<Longrightarrow> - sum_list ws < int (length (reqs s)) * ws ! p - sum_list ws * int (served s p)"
    "(\<Sum>p<length ws. served s p) = length (reqs s)"
    using assms by (simp_all add: fair_inv_def)
  let ?g = "hd (groups s)"
  have c: "groups s \<noteq> []" "group_ok ?g" using inv(1) by (auto simp: rr_inv_def chain_ok_def list_all_iff)
  have g0: "groups s ! 0 = ?g" using c(1) by (simp add: hd_conv_nth)
  have len: "length ws = number ?g" using c(2) inv(3) by (auto simp: group_ok_def)
  obtain d tries where d: "ngx_http_upstream_init_round_robin_peer (groups s) = (d, tries)"
    by (cases "ngx_http_upstream_init_round_robin_peer (groups s)")
  have d0: "peers_at d = 0" "data_ok (groups s) d" "\<And>j. j < number ?g \<Longrightarrow> \<not> is_tried (tried d) j"
  proof -
    show "peers_at d = 0" using d by (auto simp: ngx_http_upstream_init_round_robin_peer_def Let_def)
    show ok: "data_ok (groups s) d" using d inv(1) init_data_ok by (auto simp: rr_inv_def)
    show "\<not> is_tried (tried d) j" if "j < number ?g" for j
      using init_not_tried [OF d] data_ok_word [OF ok _ that] c(1) by simp
  qed
  obtain g' t' r where pick: "rr_pick (watch s) now (tried d) ?g = (g', t', r)"
    by (cases "rr_pick (watch s) now (tried d) ?g") auto
  obtain p where p: "r = Some p" "p < number ?g" "\<not> single g'" "list_all (steady (watch s)) (peer g')"
    "map weight (peer g') = map weight (peer ?g)"
    "\<And>q. q < number ?g \<Longrightarrow> current_weight (peer g' ! q) =
         current_weight (peer ?g ! q) + weight (peer ?g ! q) - (if q = p then sum_list (map weight (peer ?g)) else 0)"
    "0 < current_weight (peer ?g ! p) + weight (peer ?g ! p)"
    using steady_pick [OF c(2) inv(2,4) d0(3) pick] by blast
  let ?d = "d\<lparr>current := Some (0, p), tried := t'\<rparr>"
  let ?s = "s\<lparr>groups := (groups s)[0 := add_conn g' p], reqs := reqs s @ [(?d, tries, True)]\<rparr>"
  have run: "rr_run s (round_events s (Serve now)) = ?s"
    using d d0(1) pick p(1)
    by (simp add: rr_run_def ngx_http_upstream_get_round_robin_peer.simps [of _ _ _ d] g0 Let_def)
  have hd: "hd (groups ?s) = add_conn g' p" using c(1) by (simp add: hd_conv_nth)
  have sv: "served ?s q = served s q + (if q = p then 1 else 0)" for q
    by (simp add: served_def)
  have w: "weight (peer ?g ! q) = ws ! q" if "q < length ws" for q
    using inv(3) len that c(2) by (metis group_ok_def nth_map)
  have lp: "length (peer g') = length ws" using p(5) inv(3) by (metis length_map)
  have W: "sum_list (map weight (peer ?g)) = sum_list ws" using inv(3) by simp
  have n: "int (length (reqs ?s)) * ws ! q - sum_list ws * int (served ?s q) =
      (int (length (reqs s)) * ws ! q - sum_list ws * int (served s q)) + ws ! q - (if q = p then sum_list ws else 0)" for q
    by (cases "q = p") (simp_all add: sv algebra_simps)
  have cw: "current_weight (peer (add_conn g' p) ! q) =
      int (length (reqs ?s)) * ws ! q - sum_list ws * int (served ?s q)" if "q < length ws" for q
    unfolding n add_conn_nth using p(6) [of q, unfolded W] inv(5) [OF that] w [OF that] that len by simp
  have low: "- sum_list ws < int (length (reqs ?s)) * ws ! q - sum_list ws * int (served ?s q)" if "q < length ws" for q
  proof -
    have "0 < ws ! q" using inv(4) w [OF that] that len c(2) by (auto simp: list_all_length group_ok_def steady_def)
    then show ?thesis
      unfolding n using inv(5) [OF that] inv(6) [OF that] p(7) w [OF that] by (cases "q = p") simp_all
  qed
  have sum: "(\<Sum>q<length ws. served ?s q) = length (reqs ?s)"
    using inv(7) p(2) len by (simp add: sv sum.distrib)
  have "list_all (steady (watch ?s)) (peer (add_conn g' p))"
    using p(2,4) lp len by (simp add: add_conn_def list_all_length nth_update_field [of "steady (watch s)"])
  moreover have "map weight (peer (add_conn g' p)) = ws"
    using p(5) inv(3) by (metis (no_types, lifting) add_conn_weights)
  moreover have "\<not> single (add_conn g' p)" using p(3) by (simp add: add_conn_def)
  ultimately show ?thesis
    using inv_run [OF inv(1), of "round_events s (Serve now)"] cw low sum unfolding run fair_inv_def hd by auto
qed

lemma steady_freed: "steady ctx p \<Longrightarrow> steady ctx (rr_freed now 0 p)"
  by (auto simp: steady_def rr_freed_def word_neq_0_conv)

lemma weight_freed: "weight (rr_freed now state p) = weight p"
  by (simp add: rr_freed_def Let_def)

text \<open>Freeing changes, of what fairness is about, nothing.\<close>

lemma free_first_group:
  assumes "ngx_http_upstream_free_round_robin_peer now 0 chain d tries = Some (chain', tries')" "chain \<noteq> []"
    and "list_all (steady ctx) (peer (hd chain))"
  shows "single (hd chain') = single (hd chain) \<and> map weight (peer (hd chain')) = map weight (peer (hd chain))
    \<and> list_all (steady ctx) (peer (hd chain'))
    \<and> (\<forall>q. current_weight (peer (hd chain') ! q) = current_weight (peer (hd chain) ! q))"
proof -
  obtain k i where ki: "current d = Some (k, i)"
    using assms(1) by (auto simp: ngx_http_upstream_free_round_robin_peer_def split: option.splits)
  define p where "p = (let p = peer (chain ! k) ! i; p = (if single (chain ! peers_at d) then p else rr_freed now 0 p)
    in p\<lparr>conns := conns p - 1\<rparr>)"
  have k: "chain' = chain[k := (chain ! k)\<lparr>peer := (peer (chain ! k))[i := p]\<rparr>]"
    using assms(1) by (simp add: ngx_http_upstream_free_round_robin_peer_def ki p_def Let_def)
  have p: "(\<exists>n. p = (peer (chain ! k) ! i)\<lparr>conns := n\<rparr>) \<or> (\<exists>n. p = (rr_freed now 0 (peer (chain ! k) ! i))\<lparr>conns := n\<rparr>)"
    by (auto simp: p_def Let_def)
  show ?thesis
  proof (cases k)
    case (Suc j)
    then have "hd chain' = hd chain" using assms(2) k by (cases chain) auto
    then show ?thesis using assms(3) by simp
  next
    case 0
    let ?g = "hd chain"
    have h: "hd chain' = ?g\<lparr>peer := (peer ?g)[i := p]\<rparr>" using assms(2) k 0 by (simp add: hd_conv_nth)
    have g0: "chain ! k = ?g" using 0 assms(2) by (simp add: hd_conv_nth)
    have f: "weight p = weight (peer ?g ! i)" "current_weight p = current_weight (peer ?g ! i)"
      using p unfolding g0 by (auto simp: weight_freed)
    have st: "i < length (peer ?g) \<Longrightarrow> steady ctx p"
      using p assms(3) unfolding g0 by (auto simp: list_all_length steady_freed)
    have "list_all (steady ctx) ((peer ?g)[i := p])"
      using st assms(3) by (cases "i < length (peer ?g)") (simp_all add: list_all_update list_update_beyond)
    moreover have "map weight ((peer ?g)[i := p]) = map weight (peer ?g)"
      by (rule nth_equalityI) (simp_all add: nth_update_field [of weight, OF f(1)])
    ultimately show ?thesis using f by (simp add: h nth_update_field)
  qed
qed

lemma passed_not_down:
  assumes "ngx_http_upstream_check_peer_down (Some (ps[i := ngx_http_upstream_check_status_update now (ps ! i) True])) j"
  shows "ngx_http_upstream_check_peer_down (Some ps) j"
  using assms
  by (cases "i = unat j")
    (auto simp: ngx_http_upstream_check_peer_down_def ngx_http_upstream_check_status_update_def Let_def split: if_splits)

lemma fair_round: "fair_inv ws s \<Longrightarrow> fair_inv ws (rr_run s (round_events s r))"
proof (cases r)
  case (Serve now)
  assume "fair_inv ws s"
  then show ?thesis using fair_serve unfolding Serve by blast
next
  case (Done i now)
  assume inv: "fair_inv ws s"
  then have ri: "rr_inv (rr_run s (round_events s r))" by (intro inv_run) (simp add: fair_inv_def)
  have ne: "groups s \<noteq> []" using inv by (simp add: fair_inv_def rr_inv_def chain_ok_def)
  show ?thesis
  proof (cases "rr_run s (round_events s r) = s")
    case False
    then obtain d tries chain tries' where i: "i < length (reqs s)" "reqs s ! i = (d, tries, True)"
      and f: "ngx_http_upstream_free_round_robin_peer now 0 (groups s) d tries = Some (chain, tries')"
      and s: "rr_run s (round_events s r) = s\<lparr>groups := chain, reqs := (reqs s)[i := (d, tries', False)]\<rparr>"
      by (auto simp: Done rr_run_def split: if_splits prod.splits option.splits)
    have "served (s\<lparr>groups := chain, reqs := (reqs s)[i := (d, tries', False)]\<rparr>) p = served s p" for p
      using length_filter_update [OF i(1), of "\<lambda>(d, _). current d = Some (0, p)" "(d, tries', False)"] i(2)
      by (simp add: served_def)
    then show ?thesis
      using inv ri free_first_group [OF f ne, of "watch s"] unfolding s by (simp add: fair_inv_def)
  qed (use inv in simp)
next
  case (Passed i now)
  assume inv: "fair_inv ws s"
  then have ri: "rr_inv (rr_run s (round_events s r))" by (intro inv_run) (simp add: fair_inv_def)
  show ?thesis
  proof (cases "\<exists>ps. watch s = Some ps \<and> i < length ps")
    case False
    then have "rr_run s (round_events s r) = s" by (auto simp: Passed rr_run_def split: option.split)
    then show ?thesis using inv by simp
  next
    case True
    then obtain ps where ps: "watch s = Some ps" "i < length ps" by blast
    define qs where "qs = ps[i := ngx_http_upstream_check_status_update now (ps ! i) True]"
    have s: "rr_run s (round_events s r) = s\<lparr>watch := Some qs\<rparr>" using ps by (simp add: Passed rr_run_def qs_def)
    have "steady (Some ps) p \<Longrightarrow> steady (Some qs) p" for p
      using passed_not_down [of ps i now "check_index p"] unfolding qs_def steady_def by blast
    then have "list_all (steady (Some qs)) (peer (hd (groups s)))"
      using inv ps(1) by (simp add: fair_inv_def list_all_length)
    moreover have "served (s\<lparr>watch := Some qs\<rparr>) = served s" by (simp add: served_def fun_eq_iff)
    ultimately show ?thesis using inv ri unfolding s by (simp add: fair_inv_def)
  qed
qed

lemma fair_rounds: "fair_inv ws s \<Longrightarrow> fair_inv ws (rr_rounds s rs)"
  unfolding rr_rounds_def by (induction rs arbitrary: s) (simp_all add: fair_round)

subsection \<open>Properties\<close>

text \<open>
  C14: Smooth weighted round robin is fair. While every server of the first group stays in
  service, starting from current weights of zero, in any interleaving of requests, ends of
  requests and successful checks every request gets a server of that group; no server is
  ever ahead of its share by a whole request, and whenever the number of requests is a
  multiple of the sum of the weights every server has had exactly its share.
\<close>

theorem rr_fair:
  assumes "rr_inv s" "reqs s = []" "\<not> single (hd (groups s))" "list_all (steady (watch s)) (peer (hd (groups s)))"
    and "list_all (\<lambda>p. current_weight p = 0) (peer (hd (groups s)))" "p < number (hd (groups s))"
    and "w = weight (peer (hd (groups s)) ! p)" "W = weight_sum (peer (hd (groups s)))"
    and "s' = rr_rounds s rs" "n = int (length (reqs s'))"
  shows "W * int (served s' p) < n * w + W \<and> (\<Sum>q<number (hd (groups s)). served s' q) = length (reqs s')
    \<and> (W dvd n \<longrightarrow> int (served s' p) = n div W * w)"
proof -
  define ws where "ws = map weight (peer (hd (groups s)))"
  have g: "group_ok (hd (groups s))" using assms(1) by (cases "groups s") (auto simp: rr_inv_def chain_ok_def)
  have W: "W = sum_list ws" "0 < W"
    using steady_weight_pos [OF assms(4)] g by (auto simp: weight_sum_def ws_def assms(8) group_ok_def)
  have len: "length ws = number (hd (groups s))" using g by (auto simp: ws_def group_ok_def)
  have "fair_inv ws s"
    using assms(1-5) W len by (auto simp: fair_inv_def ws_def served_def list_all_length)
  then have f: "fair_inv ws s'" unfolding assms(9) by (rule fair_rounds)
  have wp: "ws ! q = weight (peer (hd (groups s)) ! q)" if "q < number (hd (groups s))" for q
    using that g by (simp add: ws_def group_ok_def)
  have low: "W * int (served s' q) < n * ws ! q + W" if "q < length ws" for q
    using f that by (auto simp: fair_inv_def W(1) assms(10))
  have sum: "(\<Sum>q<length ws. served s' q) = length (reqs s')" using f by (simp add: fair_inv_def)
  have "int (served s' p) = n div W * w" if dv: "W dvd n"
  proof -
    obtain k where k: "n = W * k" using dv by (elim dvdE)
    have le: "int (served s' q) \<le> k * ws ! q" if "q < length ws" for q
    proof -
      have "W * int (served s' q) < W * (k * ws ! q + 1)" using low [OF that] k by (simp add: algebra_simps)
      then show ?thesis using W(2) by (simp add: mult_less_cancel_left_pos)
    qed
    have "(\<Sum>q<length ws. int (served s' q)) = (\<Sum>q<length ws. k * ws ! q)"
      using sum k by (simp add: assms(10) W(1) sum_list_sum_nth atLeast0LessThan flip: of_nat_sum sum_distrib_left)
    then have "int (served s' p) = k * ws ! p"
      using sum_mono_inv [of "\<lambda>q. int (served s' q)" "{..<length ws}" "\<lambda>q. k * ws ! q" p] le assms(6) len by simp
    then show ?thesis using k W(2) wp [OF assms(6)] assms(7) by simp
  qed
  then show ?thesis using low [of p] assms(6,7) len wp sum by simp
qed

text \<open>
  C15: In every execution from the configured servers, with requests that get servers, retry,
  fail and end and with check results in any order: the current weights of every group add
  up to zero, effective weights stay between zero and the configured weight, the number of
  connections counted for a server is the number of requests that have it, it never exceeds
  \<open>max_conns\<close> where that is set, and the bitmap of every request has a word for every server
  of every group.
\<close>

theorem rr_invariant:
  assumes "ngx_http_upstream_init_round_robin add servers = Some chain"
    and "s = rr_run \<lparr>groups = chain, watch = ctx, reqs = []\<rparr> evs" "k < length (groups s)" "p < number (groups s ! k)"
  shows "(\<Sum>q\<leftarrow>peer (groups s ! k). current_weight q) = 0
    \<and> 0 \<le> effective_weight (peer (groups s ! k) ! p)
    \<and> effective_weight (peer (groups s ! k) ! p) \<le> weight (peer (groups s ! k) ! p)
    \<and> conns (peer (groups s ! k) ! p) = of_nat (holders s (k, p))
    \<and> (max_conns (peer (groups s ! k) ! p) \<noteq> 0 \<longrightarrow> holders s (k, p) \<le> unat (max_conns (peer (groups s ! k) ! p)))
    \<and> list_all (\<lambda>(d, _). p div 64 < length (tried d)) (reqs s)"
proof -
  have inv: "rr_inv s" unfolding assms(2) by (rule inv_run [OF rr_inv_init [OF assms(1)]])
  then have "group_ok (groups s ! k)" using assms(3) by (simp add: rr_inv_def chain_ok_def list_all_length)
  then have "(\<Sum>q\<leftarrow>peer (groups s ! k). current_weight q) = 0" "effective_ok (peer (groups s ! k) ! p)"
    using assms(4) by (simp_all add: group_ok_def weights_ok_def)
  moreover have "list_all (\<lambda>(d, _). p div 64 < length (tried d)) (reqs s)"
    using inv data_ok_word [of "groups s" _ "groups s ! k" p] assms(3,4) nth_mem
    by (fastforce simp: rr_inv_def list_all_iff req_ok_def)
  ultimately show ?thesis using inv assms(3,4) by (simp add: rr_inv_def conns_ok_def effective_ok_def)
qed

text \<open>
  C16: Which server a request gets: the call answers \<open>NGX_BUSY\<close> exactly when no server from the
  group of the request on may be handed out, and otherwise returns a server of the first
  group that has one; that server is not marked down, not down by the health checks, below
  its connection limit, in a group of several not tried before by this request nor
  suspended for its failures, and none of its group had a greater weight.
\<close>

theorem rr_get_exact:
  assumes "chain_ok chain" "data_ok chain d"
    and "ngx_http_upstream_get_round_robin_peer ctx now chain d = (rc, chain', d')"
  shows "right_choice (\<lambda>k. eligible ctx now (bitmap_in chain d k) (chain ! k)) (rank chain)
     (peers_at d) (length chain) rc d'"
  using get_round_robin_choice [OF assms] .

text \<open>Two servers with the weights 1 and 2, for the concrete runs below.\<close>

definition two_servers :: "upstream_server list" where
  "two_servers =
     [\<lparr>srv_name = str ''a'', addrs = [str ''a''], srv_weight = 1, srv_max_conns = 0, srv_max_fails = 1, srv_fail_timeout = 10,
       srv_down = False, backup = False\<rparr>,
      \<lparr>srv_name = str ''b'', addrs = [str ''b''], srv_weight = 2, srv_max_conns = 0, srv_max_fails = 1, srv_fail_timeout = 10,
       srv_down = False, backup = False\<rparr>]"

definition two_groups :: "rr_peers list" where
  "two_groups = [rr_group (\<lambda>_. - 1) False two_servers]"

definition two_sys :: rr_sys where
  "two_sys = \<lparr>groups = two_groups, watch = None, reqs = []\<rparr>"

lemma two_servers_init: "ngx_http_upstream_init_round_robin (\<lambda>_. - 1) two_servers = Some two_groups"
  by (simp add: ngx_http_upstream_init_round_robin_def two_groups_def rr_group_def two_servers_def)

theorem rr_fair_witness: "int (served (rr_rounds two_sys [Serve 1, Serve 2, Done 0 2, Serve 3]) 1) = 2"
proof -
  let ?s = "rr_rounds two_sys [Serve 1, Serve 2, Done 0 2, Serve 3]"
  have len: "int (length (reqs ?s)) = 3" by code_simp
  have inv: "rr_inv two_sys" unfolding two_sys_def by (rule rr_inv_init [OF two_servers_init])
  have g: "reqs two_sys = []" "\<not> single (hd (groups two_sys))" "list_all (steady (watch two_sys)) (peer (hd (groups two_sys)))"
    "list_all (\<lambda>p. current_weight p = 0) (peer (hd (groups two_sys)))" "1 < number (hd (groups two_sys))"
    "weight (peer (hd (groups two_sys)) ! 1) = 2" "weight_sum (peer (hd (groups two_sys))) = 3"
    by code_simp+
  show ?thesis
    using rr_fair [OF inv g(1-5) g(6) [symmetric] g(7) [symmetric] refl len [symmetric]] by simp
qed

theorem rr_invariant_witness:
  "conns (peer (groups (rr_run two_sys [Arrive, Get 0 5, Arrive, Get 1 5, Free 0 6 4]) ! 0) ! 0) =
     of_nat (holders (rr_run two_sys [Arrive, Get 0 5, Arrive, Get 1 5, Free 0 6 4]) (0, 0))"
proof -
  let ?s = "rr_run two_sys [Arrive, Get 0 5, Arrive, Get 1 5, Free 0 6 4]"
  have "0 < length (groups ?s)" "0 < number (groups ?s ! 0)" by code_simp+
  then show ?thesis
    using rr_invariant [OF two_servers_init, of ?s None "[Arrive, Get 0 5, Arrive, Get 1 5, Free 0 6 4]" 0 0]
    by (simp add: two_sys_def)
qed

theorem rr_get_exact_witness:
  "\<exists>rc chain' d'. ngx_http_upstream_get_round_robin_peer None 5 two_groups (fst (ngx_http_upstream_init_round_robin_peer two_groups))
       = (rc, chain', d')
     \<and> right_choice (\<lambda>k. eligible None 5 (bitmap_in two_groups (fst (ngx_http_upstream_init_round_robin_peer two_groups)) k) (two_groups ! k))
         (rank two_groups) 0 1 rc d'"
proof -
  let ?d = "fst (ngx_http_upstream_init_round_robin_peer two_groups)"
  obtain rc chain' d' where get: "ngx_http_upstream_get_round_robin_peer None 5 two_groups ?d = (rc, chain', d')"
    by (cases "ngx_http_upstream_get_round_robin_peer None 5 two_groups ?d") auto
  have c: "chain_ok two_groups" by (rule init_chain_ok [OF two_servers_init])
  have "data_ok two_groups ?d" by (rule init_data_ok [OF c]) (rule prod.collapse [symmetric])
  from rr_get_exact [OF c this get] show ?thesis
    using get by (auto simp: two_groups_def ngx_http_upstream_init_round_robin_peer_def Let_def)
qed

end
