(* ===== verification/Upstream_Balancer.thy ===== *)
theory Upstream_Balancer
  imports Upstream_Round_Robin
begin

section \<open>Methods of balancing\<close>

text \<open>
  What the modules that choose an upstream server share (src/ngx-1.12.0/src/http/modules,
  ngx_http_upstream_least_conn_module.c, ngx_http_upstream_ip_hash_module.c and
  ngx_http_upstream_hash_module.c). Each of them builds on the groups and on the request data of
  round robin: it replaces the calls that start a request (\<open>peer.init\<close>) and that ask for a
  server (\<open>peer.get\<close>), and keeps the one that frees it (\<open>peer.free\<close>). The locale
  \<open>peer_method\<close> is this interface; in it, the bookkeeping of connections is shown once for
  every method. Round robin itself is its first instance.
\<close>

subsection \<open>Model: requests under way\<close>

text \<open>
  The servers, the health checks and the requests, as for round robin but with the request data
  \<open>'d\<close> of the method; \<open>'a\<close> is what a method takes from a new request (its address, its key).
  A step is \<open>None\<close> when the call follows a pointer to no server or divides by zero.
\<close>

record 'd bal_sys =
  bal_groups :: "rr_peers list"
  bal_watch :: check_peers
  bal_reqs :: "('d \<times> nat \<times> bool) list"

datatype 'a bal_event = Bal_arrive 'a | Bal_get nat int | Bal_free nat int u64 | Bal_health nat u64 bool

fun bal_step ::
    "('a \<Rightarrow> rr_peers list \<Rightarrow> 'd \<times> nat) \<Rightarrow> (check_peers \<Rightarrow> int \<Rightarrow> rr_peers list \<Rightarrow> 'd \<Rightarrow> (int \<times> rr_peers list \<times> 'd) option) \<Rightarrow>
     ('d \<Rightarrow> rr_data) \<Rightarrow> 'd bal_sys \<Rightarrow> 'a bal_event \<Rightarrow> 'd bal_sys option" where
  "bal_step init get rrp s (Bal_arrive a) =
     (case init a (bal_groups s) of (d, tries) \<Rightarrow> Some (s\<lparr>bal_reqs := bal_reqs s @ [(d, tries, False)]\<rparr>))"
| "bal_step init get rrp s (Bal_get i now) =
     (if i < length (bal_reqs s)
      then case bal_reqs s ! i of (d, tries, held) \<Rightarrow>
        if held then Some s
        else case get (bal_watch s) now (bal_groups s) d of
            None \<Rightarrow> None
          | Some (rc, chain, d) \<Rightarrow>
              Some (s\<lparr>bal_groups := chain, bal_reqs := (bal_reqs s)[i := (d, tries, rc = NGX_OK)]\<rparr>)
      else Some s)"
| "bal_step init get rrp s (Bal_free i now state) =
     (if i < length (bal_reqs s)
      then case bal_reqs s ! i of (d, tries, held) \<Rightarrow>
        if held
        then case ngx_http_upstream_free_round_robin_peer now state (bal_groups s) (rrp d) tries of
               Some (chain, tries) \<Rightarrow> Some (s\<lparr>bal_groups := chain, bal_reqs := (bal_reqs s)[i := (d, tries, False)]\<rparr>)
             | None \<Rightarrow> None
        else Some s
      else Some s)"
| "bal_step init get rrp s (Bal_health i now ok) =
     (case bal_watch s of
        None \<Rightarrow> Some s
      | Some ps \<Rightarrow>
          if i < length ps
          then Some (s\<lparr>bal_watch := Some (ps[i := ngx_http_upstream_check_status_update now (ps ! i) ok])\<rparr>) else Some s)"

fun bal_run ::
    "('a \<Rightarrow> rr_peers list \<Rightarrow> 'd \<times> nat) \<Rightarrow> (check_peers \<Rightarrow> int \<Rightarrow> rr_peers list \<Rightarrow> 'd \<Rightarrow> (int \<times> rr_peers list \<times> 'd) option) \<Rightarrow>
     ('d \<Rightarrow> rr_data) \<Rightarrow> 'd bal_sys \<Rightarrow> 'a bal_event list \<Rightarrow> 'd bal_sys option" where
  "bal_run init get rrp s [] = Some s"
| "bal_run init get rrp s (ev # evs) =
     (case bal_step init get rrp s ev of None \<Rightarrow> None | Some s \<Rightarrow> bal_run init get rrp s evs)"

text \<open>What every method does with the server \<open>p\<close> it has chosen in \<open>g\<close>.\<close>

definition mark_tried :: "u64 list \<Rightarrow> nat \<Rightarrow> u64 list" where
  "mark_tried t p = t[p div (8 * 8) := t ! (p div (8 * 8)) OR rr_mask p]"

definition take_peer :: "int \<Rightarrow> rr_peers \<Rightarrow> nat \<Rightarrow> rr_peers" where
  "take_peer now g p =
     (let b = peer g ! p;
          b = b\<lparr>conns := conns b + 1\<rparr>;
          b = (if now - checked b > fail_timeout b then b\<lparr>checked := now\<rparr> else b)
      in g\<lparr>peer := (peer g)[p := b]\<rparr>)"

subsection \<open>What the configuration fixes\<close>

text \<open>The weights and names of servers, which no call changes.\<close>

definition same_shape :: "rr_peers list \<Rightarrow> rr_peers list \<Rightarrow> bool" where
  "same_shape chain chain' \<longleftrightarrow> length chain' = length chain \<and> (\<forall>k<length chain.
     total_weight (chain' ! k) = total_weight (chain ! k)
   \<and> map (\<lambda>p. (weight p, rr_server p)) (peer (chain' ! k)) = map (\<lambda>p. (weight p, rr_server p)) (peer (chain ! k)))"

lemma same_shape_refl [simp]: "same_shape chain chain"
  by (simp add: same_shape_def)

lemma same_shape_update:
  assumes "total_weight g = total_weight (chain ! k)"
    and "map (\<lambda>p. (weight p, rr_server p)) (peer g) = map (\<lambda>p. (weight p, rr_server p)) (peer (chain ! k))"
  shows "same_shape chain (chain[k := g])"
  using assms by (cases "k < length chain") (auto simp: same_shape_def nth_list_update)

lemma shape_list_update:
  "weight b = weight (ps ! p) \<Longrightarrow> rr_server b = rr_server (ps ! p) \<Longrightarrow>
     map (\<lambda>p. (weight p, rr_server p)) (ps[p := b]) = map (\<lambda>p. (weight p, rr_server p)) ps"
  by (cases "p < length ps") (auto simp: map_update list_update_same_conv list_update_beyond)

text \<open>The weights are positive and \<open>total_weight\<close> is their sum.\<close>

definition fit :: "rr_peers list \<Rightarrow> bool" where
  "fit chain \<longleftrightarrow> (\<forall>g\<in>set chain. int (total_weight g) = (\<Sum>p\<leftarrow>peer g. weight p) \<and> (\<forall>p\<in>set (peer g). 0 < weight p))"

lemma fit_shape: "same_shape chain chain' \<Longrightarrow> fit chain \<Longrightarrow> fit chain'"
proof -
  assume s: "same_shape chain chain'" and f: "fit chain"
  have "int (total_weight (chain' ! k)) = (\<Sum>p\<leftarrow>peer (chain' ! k). weight p) \<and> (\<forall>p\<in>set (peer (chain' ! k)). 0 < weight p)"
    if k: "k < length chain'" for k
  proof -
    have "map (\<lambda>p. (weight p, rr_server p)) (peer (chain' ! k)) = map (\<lambda>p. (weight p, rr_server p)) (peer (chain ! k))"
      using s k by (simp add: same_shape_def)
    from arg_cong [OF this, of "map fst"] have m: "map weight (peer (chain' ! k)) = map weight (peer (chain ! k))"
      by (simp add: comp_def)
    have "int (total_weight (chain ! k)) = (\<Sum>p\<leftarrow>peer (chain ! k). weight p)" "\<forall>w\<in>set (map weight (peer (chain ! k))). 0 < w"
      using f nth_mem [of k chain] s k by (auto simp: fit_def same_shape_def)
    moreover have "total_weight (chain' ! k) = total_weight (chain ! k)" using s k by (simp add: same_shape_def)
    moreover have "(\<forall>p\<in>set (peer (chain' ! k)). 0 < weight p) \<longleftrightarrow> (\<forall>w\<in>set (map weight (peer (chain' ! k))). 0 < w)" by simp
    ultimately show ?thesis unfolding m by simp
  qed
  then show ?thesis unfolding fit_def by (metis in_set_conv_nth)
qed

lemma best_peer_shape:
  assumes "best_peer skip now t ps = (ps', t', r)"
  shows "map (\<lambda>p. (weight p, rr_server p)) ps' = map (\<lambda>p. (weight p, rr_server p)) ps"
proof (cases r)
  case None
  then show ?thesis using best_peer_none assms by blast
next
  case (Some p)
  note f = best_peer_some [OF assms [unfolded Some]]
  have "map (\<lambda>p. (weight p, rr_server p)) (bumped skip ps) = map (\<lambda>p. (weight p, rr_server p)) ps"
    by (rule nth_equalityI) simp_all
  then show ?thesis using f by (simp add: shape_list_update)
qed

lemma add_conn_shape: "map (\<lambda>p. (weight p, rr_server p)) (peer (add_conn g p)) = map (\<lambda>p. (weight p, rr_server p)) (peer g)"
  by (simp add: add_conn_def shape_list_update)

lemma rr_pick_shape:
  "rr_pick ctx now t g = (g', t', r) \<Longrightarrow> total_weight g' = total_weight g
     \<and> map (\<lambda>p. (weight p, rr_server p)) (peer g') = map (\<lambda>p. (weight p, rr_server p)) (peer g)"
  using best_peer_shape
  by (auto simp: rr_pick_def ngx_http_upstream_get_peer_def Let_def split: if_splits prod.splits)

lemma get_round_robin_shape:
  "ngx_http_upstream_get_round_robin_peer ctx now chain d = (rc, chain', d') \<Longrightarrow> same_shape chain chain'"
proof (induction ctx now chain d rule: ngx_http_upstream_get_round_robin_peer.induct)
  case (1 ctx now chain d)
  obtain g t r where pick: "rr_pick ctx now (tried d) (chain ! peers_at d) = (g, t, r)"
    by (cases "rr_pick ctx now (tried d) (chain ! peers_at d)") auto
  note sh = rr_pick_shape [OF pick]
  show ?case
  proof (cases r)
    case (Some p)
    then show ?thesis
      using "1.prems" sh add_conn_shape [of g p]
      by (auto simp: ngx_http_upstream_get_round_robin_peer.simps [of ctx] pick Let_def add_conn_def intro!: same_shape_update)
  next
    case None
    then show ?thesis
      using "1.prems" "1.IH" [OF refl pick [symmetric] refl None]
      by (auto simp: ngx_http_upstream_get_round_robin_peer.simps [of ctx now chain d] pick Let_def split: if_splits)
  qed
qed

lemma free_shape:
  assumes "ngx_http_upstream_free_round_robin_peer now state chain d tries = Some (chain', tries')"
  shows "same_shape chain chain'"
proof -
  have "weight (rr_freed now state p) = weight p" "rr_server (rr_freed now state p) = rr_server p" for p
    by (simp_all add: rr_freed_def Let_def)
  then show ?thesis
    using assms
    by (auto simp: ngx_http_upstream_free_round_robin_peer_def Let_def split: option.splits if_splits
        intro!: same_shape_update shape_list_update)
qed

lemma fit_init:
  assumes "ngx_http_upstream_init_round_robin add servers = Some chain" "\<forall>s\<in>set servers. 0 < srv_weight s"
  shows "fit chain"
proof -
  have "int (\<Sum>s\<leftarrow>ss. length (addrs s) * srv_weight s) =
      (\<Sum>p\<leftarrow>concat (map (\<lambda>s. map (rr_server_peer add s) (addrs s)) ss). weight p)" for ss
    by (induction ss) (simp_all add: rr_server_peer_def comp_def sum_list_triv)
  then show ?thesis
    using assms by (auto simp: ngx_http_upstream_init_round_robin_def Let_def fit_def rr_group_def rr_server_peer_def split: if_splits)
qed

subsection \<open>A server that was chosen\<close>

lemma take_peer_got:
  assumes "chain_ok chain" "data_ok chain d" "p < number (chain ! peers_at d)" "\<not> full_conns (peer (chain ! peers_at d) ! p)"
  shows "got chain NGX_OK (chain[peers_at d := take_peer now (chain ! peers_at d) p])
      (d\<lparr>current := Some (peers_at d, p), tried := mark_tried (tried d) p\<rparr>)"
    and "same_shape chain (chain[peers_at d := take_peer now (chain ! peers_at d) p])"
proof -
  let ?k = "peers_at d"
  let ?g = "chain ! ?k"
  let ?chain = "chain[?k := take_peer now ?g p]"
  have k: "?k < length chain" using assms(2) by (simp add: data_ok_def)
  have g: "group_ok ?g" using assms(1) k by (simp add: chain_ok_def list_all_length)
  then have e: "effective_ok (peer ?g ! p)" using assms(3) by (simp add: group_ok_def weights_ok_def)
  define b where "b = (let b = peer ?g ! p; b = b\<lparr>conns := conns b + 1\<rparr>
      in if now - checked b > fail_timeout b then b\<lparr>checked := now\<rparr> else b)"
  have b: "current_weight b = current_weight (peer ?g ! p)" "effective_ok b" "take_peer now ?g p = ?g\<lparr>peer := (peer ?g)[p := b]\<rparr>"
    using e by (simp_all add: b_def Let_def effective_ok_def take_peer_def)
  have b_conns: "conns b = conns (peer ?g ! p) + 1" "max_conns b = max_conns (peer ?g ! p)"
    by (simp_all add: b_def Let_def)
  have "weights_ok (peer (take_peer now ?g p))"
    using g assms(3) b by (simp add: weights_ok_update group_ok_def)
  then have "group_ok (take_peer now ?g p)"
    using g by (auto simp: group_ok_def take_peer_def Let_def)
  then have c: "chain_ok ?chain" using chain_update assms(1) k by blast
  have st: "conns_step chain ?chain (\<lambda>x. if x = (?k, p) then 1 else 0)"
    using g k assms(3) b_conns unfolding conns_step_def b(3) by (auto simp: nth_list_update group_ok_def)
  have "data_ok ?chain (d\<lparr>current := Some (?k, p), tried := mark_tried (tried d) p\<rparr>)"
    using data_ok_shape [OF assms(2) st] k by (simp add: mark_tried_def)
  then show "got chain NGX_OK ?chain (d\<lparr>current := Some (?k, p), tried := mark_tried (tried d) p\<rparr>)"
    using c st assms(3,4) by (auto simp: got_def)
  show "same_shape chain ?chain"
    by (rule same_shape_update) (auto simp: take_peer_def Let_def intro: shape_list_update)
qed

subsection \<open>The interface of a method\<close>

text \<open>The requests with the part of their data that round robin has.\<close>

definition bal_abs :: "('d \<Rightarrow> rr_data) \<Rightarrow> 'd bal_sys \<Rightarrow> rr_sys" where
  "bal_abs rrp s = \<lparr>groups = bal_groups s, watch = bal_watch s, reqs = map (\<lambda>(d, tries, held). (rrp d, tries, held)) (bal_reqs s)\<rparr>"

definition bal_inv :: "('d \<Rightarrow> rr_data) \<Rightarrow> 'd bal_sys \<Rightarrow> bool" where
  "bal_inv rrp s \<longleftrightarrow> rr_inv (bal_abs rrp s) \<and> fit (bal_groups s)"

text \<open>
  The promise to the rest of the server: in every group the current weights add up to zero and
  each effective weight lies between zero and the configured weight; the connections counted
  for a server are the requests that have it, and no more than \<open>max_conns\<close> where that is set.
\<close>

definition requests_on :: "('d \<Rightarrow> rr_data) \<Rightarrow> 'd bal_sys \<Rightarrow> nat \<times> nat \<Rightarrow> nat" where
  "requests_on rrp s x = length (filter (\<lambda>(d, _, held). held \<and> current (rrp d) = Some x) (bal_reqs s))"

definition server_sound :: "rr_peer \<Rightarrow> nat \<Rightarrow> bool" where
  "server_sound q n \<longleftrightarrow> 0 \<le> effective_weight q \<and> effective_weight q \<le> weight q
     \<and> conns q = of_nat n \<and> (max_conns q \<noteq> 0 \<longrightarrow> n \<le> unat (max_conns q))"

definition balance_sound :: "('d \<Rightarrow> rr_data) \<Rightarrow> 'd bal_sys \<Rightarrow> bool" where
  "balance_sound rrp s \<longleftrightarrow> (\<forall>k<length (bal_groups s). (\<Sum>q\<leftarrow>peer (bal_groups s ! k). current_weight q) = 0
     \<and> (\<forall>p<number (bal_groups s ! k). server_sound (peer (bal_groups s ! k) ! p) (requests_on rrp s (k, p))))"

lemma requests_on_abs: "requests_on rrp s x = holders (bal_abs rrp s) x"
  by (simp add: requests_on_def holders_def bal_abs_def filter_map has_server_def comp_def case_prod_unfold)

lemma bal_inv_sound: "bal_inv rrp s \<Longrightarrow> balance_sound rrp s"
  unfolding balance_sound_def server_sound_def requests_on_abs
  by (auto simp: bal_inv_def rr_inv_def conns_ok_def chain_ok_def list_all_length group_ok_def weights_ok_def effective_ok_def bal_abs_def)

locale peer_method =
  fixes init :: "'a \<Rightarrow> rr_peers list \<Rightarrow> 'd \<times> nat"
    and get :: "check_peers \<Rightarrow> int \<Rightarrow> rr_peers list \<Rightarrow> 'd \<Rightarrow> (int \<times> rr_peers list \<times> 'd) option"
    and rrp :: "'d \<Rightarrow> rr_data"
  assumes init_rr: "ngx_http_upstream_init_round_robin_peer chain = (rrp (fst (init a chain)), snd (init a chain))"
    and get_got: "chain_ok chain \<Longrightarrow> fit chain \<Longrightarrow> data_ok chain (rrp d) \<Longrightarrow>
      \<exists>rc chain' d'. get ctx now chain d = Some (rc, chain', d') \<and> got chain rc chain' (rrp d') \<and> same_shape chain chain'"
begin

lemma arrive_inv:
  assumes "bal_inv rrp s"
  shows "\<exists>s'. bal_step init get rrp s (Bal_arrive a) = Some s' \<and> bal_inv rrp s'"
proof -
  obtain d tries where d: "init a (bal_groups s) = (d, tries)" by (cases "init a (bal_groups s)")
  have r: "rr_inv (rr_event_step (bal_abs rrp s) Arrive)"
    by (rule inv_step) (use assms in \<open>simp add: bal_inv_def\<close>)
  have "rr_event_step (bal_abs rrp s) Arrive = bal_abs rrp (s\<lparr>bal_reqs := bal_reqs s @ [(d, tries, False)]\<rparr>)"
    using init_rr [of "bal_groups s" a] by (simp add: bal_abs_def d)
  then show ?thesis using r assms by (simp add: bal_inv_def d)
qed

lemma get_inv:
  assumes "bal_inv rrp s"
  shows "\<exists>s'. bal_step init get rrp s (Bal_get i now) = Some s' \<and> bal_inv rrp s'"
proof (cases "i < length (bal_reqs s) \<and> \<not> snd (snd (bal_reqs s ! i))")
  case False
  then show ?thesis using assms by (auto split: prod.splits)
next
  case True
  then obtain d tries where r: "i < length (bal_reqs s)" "bal_reqs s ! i = (d, tries, False)"
    by (metis prod.collapse)
  have inv: "rr_inv (bal_abs rrp s)" "fit (bal_groups s)" using assms by (simp_all add: bal_inv_def)
  have ri: "i < length (reqs (bal_abs rrp s))" "reqs (bal_abs rrp s) ! i = (rrp d, tries, False)"
    using r by (simp_all add: bal_abs_def)
  have "chain_ok (bal_groups s)" "list_all (req_ok (bal_groups s)) (reqs (bal_abs rrp s))"
    using inv(1) by (simp_all add: rr_inv_def bal_abs_def)
  then have "chain_ok (bal_groups s)" "data_ok (bal_groups s) (rrp d)"
    using ri by (auto simp: list_all_length req_ok_def)
  from get_got [OF this(1) inv(2) this(2), of "bal_watch s" now]
  obtain rc chain' d' where g: "get (bal_watch s) now (bal_groups s) d = Some (rc, chain', d')"
    "got (bal_groups s) rc chain' (rrp d')" "same_shape (bal_groups s) chain'" by blast
  let ?s = "s\<lparr>bal_groups := chain', bal_reqs := (bal_reqs s)[i := (d', tries, rc = NGX_OK)]\<rparr>"
  have "rr_inv (bal_abs rrp ?s)"
    using inv_got [OF inv(1) ri, of rc chain' "rrp d'"] g(2) by (simp add: bal_abs_def map_update)
  then have "bal_inv rrp ?s" using fit_shape [OF g(3) inv(2)] by (simp add: bal_inv_def)
  then show ?thesis using r g(1) by simp
qed

lemma free_inv:
  assumes "bal_inv rrp s"
  shows "\<exists>s'. bal_step init get rrp s (Bal_free i now state) = Some s' \<and> bal_inv rrp s'"
proof (cases "i < length (bal_reqs s) \<and> snd (snd (bal_reqs s ! i))")
  case False
  then show ?thesis using assms by (auto split: prod.splits)
next
  case True
  then obtain d tries where r: "i < length (bal_reqs s)" "bal_reqs s ! i = (d, tries, True)"
    by (metis prod.collapse)
  have inv: "rr_inv (bal_abs rrp s)" "fit (bal_groups s)" using assms by (simp_all add: bal_inv_def)
  have ri: "i < length (reqs (bal_abs rrp s))" "reqs (bal_abs rrp s) ! i = (rrp d, tries, True)"
    using r by (simp_all add: bal_abs_def)
  have "chain_ok (bal_groups s)" "list_all (req_ok (bal_groups s)) (reqs (bal_abs rrp s))"
    using inv(1) by (simp_all add: rr_inv_def bal_abs_def)
  then have c: "chain_ok (bal_groups s)" and "req_ok (bal_groups s) (rrp d, tries, True)"
    using ri by (auto simp: list_all_length)
  then obtain p where p: "current (rrp d) = Some (peers_at (rrp d), p)" "peers_at (rrp d) < length (bal_groups s)"
    "p < number (bal_groups s ! peers_at (rrp d))" by (auto simp: req_ok_def data_ok_def)
  from free_round_robin [OF c p, of now state tries] obtain chain' tries' where
    f: "ngx_http_upstream_free_round_robin_peer now state (bal_groups s) (rrp d) tries = Some (chain', tries')" by blast
  let ?s = "s\<lparr>bal_groups := chain', bal_reqs := (bal_reqs s)[i := (d, tries', False)]\<rparr>"
  have "rr_inv (bal_abs rrp ?s)"
    using inv_free [OF inv(1) ri, of now state chain' tries'] f by (simp add: bal_abs_def map_update)
  then have "bal_inv rrp ?s" using fit_shape [OF free_shape [OF f] inv(2)] by (simp add: bal_inv_def)
  then show ?thesis using r f by simp
qed

lemma health_inv:
  assumes "bal_inv rrp s"
  shows "\<exists>s'. bal_step init get rrp s (Bal_health i now ok) = Some s' \<and> bal_inv rrp s'"
  using assms by (auto simp: bal_inv_def bal_abs_def rr_inv_def conns_ok_def holders_def split: option.split)

lemma step_inv: "bal_inv rrp s \<Longrightarrow> \<exists>s'. bal_step init get rrp s ev = Some s' \<and> bal_inv rrp s'"
  by (cases ev) (simp_all only: arrive_inv get_inv free_inv health_inv)

lemma run_inv: "bal_inv rrp s \<Longrightarrow> \<exists>s'. bal_run init get rrp s evs = Some s' \<and> bal_inv rrp s'"
proof (induction evs arbitrary: s)
  case (Cons ev evs)
  then show ?case using step_inv [of s ev] by fastforce
qed simp

lemma configured_run:
  assumes "ngx_http_upstream_init_round_robin add servers = Some chain" "\<forall>s\<in>set servers. 0 < srv_weight s"
  shows "\<exists>s. bal_run init get rrp \<lparr>bal_groups = chain, bal_watch = ctx, bal_reqs = []\<rparr> evs = Some s \<and> balance_sound rrp s"
  using rr_inv_init [OF assms(1)] fit_init [OF assms] run_inv [of "\<lparr>bal_groups = chain, bal_watch = ctx, bal_reqs = []\<rparr>" evs]
    bal_inv_sound by (fastforce simp: bal_inv_def bal_abs_def)

end

subsection \<open>Round robin as a method\<close>

definition rr_method_init :: "unit \<Rightarrow> rr_peers list \<Rightarrow> rr_data \<times> nat" where
  "rr_method_init a chain = ngx_http_upstream_init_round_robin_peer chain"

definition rr_method_get :: "check_peers \<Rightarrow> int \<Rightarrow> rr_peers list \<Rightarrow> rr_data \<Rightarrow> (int \<times> rr_peers list \<times> rr_data) option" where
  "rr_method_get ctx now chain d = Some (ngx_http_upstream_get_round_robin_peer ctx now chain d)"

lemma round_robin_got:
  assumes "chain_ok chain" "data_ok chain d"
  shows "\<exists>rc chain' d'. ngx_http_upstream_get_round_robin_peer ctx now chain d = (rc, chain', d')
    \<and> got chain rc chain' d' \<and> same_shape chain chain'"
proof -
  obtain rc chain' d' where g: "ngx_http_upstream_get_round_robin_peer ctx now chain d = (rc, chain', d')"
    by (cases "ngx_http_upstream_get_round_robin_peer ctx now chain d") auto
  then show ?thesis using get_round_robin [OF assms g] get_round_robin_shape [OF g] by blast
qed

interpretation round_robin: peer_method rr_method_init rr_method_get id
proof unfold_locales
  fix chain ctx now and d :: rr_data
  assume "chain_ok chain" "data_ok chain (id d)"
  then show "\<exists>rc chain' d'. rr_method_get ctx now chain d = Some (rc, chain', d') \<and> got chain rc chain' (id d') \<and> same_shape chain chain'"
    using round_robin_got [of chain d ctx now] by (auto simp: rr_method_get_def)
qed (simp add: rr_method_init_def)

end
