(* ===== verification/Ngx_Inet.thy ===== *)
theory Ngx_Inet
  imports Ngx_Atoi
begin

section \<open>Addresses and networks as text (ngx_inet.c)\<close>

text \<open>
  The readers and printers of addresses of src/ngx-1.12.0/src/core/ngx_inet.c. An IPv4
  address is a word in host order (the \<open>htonl\<close> at the end of \<open>ngx_inet_addr\<close> and the \<open>ntohl\<close>
  of its callers cancel out, and \<open>INADDR_NONE\<close> is the same in both orders), an IPv6 address
  its 16 bytes. A pointer into the text is the rest of the text from there on; the bytes
  written through \<open>addr\<close> are the list \<open>i6_out\<close>, so that its length is the offset of \<open>addr\<close>.
\<close>

subsection \<open>Model\<close>

definition INADDR_NONE :: u32 where "INADDR_NONE = 0xffffffff"

text \<open>\<open>ngx_inet_addr\<close>\<close>

fun inet_addr_loop :: "bytes \<Rightarrow> u32 \<Rightarrow> nat \<Rightarrow> nat \<Rightarrow> u32" where
  "inet_addr_loop [] addr octet n =
     (if n = 3 then push_bit 8 addr + word_of_nat octet else INADDR_NONE)"
| "inet_addr_loop (c # p) addr octet n =
     (if chr CHR ''0'' \<le> c \<and> c \<le> chr CHR ''9'' then
        let octet = octet * 10 + (unat c - 48)
        in if octet > 255 then INADDR_NONE else inet_addr_loop p addr octet n
      else if c = chr CHR ''.'' then inet_addr_loop p (push_bit 8 addr + word_of_nat octet) 0 (n + 1)
      else INADDR_NONE)"

definition ngx_inet_addr :: "bytes \<Rightarrow> u32" where
  "ngx_inet_addr text = inet_addr_loop text 0 0 0"

text \<open>\<open>ngx_inet6_addr\<close>; \<open>digit\<close> with the length \<open>len4 - 1\<close> is the rest of the text.\<close>

record i6 =
  i6_out :: bytes
  i6_zero :: "nat option"
  i6_digit :: "bytes option"
  i6_nibbles :: nat
  i6_word :: nat
  i6_n :: nat

text \<open>\<open>*addr++ = (u_char) (word >> 8); *addr++ = (u_char) (word & 0xff);\<close>\<close>

definition put_word :: "nat \<Rightarrow> bytes \<Rightarrow> bytes" where
  "put_word word out = out @ [word_of_nat (word div 256), word_of_nat (word mod 256)]"

fun inet6_loop :: "bytes \<Rightarrow> i6 \<Rightarrow> i6 option" where
  "inet6_loop [] s = Some s"
| "inet6_loop (c # p) s =
     (if c = chr CHR '':'' then
        if i6_nibbles s \<noteq> 0 then
          if i6_n s - 1 \<noteq> 0
          then inet6_loop p (s\<lparr>i6_digit := Some p, i6_out := put_word (i6_word s) (i6_out s), i6_n := i6_n s - 1,
                 i6_nibbles := 0, i6_word := 0\<rparr>)
          else None
        else if i6_zero s = None then inet6_loop p (s\<lparr>i6_digit := Some p, i6_zero := Some (length (i6_out s))\<rparr>)
        else None
      else if c = chr CHR ''.'' \<and> i6_nibbles s \<noteq> 0 then
        case i6_digit s of
          None \<Rightarrow> None
        | Some digit \<Rightarrow>
            if i6_n s < 2 then None
            else
              let word = ngx_inet_addr digit
              in if word = INADDR_NONE then None
                 else Some (s\<lparr>i6_out := i6_out s @ [ucast (drop_bit 24 word), ucast (drop_bit 16 word)],
                        i6_word := unat word, i6_n := i6_n s - 1\<rparr>)
      else if i6_nibbles s + 1 > 4 then None
      else if chr CHR ''0'' \<le> c \<and> c \<le> chr CHR ''9''
      then inet6_loop p (s\<lparr>i6_nibbles := i6_nibbles s + 1, i6_word := i6_word s * 16 + (unat c - 48)\<rparr>)
      else
        let c = c OR 0x20
        in if chr CHR ''a'' \<le> c \<and> c \<le> chr CHR ''f''
           then inet6_loop p (s\<lparr>i6_nibbles := i6_nibbles s + 1, i6_word := i6_word s * 16 + (unat c - 97) + 10\<rparr>)
           else None)"

text \<open>
  The end: the last word is written, and the bytes from \<open>zero\<close> on are moved to the end of
  the 16 and the gap is cleared.
\<close>

definition inet6_end :: "i6 \<Rightarrow> bytes option" where
  "inet6_end s =
     (if i6_nibbles s = 0 \<and> i6_zero s = None then None
      else
        let addr = put_word (i6_word s) (i6_out s); n = i6_n s - 1
        in case i6_zero s of
             Some zero \<Rightarrow> if n \<noteq> 0 then Some (take zero addr @ replicate (n * 2) 0 @ drop zero addr) else None
           | None \<Rightarrow> if n \<noteq> 0 then None else Some addr)"

definition i6_start :: i6 where
  "i6_start = \<lparr>i6_out = [], i6_zero = None, i6_digit = None, i6_nibbles = 0, i6_word = 0, i6_n = 8\<rparr>"

definition ngx_inet6_addr :: "bytes \<Rightarrow> bytes option" where
  "ngx_inet6_addr p =
     (if p = [] then None
      else Option.bind (inet6_loop (if hd p = chr CHR '':'' then tl p else p) i6_start) inet6_end)"

text \<open>The formats \<open>%ud\<close> and \<open>%xd\<close>, and \<open>ngx_inet_ntop\<close> for IPv4 with room for the text.\<close>

definition fmt_ud :: "byte \<Rightarrow> bytes" where "fmt_ud b = sprintf_temp (ucast b) 0"

definition fmt_xd :: "nat \<Rightarrow> bytes" where "fmt_xd v = sprintf_temp (word_of_nat v) 1"

definition ngx_inet_ntop :: "bytes \<Rightarrow> bytes" where
  "ngx_inet_ntop p =
     fmt_ud (p ! 0) @ chr CHR ''.'' # fmt_ud (p ! 1) @ chr CHR ''.'' # fmt_ud (p ! 2) @ chr CHR ''.'' # fmt_ud (p ! 3)"

text \<open>\<open>ngx_inet6_ntop\<close>: the first longest run of zero words, \<open>(zero, last, max, n)\<close>.\<close>

definition ntop_scan :: "bytes \<Rightarrow> nat option \<times> nat \<times> nat \<times> nat \<Rightarrow> nat \<Rightarrow> nat option \<times> nat \<times> nat \<times> nat" where
  "ntop_scan p st i =
     (case st of (zero, lst, mx, n) \<Rightarrow>
        if p ! i \<noteq> 0 \<or> p ! (i + 1) \<noteq> 0 then
          if mx < n then (Some lst, lst, n, 0) else (zero, lst, mx, 0)
        else (zero, if n = 0 then i else lst, mx, n + 1))"

definition ntop_zero :: "bytes \<Rightarrow> nat option \<times> nat" where
  "ntop_zero p =
     (case foldl (ntop_scan p) (None, 0, 1, 0) [0, 2, 4, 6, 8, 10, 12, 14] of
        (zero, lst, mx, n) \<Rightarrow> if mx < n then (Some lst, n) else (zero, mx))"

function ntop_print :: "bytes \<Rightarrow> nat option \<Rightarrow> nat \<Rightarrow> nat \<Rightarrow> nat \<Rightarrow> bytes" where
  "ntop_print p zero mx n i =
     (if i < n then
        if zero = Some i then chr CHR '':'' # ntop_print p zero mx n (i + (mx - 1) * 2 + 2)
        else fmt_xd (unat (p ! i) * 256 + unat (p ! (i + 1))) @ (if i < 14 then [chr CHR '':''] else [])
               @ ntop_print p zero mx n (i + 2)
      else [])"
  by pat_completeness auto
termination
  by (relation "measure (\<lambda>(p, zero, mx, n, i). n - i)") auto

declare ntop_print.simps [simp del]

definition ngx_inet6_ntop :: "bytes \<Rightarrow> bytes" where
  "ngx_inet6_ntop p =
     (case ntop_zero p of (zero, mx) \<Rightarrow>
        let n = (if zero = Some 0 \<and> (mx = 5 \<and> p ! 10 = 0xff \<and> p ! 11 = 0xff \<or> mx = 6 \<or> mx = 7 \<and> p ! 14 \<noteq> 0 \<and> p ! 15 \<noteq> 1)
                 then 12 else 16)
        in (if zero = Some 0 then [chr CHR '':''] else []) @ ntop_print p zero mx n 0
             @ (if n = 12 then ngx_inet_ntop (drop 12 p) else []))"

text \<open>Networks. The text is cut at the first slash.\<close>

datatype ngx_cidr_t = Cidr4 u32 u32 | Cidr6 bytes bytes

fun cidr6_masks :: "nat \<Rightarrow> nat \<Rightarrow> bytes" where
  "cidr6_masks 0 shift = []"
| "cidr6_masks (Suc k) shift =
     (let s = (if shift > 8 then 8 else shift) in word_of_nat (0xff * 2 ^ (8 - s)) # cidr6_masks k (shift - s))"

text \<open>The rest from the slash on, for an IPv4 and for an IPv6 address.\<close>

definition ptocidr4 :: "u32 \<Rightarrow> bytes \<Rightarrow> int \<times> ngx_cidr_t option" where
  "ptocidr4 addr rest =
     (if rest = [] then (NGX_OK, Some (Cidr4 addr 0xffffffff))
      else
        let shift = ngx_atoi (tl rest)
        in if shift = NGX_ERROR \<or> shift > 32 then (NGX_ERROR, None)
           else
             let msk = (if shift \<noteq> 0 then push_bit (nat (32 - shift)) 0xffffffff else 0)
             in (if addr = addr AND msk then NGX_OK else NGX_DONE, Some (Cidr4 (addr AND msk) msk)))"

definition ptocidr6 :: "bytes \<Rightarrow> bytes \<Rightarrow> int \<times> ngx_cidr_t option" where
  "ptocidr6 addr rest =
     (if rest = [] then (NGX_OK, Some (Cidr6 addr (replicate 16 0xff)))
      else
        let shift = ngx_atoi (tl rest)
        in if shift = NGX_ERROR \<or> shift > 128 then (NGX_ERROR, None)
           else
             let msk = cidr6_masks 16 (nat shift); addr' = map2 (AND) addr msk
             in (if addr = addr' then NGX_OK else NGX_DONE, Some (Cidr6 addr' msk)))"

definition ngx_ptocidr :: "bytes \<Rightarrow> int \<times> ngx_cidr_t option" where
  "ngx_ptocidr text =
     (let addr = takeWhile (\<lambda>c. c \<noteq> chr CHR ''/'') text; rest = drop (length addr) text
      in if ngx_inet_addr addr \<noteq> INADDR_NONE then ptocidr4 (ngx_inet_addr addr) rest
         else case ngx_inet6_addr addr of
           None \<Rightarrow> (NGX_ERROR, None)
         | Some addr6 \<Rightarrow> ptocidr6 addr6 rest)"

text \<open>The address of a peer, and \<open>ngx_cidr_match\<close>.\<close>

datatype sockaddr = Sock4 u32 | Sock6 bytes | Sock_unix

definition IN6_IS_ADDR_V4MAPPED :: "bytes \<Rightarrow> bool" where
  "IN6_IS_ADDR_V4MAPPED p \<longleftrightarrow> take 12 p = replicate 10 0 @ [0xff, 0xff]"

definition mapped_addr :: "bytes \<Rightarrow> u32" where
  "mapped_addr p = push_bit 24 (ucast (p ! 12)) + push_bit 16 (ucast (p ! 13)) + push_bit 8 (ucast (p ! 14)) + ucast (p ! 15)"

definition unmap :: "sockaddr \<Rightarrow> sockaddr" where
  "unmap sa = (case sa of Sock6 p \<Rightarrow> if IN6_IS_ADDR_V4MAPPED p then Sock4 (mapped_addr p) else sa | _ \<Rightarrow> sa)"

fun cidr_matches :: "sockaddr \<Rightarrow> ngx_cidr_t \<Rightarrow> bool" where
  "cidr_matches (Sock4 a) (Cidr4 addr msk) = (a AND msk = addr)"
| "cidr_matches (Sock6 p) (Cidr6 addr msk) = list_all (\<lambda>n. p ! n AND msk ! n = addr ! n) [0..<16]"
| "cidr_matches _ _ = False"

fun cidr_match_loop :: "sockaddr \<Rightarrow> ngx_cidr_t list \<Rightarrow> int" where
  "cidr_match_loop sa [] = NGX_DECLINED"
| "cidr_match_loop sa (cidr # cidrs) = (if cidr_matches sa cidr then NGX_OK else cidr_match_loop sa cidrs)"

definition ngx_cidr_match :: "sockaddr \<Rightarrow> ngx_cidr_t list \<Rightarrow> int" where
  "ngx_cidr_match sa cidrs = cidr_match_loop (unmap sa) cidrs"

text \<open>Reading an address, alone or with a port; \<open>None\<close> is \<open>NGX_DECLINED\<close>.\<close>

definition ngx_parse_addr :: "bytes \<Rightarrow> sockaddr option" where
  "ngx_parse_addr text =
     (if ngx_inet_addr text \<noteq> INADDR_NONE then Some (Sock4 (ngx_inet_addr text))
      else map_option Sock6 (ngx_inet6_addr text))"

definition parse_port :: "bytes \<Rightarrow> bytes \<Rightarrow> (sockaddr \<times> nat) option" where
  "parse_port text p =
     (let port = ngx_atoi p
      in if port < 1 \<or> port > 65535 then None else map_option (\<lambda>sa. (sa, nat port)) (ngx_parse_addr text))"

text \<open>
  \<open>ngx_parse_addr_port\<close>: the address is what is before the last \<open>plen + 1\<close> bytes, in the second
  form without the brackets. An address without a port keeps the port 0.
\<close>

definition ngx_parse_addr_port :: "bytes \<Rightarrow> (sockaddr \<times> nat) option" where
  "ngx_parse_addr_port text =
     (case ngx_parse_addr text of
        Some sa \<Rightarrow> Some (sa, 0)
      | None \<Rightarrow>
          if text \<noteq> [] \<and> hd text = chr CHR ''['' then
            let n = length (takeWhile (\<lambda>c. c \<noteq> chr CHR '']'') text)
            in if n = length text \<or> n = length text - 1 \<or> text ! (n + 1) \<noteq> chr CHR '':'' then None
               else
                 let p = drop (n + 2) text; len = length text - 2 - (length p + 1)
                 in parse_port (take len (tl text)) p
          else
            let n = length (takeWhile (\<lambda>c. c \<noteq> chr CHR '':'') text)
            in if n = length text then None
               else let p = drop (n + 1) text; len = length text - (length p + 1) in parse_port (take len text) p)"

text \<open>\<open>ngx_sock_ntop\<close> with and without the port, for addresses and sockets without a path.\<close>

definition bytes4 :: "u32 \<Rightarrow> bytes" where
  "bytes4 a = [ucast (drop_bit 24 a), ucast (drop_bit 16 a), ucast (drop_bit 8 a), ucast a]"

definition fmt_d :: "nat \<Rightarrow> bytes" where "fmt_d port = sprintf_temp (word_of_nat port) 0"

fun ngx_sock_ntop :: "sockaddr \<Rightarrow> nat option \<Rightarrow> bytes" where
  "ngx_sock_ntop (Sock4 a) port =
     ngx_inet_ntop (bytes4 a) @ (case port of None \<Rightarrow> [] | Some d \<Rightarrow> chr CHR '':'' # fmt_d d)"
| "ngx_sock_ntop (Sock6 p) port =
     (case port of
        None \<Rightarrow> ngx_inet6_ntop p
      | Some d \<Rightarrow> chr CHR ''['' # ngx_inet6_ntop p @ chr CHR '']'' # chr CHR '':'' # fmt_d d)"
| "ngx_sock_ntop Sock_unix port = str ''unix:''"

subsection \<open>Reading what was printed\<close>

lemma inet_loop_digits:
  assumes "list_all is_digit ds" "dec_from (int octet) ds \<le> 255"
  shows "inet_addr_loop (ds @ p) addr octet n = inet_addr_loop p addr (nat (dec_from (int octet) ds)) n"
  using assms
proof (induction ds arbitrary: octet)
  case (Cons c ds)
  have c: "chr CHR ''0'' \<le> c \<and> c \<le> chr CHR ''9''" using Cons.prems(1) by (simp add: is_digit_def)
  have "48 \<le> unat c" using c by (simp add: word_le_nat_alt)
  then have o: "int (octet * 10 + (unat c - 48)) = int octet * 10 + (uint c - 48)" by (simp add: of_nat_diff)
  have "int octet * 10 + (uint c - 48) \<le> 255"
    using dec_from_mono [of ds "int octet * 10 + (uint c - 48)"] digit_bounds [of c] Cons.prems by simp
  then have le: "octet * 10 + (unat c - 48) \<le> 255" using o by linarith
  have "inet_addr_loop (ds @ p) addr (octet * 10 + (unat c - 48)) n
    = inet_addr_loop p addr (nat (dec_from (int (octet * 10 + (unat c - 48))) ds)) n"
    by (rule Cons.IH) (use Cons.prems o in simp_all)
  then show ?case using c le by (simp add: Let_def o del: of_nat_add of_nat_mult)
qed simp

lemma fmt_ud_digits: "fmt_ud b = dec_digits (unat b)"
proof -
  have "unat b < 2 ^ 64" by (rule less_trans [OF unat_byte_less]) simp
  then have "unat (ucast b :: u64) = unat b" by (simp add: unsigned_ucast_eq take_bit_nat_eq_self)
  then show ?thesis by (simp add: fmt_ud_def sprintf_temp_decimal)
qed

lemma inet_octet: "inet_addr_loop (fmt_ud b @ p) addr 0 n = inet_addr_loop p addr (unat b) n"
  using inet_loop_digits [of "dec_digits (unat b)" 0 p addr n] dec_digits_value [of "unat b"] uint_byte_bounds [of b]
  by (simp add: fmt_ud_digits)

definition be32 :: "bytes \<Rightarrow> u32" where
  "be32 p = push_bit 24 (ucast (p ! 0)) + push_bit 16 (ucast (p ! 1)) + push_bit 8 (ucast (p ! 2)) + ucast (p ! 3)"

lemma inet_dot: "inet_addr_loop (chr CHR ''.'' # p) addr octet n = inet_addr_loop p (push_bit 8 addr + word_of_nat octet) 0 (Suc n)"
  by simp

lemma inet_ntop_addr: "ngx_inet_addr (ngx_inet_ntop p) = be32 p"
proof -
  have e: "(word_of_nat (unat b) :: u32) = ucast b" for b :: byte by simp
  have "inet_addr_loop (fmt_ud b) addr 0 (Suc (Suc (Suc 0))) = push_bit 8 addr + ucast b" for b addr
    using inet_octet [of b "[]" addr "Suc (Suc (Suc 0))"] by simp
  then show ?thesis
    unfolding ngx_inet_addr_def ngx_inet_ntop_def inet_octet inet_dot e be32_def
    by (simp add: push_bit_eq_mult algebra_simps)
qed

text \<open>Hexadecimal digits.\<close>

lemma hex_from_sprintf: "hex_from 0 (sprintf_hex hex_lower n p) = hex_from (uint n) p"
proof (induction hex_lower n p rule: sprintf_hex.induct)
  case (1 n p)
  let ?q = "drop_bit 4 n" and ?d = "unat (n AND 0xf)"
  have "n AND 0xf = n mod 16" using take_bit_eq_mask [of 4 n] by (simp add: mask_eq_exp_minus_1 take_bit_eq_mod)
  then have d: "?d = unat n mod 16" by (simp only: unat_mod) simp
  have q: "unat ?q = unat n div 16" by (simp add: drop_bit_eq_div unat_div)
  have n: "int (unat ?q) * 16 + int ?d = uint n"
  proof -
    have "int (unat n div 16 * 16 + unat n mod 16) = int (unat n)" by (simp only: div_mult_mod_eq)
    then show ?thesis unfolding d q by (simp only: of_nat_add of_nat_mult of_nat_numeral uint_nat)
  qed
  have h: "hex_from v (hex_lower ! ?d # p) = hex_from (v * 16 + int ?d) p" for v
    using hex_digit_lower [of ?d] d by simp
  show ?case
  proof (cases "?q = 0")
    case True
    then have "int ?d = uint n" using n by simp
    then show ?thesis using True h [of 0] by (subst sprintf_hex.simps) (simp add: Let_def)
  next
    case False
    then show ?thesis using 1 [OF refl refl False] h [of "uint ?q"] n by (subst sprintf_hex.simps) (simp add: Let_def)
  qed
qed

lemma sprintf_hex_nonempty: "sprintf_hex h n p \<noteq> []"
proof (induction h n p rule: sprintf_hex.induct)
  case (1 h n p)
  then show ?case by (subst sprintf_hex.simps) (simp add: Let_def)
qed

lemma hex_from_digits: "hex_from v ds = Some x \<Longrightarrow> list_all (\<lambda>c. hex_digit c \<noteq> None) ds"
  by (induction ds arbitrary: v) (auto split: option.splits)

lemma fmt_xd_facts:
  assumes "v < 65536"
  shows "hex_from 0 (fmt_xd v) = Some (int v)" "length (fmt_xd v) \<le> 4" "fmt_xd v \<noteq> []"
proof -
  have u: "unat (word_of_nat v :: u64) = v" using assms by (simp add: unat_of_nat take_bit_nat_eq_self)
  then have "uint (word_of_nat v :: u64) = int v" by (metis uint_nat)
  then show h: "hex_from 0 (fmt_xd v) = Some (int v)" by (simp add: fmt_xd_def sprintf_temp_def hex_from_sprintf)
  show "length (fmt_xd v) \<le> 4"
    using sprintf_hex_length [of "word_of_nat v" 3 hex_lower "[]"] u assms by (simp add: fmt_xd_def sprintf_temp_def)
  show "fmt_xd v \<noteq> []" by (simp add: fmt_xd_def sprintf_temp_def sprintf_hex_nonempty)
qed

lemma inet6_hex:
  assumes "list_all (\<lambda>c. hex_digit c \<noteq> None) ds" "i6_nibbles s + length ds \<le> 4" "hex_from (int (i6_word s)) ds = Some x"
  shows "inet6_loop (ds @ p) s = inet6_loop p (s\<lparr>i6_nibbles := i6_nibbles s + length ds, i6_word := nat x\<rparr>)"
  using assms
proof (induction ds arbitrary: s)
  case Nil
  then show ?case by (cases s) auto
next
  case (Cons c ds)
  obtain d where d: "hex_digit c = Some d" using Cons.prems(1) by auto
  let ?s = "s\<lparr>i6_nibbles := i6_nibbles s + 1, i6_word := i6_word s * 16 + nat d\<rparr>"
  have c: "c \<noteq> chr CHR '':''" "c \<noteq> chr CHR ''.''" using d by (auto simp: hex_digit_def)
  have step: "inet6_loop (c # q) s = inet6_loop q ?s" for q
  proof (cases "chr CHR ''0'' \<le> c \<and> c \<le> chr CHR ''9''")
    case True
    then show ?thesis using d c Cons.prems(2) by (auto simp: hex_digit_def word_le_def nat_diff_distrib)
  next
    case False
    then have l: "chr CHR ''a'' \<le> c OR 0x20" "c OR 0x20 \<le> chr CHR ''f''" "d = uint (c OR 0x20) - 87"
      using d by (auto simp: hex_digit_def split: if_splits)
    then have "97 \<le> unat (c OR 0x20)" by (simp add: word_le_nat_alt)
    moreover have "d = int (unat (c OR 0x20)) - 87" using l(3) by simp
    ultimately have "nat d = unat (c OR 0x20) - 97 + 10" by linarith
    then show ?thesis using l False c Cons.prems(2) by (auto simp: Let_def add.assoc)
  qed
  have "0 \<le> d" using hex_digit_bounds [OF d] by simp
  then have "inet6_loop (ds @ p) ?s = inet6_loop p (?s\<lparr>i6_nibbles := i6_nibbles ?s + length ds, i6_word := nat x\<rparr>)"
    using Cons.prems d by (intro Cons.IH) simp_all
  then show ?case using step by simp
qed

definition i6_at :: "bytes \<Rightarrow> nat option \<Rightarrow> bytes option \<Rightarrow> nat \<Rightarrow> i6" where
  "i6_at out zero digit n = \<lparr>i6_out = out, i6_zero = zero, i6_digit = digit, i6_nibbles = 0, i6_word = 0, i6_n = n\<rparr>"

lemma inet6_number:
  assumes "v < 65536"
  shows "inet6_loop (fmt_xd v @ p) (i6_at out zero digit n)
    = inet6_loop p ((i6_at out zero digit n)\<lparr>i6_nibbles := length (fmt_xd v), i6_word := v\<rparr>)"
  using inet6_hex [of "fmt_xd v" "i6_at out zero digit n" "int v" p] fmt_xd_facts [OF assms] hex_from_digits
  by (simp add: i6_at_def)

lemma inet6_group:
  assumes "v < 65536" "2 \<le> n"
  shows "inet6_loop (fmt_xd v @ chr CHR '':'' # p) (i6_at out zero digit n) = inet6_loop p (i6_at (put_word v out) zero (Some p) (n - 1))"
  using assms fmt_xd_facts(3) [OF assms(1)] by (simp add: inet6_number) (simp add: i6_at_def)

abbreviation word_at :: "bytes \<Rightarrow> nat \<Rightarrow> nat" where
  "word_at p i \<equiv> unat (p ! i) * 256 + unat (p ! (i + 1))"

lemma word_at_bound: "word_at p i < 65536"
  using unat_byte_less [of "p ! i"] unat_byte_less [of "p ! (i + 1)"] by linarith

lemma put_word_at: "put_word (word_at p i) out = out @ [p ! i, p ! (i + 1)]"
  using unat_byte_less [of "p ! (i + 1)"] by (simp add: put_word_def)

text \<open>A run of words, each with its colon.\<close>

definition run_text :: "bytes \<Rightarrow> nat \<Rightarrow> nat \<Rightarrow> bytes" where
  "run_text p j k = concat (map (\<lambda>i. fmt_xd (word_at p (2 * i)) @ [chr CHR '':'']) [j..<k])"

definition words_of :: "bytes \<Rightarrow> nat \<Rightarrow> nat \<Rightarrow> bytes" where
  "words_of p j k = concat (map (\<lambda>i. [p ! (2 * i), p ! (2 * i + 1)]) [j..<k])"

lemma run_text_Cons: "j < k \<Longrightarrow> run_text p j k = fmt_xd (word_at p (2 * j)) @ chr CHR '':'' # run_text p (Suc j) k"
  by (simp add: run_text_def upt_conv_Cons)

lemma words_of_Cons: "j < k \<Longrightarrow> words_of p j k = p ! (2 * j) # p ! (2 * j + 1) # words_of p (Suc j) k"
  by (simp add: words_of_def upt_conv_Cons)

lemma run_words_Nil [simp]: "k \<le> j \<Longrightarrow> run_text p j k = []" "k \<le> j \<Longrightarrow> words_of p j k = []"
  by (simp_all add: run_text_def words_of_def)

lemma inet6_run:
  assumes "j \<le> k" "k - j < n"
  shows "\<exists>digit'. inet6_loop (run_text p j k @ t) (i6_at out zero digit n) = inet6_loop t (i6_at (out @ words_of p j k) zero digit' (n - (k - j)))"
  using assms
proof (induction "k - j" arbitrary: j out digit n)
  case (Suc x)
  have "inet6_loop (run_text p j k @ t) (i6_at out zero digit n)
    = inet6_loop (run_text p (Suc j) k @ t) (i6_at (out @ [p ! (2 * j), p ! (2 * j + 1)]) zero (Some (run_text p (Suc j) k @ t)) (n - 1))"
    using Suc.hyps(2) Suc.prems inet6_group [OF word_at_bound [of p "2 * j"], of n "run_text p (Suc j) k @ t"]
    by (simp add: run_text_Cons put_word_at [simplified] del: inet6_loop.simps)
  moreover obtain digit' where "inet6_loop (run_text p (Suc j) k @ t) (i6_at (out @ [p ! (2 * j), p ! (2 * j + 1)]) zero (Some (run_text p (Suc j) k @ t)) (n - 1))
    = inet6_loop t (i6_at ((out @ [p ! (2 * j), p ! (2 * j + 1)]) @ words_of p (Suc j) k) zero digit' (n - 1 - (k - Suc j)))"
    using Suc.hyps(1) [of "Suc j" "n - 1"] Suc.hyps(2) Suc.prems by fastforce
  ultimately show ?case using Suc.hyps(2) by (auto simp: words_of_Cons)
qed auto

lemma ntop_print_end: "n \<le> i \<Longrightarrow> ntop_print p zero mx n i = []"
  by (subst ntop_print.simps) simp

lemma print_run:
  assumes "j \<le> k" "2 * k \<le> n" "k \<le> 7" "\<And>i. zero = Some i \<Longrightarrow> i < 2 * j \<or> 2 * k \<le> i"
  shows "ntop_print p zero mx n (2 * j) = run_text p j k @ ntop_print p zero mx n (2 * k)"
  using assms
proof (induction "k - j" arbitrary: j)
  case (Suc x)
  have "ntop_print p zero mx n (2 * j) = fmt_xd (word_at p (2 * j)) @ chr CHR '':'' # ntop_print p zero mx n (2 * Suc j)"
    using Suc.hyps(2) Suc.prems by (subst ntop_print.simps) fastforce
  also have "ntop_print p zero mx n (2 * Suc j) = run_text p (Suc j) k @ ntop_print p zero mx n (2 * k)"
    using Suc.hyps Suc.prems(2-4) by (intro Suc.hyps(1)) (auto dest: Suc.prems(4))
  finally show ?case using Suc.hyps(2) by (simp add: run_text_Cons)
qed auto

text \<open>The run of zero words that is left out.\<close>

definition zero_run :: "bytes \<Rightarrow> nat \<Rightarrow> nat \<Rightarrow> bool" where
  "zero_run p j k \<longleftrightarrow> (\<forall>i. j \<le> i \<and> i < k \<longrightarrow> p ! (2 * i) = 0 \<and> p ! (2 * i + 1) = 0)"

definition scan_inv :: "bytes \<Rightarrow> nat \<Rightarrow> nat option \<times> nat \<times> nat \<times> nat \<Rightarrow> bool" where
  "scan_inv p k st \<longleftrightarrow>
     (case st of (zero, lst, mx, n) \<Rightarrow>
        (\<forall>i. zero = Some i \<longrightarrow> (\<exists>z. i = 2 * z \<and> 2 \<le> mx \<and> z + mx \<le> k \<and> zero_run p z (z + mx)))
        \<and> 1 \<le> mx \<and> n \<le> k \<and> (n \<noteq> 0 \<longrightarrow> lst = 2 * (k - n) \<and> zero_run p (k - n) k))"

lemma scan_step: "scan_inv p k st \<Longrightarrow> scan_inv p (Suc k) (ntop_scan p st (2 * k))"
proof -
  assume i: "scan_inv p k st"
  obtain zero lst mx n where st: "st = (zero, lst, mx, n)" by (cases st) auto
  show ?thesis
  proof (cases "p ! (2 * k) \<noteq> 0 \<or> p ! (2 * k + 1) \<noteq> 0")
    case True
    then show ?thesis
      using i unfolding st scan_inv_def ntop_scan_def by (cases "mx < n") (force simp: le_Suc_eq)+
  next
    case False
    have z: "zero_run p (k - n) (Suc k)" if "n \<noteq> 0"
      using i that False by (auto simp: st scan_inv_def zero_run_def less_Suc_eq)
    have "zero_run p k (Suc k)" using False by (auto simp: zero_run_def less_Suc_eq)
    then show ?thesis
      using i z False unfolding st scan_inv_def ntop_scan_def by (cases "n = 0") (force simp: le_Suc_eq Suc_diff_le)+
  qed
qed

lemma ntop_zero_run:
  assumes "ntop_zero p = (Some i, mx)"
  obtains z where "i = 2 * z" "2 \<le> mx" "z + mx \<le> 8" "zero_run p z (z + mx)"
proof -
  have "scan_inv p 0 (None, 0, 1, 0)" by (simp add: scan_inv_def)
  from scan_step [OF scan_step [OF scan_step [OF scan_step [OF scan_step [OF scan_step [OF scan_step [OF scan_step [OF this]]]]]]]]
  have s: "scan_inv p 8 (foldl (ntop_scan p) (None, 0, 1, 0) [0, 2, 4, 6, 8, 10, 12, 14])" by (simp add: numeral_eq_Suc)
  show ?thesis
    using s assms that unfolding ntop_zero_def scan_inv_def by (auto split: if_splits)
qed

lemma words_of_append: "j \<le> k \<Longrightarrow> k \<le> l \<Longrightarrow> words_of p j k @ words_of p k l = words_of p j l"
proof -
  assume "j \<le> k" "k \<le> l"
  then have "[j..<l] = [j..<k] @ [k..<l]" using upt_add_eq_append [of j k "l - k"] by simp
  then show ?thesis by (simp add: words_of_def)
qed

lemma length_words_of: "length (words_of p j k) = 2 * (k - j)"
  by (simp add: words_of_def length_concat comp_def sum_list_triv)

lemma words_of_drop: "2 * k = length p \<Longrightarrow> j \<le> k \<Longrightarrow> words_of p j k = drop (2 * j) p"
proof (induction "k - j" arbitrary: j)
  case (Suc x)
  then have "words_of p (Suc j) k = drop (2 * Suc j) p" by (intro Suc.hyps(1)) auto
  moreover have "drop (2 * j) p = p ! (2 * j) # p ! Suc (2 * j) # drop (2 * Suc j) p"
    using Suc.hyps(2) Suc.prems Cons_nth_drop_Suc [of "2 * j" p] Cons_nth_drop_Suc [of "Suc (2 * j)" p] by simp
  ultimately show ?case using Suc.hyps(2) by (simp add: words_of_Cons)
qed simp

lemma words_of_all: "length p = 16 \<Longrightarrow> words_of p 0 8 = p"
  using words_of_drop [of 8 p 0] by simp

lemma words_of_zero: "zero_run p j k \<Longrightarrow> words_of p j k = replicate (2 * (k - j)) 0"
proof (induction "k - j" arbitrary: j)
  case (Suc x)
  have "words_of p (Suc j) k = replicate (2 * (k - Suc j)) 0"
    using Suc.hyps Suc.prems by (intro Suc.hyps(1)) (auto simp: zero_run_def)
  moreover have "2 * (k - j) = Suc (Suc (2 * (k - Suc j)))" using Suc.hyps(2) by simp
  moreover have "p ! (2 * j) = 0" "p ! (2 * j + 1) = 0" using Suc by (auto simp: zero_run_def)
  ultimately show ?case using Suc.hyps(2) by (simp add: words_of_Cons)
qed simp

lemma words_of_last: "words_of p j 8 = words_of p j 7 @ [p ! 14, p ! 15]" if "j \<le> 7"
  using words_of_append [of j 7 8 p] that by (simp add: words_of_def upt_rec)

text \<open>The text from word \<open>j\<close> to the last one, and what is read from it.\<close>

lemma print_rest:
  assumes "j \<le> 7" "\<And>i. zero = Some i \<Longrightarrow> i < 2 * j"
  shows "ntop_print p zero mx 16 (2 * j) = run_text p j 7 @ fmt_xd (word_at p 14)"
proof -
  have "ntop_print p zero mx 16 14 = fmt_xd (word_at p 14)"
    using assms by (subst ntop_print.simps) (auto simp: ntop_print_end dest: assms(2))
  then show ?thesis using print_run [of j 7 16 zero p mx] assms by (simp del: One_nat_def)
qed

lemma inet6_rest:
  assumes "j \<le> 7" "7 - j < n"
  shows "\<exists>digit. inet6_loop (run_text p j 7 @ fmt_xd (word_at p 14)) (i6_at out zero dg n)
    = Some ((i6_at (out @ words_of p j 7) zero digit (n - (7 - j)))\<lparr>i6_nibbles := length (fmt_xd (word_at p 14)), i6_word := word_at p 14\<rparr>)"
proof -
  obtain digit where "inet6_loop (run_text p j 7 @ fmt_xd (word_at p 14)) (i6_at out zero dg n)
    = inet6_loop (fmt_xd (word_at p 14)) (i6_at (out @ words_of p j 7) zero digit (n - (7 - j)))"
    using inet6_run [OF assms] by blast
  then show ?thesis using inet6_number [OF word_at_bound, of p 14 "[]"] by auto
qed

lemma fmt_xd_hd: "v < 65536 \<Longrightarrow> hd (fmt_xd v @ q) \<noteq> chr CHR '':''"
proof -
  assume v: "v < 65536"
  obtain c cs where "fmt_xd v = c # cs" using fmt_xd_facts(3) [OF v] by (cases "fmt_xd v") auto
  moreover from this have "hex_digit c \<noteq> None" using hex_from_digits [OF fmt_xd_facts(1) [OF v]] by simp
  ultimately show ?thesis by (auto simp: hex_digit_def)
qed

lemma i6_start_at: "i6_start = i6_at [] None None 8"
  by (simp add: i6_start_def i6_at_def)

lemma run_hd: "0 < k \<Longrightarrow> hd (run_text p 0 k @ q) \<noteq> chr CHR '':'' \<and> run_text p 0 k @ q \<noteq> []"
  using fmt_xd_hd [OF word_at_bound [of p 0], of "chr CHR '':'' # run_text p 1 k @ q"] fmt_xd_facts(3) [OF word_at_bound [of p 0]]
  by (simp add: run_text_Cons)

text \<open>No run is left out.\<close>

lemma roundtrip_plain:
  assumes "length p = 16" "ntop_zero p = (None, mx)"
  shows "ngx_inet6_addr (ngx_inet6_ntop p) = Some p"
proof -
  let ?t = "run_text p 0 7 @ fmt_xd (word_at p 14)"
  have t: "ngx_inet6_ntop p = ?t" using print_rest [of 0 None p mx] assms(2) by (simp add: ngx_inet6_ntop_def)
  obtain digit where "inet6_loop ?t i6_start
    = Some ((i6_at (words_of p 0 7) None digit 1)\<lparr>i6_nibbles := length (fmt_xd (word_at p 14)), i6_word := word_at p 14\<rparr>)"
    using inet6_rest [of 0 8 p "[]" None None] by (auto simp: i6_start_at)
  moreover have "put_word (word_at p 14) (words_of p 0 7) = p"
    using put_word_at [of p 14] words_of_last [of 0 p] words_of_all [OF assms(1)] by simp
  ultimately show ?thesis
    using run_hd [of 7 p "fmt_xd (word_at p 14)"] fmt_xd_facts(3) [OF word_at_bound, of p 14] unfolding t ngx_inet6_addr_def
    by (simp add: inet6_end_def i6_at_def)
qed

text \<open>A run of words is left out, and the rest is written in hexadecimal.\<close>

lemma roundtrip_run:
  assumes "length p = 16" "zero_run p z (z + mx)" "2 \<le> mx" "z + mx \<le> 8"
    and "t = (if z = 0 then [chr CHR '':''] else []) @ ntop_print p (Some (2 * z)) mx 16 0"
  shows "ngx_inet6_addr t = Some p"
proof -
  let ?r = "if z + mx < 8 then run_text p (z + mx) 7 @ fmt_xd (word_at p 14) else []"
  have "ntop_print p (Some (2 * z)) mx 16 (2 * z) = chr CHR '':'' # ntop_print p (Some (2 * z)) mx 16 (2 * (z + mx))"
    using assms(3,4) by (subst ntop_print.simps) (cases mx; simp add: mult.commute)
  moreover have "ntop_print p (Some (2 * z)) mx 16 (2 * (z + mx)) = ?r"
    using print_rest [of "z + mx" "Some (2 * z)" p mx] assms(3,4) by (auto simp: ntop_print_end)
  ultimately have t: "t = (if z = 0 then [chr CHR '':''] else []) @ run_text p 0 z @ chr CHR '':'' # ?r"
    using print_run [of 0 z 16 "Some (2 * z)" p mx] assms(3-5) by simp
  obtain d1 where 1: "inet6_loop (run_text p 0 z @ chr CHR '':'' # ?r) i6_start = inet6_loop (chr CHR '':'' # ?r) (i6_at (words_of p 0 z) None d1 (8 - z))"
    using inet6_run [of 0 z 8 p "chr CHR '':'' # ?r" "[]" None None] assms(3,4) by (auto simp: i6_start_at)
  have 2: "inet6_loop (chr CHR '':'' # ?r) (i6_at (words_of p 0 z) None d1 (8 - z)) = inet6_loop ?r (i6_at (words_of p 0 z) (Some (2 * z)) (Some ?r) (8 - z))"
    by (simp add: i6_at_def length_words_of)
  have p: "words_of p 0 z @ replicate (2 * mx) 0 @ words_of p (z + mx) 8 = p"
    using words_of_append [of 0 z "z + mx" p] words_of_append [of 0 "z + mx" 8 p] words_of_zero [OF assms(2)] words_of_all [OF assms(1)] assms(4)
    by (simp flip: append_assoc)
  have "Option.bind (inet6_loop ?r (i6_at (words_of p 0 z) (Some (2 * z)) (Some ?r) (8 - z))) inet6_end = Some p"
  proof (cases "z + mx < 8")
    case True
    then have "7 - (z + mx) < 8 - z" by linarith
    then obtain d2 where "inet6_loop ?r (i6_at (words_of p 0 z) (Some (2 * z)) (Some ?r) (8 - z))
      = Some ((i6_at (words_of p 0 z @ words_of p (z + mx) 7) (Some (2 * z)) d2 (1 + mx))\<lparr>i6_nibbles := length (fmt_xd (word_at p 14)), i6_word := word_at p 14\<rparr>)"
      using inet6_rest [of "z + mx" "8 - z" p "words_of p 0 z" "Some (2 * z)" "Some ?r"] True by (auto simp: Suc_diff_le)
    then show ?thesis
      using p True words_of_last [of "z + mx" p] put_word_at [of p 14] assms(3)
      by (simp add: inet6_end_def i6_at_def Let_def length_words_of mult.commute)
  next
    case False
    then have e: "z + mx = 8" using assms(4) by simp
    then have "replicate ((8 - z - 1) * 2) 0 @ [0, 0] = (replicate (2 * mx) 0 :: bytes)"
      using assms(3) by (simp flip: replicate_append_same replicate_Suc) (simp add: replicate_app_Cons_same flip: replicate_Suc)
    then show ?thesis
      using p e assms(3) by (simp add: inet6_end_def i6_at_def Let_def put_word_def length_words_of)
  qed
  then show ?thesis using 1 2 run_hd [of z p "chr CHR '':'' # ?r"] unfolding t ngx_inet6_addr_def by (cases "z = 0") simp_all
qed

text \<open>The last four bytes are written in decimal.\<close>

lemma four_bytes: "a < 256 \<Longrightarrow> b < 256 \<Longrightarrow> c < 256 \<Longrightarrow> d < 256 \<Longrightarrow> ((a * 256 + b) * 256 + c) * 256 + (d :: nat) < 4294967296"
  by simp

lemma digit_256: "(b :: nat) < 256 \<Longrightarrow> (a * 256 + b) div 256 = a" "(b :: nat) < 256 \<Longrightarrow> (a * 256 + b) mod 256 = b"
  by simp_all

lemma be32_unat: "unat (be32 q) = ((unat (q ! 0) * 256 + unat (q ! 1)) * 256 + unat (q ! 2)) * 256 + unat (q ! 3)"
proof -
  let ?n = "((unat (q ! 0) * 256 + unat (q ! 1)) * 256 + unat (q ! 2)) * 256 + unat (q ! 3)"
  have u: "ucast b = (word_of_nat (unat b) :: u32)" for b :: byte by simp
  have "be32 q = word_of_nat ?n" unfolding be32_def push_bit_eq_mult u by (simp add: algebra_simps del: of_nat_unat)
  moreover have "?n < 4294967296"
    by (intro four_bytes unat_byte_less)
  ultimately show ?thesis by (simp only: unat_of_nat mod_less) simp
qed

lemma ucast_drop_byte: "ucast (drop_bit k (w :: u32)) = (word_of_nat (unat w div 2 ^ k) :: byte)"
  by (metis of_nat_unat unat_drop_bit_eq drop_bit_eq_div)

lemma be32_bytes:
  "ucast (drop_bit 24 (be32 q)) = q ! 0" "ucast (drop_bit 16 (be32 q)) = q ! 1"
  "word_of_nat (unat (be32 q) div 256) = q ! 2" "word_of_nat (unat (be32 q) mod 256) = q ! 3"
proof -
  let ?w = "unat (be32 q)"
  have b: "word_of_nat (k * 256 + unat b) = b" for k and b :: byte
    by (simp only: word_unat_eq_iff unat_of_nat) simp
  have d: "?w div 256 = (unat (q ! 0) * 256 + unat (q ! 1)) * 256 + unat (q ! 2)" "?w mod 256 = unat (q ! 3)"
    "?w div 256 div 256 = unat (q ! 0) * 256 + unat (q ! 1)" "?w div 256 div 256 div 256 = unat (q ! 0)"
    unfolding be32_unat digit_256 [OF unat_byte_less] by (rule refl)+
  have e: "?w div 2 ^ 16 = ?w div 256 div 256" "?w div 2 ^ 24 = ?w div 256 div 256 div 256"
    by (simp_all add: div_mult2_eq [symmetric])
  show "ucast (drop_bit 24 (be32 q)) = q ! 0" by (simp only: ucast_drop_byte e(2) d(4)) simp
  show "ucast (drop_bit 16 (be32 q)) = q ! 1" by (simp only: ucast_drop_byte e(1) d(3) b)
  show "word_of_nat (?w div 256) = q ! 2" "word_of_nat (?w mod 256) = q ! 3"
    unfolding d b by simp_all
qed

text \<open>The decimal part is all ones in two addresses only.\<close>

lemma dotted_not_none:
  assumes "length p = 16" "zero_run p 0 mx" "mx = 5 \<and> p ! 10 = 0xff \<and> p ! 11 = 0xff \<or> mx = 6 \<or> mx = 7"
    and "p \<noteq> replicate 12 0 @ replicate 4 0xff" "p \<noteq> replicate 10 0 @ replicate 6 0xff"
  shows "be32 (drop 12 p) \<noteq> INADDR_NONE"
proof
  assume n: "be32 (drop 12 p) = INADDR_NONE"
  have "ucast (drop_bit 24 INADDR_NONE) = (0xff :: byte)" "ucast (drop_bit 16 INADDR_NONE) = (0xff :: byte)"
    "word_of_nat (unat INADDR_NONE div 256) = (0xff :: byte)" "word_of_nat (unat INADDR_NONE mod 256) = (0xff :: byte)"
    by (simp_all add: INADDR_NONE_def)
  then have b: "p ! 12 = 0xff" "p ! 13 = 0xff" "p ! 14 = 0xff" "p ! 15 = 0xff"
    using be32_bytes [of "drop 12 p", unfolded n] assms(1) by simp_all
  let ?k = "if mx = 5 then 5 else 6"
  have z: "zero_run p 0 ?k" using assms(2,3) by (auto simp: zero_run_def)
  have "words_of p 0 ?k @ words_of p ?k 8 = p"
    using words_of_append [of 0 ?k 8 p] words_of_all [OF assms(1)] by simp
  then have "replicate (2 * ?k) 0 @ words_of p ?k 8 = p" using words_of_zero [OF z] by simp
  then have "(if mx = 5 then replicate 10 0 @ [p ! 10, p ! 11] else replicate 12 0) @ [p ! 12, p ! 13, p ! 14, p ! 15] = p"
    by (auto simp: words_of_def upt_rec split: if_splits)
  then show False using assms(3-5) b by (auto simp: numeral_eq_Suc split: if_splits)
qed

lemma hex_from_decimal: "list_all is_digit ds \<Longrightarrow> \<exists>x. hex_from v ds = Some x"
  by (induction ds arbitrary: v) (auto simp: hex_digit_def is_digit_def)

lemma inet6_dotted:
  assumes "2 \<le> n"
  shows "\<exists>k. inet6_loop (ngx_inet_ntop q) (i6_at out zero (Some (ngx_inet_ntop q)) n)
    = (if be32 q = INADDR_NONE then None else Some ((i6_at (out @ [q ! 0, q ! 1]) zero (Some (ngx_inet_ntop q)) (n - 1))\<lparr>i6_nibbles := Suc k, i6_word := unat (be32 q)\<rparr>))"
proof -
  let ?d = "fmt_ud (q ! 0)" and ?s = "i6_at out zero (Some (ngx_inet_ntop q)) n"
  obtain r where r: "ngx_inet_ntop q = ?d @ chr CHR ''.'' # r" by (simp add: ngx_inet_ntop_def)
  have d: "list_all is_digit ?d" "?d \<noteq> []" "length ?d \<le> 3"
    using dec_digits_value dec_digits_nonempty dec_digits_length [of 3 "unat (q ! 0)"] less_trans [OF unat_byte_less, of 1000 "q ! 0"]
    by (simp_all add: fmt_ud_digits)
  obtain x where x: "hex_from (int (i6_word ?s)) ?d = Some x" using hex_from_decimal [OF d(1)] by blast
  have h: "list_all (\<lambda>c. hex_digit c \<noteq> None) ?d" using hex_from_digits [OF x] .
  obtain k where k: "length ?d = Suc k" using d(2) by (cases ?d) auto
  have "inet6_loop (?d @ chr CHR ''.'' # r) ?s = inet6_loop (chr CHR ''.'' # r) (?s\<lparr>i6_nibbles := i6_nibbles ?s + length ?d, i6_word := nat x\<rparr>)"
    by (rule inet6_hex [OF h _ x]) (use d(3) in \<open>simp add: i6_at_def\<close>)
  also have "\<dots> = (if be32 q = INADDR_NONE then None
      else Some ((i6_at (out @ [q ! 0, q ! 1]) zero (Some (ngx_inet_ntop q)) (n - 1))\<lparr>i6_nibbles := Suc k, i6_word := unat (be32 q)\<rparr>))"
    using assms k by (simp add: i6_at_def inet_ntop_addr be32_bytes Let_def)
  finally show ?thesis using r by auto
qed

lemma roundtrip_dotted:
  assumes "length p = 16" "zero_run p 0 mx" "mx = 5 \<and> p ! 10 = 0xff \<and> p ! 11 = 0xff \<or> mx = 6 \<or> mx = 7"
  shows "ngx_inet6_addr (chr CHR '':'' # ntop_print p (Some 0) mx 12 0 @ ngx_inet_ntop (drop 12 p))
    = (if be32 (drop 12 p) = INADDR_NONE then None else Some p)"
proof -
  let ?q = "drop 12 p" and ?g = "if mx = 5 then [p ! 10, p ! 11] else []"
  let ?r = "(if mx = 5 then fmt_xd (word_at p 10) @ [chr CHR '':''] else []) @ ngx_inet_ntop ?q"
  have t: "ntop_print p (Some 0) mx 12 0 @ ngx_inet_ntop ?q = chr CHR '':'' # ?r"
    using assms(3) by (subst ntop_print.simps) (auto simp: ntop_print_end ntop_print.simps [of p "Some 0" 5 12 10])
  have z: "inet6_loop (chr CHR '':'' # ?r) i6_start = inet6_loop ?r (i6_at [] (Some 0) (Some ?r) 8)"
    by (simp add: i6_start_def i6_at_def)
  have g: "inet6_loop ?r (i6_at [] (Some 0) (Some ?r) 8)
    = inet6_loop (ngx_inet_ntop ?q) (i6_at ?g (Some 0) (Some (ngx_inet_ntop ?q)) (if mx = 5 then 7 else 8))"
    using inet6_group [OF word_at_bound [of p 10], of 8 "ngx_inet_ntop ?q" "[]" "Some 0" "Some ?r"] put_word_at [of p 10 "[]"]
    by (cases "mx = 5") (simp_all del: inet6_loop.simps)
  have two: "2 \<le> (if mx = 5 then 7 else 8 :: nat)" by simp
  obtain k where "inet6_loop ?r (i6_at [] (Some 0) (Some ?r) 8) =
    (if be32 ?q = INADDR_NONE then None else Some ((i6_at (?g @ [?q ! 0, ?q ! 1]) (Some 0) (Some (ngx_inet_ntop ?q)) ((if mx = 5 then 7 else 8) - 1))\<lparr>i6_nibbles := Suc k, i6_word := unat (be32 ?q)\<rparr>))"
    using inet6_dotted [OF two, of ?q ?g "Some 0"] g by auto
  moreover have "replicate (if mx = 5 then 10 else 12) 0 @ ?g @ [p ! 12, p ! 13, p ! 14, p ! 15] = p"
  proof -
    have z5: "zero_run p 0 (if mx = 5 then 5 else 6)" using assms(2,3) by (auto simp: zero_run_def)
    have "words_of p 0 (if mx = 5 then 5 else 6) @ words_of p (if mx = 5 then 5 else 6) 8 = p"
      using words_of_append [of 0 "if mx = 5 then 5 else 6" 8 p] words_of_all [OF assms(1)] by simp
    then show ?thesis using words_of_zero [OF z5] by (auto simp: words_of_def upt_rec split: if_splits)
  qed
  ultimately have "Option.bind (inet6_loop (chr CHR '':'' # ?r) i6_start) inet6_end = (if be32 ?q = INADDR_NONE then None else Some p)"
    unfolding z using assms(1,3) be32_bytes(3,4) [of ?q]
    by (auto simp: inet6_end_def i6_at_def Let_def put_word_def simp del: inet6_loop.simps)
  then show ?thesis unfolding t ngx_inet6_addr_def by (simp del: inet6_loop.simps)
qed

subsection \<open>Bounds\<close>

text \<open>The bytes written and the words still to come make up the address.\<close>

definition i6_inv :: "i6 \<Rightarrow> bool" where
  "i6_inv s \<longleftrightarrow> length (i6_out s) + 2 * i6_n s = 16 \<and> 1 \<le> i6_n s \<and> (\<forall>z. i6_zero s = Some z \<longrightarrow> z \<le> length (i6_out s))"

lemma inet6_loop_inv: "inet6_loop p s = Some s' \<Longrightarrow> i6_inv s \<Longrightarrow> i6_inv s'"
proof (induction p s rule: inet6_loop.induct)
  case (2 c p s)
  let ?w = "s\<lparr>i6_digit := Some p, i6_out := put_word (i6_word s) (i6_out s), i6_n := i6_n s - 1, i6_nibbles := 0, i6_word := 0\<rparr>"
  have "i6_n s - 1 \<noteq> 0 \<Longrightarrow> i6_inv ?w" "i6_inv (s\<lparr>i6_digit := Some p, i6_zero := Some (length (i6_out s))\<rparr>)"
    "i6_inv (s\<lparr>i6_nibbles := k, i6_word := w\<rparr>)" "i6_n s \<ge> 2 \<Longrightarrow> i6_inv (s\<lparr>i6_out := i6_out s @ [a, b], i6_word := w, i6_n := i6_n s - 1\<rparr>)"
    for k w a b
    using "2.prems"(2) by (auto simp: i6_inv_def put_word_def)
  then show ?case using 2 by (auto simp: Let_def split: if_splits option.splits)
qed simp

lemma inet6_addr_length: "ngx_inet6_addr t = Some a \<Longrightarrow> length a = 16"
proof -
  assume "ngx_inet6_addr t = Some a"
  then obtain s p where s: "inet6_loop p i6_start = Some s" and a: "inet6_end s = Some a"
    by (auto simp: ngx_inet6_addr_def bind_eq_Some_conv split: if_splits)
  have "i6_inv s" by (rule inet6_loop_inv [OF s]) (simp add: i6_inv_def i6_start_def)
  then show ?thesis using a by (auto simp: i6_inv_def inet6_end_def put_word_def Let_def split: if_splits option.splits)
qed

lemma inet6_ntop_addr:
  assumes "length p = 16"
  shows "ngx_inet6_addr (ngx_inet6_ntop p) =
    (if p = replicate 12 0 @ replicate 4 0xff \<or> p = replicate 10 0 @ replicate 6 0xff then None else Some p)"
proof -
  let ?e1 = "replicate 12 0 @ replicate 4 0xff :: bytes" and ?e2 = "replicate 10 0 @ replicate 6 0xff :: bytes"
  have "ntop_zero ?e1 = (Some 0, 6)" "ntop_zero ?e2 = (Some 0, 5)" by (simp_all add: ntop_zero_def ntop_scan_def nth_append)
  moreover have "zero_run ?e1 0 6" "zero_run ?e2 0 5" by (auto simp: zero_run_def nth_append)
  moreover have "be32 (replicate 4 0xff) = INADDR_NONE" by code_simp
  ultimately have e: "ngx_inet6_addr (ngx_inet6_ntop ?e1) = None" "ngx_inet6_addr (ngx_inet6_ntop ?e2) = None"
    using roundtrip_dotted [of ?e1 6] roundtrip_dotted [of ?e2 5] by (simp_all add: ngx_inet6_ntop_def Let_def nth_append)
  have "ngx_inet6_addr (ngx_inet6_ntop p) = Some p" if ne: "p \<noteq> ?e1" "p \<noteq> ?e2"
  proof (cases "ntop_zero p")
    case (Pair zero mx)
    show ?thesis
    proof (cases zero)
      case None
      then show ?thesis using roundtrip_plain [OF assms] Pair by simp
    next
      case (Some i)
      then obtain z where z: "i = 2 * z" "2 \<le> mx" "z + mx \<le> 8" "zero_run p z (z + mx)" using ntop_zero_run Pair by blast
      let ?dot = "z = 0 \<and> (mx = 5 \<and> p ! 10 = 0xff \<and> p ! 11 = 0xff \<or> mx = 6 \<or> mx = 7 \<and> p ! 14 \<noteq> 0 \<and> p ! 15 \<noteq> 1)"
      show ?thesis
      proof (cases ?dot)
        case True
        then have r: "zero_run p 0 mx" using z(4) by simp
        have "be32 (drop 12 p) \<noteq> INADDR_NONE"
          using dotted_not_none [OF assms r] True ne by blast
        then show ?thesis
          using roundtrip_dotted [OF assms r] True Pair Some z(1) by (auto simp: ngx_inet6_ntop_def Let_def)
      next
        case False
        then show ?thesis
          using roundtrip_run [OF assms z(4,2,3) refl] Pair Some z(1) by (auto simp: ngx_inet6_ntop_def Let_def split: if_splits)
      qed
    qed
  qed
  then show ?thesis using e by auto
qed

subsection \<open>Socket addresses\<close>

lemma inet_addr_stray: "c \<in> set t \<Longrightarrow> \<not> is_digit c \<Longrightarrow> c \<noteq> chr CHR ''.'' \<Longrightarrow> inet_addr_loop t addr octet n = INADDR_NONE"
  by (induction t addr octet n rule: inet_addr_loop.induct) (auto simp: is_digit_def Let_def)

lemma inet6_ntop_colon: "chr CHR '':'' \<in> set (ngx_inet6_ntop p)"
proof -
  obtain zero mx where z: "ntop_zero p = (zero, mx)" by fastforce
  have "chr CHR '':'' \<in> set (ntop_print p zero mx 16 0)" if "zero \<noteq> Some 0"
    using that by (subst ntop_print.simps) simp
  then show ?thesis using z by (auto simp: ngx_inet6_ntop_def Let_def)
qed

lemma fmt_ud_digit: "c \<in> set (fmt_ud b) \<Longrightarrow> is_digit c"
  using dec_digits_value by (metis fmt_ud_digits list_all_iff)

lemma fmt_xd_no_bracket: "v < 65536 \<Longrightarrow> chr CHR '']'' \<notin> set (fmt_xd v)"
proof -
  have "hex_digit (chr CHR '']'') = None" by code_simp
  then show "v < 65536 \<Longrightarrow> ?thesis" using hex_from_digits [OF fmt_xd_facts(1), of v] by (auto simp: list_all_iff)
qed

lemma ntop_print_no_bracket: "chr CHR '']'' \<notin> set (ntop_print p zero mx n i)"
proof (induction p zero mx n i rule: ntop_print.induct)
  case (1 p zero mx n i)
  then show ?case using fmt_xd_no_bracket [OF word_at_bound [of p i]] by (subst ntop_print.simps) auto
qed

lemma inet6_ntop_no_bracket: "chr CHR '']'' \<notin> set (ngx_inet6_ntop p)"
proof -
  have "chr CHR '']'' \<notin> set (ngx_inet_ntop q)" for q
    using fmt_ud_digit by (fastforce simp: ngx_inet_ntop_def is_digit_def)
  then show ?thesis using ntop_print_no_bracket by (auto simp: ngx_inet6_ntop_def Let_def split: prod.splits)
qed

lemma be32_bytes4: "be32 (bytes4 a) = a"
proof -
  let ?a = "unat a"
  have u: "unat (ucast (drop_bit k a) :: byte) = ?a div 2 ^ k mod 256" for k
    by (simp add: ucast_drop_byte unat_of_nat)
  have l: "?a < 256 * 256 * 256 * 256" using unsigned_less [of a, where ?'a = nat] by simp
  then have m: "?a div 256 div 256 div 256 mod 256 = ?a div 256 div 256 div 256"
    by (intro mod_less) (simp add: less_mult_imp_div_less)
  have e: "?a div 2 ^ 24 = ?a div 256 div 256 div 256" "?a div 2 ^ 16 = ?a div 256 div 256" "?a div 2 ^ 8 = ?a div 256"
    by (simp_all add: div_mult2_eq [symmetric])
  have "unat (be32 (bytes4 a)) = ((?a div 2 ^ 24 mod 256 * 256 + ?a div 2 ^ 16 mod 256) * 256 + ?a div 2 ^ 8 mod 256) * 256 + ?a div 2 ^ 0 mod 256"
    unfolding be32_unat using u [of 0] by (simp add: bytes4_def u del: power_0)
  also have "\<dots> = ?a" unfolding e m by simp
  finally show ?thesis by (simp add: word_unat_eq_iff)
qed

text \<open>An address with a port is not taken for an address alone.\<close>

lemma inet6_dotted_alone: "ngx_inet6_addr (ngx_inet_ntop q @ r) = None"
proof -
  let ?d = "fmt_ud (q ! 0)"
  obtain t where t: "ngx_inet_ntop q @ r = ?d @ chr CHR ''.'' # t" by (simp add: ngx_inet_ntop_def)
  have d: "list_all is_digit ?d" "?d \<noteq> []" "length ?d \<le> 3"
    using dec_digits_value dec_digits_nonempty dec_digits_length [of 3 "unat (q ! 0)"] less_trans [OF unat_byte_less, of 1000 "q ! 0"]
    by (simp_all add: fmt_ud_digits)
  obtain x where x: "hex_from (int (i6_word i6_start)) ?d = Some x" using hex_from_decimal [OF d(1)] by blast
  have "inet6_loop (?d @ chr CHR ''.'' # t) i6_start
    = inet6_loop (chr CHR ''.'' # t) (i6_start\<lparr>i6_nibbles := i6_nibbles i6_start + length ?d, i6_word := nat x\<rparr>)"
    by (rule inet6_hex [OF hex_from_digits [OF x] _ x]) (use d(3) in \<open>simp add: i6_start_def\<close>)
  also have "\<dots> = None" using d(2) by (simp add: i6_start_def)
  finally have n: "inet6_loop (?d @ chr CHR ''.'' # t) i6_start = None" .
  have "hd (?d @ chr CHR ''.'' # t) \<noteq> chr CHR '':''" using d(1,2) by (cases ?d) (auto simp: is_digit_def)
  then show ?thesis using n by (simp add: ngx_inet6_addr_def t)
qed

lemma atoi_fmt_d: "1 \<le> d \<Longrightarrow> d \<le> 65535 \<Longrightarrow> ngx_atoi (fmt_d d) = int d"
proof -
  assume d: "1 \<le> d" "d \<le> 65535"
  then have "fmt_d d = dec_digits d" by (simp add: fmt_d_def sprintf_temp_decimal unat_of_nat)
  moreover have "int d \<le> NGX_MAX_INT_T_VALUE" using d by (simp add: ngx_limits)
  ultimately show ?thesis
    using atoi.rd_ok_iff [of "dec_digits d"] atoi.rd_value [of "dec_digits d"] dec_digits_value [of d] dec_digits_nonempty [of d] by simp
qed

definition text_ok :: "sockaddr \<Rightarrow> bool" where
  "text_ok sa \<longleftrightarrow>
     (case sa of
        Sock4 a \<Rightarrow> a \<noteq> INADDR_NONE
      | Sock6 p \<Rightarrow> length p = 16 \<and> p \<noteq> replicate 12 0 @ replicate 4 0xff \<and> p \<noteq> replicate 10 0 @ replicate 6 0xff
      | Sock_unix \<Rightarrow> False)"

lemma parse_addr_ntop: "text_ok sa \<Longrightarrow> ngx_parse_addr (ngx_sock_ntop sa None) = Some sa"
proof (cases sa)
  case (Sock4 a)
  then show "text_ok sa \<Longrightarrow> ?thesis" by (simp add: text_ok_def ngx_parse_addr_def inet_ntop_addr be32_bytes4)
next
  case (Sock6 p)
  have "ngx_inet_addr (ngx_inet6_ntop p) = INADDR_NONE"
    unfolding ngx_inet_addr_def by (rule inet_addr_stray [OF inet6_ntop_colon]) (simp_all add: is_digit_def)
  then show "text_ok sa \<Longrightarrow> ?thesis" using Sock6 inet6_ntop_addr by (simp add: text_ok_def ngx_parse_addr_def)
qed (simp add: text_ok_def)

lemma parse_port_ntop: "text_ok sa \<Longrightarrow> 1 \<le> d \<Longrightarrow> d \<le> 65535 \<Longrightarrow> parse_port (ngx_sock_ntop sa None) (fmt_d d) = Some (sa, d)"
  using parse_addr_ntop [of sa] atoi_fmt_d [of d] by (simp add: parse_port_def)

lemma inet_ntop_no_colon: "chr CHR '':'' \<notin> set (ngx_inet_ntop q)" "ngx_inet_ntop q \<noteq> []" "hd (ngx_inet_ntop q @ r) \<noteq> chr CHR ''[''"
proof -
  have d: "fmt_ud (q ! 0) \<noteq> []" "list_all is_digit (fmt_ud (q ! 0))" using dec_digits_nonempty dec_digits_value by (simp_all add: fmt_ud_digits)
  show "chr CHR '':'' \<notin> set (ngx_inet_ntop q)" using fmt_ud_digit by (fastforce simp: ngx_inet_ntop_def is_digit_def)
  show "ngx_inet_ntop q \<noteq> []" "hd (ngx_inet_ntop q @ r) \<noteq> chr CHR ''[''"
    using d by (cases "fmt_ud (q ! 0)"; auto simp: ngx_inet_ntop_def is_digit_def)+
qed

lemma parse_addr_port_4:
  assumes "text_ok (Sock4 a)" "1 \<le> d" "d \<le> 65535"
  shows "ngx_parse_addr_port (ngx_sock_ntop (Sock4 a) (Some d)) = Some (Sock4 a, d)"
proof -
  let ?t = "ngx_inet_ntop (bytes4 a)" and ?p = "fmt_d d"
  have "ngx_inet_addr (?t @ chr CHR '':'' # ?p) = INADDR_NONE"
    unfolding ngx_inet_addr_def by (rule inet_addr_stray [of "chr CHR '':''"]) (simp_all add: is_digit_def)
  then have n: "ngx_parse_addr (?t @ chr CHR '':'' # ?p) = None" by (simp add: ngx_parse_addr_def inet6_dotted_alone)
  have w: "takeWhile (\<lambda>c. c \<noteq> chr CHR '':'') (?t @ chr CHR '':'' # ?p) = ?t"
    using inet_ntop_no_colon(1) by (subst takeWhile_append2) auto
  show ?thesis
    using n w inet_ntop_no_colon(3) [of "bytes4 a" "chr CHR '':'' # ?p"] parse_port_ntop [OF assms]
    by (simp add: ngx_parse_addr_port_def Let_def)
qed

lemma parse_addr_port_6:
  assumes "text_ok (Sock6 q)" "1 \<le> d" "d \<le> 65535"
  shows "ngx_parse_addr_port (ngx_sock_ntop (Sock6 q) (Some d)) = Some (Sock6 q, d)"
proof -
  let ?t = "ngx_inet6_ntop q" and ?p = "fmt_d d"
  let ?text = "chr CHR ''['' # ?t @ chr CHR '']'' # chr CHR '':'' # ?p"
  have "ngx_inet_addr ?text = INADDR_NONE" by (simp add: ngx_inet_addr_def)
  moreover have "ngx_inet6_addr ?text = None" by (simp add: ngx_inet6_addr_def i6_start_def Let_def)
  ultimately have n: "ngx_parse_addr ?text = None" by (simp add: ngx_parse_addr_def)
  have w: "takeWhile (\<lambda>c. c \<noteq> chr CHR '']'') ?text = chr CHR ''['' # ?t"
    using inet6_ntop_no_bracket [of q] by (simp, subst takeWhile_append2) auto
  show ?thesis
    using n parse_port_ntop [OF assms] unfolding ngx_sock_ntop.simps ngx_parse_addr_port_def option.case w
    by (simp add: Let_def nth_append)
qed

text \<open>The readers take some texts that are no addresses: empty decimal numbers and a single colon in front.\<close>

lemma inet_readers_lenient:
  "ngx_inet_addr (str ''...'') = 0"
  "ngx_inet6_addr (str '':1:2:3:4:5:6:7:8'') = Some [0, 1, 0, 2, 0, 3, 0, 4, 0, 5, 0, 6, 0, 7, 0, 8]"
  by code_simp+

subsection \<open>Properties\<close>

text \<open>
  C22: Addresses printed are read back: every IPv4 address, and every IPv6 address in each of
  the forms \<open>ngx_inet6_ntop\<close> writes (all eight words, a run of zero words left out, the last
  four bytes in decimal), except for exactly two, \<open>::255.255.255.255\<close> and
  \<open>::ffff:255.255.255.255\<close>, whose last part \<open>ngx_inet_addr\<close> reads as its error value.
\<close>

theorem inet_text_roundtrip:
  assumes "length p = 16"
  shows "ngx_inet_addr (ngx_inet_ntop q) = be32 q
    \<and> ngx_inet6_addr (ngx_inet6_ntop p) =
        (if p = replicate 12 0 @ replicate 4 0xff \<or> p = replicate 10 0 @ replicate 6 0xff then None else Some p)"
  using inet_ntop_addr inet6_ntop_addr [OF assms] by blast

theorem inet_text_roundtrip_witness:
  "ngx_inet6_addr (ngx_inet6_ntop (replicate 15 0 @ [1])) = Some (replicate 15 0 @ [1])"
proof -
  have "replicate 15 0 @ [1] \<noteq> (replicate 12 0 @ replicate 4 0xff :: bytes)" "replicate 15 0 @ [1] \<noteq> (replicate 10 0 @ replicate 6 0xff :: bytes)"
    by code_simp+
  then show ?thesis using inet_text_roundtrip [of "replicate 15 0 @ [1]" "[]"] by simp
qed

text \<open>
  Socket addresses printed by \<open>ngx_sock_ntop\<close> are read back by \<open>ngx_parse_addr\<close>, and with a
  port by \<open>ngx_parse_addr_port\<close>, in both families; neither takes an address with a port for
  an address alone. The port is not 0. Left out are the broadcast address, which is the error value of the
  IPv4 reader, and the two IPv6 addresses that end in it.
\<close>

theorem sockaddr_text_roundtrip:
  assumes "text_ok sa" "1 \<le> port" "port \<le> 65535"
  shows "ngx_parse_addr (ngx_sock_ntop sa None) = Some sa
    \<and> ngx_parse_addr_port (ngx_sock_ntop sa None) = Some (sa, 0)
    \<and> ngx_parse_addr_port (ngx_sock_ntop sa (Some port)) = Some (sa, port)"
proof (cases sa)
  case (Sock4 a)
  then show ?thesis using assms parse_addr_ntop [of sa] parse_addr_port_4 by (simp add: ngx_parse_addr_port_def)
next
  case (Sock6 p)
  then show ?thesis using assms parse_addr_ntop [of sa] parse_addr_port_6 by (simp add: ngx_parse_addr_port_def)
qed (use assms in \<open>simp add: text_ok_def\<close>)

theorem sockaddr_text_roundtrip_witness:
  "ngx_parse_addr_port (ngx_sock_ntop (Sock4 0x7f000001) (Some 8080)) = Some (Sock4 0x7f000001, 8080)"
  using sockaddr_text_roundtrip [of "Sock4 0x7f000001" 8080] by (simp add: text_ok_def INADDR_NONE_def)

end
