(* ===== verification/Upstream_Hash.thy ===== *)
theory Upstream_Hash
  imports Upstream_Balancer Ngx_Inet Ngx_Crc32
begin

section \<open>Balancing by a hash (ip_hash and hash)\<close>

text \<open>
  src/ngx-1.12.0/src/http/modules/ngx_http_upstream_ip_hash_module.c and the plain \<open>hash\<close>
  directive of ngx_http_upstream_hash_module.c. A request keeps the data of round robin, a hash
  and a number of tries. A call hashes on until the weights put the hash on a server that may
  be used; after 20 vain tries it asks round robin. Both modules have the same loop. Unlike
  round robin and least_conn, they do not ask the check module whether a server is up.
\<close>

subsection \<open>Model\<close>

text \<open>\<open>while (w >= peer->weight)\<close>; past the last server \<open>peer\<close> is NULL and the result \<open>None\<close>.\<close>

fun weight_walk :: "int \<Rightarrow> rr_peer list \<Rightarrow> nat \<Rightarrow> nat option" where
  "weight_walk w [] p = None"
| "weight_walk w (q # qs) p = (if w \<ge> weight q then weight_walk (w - weight q) qs (p + 1) else Some p)"

definition hash_place :: "rr_peers \<Rightarrow> nat \<Rightarrow> nat option" where
  "hash_place g h = (if total_weight g = 0 then None else weight_walk (int (h mod total_weight g)) (peer g) 0)"

definition hash_skip :: "int \<Rightarrow> u64 list \<Rightarrow> nat \<Rightarrow> rr_peer \<Rightarrow> bool" where
  "hash_skip now t i p \<longleftrightarrow>
     is_tried t i \<or> rr_down p
   \<or> max_fails p \<noteq> 0 \<and> fails p \<ge> max_fails p \<and> now - checked p \<le> fail_timeout p
   \<or> full_conns p"

text \<open>
  The loop: \<open>next\<close> hashes on and \<open>val\<close> is the number taken modulo the total weight. The result
  has the place of a server, if one was found, and the hash and the tries at the end.
\<close>

function probe ::
    "('h \<Rightarrow> 'h) \<Rightarrow> ('h \<Rightarrow> nat) \<Rightarrow> int \<Rightarrow> u64 list \<Rightarrow> rr_peers \<Rightarrow> 'h \<Rightarrow> nat \<Rightarrow> (nat option \<times> 'h \<times> nat) option" where
  "probe next val now t g h tries =
     (let h = next h
      in case hash_place g (val h) of
           None \<Rightarrow> None
         | Some p \<Rightarrow>
             if hash_skip now t p (peer g ! p)
             then if tries + 1 > 20 then Some (None, h, tries + 1) else probe next val now t g h (tries + 1)
             else Some (Some p, h, tries))"
  by auto
termination
  by (relation "measure (\<lambda>(next, val, now, t, g, h, tries). 20 - tries)") auto

declare probe.simps [simp del]

subsubsection \<open>ip_hash\<close>

record ip_hash_data =
  ip_rrp :: rr_data
  ip_hash :: u64
  ip_addr :: bytes
  ip_tries :: nat

text \<open>\<open>addr\<close> with \<open>addrlen\<close>: three bytes of an IPv4 address, all of an IPv6 one, or the pseudo address.\<close>

definition ip_hash_addr :: "sockaddr \<Rightarrow> bytes" where
  "ip_hash_addr sa = (case sa of Sock4 a \<Rightarrow> take 3 (bytes4 a) | Sock6 p \<Rightarrow> take 16 p | Sock_unix \<Rightarrow> [0, 0, 0])"

definition ngx_http_upstream_init_ip_hash_peer :: "sockaddr \<Rightarrow> rr_peers list \<Rightarrow> ip_hash_data \<times> nat" where
  "ngx_http_upstream_init_ip_hash_peer sa chain =
     (case ngx_http_upstream_init_round_robin_peer chain of (r, tries) \<Rightarrow>
        (\<lparr>ip_rrp = r, ip_hash = 89, ip_addr = ip_hash_addr sa, ip_tries = 0\<rparr>, tries))"

definition ip_hash_next :: "bytes \<Rightarrow> u64 \<Rightarrow> u64" where
  "ip_hash_next addr hash = foldl (\<lambda>hash a. (hash * 113 + ucast a) mod 6271) hash addr"

definition ip_hash_rr :: "check_peers \<Rightarrow> int \<Rightarrow> rr_peers list \<Rightarrow> ip_hash_data \<Rightarrow> int \<times> rr_peers list \<times> ip_hash_data" where
  "ip_hash_rr ctx now chain d =
     (case ngx_http_upstream_get_round_robin_peer ctx now chain (ip_rrp d) of
        (rc, chain, r) \<Rightarrow> (rc, chain, d\<lparr>ip_rrp := r\<rparr>))"

definition ngx_http_upstream_get_ip_hash_peer ::
    "check_peers \<Rightarrow> int \<Rightarrow> rr_peers list \<Rightarrow> ip_hash_data \<Rightarrow> (int \<times> rr_peers list \<times> ip_hash_data) option" where
  "ngx_http_upstream_get_ip_hash_peer ctx now chain d =
     (let r = ip_rrp d; k = peers_at r; g = chain ! k
      in if ip_tries d > 20 \<or> single g then Some (ip_hash_rr ctx now chain d)
         else case probe (ip_hash_next (ip_addr d)) unat now (tried r) g (ip_hash d) (ip_tries d) of
             None \<Rightarrow> None
           | Some (None, hash, tries) \<Rightarrow> Some (ip_hash_rr ctx now chain (d\<lparr>ip_tries := tries\<rparr>))
           | Some (Some p, hash, tries) \<Rightarrow>
               Some (NGX_OK, chain[k := take_peer now g p],
                 d\<lparr>ip_rrp := r\<lparr>current := Some (k, p), tried := mark_tried (tried r) p\<rparr>, ip_hash := hash, ip_tries := tries\<rparr>))"

subsubsection \<open>hash\<close>

record hash_data =
  hp_rrp :: rr_data
  hp_key :: bytes
  hp_tries :: nat
  hp_rehash :: u64
  hp_hash :: u32

definition ngx_http_upstream_init_hash_peer :: "bytes \<Rightarrow> rr_peers list \<Rightarrow> hash_data \<times> nat" where
  "ngx_http_upstream_init_hash_peer key chain =
     (case ngx_http_upstream_init_round_robin_peer chain of (r, tries) \<Rightarrow>
        (\<lparr>hp_rrp = r, hp_key = key, hp_tries = 0, hp_rehash = 0, hp_hash = 0\<rparr>, tries))"

text \<open>The hash of the key, after \<open>rehash\<close> in decimal from the second time on, is added to the hash so far.\<close>

definition hash_next :: "bytes \<Rightarrow> u64 \<times> u32 \<Rightarrow> u64 \<times> u32" where
  "hash_next key h =
     (case h of (rehash, prev) \<Rightarrow>
        let hash = ngx_crc32_init;
            hash = (if rehash > 0 then ngx_crc32_update hash (sprintf_temp rehash 0) else hash);
            hash = ngx_crc32_update hash key;
            hash = ngx_crc32_final hash;
            hash = drop_bit 16 hash AND 0x7fff
        in (rehash + 1, prev + hash))"

definition hash_rr :: "check_peers \<Rightarrow> int \<Rightarrow> rr_peers list \<Rightarrow> hash_data \<Rightarrow> int \<times> rr_peers list \<times> hash_data" where
  "hash_rr ctx now chain d =
     (case ngx_http_upstream_get_round_robin_peer ctx now chain (hp_rrp d) of
        (rc, chain, r) \<Rightarrow> (rc, chain, d\<lparr>hp_rrp := r\<rparr>))"

definition ngx_http_upstream_get_hash_peer ::
    "check_peers \<Rightarrow> int \<Rightarrow> rr_peers list \<Rightarrow> hash_data \<Rightarrow> (int \<times> rr_peers list \<times> hash_data) option" where
  "ngx_http_upstream_get_hash_peer ctx now chain d =
     (let r = hp_rrp d; k = peers_at r; g = chain ! k
      in if hp_tries d > 20 \<or> single g then Some (hash_rr ctx now chain d)
         else case probe (hash_next (hp_key d)) (\<lambda>(_, hash). unat hash) now (tried r) g (hp_rehash d, hp_hash d) (hp_tries d) of
             None \<Rightarrow> None
           | Some (None, (rehash, hash), tries) \<Rightarrow>
               Some (hash_rr ctx now chain (d\<lparr>hp_rehash := rehash, hp_hash := hash, hp_tries := tries\<rparr>))
           | Some (Some p, (rehash, hash), tries) \<Rightarrow>
               Some (NGX_OK, chain[k := take_peer now g p],
                 d\<lparr>hp_rrp := r\<lparr>current := Some (k, p), tried := mark_tried (tried r) p\<rparr>,
                   hp_rehash := rehash, hp_hash := hash, hp_tries := tries\<rparr>))"

subsection \<open>The place of a hash\<close>

lemma weight_walk_spec:
  assumes "0 \<le> w" "w < (\<Sum>p\<leftarrow>ps. weight p)"
  shows "\<exists>p<length ps. weight_walk w ps i = Some (i + p) \<and> (\<Sum>q\<leftarrow>take p ps. weight q) \<le> w
    \<and> w < (\<Sum>q\<leftarrow>take (Suc p) ps. weight q)"
  using assms
proof (induction ps arbitrary: w i)
  case (Cons q qs)
  show ?case
  proof (cases "w \<ge> weight q")
    case True
    then obtain p where "p < length qs" "weight_walk (w - weight q) qs (i + 1) = Some (i + 1 + p)"
      "(\<Sum>q\<leftarrow>take p qs. weight q) \<le> w - weight q" "w - weight q < (\<Sum>q\<leftarrow>take (Suc p) qs. weight q)"
      using Cons.IH [of "w - weight q" "i + 1"] Cons.prems by auto
    then show ?thesis using True by (intro exI [of _ "Suc p"]) simp
  next
    case False
    then show ?thesis using Cons.prems by (intro exI [of _ 0]) simp
  qed
qed simp

lemma prefix_sums:
  assumes "\<forall>p\<in>set ps. 0 \<le> weight p" "p \<le> q" "q \<le> length ps"
  shows "(\<Sum>x\<leftarrow>take p ps. weight x) \<le> (\<Sum>x\<leftarrow>take q ps. weight x)"
proof -
  have "take q ps = take p ps @ take (q - p) (drop p ps)"
    using assms(2) by (metis le_add_diff_inverse take_add)
  moreover have "0 \<le> (\<Sum>x\<leftarrow>take (q - p) (drop p ps). weight x)"
    using assms(1) by (intro sum_list_nonneg) (auto dest!: in_set_takeD in_set_dropD)
  ultimately show ?thesis by simp
qed

definition group_fit :: "rr_peers \<Rightarrow> bool" where
  "group_fit g \<longleftrightarrow> int (total_weight g) = (\<Sum>p\<leftarrow>peer g. weight p) \<and> (\<forall>p\<in>set (peer g). 0 < weight p) \<and> peer g \<noteq> []"

lemma group_fit_total: "group_fit g \<Longrightarrow> 0 < total_weight g"
proof -
  assume f: "group_fit g"
  then obtain p ps where g: "peer g = p # ps" by (cases "peer g") (auto simp: group_fit_def)
  then have "0 < weight p" "0 \<le> (\<Sum>x\<leftarrow>ps. weight x)"
    using f by (auto simp: group_fit_def less_imp_le intro!: sum_list_nonneg)
  then show ?thesis using f g by (simp add: group_fit_def)
qed

lemma hash_place_some:
  assumes "group_fit g"
  shows "\<exists>p<length (peer g). hash_place g h = Some p
    \<and> (\<Sum>q\<leftarrow>take p (peer g). weight q) \<le> int (h mod total_weight g)
    \<and> int (h mod total_weight g) < (\<Sum>q\<leftarrow>take (Suc p) (peer g). weight q)"
proof -
  have n: "0 < total_weight g" using group_fit_total [OF assms] .
  then have "h mod total_weight g < total_weight g" by simp
  then have "int (h mod total_weight g) < (\<Sum>p\<leftarrow>peer g. weight p)"
    using assms by (simp only: group_fit_def of_nat_less_iff flip: of_nat_less_iff) simp
  from weight_walk_spec [OF _ this, of 0] n show ?thesis by (auto simp: hash_place_def)
qed

lemma hash_place_iff:
  assumes "group_fit g" "p < length (peer g)"
  shows "hash_place g h = Some p \<longleftrightarrow> (\<Sum>q\<leftarrow>take p (peer g). weight q) \<le> int (h mod total_weight g)
    \<and> int (h mod total_weight g) < (\<Sum>q\<leftarrow>take (Suc p) (peer g). weight q)" (is "_ \<longleftrightarrow> ?in p")
proof -
  obtain r where r: "r < length (peer g)" "hash_place g h = Some r" "?in r" using hash_place_some [OF assms(1)] by blast
  have nn: "\<forall>p\<in>set (peer g). 0 \<le> weight p" using assms(1) by (auto simp: group_fit_def dest: less_imp_le)
  have "p = r" if "?in p"
  proof (rule ccontr)
    assume "p \<noteq> r"
    then consider "Suc p \<le> r" | "Suc r \<le> p" by linarith
    then show False
      using prefix_sums [OF nn, of "Suc p" r] prefix_sums [OF nn, of "Suc r" p] r(1,3) that assms(2) by cases auto
  qed
  then show ?thesis using r by auto
qed

subsection \<open>The loop\<close>

text \<open>The server the hash is on after \<open>j\<close> turns.\<close>

definition probed :: "('h \<Rightarrow> 'h) \<Rightarrow> ('h \<Rightarrow> nat) \<Rightarrow> rr_peers \<Rightarrow> 'h \<Rightarrow> nat \<Rightarrow> nat" where
  "probed next val g h j = the (hash_place g (val ((next ^^ j) h)))"

definition unusable :: "int \<Rightarrow> u64 list \<Rightarrow> rr_peers \<Rightarrow> nat \<Rightarrow> bool" where
  "unusable now t g p = hash_skip now t p (peer g ! p)"

lemma probed_less: "group_fit g \<Longrightarrow> probed next val g h j < length (peer g)"
  using hash_place_some [of g "val ((next ^^ j) h)"] by (auto simp: probed_def)

lemma probed_Suc: "probed next val g (next h) j = probed next val g h (Suc j)"
  by (simp add: probed_def funpow_swap1)

text \<open>The first usable server among those the hash comes to in the tries that are left, if there is one.\<close>

definition probe_right ::
    "('h \<Rightarrow> 'h) \<Rightarrow> ('h \<Rightarrow> nat) \<Rightarrow> int \<Rightarrow> u64 list \<Rightarrow> rr_peers \<Rightarrow> 'h \<Rightarrow> nat \<Rightarrow> nat option \<Rightarrow> 'h \<Rightarrow> nat \<Rightarrow> bool" where
  "probe_right next val now t g h tries r h' tries' \<longleftrightarrow> (case r of
       None \<Rightarrow> tries' = 21 \<and> (\<forall>j. 1 \<le> j \<and> j \<le> 21 - tries \<longrightarrow> unusable now t g (probed next val g h j))
     | Some p \<Rightarrow> tries \<le> tries' \<and> tries' \<le> 20 \<and> h' = (next ^^ (tries' - tries + 1)) h
         \<and> p = probed next val g h (tries' - tries + 1) \<and> \<not> unusable now t g p
         \<and> (\<forall>j. 1 \<le> j \<and> j \<le> tries' - tries \<longrightarrow> unusable now t g (probed next val g h j)))"

lemma probe_right_next:
  assumes "probe_right next val now t g (next h) (tries + 1) r h' tries'" "tries < 20" "unusable now t g (probed next val g h 1)"
  shows "probe_right next val now t g h tries r h' tries'"
proof (cases r)
  case None
  have "unusable now t g (probed next val g h j)" if "1 \<le> j" "j \<le> 21 - tries" for j
  proof (cases "j = 1")
    case False
    then have "1 \<le> j - 1" "j - 1 \<le> 21 - (tries + 1)" "Suc (j - 1) = j" using that by auto
    then show ?thesis using assms(1) None probed_Suc [of "next" val g h "j - 1"] by (fastforce simp: probe_right_def)
  qed (use assms(3) in simp)
  then show ?thesis using assms(1) None by (simp add: probe_right_def)
next
  case (Some p)
  define m where "m = tries' - (tries + 1)"
  have m: "tries + 1 \<le> tries'" "tries' \<le> 20" "tries' - tries = Suc m"
    using assms(1) Some by (auto simp: probe_right_def m_def)
  have p: "p = probed next val g (next h) (m + 1)" "h' = (next ^^ (m + 1)) (next h)" "\<not> unusable now t g p"
    "\<forall>j. 1 \<le> j \<and> j \<le> m \<longrightarrow> unusable now t g (probed next val g (next h) j)"
    using assms(1) Some by (auto simp: probe_right_def m_def)
  have "unusable now t g (probed next val g h j)" if "1 \<le> j" "j \<le> Suc m" for j
  proof (cases "j = 1")
    case False
    then have "1 \<le> j - 1" "j - 1 \<le> m" "Suc (j - 1) = j" using that by auto
    then show ?thesis using p(4) probed_Suc [of "next" val g h "j - 1"] by fastforce
  qed (use assms(3) in simp)
  then show ?thesis
    using m p Some by (simp add: probe_right_def probed_Suc funpow_swap1)
qed

lemma probe_spec:
  assumes "group_fit g" "tries \<le> 20"
  shows "\<exists>r h' tries'. probe next val now t g h tries = Some (r, h', tries') \<and> probe_right next val now t g h tries r h' tries'"
  using assms(2)
proof (induction "20 - tries" arbitrary: h tries)
  case 0
  then have t: "tries = 20" by simp
  obtain p where p: "hash_place g (val (next h)) = Some p" using hash_place_some [OF assms(1)] by blast
  then have "p = probed next val g h 1" by (simp add: probed_def)
  moreover have "j = 1" if "1 \<le> j" "j \<le> 1" for j :: nat using that by simp
  ultimately show ?case
    by (cases "unusable now t g p") (auto simp: t p probe.simps [of _ _ _ _ _ _ 20] probe_right_def unusable_def Let_def)
next
  case (Suc n)
  obtain p where p: "hash_place g (val (next h)) = Some p" using hash_place_some [OF assms(1)] by blast
  then have pr: "p = probed next val g h 1" by (simp add: probed_def)
  show ?case
  proof (cases "unusable now t g p")
    case True
    have "n = 20 - (tries + 1)" "tries + 1 \<le> 20" using Suc.hyps(2) by auto
    from Suc.hyps(1) [OF this, of "next h"] obtain r h' tries'
      where r: "probe next val now t g (next h) (tries + 1) = Some (r, h', tries')"
        "probe_right next val now t g (next h) (tries + 1) r h' tries'" by blast
    moreover have "probe next val now t g h tries = probe next val now t g (next h) (tries + 1)"
      using True p Suc.hyps(2) by (auto simp add: probe.simps [of _ _ _ _ _ h tries] unusable_def Let_def)
    ultimately show ?thesis
      using probe_right_next [OF r(2)] True pr Suc.hyps(2) by auto
  next
    case False
    then show ?thesis
      using p pr Suc.prems by (auto simp: probe.simps [of _ _ _ _ _ h tries] probe_right_def unusable_def)
  qed
qed

subsection \<open>ip_hash and hash as methods\<close>

lemma fit_group: "chain_ok chain \<Longrightarrow> fit chain \<Longrightarrow> k < length chain \<Longrightarrow> group_fit (chain ! k)"
  by (auto simp: chain_ok_def list_all_length fit_def group_fit_def group_ok_def)

lemma unusable_full: "\<not> unusable now t g p \<Longrightarrow> \<not> full_conns (peer g ! p)"
  by (simp add: unusable_def hash_skip_def)

lemma probed_got:
  assumes "chain_ok chain" "fit chain" "data_ok chain d" "g = chain ! peers_at d"
    and "probe_right next val now (tried d) g h tries (Some p) h' tries'"
  shows "got chain NGX_OK (chain[peers_at d := take_peer now g p]) (d\<lparr>current := Some (peers_at d, p), tried := mark_tried (tried d) p\<rparr>)
    \<and> same_shape chain (chain[peers_at d := take_peer now g p])"
proof -
  have k: "peers_at d < length chain" using assms(3) by (simp add: data_ok_def)
  then have "number g = length (peer g)" "group_fit g"
    using assms(1,2,4) fit_group by (simp_all add: chain_ok_def list_all_length group_ok_def)
  then have "p < number g" using assms(5) probed_less by (auto simp: probe_right_def)
  then show ?thesis
    using take_peer_got [OF assms(1,3)] assms(4,5) unusable_full by (auto simp: probe_right_def)
qed

lemma ip_hash_rr_got:
  assumes "chain_ok chain" "data_ok chain (ip_rrp d)"
  shows "\<exists>rc chain' d'. ip_hash_rr ctx now chain d = (rc, chain', d') \<and> got chain rc chain' (ip_rrp d') \<and> same_shape chain chain'"
  using round_robin_got [OF assms, of ctx now] by (auto simp: ip_hash_rr_def)

lemma hash_rr_got:
  assumes "chain_ok chain" "data_ok chain (hp_rrp d)"
  shows "\<exists>rc chain' d'. hash_rr ctx now chain d = (rc, chain', d') \<and> got chain rc chain' (hp_rrp d') \<and> same_shape chain chain'"
  using round_robin_got [OF assms, of ctx now] by (auto simp: hash_rr_def)

interpretation ip_hash: peer_method ngx_http_upstream_init_ip_hash_peer ngx_http_upstream_get_ip_hash_peer ip_rrp
proof unfold_locales
  fix chain ctx now and d :: ip_hash_data
  assume ok: "chain_ok chain" "fit chain" "data_ok chain (ip_rrp d)"
  let ?g = "chain ! peers_at (ip_rrp d)"
  show "\<exists>rc chain' d'. ngx_http_upstream_get_ip_hash_peer ctx now chain d = Some (rc, chain', d')
      \<and> got chain rc chain' (ip_rrp d') \<and> same_shape chain chain'"
  proof (cases "ip_tries d > 20 \<or> single ?g")
    case True
    then show ?thesis
      using ip_hash_rr_got [OF ok(1,3), of ctx now] by (auto simp: ngx_http_upstream_get_ip_hash_peer_def Let_def)
  next
    case False
    have "group_fit ?g" using fit_group [OF ok(1,2)] ok(3) by (simp add: data_ok_def)
    from probe_spec [OF this, of "ip_tries d" "ip_hash_next (ip_addr d)" unat now "tried (ip_rrp d)" "ip_hash d"] False
    obtain r h' tries' where p: "probe (ip_hash_next (ip_addr d)) unat now (tried (ip_rrp d)) ?g (ip_hash d) (ip_tries d) = Some (r, h', tries')"
      "probe_right (ip_hash_next (ip_addr d)) unat now (tried (ip_rrp d)) ?g (ip_hash d) (ip_tries d) r h' tries'" by auto
    show ?thesis
    proof (cases r)
      case None
      then show ?thesis
        using ip_hash_rr_got [OF ok(1), of "d\<lparr>ip_tries := tries'\<rparr>" ctx now] ok(3) False p(1)
        by (auto simp: ngx_http_upstream_get_ip_hash_peer_def Let_def)
    next
      case (Some x)
      then show ?thesis
        using probed_got [OF ok refl p(2) [unfolded Some]] p(1) False
        by (simp add: ngx_http_upstream_get_ip_hash_peer_def Let_def)
    qed
  qed
qed (auto simp: ngx_http_upstream_init_ip_hash_peer_def split: prod.split)

interpretation key_hash: peer_method ngx_http_upstream_init_hash_peer ngx_http_upstream_get_hash_peer hp_rrp
proof unfold_locales
  fix chain ctx now and d :: hash_data
  assume ok: "chain_ok chain" "fit chain" "data_ok chain (hp_rrp d)"
  let ?g = "chain ! peers_at (hp_rrp d)" and ?val = "\<lambda>(_ :: u64, hash :: u32). unat hash"
  show "\<exists>rc chain' d'. ngx_http_upstream_get_hash_peer ctx now chain d = Some (rc, chain', d')
      \<and> got chain rc chain' (hp_rrp d') \<and> same_shape chain chain'"
  proof (cases "hp_tries d > 20 \<or> single ?g")
    case True
    then show ?thesis
      using hash_rr_got [OF ok(1,3), of ctx now] by (auto simp: ngx_http_upstream_get_hash_peer_def Let_def)
  next
    case False
    have "group_fit ?g" using fit_group [OF ok(1,2)] ok(3) by (simp add: data_ok_def)
    from probe_spec [OF this, of "hp_tries d" "hash_next (hp_key d)" ?val now "tried (hp_rrp d)" "(hp_rehash d, hp_hash d)"] False
    obtain r h1 h2 tries' where p:
      "probe (hash_next (hp_key d)) ?val now (tried (hp_rrp d)) ?g (hp_rehash d, hp_hash d) (hp_tries d) = Some (r, (h1, h2), tries')"
      "probe_right (hash_next (hp_key d)) ?val now (tried (hp_rrp d)) ?g (hp_rehash d, hp_hash d) (hp_tries d) r (h1, h2) tries'" by auto
    show ?thesis
    proof (cases r)
      case None
      then show ?thesis
        using hash_rr_got [OF ok(1), of "d\<lparr>hp_rehash := h1, hp_hash := h2, hp_tries := tries'\<rparr>" ctx now] ok(3) False p(1)
        by (auto simp: ngx_http_upstream_get_hash_peer_def Let_def)
    next
      case (Some x)
      then show ?thesis
        using probed_got [OF ok refl p(2) [unfolded Some]] p(1) False
        by (simp add: ngx_http_upstream_get_hash_peer_def Let_def)
    qed
  qed
qed (auto simp: ngx_http_upstream_init_hash_peer_def split: prod.split)

subsection \<open>Which server a hash gives\<close>

lemma ip_hash_found:
  assumes "chain_ok chain" "fit chain" "data_ok chain (ip_rrp d)" "g = chain ! peers_at (ip_rrp d)" "\<not> single g" "ip_tries d \<le> 20"
  shows "\<exists>r h' tries' rc chain' d'.
      probe_right (ip_hash_next (ip_addr d)) unat now (tried (ip_rrp d)) g (ip_hash d) (ip_tries d) r h' tries'
    \<and> ngx_http_upstream_get_ip_hash_peer ctx now chain d = Some (rc, chain', d')
    \<and> (case r of None \<Rightarrow> (rc, chain', ip_rrp d') = ngx_http_upstream_get_round_robin_peer ctx now chain (ip_rrp d)
        | Some p \<Rightarrow> rc = NGX_OK \<and> current (ip_rrp d') = Some (peers_at (ip_rrp d), p))"
proof -
  have "group_fit g" using fit_group [OF assms(1,2)] assms(3,4) by (simp add: data_ok_def)
  from probe_spec [OF this assms(6), of "ip_hash_next (ip_addr d)" unat now "tried (ip_rrp d)" "ip_hash d"]
  obtain r h' tries' where p: "probe (ip_hash_next (ip_addr d)) unat now (tried (ip_rrp d)) g (ip_hash d) (ip_tries d) = Some (r, h', tries')"
    "probe_right (ip_hash_next (ip_addr d)) unat now (tried (ip_rrp d)) g (ip_hash d) (ip_tries d) r h' tries'" by auto
  obtain rc c r' where rr: "ngx_http_upstream_get_round_robin_peer ctx now chain (ip_rrp d) = (rc, c, r')"
    by (cases "ngx_http_upstream_get_round_robin_peer ctx now chain (ip_rrp d)") auto
  show ?thesis
    using p rr assms(4-6)
    by (intro exI [of _ r] exI [of _ h'] exI [of _ tries'])
      (auto simp: ngx_http_upstream_get_ip_hash_peer_def ip_hash_rr_def Let_def split: option.split)
qed

text \<open>
  The server of a hash: of the values below the total weight of a group, each server has
  as many as its weight, so that uniform hashes share out the requests by weight, and the walk
  along the weights stays inside the group.
\<close>

theorem hash_place_by_weight:
  assumes "group_fit g" "p < length (peer g)"
  shows "card {h. h < total_weight g \<and> hash_place g h = Some p} = nat (weight (peer g ! p))
    \<and> (\<exists>q<length (peer g). hash_place g h = Some q)"
proof -
  let ?S = "\<lambda>p. \<Sum>q\<leftarrow>take p (peer g). weight q"
  have nn: "\<forall>p\<in>set (peer g). 0 \<le> weight p" using assms(1) by (auto simp: group_fit_def dest: less_imp_le)
  have suc: "?S (Suc p) = ?S p + weight (peer g ! p)" using assms(2) by (simp add: take_Suc_conv_app_nth)
  have low: "0 \<le> ?S p" using prefix_sums [OF nn, of 0 p] assms(2) by simp
  have high: "?S (Suc p) \<le> int (total_weight g)"
    using prefix_sums [OF nn, of "Suc p" "length (peer g)"] assms by (simp add: group_fit_def)
  have w: "0 < weight (peer g ! p)" using assms by (simp add: group_fit_def)
  have "{h. h < total_weight g \<and> hash_place g h = Some p} = {nat (?S p)..<nat (?S (Suc p))}"
    using low high suc w by (auto simp: hash_place_iff [OF assms])
  then have "card {h. h < total_weight g \<and> hash_place g h = Some p} = nat (weight (peer g ! p))"
    using low suc w by simp
  then show ?thesis using hash_place_some [OF assms(1), of h] by auto
qed

text \<open>
  Which server \<open>ip_hash\<close> gives a request: hashing on, the first server that is not tried,
  down, suspended for its failures or at its connection limit, among the tries that are left;
  when none of those is usable, what round robin gives it. The hash depends on the address
  alone, so that clients of one IPv4 network of 256 addresses share their servers.
\<close>

theorem ip_hash_exact:
  assumes "chain_ok chain" "fit chain" "data_ok chain (ip_rrp d)" "k = peers_at (ip_rrp d)" "g = chain ! k"
    and "\<not> single g" "ip_tries d \<le> 20" "P = probed (ip_hash_next (ip_addr d)) unat g (ip_hash d)"
    and "U = (\<lambda>j. unusable now (tried (ip_rrp d)) g (P j))"
  shows "\<exists>rc chain' d'. ngx_http_upstream_get_ip_hash_peer ctx now chain d = Some (rc, chain', d')
    \<and> ((\<exists>j. 1 \<le> j \<and> j \<le> 21 - ip_tries d \<and> \<not> U j \<and> (\<forall>i. 1 \<le> i \<and> i < j \<longrightarrow> U i)
          \<and> rc = NGX_OK \<and> current (ip_rrp d') = Some (k, P j) \<and> P j < number g)
       \<or> (\<forall>j. 1 \<le> j \<and> j \<le> 21 - ip_tries d \<longrightarrow> U j)
          \<and> (rc, chain', ip_rrp d') = ngx_http_upstream_get_round_robin_peer ctx now chain (ip_rrp d))"
proof -
  from ip_hash_found [OF assms(1-3) _ assms(6,7)] assms(4,5) obtain r h' tries' rc chain' d' where
    p: "probe_right (ip_hash_next (ip_addr d)) unat now (tried (ip_rrp d)) g (ip_hash d) (ip_tries d) r h' tries'"
    and g: "ngx_http_upstream_get_ip_hash_peer ctx now chain d = Some (rc, chain', d')"
    and r: "case r of None \<Rightarrow> (rc, chain', ip_rrp d') = ngx_http_upstream_get_round_robin_peer ctx now chain (ip_rrp d)
        | Some p \<Rightarrow> rc = NGX_OK \<and> current (ip_rrp d') = Some (k, p)" by blast
  have "k < length chain" using assms(3,4) by (simp add: data_ok_def)
  then have "group_fit g" "number g = length (peer g)"
    using fit_group [OF assms(1,2)] assms(1,5) by (simp_all add: chain_ok_def list_all_length group_ok_def)
  then have less: "P j < number g" for j using probed_less by (simp add: assms(8))
  show ?thesis
  proof (cases r)
    case None
    then show ?thesis using p g r by (simp add: probe_right_def assms(8,9))
  next
    case (Some q)
    let ?j = "tries' - ip_tries d + 1"
    have "1 \<le> ?j" "?j \<le> 21 - ip_tries d" "\<not> U ?j" "q = P ?j" "\<forall>i. 1 \<le> i \<and> i < ?j \<longrightarrow> U i"
      using p Some assms(7) by (auto simp: probe_right_def assms(8,9) less_Suc_eq_le)
    then show ?thesis using g r less Some by auto
  qed
qed

text \<open>
  The health checks do not count: the first server the hash comes to is handed out when it is
  usable otherwise, also while the check module holds it down.
\<close>

theorem ip_hash_ignores_health_checks:
  assumes "chain_ok chain" "fit chain" "data_ok chain (ip_rrp d)" "g = chain ! peers_at (ip_rrp d)" "\<not> single g" "ip_tries d \<le> 20"
    and "p = probed (ip_hash_next (ip_addr d)) unat g (ip_hash d) 1" "\<not> unusable now (tried (ip_rrp d)) g p"
    and "ngx_http_upstream_check_peer_down ctx (check_index (peer g ! p))"
  shows "\<exists>chain' d'. ngx_http_upstream_get_ip_hash_peer ctx now chain d = Some (NGX_OK, chain', d')
    \<and> current (ip_rrp d') = Some (peers_at (ip_rrp d), p)"
proof -
  from ip_hash_found [OF assms(1-6), of now ctx] obtain r h' tries' rc chain' d' where
    q: "probe_right (ip_hash_next (ip_addr d)) unat now (tried (ip_rrp d)) g (ip_hash d) (ip_tries d) r h' tries'"
    and g: "ngx_http_upstream_get_ip_hash_peer ctx now chain d = Some (rc, chain', d')"
    and r: "case r of None \<Rightarrow> (rc, chain', ip_rrp d') = ngx_http_upstream_get_round_robin_peer ctx now chain (ip_rrp d)
        | Some p \<Rightarrow> rc = NGX_OK \<and> current (ip_rrp d') = Some (peers_at (ip_rrp d), p)" by blast
  have "r = Some p"
  proof (cases r)
    case None
    then show ?thesis using q assms(6-8) by (auto simp: probe_right_def)
  next
    case (Some x)
    have "tries' = ip_tries d"
    proof (rule ccontr)
      assume "tries' \<noteq> ip_tries d"
      then have "1 \<le> tries' - ip_tries d" using q Some by (auto simp: probe_right_def)
      then show False using q Some assms(7,8) by (auto simp: probe_right_def)
    qed
    then show ?thesis using q Some assms(7) by (simp add: probe_right_def)
  qed
  then show ?thesis using g r by simp
qed

subsection \<open>Examples\<close>

definition two_ip :: ip_hash_data where
  "two_ip = fst (ngx_http_upstream_init_ip_hash_peer (Sock4 0xc0000201) two_groups)"

lemma two_groups_ok: "chain_ok two_groups" "fit two_groups" "data_ok two_groups (ip_rrp two_ip)" "\<not> single (two_groups ! 0)"
proof -
  show c: "chain_ok two_groups" by (rule init_chain_ok [OF two_servers_init])
  show "fit two_groups" by (rule fit_init [OF two_servers_init]) (simp add: two_servers_def)
  have "ngx_http_upstream_init_round_robin_peer two_groups = (ip_rrp two_ip, snd (ngx_http_upstream_init_round_robin_peer two_groups))"
    by (simp add: two_ip_def ngx_http_upstream_init_ip_hash_peer_def split: prod.split)
  from init_data_ok [OF c this] show "data_ok two_groups (ip_rrp two_ip)" .
  show "\<not> single (two_groups ! 0)" by code_simp
qed

lemma two_ip_simps: "peers_at (ip_rrp two_ip) = 0" "ip_tries two_ip = 0" "ip_hash two_ip = 89" "ip_addr two_ip = [192, 0, 2]"
  by code_simp+

theorem hash_place_by_weight_witness:
  "card {h. h < total_weight (two_groups ! 0) \<and> hash_place (two_groups ! 0) h = Some 1} = 2"
proof -
  have "group_fit (two_groups ! 0)" by (rule fit_group [OF two_groups_ok(1,2)]) code_simp
  moreover have "1 < length (peer (two_groups ! 0))" "nat (weight (peer (two_groups ! 0) ! 1)) = 2" by code_simp+
  ultimately show ?thesis using hash_place_by_weight [of "two_groups ! 0" 1] by simp
qed

theorem ip_hash_exact_witness:
  "\<exists>rc chain' d'. ngx_http_upstream_get_ip_hash_peer None 5 two_groups two_ip = Some (rc, chain', d')
    \<and> ((\<exists>j. 1 \<le> j \<and> j \<le> 21 \<and> rc = NGX_OK
          \<and> current (ip_rrp d') = Some (0, probed (ip_hash_next [192, 0, 2]) unat (two_groups ! 0) 89 j))
       \<or> (rc, chain', ip_rrp d') = ngx_http_upstream_get_round_robin_peer None 5 two_groups (ip_rrp two_ip))"
  using ip_hash_exact [OF two_groups_ok(1-3) refl refl _ _ refl refl, where now = 5 and ctx = None] two_groups_ok(4)
  by (simp add: two_ip_simps) blast

theorem ip_hash_ignores_health_checks_witness:
  "\<exists>chain' d'. ngx_http_upstream_get_ip_hash_peer
       (Some [checked_peer \<lparr>conf_fall_count = 2, conf_rise_count = 1, status_alive = 6, default_down = False\<rparr> False
          [(1, False), (2, False)]])
       5 [rr_group (\<lambda>_. 0) False two_servers] two_ip = Some (NGX_OK, chain', d')
    \<and> (\<exists>p. current (ip_rrp d') = Some (0, p))"
proof -
  let ?c = "\<lparr>conf_fall_count = 2, conf_rise_count = 1, status_alive = 6, default_down = False\<rparr>"
  let ?ctx = "Some [checked_peer ?c False [(1, False), (2, False)]]"
  let ?chain = "[rr_group (\<lambda>_. 0) False two_servers]"
  let ?g = "?chain ! peers_at (ip_rrp two_ip)"
  define p where "p = probed (ip_hash_next (ip_addr two_ip)) unat ?g (ip_hash two_ip) 1"
  have i: "ngx_http_upstream_init_round_robin (\<lambda>_. 0) two_servers = Some ?chain"
    by (simp add: ngx_http_upstream_init_round_robin_def rr_group_def two_servers_def)
  have c: "chain_ok ?chain" by (rule init_chain_ok [OF i])
  have f: "fit ?chain" by (rule fit_init [OF i]) (simp add: two_servers_def)
  have d: "data_ok ?chain (ip_rrp two_ip)"
    using two_groups_ok(3) by (simp add: data_ok_def two_groups_def rr_group_def Let_def)
  have "p < length (peer ?g)" unfolding p_def by (rule probed_less, rule fit_group [OF c f]) (simp add: two_ip_simps)
  moreover have "length (peer ?g) = 2" by code_simp
  ultimately have "p = 0 \<or> p = 1" by auto
  moreover have "\<not> unusable 5 (tried (ip_rrp two_ip)) ?g 0" "\<not> unusable 5 (tried (ip_rrp two_ip)) ?g 1"
    "ngx_http_upstream_check_peer_down ?ctx (check_index (peer ?g ! 0))"
    "ngx_http_upstream_check_peer_down ?ctx (check_index (peer ?g ! 1))"
    "\<not> single ?g" "ip_tries two_ip \<le> 20" by code_simp+
  ultimately show ?thesis
    using ip_hash_ignores_health_checks [OF c f d refl _ _ p_def, where now = 5 and ctx = ?ctx] by (fastforce simp: two_ip_simps)
qed

end
