(* ===== verification/Upstream_Least_Conn.thy ===== *)
theory Upstream_Least_Conn
  imports Complex_Main Upstream_Balancer
begin

section \<open>Balancing by connections (ngx_http_upstream_least_conn_module.c)\<close>

text \<open>
  src/ngx-1.12.0/src/http/modules/ngx_http_upstream_least_conn_module.c. A first loop finds the
  server with the fewest connections for its weight, comparing \<open>conns / weight\<close> by products of
  64 bits; when several servers share that ratio, a second loop chooses among them the way
  round robin does.
\<close>

subsection \<open>Model\<close>

text \<open>\<open>peer->conns * best->weight\<close>\<close>

definition lc_cross :: "rr_peer \<Rightarrow> rr_peer \<Rightarrow> u64" where
  "lc_cross p b = conns p * word_of_int (weight b)"

text \<open>The first loop: the best server so far with its place, and \<open>many\<close>.\<close>

fun lc_scan ::
    "(nat \<Rightarrow> rr_peer \<Rightarrow> bool) \<Rightarrow> nat \<Rightarrow> (nat \<times> rr_peer \<times> bool) option \<Rightarrow> rr_peer list \<Rightarrow> (nat \<times> rr_peer \<times> bool) option" where
  "lc_scan skip i best [] = best"
| "lc_scan skip i best (p # ps) =
     (if skip i p then lc_scan skip (i + 1) best ps
      else case best of
          None \<Rightarrow> lc_scan skip (i + 1) (Some (i, p, False)) ps
        | Some (j, b, many) \<Rightarrow>
            if lc_cross p b < lc_cross b p then lc_scan skip (i + 1) (Some (i, p, False)) ps
            else if lc_cross p b = lc_cross b p then lc_scan skip (i + 1) (Some (j, b, True)) ps
            else lc_scan skip (i + 1) best ps)"

text \<open>
  The second loop, from the best server \<open>j\<close> on: \<open>b\<close> is that server as it is now. It is the first
  one the loop comes to, and is compared with itself there.
\<close>

fun lc_tie ::
    "(nat \<Rightarrow> rr_peer \<Rightarrow> bool) \<Rightarrow> nat \<Rightarrow> nat \<Rightarrow> rr_peer \<Rightarrow> int \<Rightarrow> rr_peer list \<Rightarrow> rr_peer list \<times> int \<times> nat" where
  "lc_tie skip i j b tot [] = ([], tot, j)"
| "lc_tie skip i j b tot (p # ps) =
     (if skip i p \<or> lc_cross p b \<noteq> lc_cross b p
      then case lc_tie skip (i + 1) j b tot ps of (ps', r) \<Rightarrow> (p # ps', r)
      else
        let p = p\<lparr>current_weight := current_weight p + effective_weight p\<rparr>;
            tot = tot + effective_weight p;
            p = (if effective_weight p < weight p then p\<lparr>effective_weight := effective_weight p + 1\<rparr> else p);
            b = (if i = j then p else b);
            (j, b) = (if current_weight p > current_weight b then (i, p) else (j, b))
        in case lc_tie skip (i + 1) j b tot ps of (ps', r) \<Rightarrow> (p # ps', r))"

definition lc_pick ::
    "check_peers \<Rightarrow> int \<Rightarrow> u64 list \<Rightarrow> rr_peer list \<Rightarrow> rr_peer list \<times> u64 list \<times> nat option" where
  "lc_pick ctx now t ps =
     (case lc_scan (rr_skip ctx now t) 0 None ps of
        None \<Rightarrow> (ps, t, None)
      | Some (p, b, many) \<Rightarrow>
          case (if many
                then case lc_tie (rr_skip ctx now t) p p b 0 (drop p ps) of (qs, tot, p') \<Rightarrow> (take p ps @ qs, tot, p')
                else (ps, 0, p)) of
            (ps, tot, p) \<Rightarrow>
              let b = ps ! p;
                  b = b\<lparr>current_weight := current_weight b - tot\<rparr>;
                  b = (if now - checked b > fail_timeout b then b\<lparr>checked := now\<rparr> else b);
                  b = b\<lparr>conns := conns b + 1\<rparr>
              in (ps[p := b], mark_tried t p, Some p))"

text \<open>
  \<open>ngx_http_upstream_get_least_conn_peer\<close>. As for round robin, a group without a server leads to
  the next group, with a cleared bitmap.
\<close>

function ngx_http_upstream_get_least_conn_peer ::
    "check_peers \<Rightarrow> int \<Rightarrow> rr_peers list \<Rightarrow> rr_data \<Rightarrow> int \<times> rr_peers list \<times> rr_data" where
  "ngx_http_upstream_get_least_conn_peer ctx now chain d =
     (let k = peers_at d; g = chain ! k
      in if single g then ngx_http_upstream_get_round_robin_peer ctx now chain d
         else case lc_pick ctx now (tried d) (peer g) of
             (ps, t, Some p) \<Rightarrow> (NGX_OK, chain[k := g\<lparr>peer := ps\<rparr>], d\<lparr>current := Some (k, p), tried := t\<rparr>)
           | (ps, t, None) \<Rightarrow>
               if k + 1 < length chain
               then let n = tried_words (number (chain ! (k + 1)))
                    in ngx_http_upstream_get_least_conn_peer ctx now chain
                         (d\<lparr>peers_at := k + 1, tried := replicate n 0 @ drop n (tried d)\<rparr>)
               else (NGX_BUSY, chain, d))"
  by auto
termination
  by (relation "measure (\<lambda>(ctx, now, chain, d). length chain - peers_at d)") auto

declare ngx_http_upstream_get_least_conn_peer.simps [simp del]

definition ngx_http_upstream_init_least_conn_peer :: "unit \<Rightarrow> rr_peers list \<Rightarrow> rr_data \<times> nat" where
  "ngx_http_upstream_init_least_conn_peer a chain = ngx_http_upstream_init_round_robin_peer chain"

subsection \<open>The second loop\<close>

lemma lc_tie_Cons:
  "lc_tie skip i j b tot (p # ps) =
     (if skip i p \<or> lc_cross p b \<noteq> lc_cross b p
      then let r = lc_tie skip (Suc i) j b tot ps in (p # fst r, snd r)
      else let b = (if i = j then rr_bump p else b); c = current_weight (rr_bump p) > current_weight b;
               r = lc_tie skip (Suc i) (if c then i else j) (if c then rr_bump p else b) (tot + effective_weight p) ps
           in (rr_bump p # fst r, snd r))"
  by (simp add: Let_def rr_bump_def split_beta)

declare lc_tie.simps(2) [simp del] lc_tie_Cons [simp]

text \<open>Whatever the products are: servers are bumped or left alone, and the total is what was added.\<close>

lemma lc_tie_peers:
  "length (fst (lc_tie skip i j b tot ps)) = length ps
   \<and> (\<forall>m<length ps. fst (lc_tie skip i j b tot ps) ! m \<in> {ps ! m, rr_bump (ps ! m)})"
proof (induction ps arbitrary: i j b tot)
  case (Cons p ps)
  show ?case
    using Cons.IH by (auto simp: Let_def nth_Cons split: nat.split)
qed simp

lemma lc_tie_total:
  "(\<Sum>p\<leftarrow>fst (lc_tie skip i j b tot ps). current_weight p) = (\<Sum>p\<leftarrow>ps. current_weight p) + fst (snd (lc_tie skip i j b tot ps)) - tot"
proof (induction ps arbitrary: i j b tot)
  case (Cons p ps)
  show ?case by (simp add: Let_def Cons.IH)
qed simp

text \<open>A place in the list that is not left out.\<close>

definition place :: "(nat \<Rightarrow> rr_peer \<Rightarrow> bool) \<Rightarrow> nat \<Rightarrow> rr_peer list \<Rightarrow> nat \<Rightarrow> rr_peer \<Rightarrow> bool" where
  "place skip i ps j b \<longleftrightarrow> (\<exists>m<length ps. j = i + m \<and> b = ps ! m \<and> \<not> skip j b)"

lemma place_Nil [simp]: "place skip i [] = (\<lambda>_ _. False)"
  by (simp add: place_def fun_eq_iff)

lemma place_Cons [simp]:
  "place skip i (p # ps) j b \<longleftrightarrow> j = i \<and> b = p \<and> \<not> skip i p \<or> place skip (Suc i) ps j b"
  unfolding place_def by (auto simp: less_Suc_eq_0_disj)

lemma place_0: "place skip 0 ps j b \<longleftrightarrow> j < length ps \<and> b = ps ! j \<and> \<not> skip j (ps ! j)"
  by (auto simp: place_def)

lemma lc_tie_place:
  "snd (snd (lc_tie skip i j b tot ps)) = j \<or> (\<exists>c. place skip i ps (snd (snd (lc_tie skip i j b tot ps))) c)"
proof (induction ps arbitrary: i j b tot)
  case (Cons p ps)
  show ?case
  proof (cases "skip i p \<or> lc_cross p b \<noteq> lc_cross b p")
    case True
    then show ?thesis using Cons.IH [of "Suc i" j b tot] by (auto simp: Let_def)
  next
    case False
    obtain j' b' where jb: "snd (snd (lc_tie skip i j b tot (p # ps))) = snd (snd (lc_tie skip (Suc i) j' b' (tot + effective_weight p) ps))"
      and j': "j' = j \<or> j' = i" using False by (simp add: Let_def)
    show ?thesis using Cons.IH [of "Suc i" j' b' "tot + effective_weight p"] j' False unfolding jb by auto
  qed
qed simp

subsection \<open>The first loop\<close>

definition lc_best :: "nat \<Rightarrow> rr_peer \<Rightarrow> (nat \<times> rr_peer \<times> bool) option \<Rightarrow> nat \<times> rr_peer \<times> bool" where
  "lc_best i p best = (case best of
       None \<Rightarrow> (i, p, False)
     | Some (j, b, many) \<Rightarrow>
         if lc_cross p b < lc_cross b p then (i, p, False) else (j, b, many \<or> lc_cross p b = lc_cross b p))"

lemma lc_scan_Cons:
  "lc_scan skip i best (p # ps) = lc_scan skip (Suc i) (if skip i p then best else Some (lc_best i p best)) ps"
  by (auto simp: lc_best_def split: option.split)

declare lc_scan.simps(2) [simp del] lc_scan_Cons [simp]

lemma lc_scan_place:
  "lc_scan skip i best ps = Some (j, b, many) \<Longrightarrow> (\<exists>m. best = Some (j, b, m)) \<or> place skip i ps j b"
proof (induction ps arbitrary: i best)
  case (Cons p ps)
  from Cons.IH [of "Suc i" "if skip i p then best else Some (lc_best i p best)"] Cons.prems show ?case
    by (cases "skip i p") (auto simp: lc_best_def split: option.splits if_splits)
qed simp

lemma lc_scan_none: "lc_scan skip i best ps = None \<longleftrightarrow> best = None \<and> (\<forall>j b. \<not> place skip i ps j b)"
  by (induction ps arbitrary: i best) auto

subsection \<open>One group\<close>

lemma lc_pick_none:
  assumes "lc_pick ctx now t ps = (ps', t', None)"
  shows "ps' = ps \<and> t' = t \<and> (\<forall>j<length ps. rr_skip ctx now t j (ps ! j))"
proof -
  have n: "lc_scan (rr_skip ctx now t) 0 None ps = None"
    using assms by (auto simp: lc_pick_def Let_def split: option.splits prod.splits)
  then have "\<forall>j b. \<not> place (rr_skip ctx now t) 0 ps j b" by (simp only: lc_scan_none simp_thms)
  then show ?thesis using assms n by (simp add: place_0 lc_pick_def)
qed

lemma lc_pick_some:
  assumes "lc_pick ctx now t ps = (ps', t', Some p)"
  shows "\<exists>qs tot. length qs = length ps \<and> (\<forall>m<length ps. qs ! m \<in> {ps ! m, rr_bump (ps ! m)})
    \<and> (\<Sum>q\<leftarrow>qs. current_weight q) = (\<Sum>q\<leftarrow>ps. current_weight q) + tot
    \<and> p < length ps \<and> \<not> rr_skip ctx now t p (ps ! p) \<and> t' = mark_tried t p
    \<and> ps' = qs[p := (rr_chosen now tot (qs ! p))\<lparr>conns := conns (qs ! p) + 1\<rparr>]"
proof -
  let ?skip = "rr_skip ctx now t"
  obtain j b many where sc: "lc_scan ?skip 0 None ps = Some (j, b, many)"
    using assms by (cases "lc_scan ?skip 0 None ps") (auto simp: lc_pick_def)
  then have j: "j < length ps" "\<not> ?skip j (ps ! j)" using lc_scan_place [OF sc] by (auto simp: place_0)
  let ?r = "lc_tie ?skip j j b 0 (drop j ps)"
  define qs where "qs = (if many then take j ps @ fst ?r else ps)"
  define tot where "tot = (if many then fst (snd ?r) else 0)"
  have p: "p = (if many then snd (snd ?r) else j)" "t' = mark_tried t p"
    "ps' = qs[p := (rr_chosen now tot (qs ! p))\<lparr>conns := conns (qs ! p) + 1\<rparr>]"
    using assms sc by (cases many; auto simp: lc_pick_def qs_def tot_def rr_chosen_def Let_def split_beta)+
  have len: "length qs = length ps" using lc_tie_peers [of ?skip j j b 0 "drop j ps"] j(1) by (simp add: qs_def)
  have "qs ! m \<in> {ps ! m, rr_bump (ps ! m)}" if "m < length ps" for m
  proof (cases "m < j \<or> \<not> many")
    case False
    then have "m - j < length (drop j ps)" using that by (auto simp: not_less diff_less_mono)
    then have "fst ?r ! (m - j) \<in> {drop j ps ! (m - j), rr_bump (drop j ps ! (m - j))}"
      using lc_tie_peers [of ?skip j j b 0 "drop j ps"] by blast
    then show ?thesis using False that by (simp add: qs_def nth_append)
  qed (use j that in \<open>auto simp: qs_def nth_append\<close>)
  moreover have "(\<Sum>q\<leftarrow>qs. current_weight q) = (\<Sum>q\<leftarrow>ps. current_weight q) + tot"
  proof -
    have "(\<Sum>q\<leftarrow>ps. current_weight q) = (\<Sum>q\<leftarrow>take j ps. current_weight q) + (\<Sum>q\<leftarrow>drop j ps. current_weight q)"
      by (metis append_take_drop_id map_append sum_list_append)
    then show ?thesis using lc_tie_total [of ?skip j j b 0 "drop j ps"] by (simp add: qs_def tot_def)
  qed
  moreover have "p < length ps \<and> \<not> ?skip p (ps ! p)"
  proof (cases many)
    case True
    from lc_tie_place [of ?skip j j b 0 "drop j ps"] show ?thesis using p(1) True j by (auto simp: place_def)
  qed (use p(1) j in simp)
  ultimately show ?thesis using len p(2,3) by blast
qed

lemma lc_pick_chain:
  assumes "chain_ok chain" "data_ok chain d" "g = chain ! peers_at d" "lc_pick ctx now (tried d) (peer g) = (ps, t, Some p)"
  shows "got chain NGX_OK (chain[peers_at d := g\<lparr>peer := ps\<rparr>]) (d\<lparr>current := Some (peers_at d, p), tried := t\<rparr>)
    \<and> same_shape chain (chain[peers_at d := g\<lparr>peer := ps\<rparr>])"
proof -
  let ?k = "peers_at d"
  let ?chain = "chain[?k := g\<lparr>peer := ps\<rparr>]"
  have k: "?k < length chain" using assms(2) by (simp add: data_ok_def)
  have g: "group_ok g" using assms(1,3) k by (simp add: chain_ok_def list_all_length)
  obtain qs tot where q: "length qs = length (peer g)" "\<And>m. m < length (peer g) \<Longrightarrow> qs ! m \<in> {peer g ! m, rr_bump (peer g ! m)}"
    "(\<Sum>q\<leftarrow>qs. current_weight q) = (\<Sum>q\<leftarrow>peer g. current_weight q) + tot" "p < length (peer g)"
    "\<not> rr_skip ctx now (tried d) p (peer g ! p)" "t = mark_tried (tried d) p"
    and ps: "ps = qs[p := (rr_chosen now tot (qs ! p))\<lparr>conns := conns (qs ! p) + 1\<rparr>]"
    using lc_pick_some [OF assms(4)] by blast
  have same: "conns (qs ! m) = conns (peer g ! m)" "max_conns (qs ! m) = max_conns (peer g ! m)"
    "weight (qs ! m) = weight (peer g ! m)" "rr_server (qs ! m) = rr_server (peer g ! m)" "effective_ok (qs ! m)"
    if "m < length (peer g)" for m
  proof -
    have "effective_ok (peer g ! m)" using g that by (simp add: group_ok_def weights_ok_def)
    then show "conns (qs ! m) = conns (peer g ! m)" "max_conns (qs ! m) = max_conns (peer g ! m)"
      "weight (qs ! m) = weight (peer g ! m)" "rr_server (qs ! m) = rr_server (peer g ! m)" "effective_ok (qs ! m)"
      using q(2) [OF that] effective_bump by auto
  qed
  let ?b = "(rr_chosen now tot (qs ! p))\<lparr>conns := conns (qs ! p) + 1\<rparr>"
  have "(\<Sum>q\<leftarrow>ps. current_weight q) = (\<Sum>q\<leftarrow>qs. current_weight q) - tot"
    using q(1,4) by (simp add: ps sum_list_update_int)
  moreover have "effective_ok x" if "x \<in> set ps" for x
  proof -
    have "effective_ok ?b" using same(5) [OF q(4)] by (simp add: effective_ok_def)
    moreover have "x \<in> insert ?b (set qs)" using that set_update_subset_insert [of qs p ?b] unfolding ps by blast
    moreover have "effective_ok y" if "y \<in> set qs" for y using that same(5) q(1) by (auto simp: in_set_conv_nth)
    ultimately show ?thesis by blast
  qed
  ultimately have "weights_ok ps" using g q(3) by (simp add: weights_ok_def group_ok_def)
  moreover have len: "length ps = length (peer g)" using q(1) ps by simp
  ultimately have "group_ok (g\<lparr>peer := ps\<rparr>)" using g by (auto simp: group_ok_def)
  then have c: "chain_ok ?chain" using chain_update assms(1) k by blast
  have st: "conns_step chain ?chain (\<lambda>x. if x = (?k, p) then 1 else 0)"
    using g k same q(1,4) assms(3) unfolding conns_step_def by (auto simp: nth_list_update group_ok_def ps)
  have "data_ok ?chain (d\<lparr>current := Some (?k, p), tried := t\<rparr>)"
    using data_ok_shape [OF assms(2) st] k by (simp add: q(6) mark_tried_def)
  moreover have "\<not> full_conns (peer (chain ! ?k) ! p)" "p < number (chain ! ?k)"
    using q(4,5) g assms(3) by (simp_all add: rr_skip_def group_ok_def)
  ultimately have "got chain NGX_OK ?chain (d\<lparr>current := Some (?k, p), tried := t\<rparr>)" using c st by (auto simp: got_def)
  moreover have "map (\<lambda>p. (weight p, rr_server p)) ps = map (\<lambda>p. (weight p, rr_server p)) (peer g)"
    by (rule nth_equalityI) (use len same q(1,4) in \<open>auto simp: ps nth_list_update\<close>)
  then have "same_shape chain ?chain" by (intro same_shape_update) (simp_all add: assms(3))
  ultimately show ?thesis by blast
qed

subsection \<open>least_conn as a method\<close>

lemma least_conn_got:
  assumes "chain_ok chain" "data_ok chain d"
  shows "\<exists>rc chain' d'. ngx_http_upstream_get_least_conn_peer ctx now chain d = (rc, chain', d')
    \<and> got chain rc chain' d' \<and> same_shape chain chain'"
  using assms
proof (induction ctx now chain d rule: ngx_http_upstream_get_least_conn_peer.induct)
  case (1 ctx now chain d)
  let ?k = "peers_at d" and ?g = "chain ! peers_at d"
  note unfold = ngx_http_upstream_get_least_conn_peer.simps [of ctx now chain d]
  have k: "?k < length chain" using "1.prems"(2) by (simp add: data_ok_def)
  show ?case
  proof (cases "single ?g")
    case True
    then show ?thesis using round_robin_got [OF "1.prems", of ctx now] by (simp add: unfold Let_def)
  next
    case single: False
    obtain ps t r where pick: "lc_pick ctx now (tried d) (peer ?g) = (ps, t, r)"
      by (cases "lc_pick ctx now (tried d) (peer ?g)") auto
    show ?thesis
    proof (cases r)
      case (Some p)
      then show ?thesis
        using lc_pick_chain [OF "1.prems" refl pick [unfolded Some]] pick single by (simp add: unfold Let_def)
    next
      case None
      show ?thesis
      proof (cases "?k + 1 < length chain")
        case True
        define n where "n = tried_words (number (chain ! (?k + 1)))"
        define d1 where "d1 = d\<lparr>peers_at := ?k + 1, tried := replicate n 0 @ drop n (tried d)\<rparr>"
        have "n \<le> length (tried d)" using True "1.prems"(2) by (simp add: data_ok_def n_def)
        then have "data_ok chain d1" using "1.prems"(2) True by (simp add: data_ok_def d1_def)
        moreover have "ngx_http_upstream_get_least_conn_peer ctx now chain d = ngx_http_upstream_get_least_conn_peer ctx now chain d1"
          using True single by (simp add: unfold pick None Let_def d1_def n_def)
        ultimately show ?thesis
          using "1.IH" [OF refl refl single pick [symmetric] refl None True n_def] "1.prems"(1) unfolding d1_def by simp
      next
        case False
        then show ?thesis
          using "1.prems" single by (simp add: unfold pick None Let_def got_def)
      qed
    qed
  qed
qed

definition least_conn_get :: "check_peers \<Rightarrow> int \<Rightarrow> rr_peers list \<Rightarrow> rr_data \<Rightarrow> (int \<times> rr_peers list \<times> rr_data) option" where
  "least_conn_get ctx now chain d = Some (ngx_http_upstream_get_least_conn_peer ctx now chain d)"

interpretation least_conn: peer_method ngx_http_upstream_init_least_conn_peer least_conn_get id
proof unfold_locales
  fix chain ctx now and d :: rr_data
  assume "chain_ok chain" "data_ok chain (id d)"
  then show "\<exists>rc chain' d'. least_conn_get ctx now chain d = Some (rc, chain', d') \<and> got chain rc chain' (id d') \<and> same_shape chain chain'"
    using least_conn_got [of chain d ctx now] by (auto simp: least_conn_get_def)
qed (simp add: ngx_http_upstream_init_least_conn_peer_def)

subsection \<open>The server with the least load\<close>

text \<open>Connections for each unit of weight, and servers whose products do not wrap around.\<close>

definition load :: "rr_peer \<Rightarrow> rat" where
  "load p = of_int (uint (conns p)) / of_int (weight p)"

definition no_wrap :: "rr_peer \<Rightarrow> rr_peer \<Rightarrow> bool" where
  "no_wrap p b \<longleftrightarrow> 0 < weight p \<and> 0 < weight b \<and> uint (conns p) * weight b < 2 ^ 64 \<and> uint (conns b) * weight p < 2 ^ 64"

lemma load_bump [simp]: "load (rr_bump p) = load p"
  by (simp add: load_def)

lemma uint_cross: "0 \<le> weight b \<Longrightarrow> uint (conns p) * weight b < 2 ^ 64 \<Longrightarrow> uint (lc_cross p b) = uint (conns p) * weight b"
proof -
  assume b: "0 \<le> weight b" "uint (conns p) * weight b < 2 ^ 64"
  have "uint (lc_cross p b) = uint (conns p) * weight b mod 2 ^ 64"
    by (simp add: lc_cross_def uint_word_ariths unsigned_of_int take_bit_eq_mod mod_mult_right_eq)
  then show ?thesis using b by simp
qed

lemma cross_load:
  assumes "no_wrap p b"
  shows "lc_cross p b < lc_cross b p \<longleftrightarrow> load p < load b" "lc_cross p b = lc_cross b p \<longleftrightarrow> load p = load b"
proof -
  have u: "uint (lc_cross p b) = uint (conns p) * weight b" "uint (lc_cross b p) = uint (conns b) * weight p"
    using assms uint_cross [of b p] uint_cross [of p b] by (simp_all add: no_wrap_def)
  have w: "0 < weight p" "0 < weight b" using assms by (simp_all add: no_wrap_def)
  have "load p < load b \<longleftrightarrow> (of_int (uint (conns p) * weight b) :: rat) < of_int (uint (conns b) * weight p)"
    using w by (simp add: load_def divide_less_eq less_divide_eq mult.commute)
  then show "lc_cross p b < lc_cross b p \<longleftrightarrow> load p < load b" by (simp only: of_int_less_iff u word_less_def)
  have "load p = load b \<longleftrightarrow> (of_int (uint (conns p) * weight b) :: rat) = of_int (uint (conns b) * weight p)"
    using w by (simp add: load_def divide_eq_eq eq_divide_eq mult.commute)
  then show "lc_cross p b = lc_cross b p \<longleftrightarrow> load p = load b" by (simp only: of_int_eq_iff u word_uint_eq_iff)
qed

text \<open>
  What the first loop knows after the servers \<open>S\<close>: the best has the least load, it is the first
  one with that load, and without \<open>many\<close> the only one.
\<close>

definition lc_known :: "(nat \<times> rr_peer) set \<Rightarrow> (nat \<times> rr_peer \<times> bool) option \<Rightarrow> bool" where
  "lc_known S best \<longleftrightarrow> (case best of
       None \<Rightarrow> S = {}
     | Some (j, b, many) \<Rightarrow> (j, b) \<in> S \<and> (\<forall>(q, x)\<in>S. load b \<le> load x \<and> (load x = load b \<longrightarrow> j \<le> q)
         \<and> (\<not> many \<longrightarrow> (q, x) \<noteq> (j, b) \<longrightarrow> load b < load x)))"

lemma lc_known_step:
  assumes "lc_known S best" "\<forall>(q, x)\<in>S. q < i \<and> no_wrap p x"
  shows "lc_known (insert (i, p) S) (Some (lc_best i p best))"
proof (cases best)
  case None
  then show ?thesis using assms(1) by (simp add: lc_known_def lc_best_def)
next
  case (Some c)
  obtain j b many where c: "c = (j, b, many)" by (cases c)
  have k: "(j, b) \<in> S" "\<And>q x. (q, x) \<in> S \<Longrightarrow> load b \<le> load x"
    "\<And>q x. (q, x) \<in> S \<Longrightarrow> load x = load b \<Longrightarrow> j \<le> q"
    "\<And>q x. (q, x) \<in> S \<Longrightarrow> \<not> many \<Longrightarrow> (q, x) \<noteq> (j, b) \<Longrightarrow> load b < load x"
    using assms(1) unfolding lc_known_def Some c by auto
  have "no_wrap p b" "j < i" using assms(2) k(1) by auto
  note cross = cross_load [OF this(1)]
  consider "load p < load b" | "load p = load b" | "load b < load p" by linarith
  then show ?thesis
  proof cases
    case 1
    then have "load p < load x" if "(q, x) \<in> S" for q x using k(2) [OF that] by simp
    then show ?thesis using 1 by (fastforce simp: lc_known_def lc_best_def Some c cross)
  next
    case 2
    then show ?thesis using k \<open>j < i\<close> by (auto simp: lc_known_def lc_best_def Some c cross)
  next
    case 3
    then show ?thesis using k \<open>j < i\<close> by (auto simp: lc_known_def lc_best_def Some c cross)
  qed
qed

lemma lc_scan_known:
  assumes "lc_known S best" "\<forall>(q, x)\<in>S. q < i" "\<forall>p\<in>set ps. \<forall>x\<in>snd ` S \<union> set ps. no_wrap p x"
  shows "lc_known (S \<union> {(q, x). place skip i ps q x}) (lc_scan skip i best ps)"
  using assms
proof (induction ps arbitrary: i best S)
  case (Cons p ps)
  show ?case
  proof (cases "skip i p")
    case True
    then show ?thesis using Cons.IH [of S best "Suc i"] Cons.prems by (auto simp: less_Suc_eq)
  next
    case False
    have "lc_known (insert (i, p) S) (Some (lc_best i p best))"
      using Cons.prems by (intro lc_known_step) (force+)
    then have "lc_known (insert (i, p) S \<union> {(q, x). place skip (Suc i) ps q x}) (lc_scan skip (Suc i) (Some (lc_best i p best)) ps)"
      using Cons.prems by (intro Cons.IH) (auto simp: less_Suc_eq)
    moreover have "insert (i, p) S \<union> {(q, x). place skip (Suc i) ps q x} = S \<union> {(q, x). place skip i (p # ps) q x}"
      using False by auto
    ultimately show ?thesis using False by simp
  qed
qed simp

text \<open>The second loop, past the first of the servers with the least load.\<close>

lemma lc_tie_max:
  assumes "j < i" "\<forall>p\<in>set ps. no_wrap p b" "\<forall>p\<in>set ps. \<forall>x\<in>set ps. no_wrap p x"
    and "r = snd (snd (lc_tie skip i j b tot ps))"
  shows "\<exists>w. (r = j \<and> w = current_weight b \<or> (\<exists>x. place skip i ps r x \<and> load x = load b \<and> w = current_weight (rr_bump x)))
    \<and> current_weight b \<le> w \<and> (\<forall>q x. place skip i ps q x \<and> load x = load b \<longrightarrow> current_weight (rr_bump x) \<le> w)"
  using assms
proof (induction ps arbitrary: i j b tot r)
  case (Cons p ps)
  have eq: "lc_cross p b = lc_cross b p \<longleftrightarrow> load p = load b" using cross_load(2) Cons.prems(2) by simp
  show ?case
  proof (cases "skip i p \<or> load p \<noteq> load b")
    case True
    then have "r = snd (snd (lc_tie skip (Suc i) j b tot ps))" using Cons.prems(4) eq by (simp add: Let_def)
    with Cons.IH [of j "Suc i" b r tot] Cons.prems(1-3) True show ?thesis by (auto simp: less_Suc_eq)
  next
    case False
    define c where "c = (current_weight (rr_bump p) > current_weight b)"
    let ?j = "if c then i else j" and ?b = "if c then rr_bump p else b"
    have r: "r = snd (snd (lc_tie skip (Suc i) ?j ?b (tot + effective_weight p) ps))"
      using Cons.prems(1,4) False eq by (simp add: Let_def c_def)
    have nw: "no_wrap x (rr_bump y) = no_wrap x y" for x y by (simp add: no_wrap_def)
    have "\<exists>w. (r = ?j \<and> w = current_weight ?b \<or> (\<exists>x. place skip (Suc i) ps r x \<and> load x = load ?b \<and> w = current_weight (rr_bump x)))
      \<and> current_weight ?b \<le> w \<and> (\<forall>q x. place skip (Suc i) ps q x \<and> load x = load ?b \<longrightarrow> current_weight (rr_bump x) \<le> w)"
      using Cons.prems(1-3) by (intro Cons.IH [OF _ _ _ r]) (auto simp: nw)
    moreover have "load ?b = load b" using False by simp
    ultimately show ?thesis using False by (cases c) (auto simp: c_def)
  qed
qed auto

lemma lc_pick_least:
  assumes "\<forall>x\<in>set ps. \<forall>y\<in>set ps. no_wrap x y" "lc_pick ctx now t ps = (ps', t', Some p)"
    and "q < length ps" "\<not> rr_skip ctx now t q (ps ! q)"
  shows "load (ps ! p) \<le> load (ps ! q)
    \<and> (load (ps ! q) = load (ps ! p) \<longrightarrow> current_weight (rr_bump (ps ! q)) \<le> current_weight (rr_bump (ps ! p)))"
proof -
  let ?skip = "rr_skip ctx now t"
  let ?S = "{(q, x). place ?skip 0 ps q x}"
  obtain j b many where sc: "lc_scan ?skip 0 None ps = Some (j, b, many)"
    using assms(2) by (cases "lc_scan ?skip 0 None ps") (auto simp: lc_pick_def)
  have k: "lc_known ?S (Some (j, b, many))"
    using lc_scan_known [of "{}" None 0 ps ?skip] assms(1) by (simp add: sc lc_known_def)
  then have j: "j < length ps" "b = ps ! j" by (auto simp: lc_known_def place_0)
  have least: "load b \<le> load (ps ! i)" "load (ps ! i) = load b \<Longrightarrow> j \<le> i" "\<not> many \<Longrightarrow> i \<noteq> j \<Longrightarrow> load b < load (ps ! i)"
    if "i < length ps" "\<not> ?skip i (ps ! i)" for i
    using k that by (auto simp: lc_known_def place_0)
  show ?thesis
  proof (cases many)
    case False
    then have "p = j" using assms(2) sc by (simp add: lc_pick_def Let_def)
    then show ?thesis using least [OF assms(3,4)] False j by (cases "q = j") auto
  next
    case True
    have "\<not> ?skip j b" using k by (simp add: lc_known_def place_0)
    then have "lc_tie ?skip j j b 0 (drop j ps) = (rr_bump b # fst r, snd r)"
      if "r = lc_tie ?skip (Suc j) j (rr_bump b) (effective_weight b) (drop (Suc j) ps)" for r
      using j that by (simp add: Let_def Cons_nth_drop_Suc [symmetric])
    then have r: "p = snd (snd (lc_tie ?skip (Suc j) j (rr_bump b) (effective_weight b) (drop (Suc j) ps)))"
      using True assms(2) by (auto simp: lc_pick_def sc Let_def split: prod.splits)
    have "\<forall>x\<in>set (drop (Suc j) ps). no_wrap x (rr_bump b)" "\<forall>x\<in>set (drop (Suc j) ps). \<forall>y\<in>set (drop (Suc j) ps). no_wrap x y"
      using assms(1) j by (auto simp: no_wrap_def dest!: in_set_dropD)
    from lc_tie_max [OF lessI this r] obtain w where
      w: "p = j \<and> w = current_weight (rr_bump b) \<or>
        (\<exists>x. place ?skip (Suc j) (drop (Suc j) ps) p x \<and> load x = load b \<and> w = current_weight (rr_bump x))"
      "current_weight (rr_bump b) \<le> w"
      "\<And>i x. place ?skip (Suc j) (drop (Suc j) ps) i x \<Longrightarrow> load x = load b \<Longrightarrow> current_weight (rr_bump x) \<le> w"
      unfolding load_bump by blast
    have p: "load (ps ! p) = load b \<and> w = current_weight (rr_bump (ps ! p))"
      using w(1) j by (auto simp: place_def)
    show ?thesis
    proof (cases "load (ps ! q) = load b \<and> q \<noteq> j")
      case True
      then have "place ?skip (Suc j) (drop (Suc j) ps) q (ps ! q)"
        using least(2) [OF assms(3,4)] assms(3,4) by (auto simp: place_def intro!: exI [of _ "q - Suc j"])
      then show ?thesis using w(3) True p by auto
    qed (use least(1) [OF assms(3,4)] w(2) p j in auto)
  qed
qed

text \<open>
  Which server \<open>least_conn\<close> gives a request: as long as the products of connections and weights
  fit 64 bits, and a server of the request's group may be used, one that may be used and has
  the least number of connections for its weight; among several with that load one whose
  current weight, raised as for round robin, is greatest. The server has one connection more.
\<close>

theorem least_conn_exact:
  assumes "chain_ok chain" "data_ok chain d" "k = peers_at d" "g = chain ! k" "\<not> single g"
    and "\<forall>x\<in>set (peer g). \<forall>y\<in>set (peer g). no_wrap x y"
    and "E = {q. q < number g \<and> \<not> rr_skip ctx now (tried d) q (peer g ! q)}" "E \<noteq> {}"
  shows "\<exists>chain' d' p. ngx_http_upstream_get_least_conn_peer ctx now chain d = (NGX_OK, chain', d')
    \<and> current d' = Some (k, p) \<and> p \<in> E \<and> conns (peer (chain' ! k) ! p) = conns (peer g ! p) + 1
    \<and> (\<forall>q\<in>E. load (peer g ! p) \<le> load (peer g ! q)
        \<and> (load (peer g ! q) = load (peer g ! p) \<longrightarrow>
             current_weight (rr_bump (peer g ! q)) \<le> current_weight (rr_bump (peer g ! p))))"
proof -
  have k: "k < length chain" using assms(2,3) by (simp add: data_ok_def)
  then have n: "number g = length (peer g)" using assms(1,4) by (simp add: chain_ok_def list_all_length group_ok_def)
  obtain ps t r where pick: "lc_pick ctx now (tried d) (peer g) = (ps, t, r)"
    by (cases "lc_pick ctx now (tried d) (peer g)") auto
  with assms(7,8) n lc_pick_none obtain p where r: "r = Some p" by (cases r) fastforce+
  from lc_pick_some [OF pick [unfolded r]] obtain qs tot where
    q: "length qs = length (peer g)" "p < length (peer g)" "\<not> rr_skip ctx now (tried d) p (peer g ! p)"
      "qs ! p \<in> {peer g ! p, rr_bump (peer g ! p)}"
    and ps: "ps = qs[p := (rr_chosen now tot (qs ! p))\<lparr>conns := conns (qs ! p) + 1\<rparr>]" by auto
  have "ngx_http_upstream_get_least_conn_peer ctx now chain d
      = (NGX_OK, chain[k := g\<lparr>peer := ps\<rparr>], d\<lparr>current := Some (k, p), tried := t\<rparr>)"
    using assms(3-5) pick r by (simp add: ngx_http_upstream_get_least_conn_peer.simps [of ctx now chain d] Let_def)
  moreover have "conns (ps ! p) = conns (peer g ! p) + 1" using q ps by auto
  moreover have "p \<in> E" using q n assms(7) by simp
  ultimately show ?thesis
    using lc_pick_least [OF assms(6) pick [unfolded r]] assms(7) n k by auto
qed

end
