(* ===== verification/Ngx_Queue.thy ===== *)
theory Ngx_Queue
  imports Ngx_Prelude "HOL-Library.Multiset"
begin

section \<open>Doubly linked queues (ngx_queue.h, ngx_queue.c)\<close>

text \<open>
  The intrusive lists of src/ngx-1.12.0/src/core/ngx_queue.h and ngx_queue.c: every node has
  two pointers, and a queue is a ring of nodes through a sentinel. Pointers are shared and
  updated in place, so the model has an explicit memory: \<open>prev\<close> and \<open>next\<close> of every address.
  Each macro is the sequence of its assignments, in order. \<open>ngx_queue_remove\<close> is the one of
  the build without \<open>NGX_DEBUG\<close>. The loops of \<open>ngx_queue_middle\<close> and \<open>ngx_queue_sort\<close> end
  only on well-formed rings: they return an option, and returning is proved.
\<close>

subsection \<open>Model\<close>

record qmem =
  qprev :: "nat \<Rightarrow> nat"
  qnext :: "nat \<Rightarrow> nat"

definition set_prev :: "nat \<Rightarrow> nat \<Rightarrow> qmem \<Rightarrow> qmem" where
  "set_prev a v m = m\<lparr>qprev := (qprev m)(a := v)\<rparr>"

definition set_next :: "nat \<Rightarrow> nat \<Rightarrow> qmem \<Rightarrow> qmem" where
  "set_next a v m = m\<lparr>qnext := (qnext m)(a := v)\<rparr>"

definition ngx_queue_init :: "nat \<Rightarrow> qmem \<Rightarrow> qmem" where
  "ngx_queue_init q m = (let m = set_prev q q m in set_next q q m)"

definition ngx_queue_empty :: "nat \<Rightarrow> qmem \<Rightarrow> bool" where
  "ngx_queue_empty h m \<longleftrightarrow> h = qprev m h"

definition ngx_queue_insert_head :: "nat \<Rightarrow> nat \<Rightarrow> qmem \<Rightarrow> qmem" where
  "ngx_queue_insert_head h x m =
     (let m = set_next x (qnext m h) m;
          m = set_prev (qnext m x) x m;
          m = set_prev x h m
      in set_next h x m)"

definition ngx_queue_insert_tail :: "nat \<Rightarrow> nat \<Rightarrow> qmem \<Rightarrow> qmem" where
  "ngx_queue_insert_tail h x m =
     (let m = set_prev x (qprev m h) m;
          m = set_next (qprev m x) x m;
          m = set_next x h m
      in set_prev h x m)"

definition ngx_queue_head :: "nat \<Rightarrow> qmem \<Rightarrow> nat" where "ngx_queue_head h m = qnext m h"

definition ngx_queue_last :: "nat \<Rightarrow> qmem \<Rightarrow> nat" where "ngx_queue_last h m = qprev m h"

definition ngx_queue_remove :: "nat \<Rightarrow> qmem \<Rightarrow> qmem" where
  "ngx_queue_remove x m =
     (let m = set_prev (qnext m x) (qprev m x) m
      in set_next (qprev m x) (qnext m x) m)"

definition ngx_queue_split :: "nat \<Rightarrow> nat \<Rightarrow> nat \<Rightarrow> qmem \<Rightarrow> qmem" where
  "ngx_queue_split h q n m =
     (let m = set_prev n (qprev m h) m;
          m = set_next (qprev m n) n m;
          m = set_next n q m;
          m = set_prev h (qprev m q) m;
          m = set_next (qprev m h) h m
      in set_prev q n m)"

definition ngx_queue_add :: "nat \<Rightarrow> nat \<Rightarrow> qmem \<Rightarrow> qmem" where
  "ngx_queue_add h n m =
     (let m = set_next (qprev m h) (qnext m n) m;
          m = set_prev (qnext m n) (qprev m h) m;
          m = set_prev h (qprev m n) m
      in set_next (qprev m h) h m)"

partial_function (option) middle_loop :: "nat \<Rightarrow> qmem \<Rightarrow> nat \<Rightarrow> nat \<Rightarrow> nat option" where
  "middle_loop queue m middle nxt =
     (let middle = qnext m middle; nxt = qnext m nxt
      in if nxt = ngx_queue_last queue m then Some middle
         else
           let nxt = qnext m nxt
           in if nxt = ngx_queue_last queue m then Some middle else middle_loop queue m middle nxt)"

definition ngx_queue_middle :: "nat \<Rightarrow> qmem \<Rightarrow> nat option" where
  "ngx_queue_middle queue m =
     (let middle = ngx_queue_head queue m
      in if middle = ngx_queue_last queue m then Some middle
         else middle_loop queue m middle (ngx_queue_head queue m))"

partial_function (option) sort_back :: "nat \<Rightarrow> (nat \<Rightarrow> nat \<Rightarrow> int) \<Rightarrow> nat \<Rightarrow> qmem \<Rightarrow> nat \<Rightarrow> nat option" where
  "sort_back queue cmp q m prv =
     (if cmp prv q \<le> 0 then Some prv
      else
        let prv = qprev m prv
        in if prv \<noteq> queue then sort_back queue cmp q m prv else Some prv)"

partial_function (option) sort_loop :: "nat \<Rightarrow> (nat \<Rightarrow> nat \<Rightarrow> int) \<Rightarrow> qmem \<Rightarrow> nat \<Rightarrow> qmem option" where
  "sort_loop queue cmp m q =
     (if q = queue then Some m
      else
        let prv = qprev m q; nxt = qnext m q; m = ngx_queue_remove q m
        in case sort_back queue cmp q m prv of
             None \<Rightarrow> None
           | Some prv \<Rightarrow> sort_loop queue cmp (ngx_queue_insert_head prv q m) nxt)"

definition ngx_queue_sort :: "nat \<Rightarrow> (nat \<Rightarrow> nat \<Rightarrow> int) \<Rightarrow> qmem \<Rightarrow> qmem option" where
  "ngx_queue_sort queue cmp m =
     (let q = ngx_queue_head queue m
      in if q = ngx_queue_last queue m then Some m else sort_loop queue cmp m (qnext m q))"

subsection \<open>Rings\<close>

text \<open>Consecutive nodes of a list point at each other; a queue is a ring through its sentinel.\<close>

fun linked :: "qmem \<Rightarrow> nat list \<Rightarrow> bool" where
  "linked m (a # b # xs) \<longleftrightarrow> qnext m a = b \<and> qprev m b = a \<and> linked m (b # xs)"
| "linked m _ \<longleftrightarrow> True"

definition ring :: "qmem \<Rightarrow> nat \<Rightarrow> nat list \<Rightarrow> bool" where
  "ring m h xs \<longleftrightarrow> distinct (h # xs) \<and> linked m (h # xs @ [h])"

lemma set_sel [simp]:
  "qprev (set_prev a v m) = (qprev m)(a := v)" "qnext (set_prev a v m) = qnext m"
  "qnext (set_next a v m) = (qnext m)(a := v)" "qprev (set_next a v m) = qprev m"
  by (simp_all add: set_prev_def set_next_def)

lemma linked_append: "linked m (xs @ y # ys) \<longleftrightarrow> linked m (xs @ [y]) \<and> linked m (y # ys)"
  by (induction m xs rule: linked.induct) (cases ys; auto)+

lemma linked_cong:
  assumes "\<And>a. a \<in> set (butlast xs) \<Longrightarrow> qnext m a = qnext m' a" "\<And>a. a \<in> set (tl xs) \<Longrightarrow> qprev m a = qprev m' a"
  shows "linked m xs \<longleftrightarrow> linked m' xs"
  using assms by (induction m xs rule: linked.induct) auto

lemma ring_cong:
  assumes "\<And>a. a \<in> set (h # xs) \<Longrightarrow> qnext m a = qnext m' a" "\<And>a. a \<in> set (h # xs) \<Longrightarrow> qprev m a = qprev m' a"
  shows "ring m h xs \<longleftrightarrow> ring m' h xs"
  unfolding ring_def using assms by (subst linked_cong [of _ m m']) (auto dest: in_set_butlastD)

lemma linked_two: "linked m (us @ p # y # vs) \<longleftrightarrow> linked m (us @ [p]) \<and> qnext m p = y \<and> qprev m y = p \<and> linked m (y # vs)"
  by (subst linked_append) simp

lemma linked_snoc: "xs \<noteq> [] \<Longrightarrow> linked m (xs @ [y]) \<longleftrightarrow> linked m xs \<and> qnext m (last xs) = y \<and> qprev m y = last xs"
  by (cases xs rule: rev_cases) (simp_all add: linked_two)

lemma linked_frame:
  assumes "linked m xs" "\<And>a. a \<in> set (butlast xs) \<Longrightarrow> qnext m' a = qnext m a" "\<And>a. a \<in> set (tl xs) \<Longrightarrow> qprev m' a = qprev m a"
  shows "linked m' xs"
  using assms linked_cong [of xs m m'] by simp

text \<open>
  A ring seen around the link behind \<open>as\<close>, from \<open>last (h # as)\<close> to \<open>hd (bs @ [h])\<close>.
\<close>

lemma ring_split:
  "ring m h (as @ bs) \<longleftrightarrow> distinct (h # as @ bs) \<and> linked m (h # as) \<and> linked m (bs @ [h])
     \<and> qnext m (last (h # as)) = hd (bs @ [h]) \<and> qprev m (hd (bs @ [h])) = last (h # as)"
proof -
  let ?us = "butlast (h # as)" and ?p = "last (h # as)" and ?y = "hd (bs @ [h])" and ?vs = "tl (bs @ [h])"
  have as: "?us @ [?p] = h # as" and bs: "?y # ?vs = bs @ [h]" by simp_all
  have e: "h # (as @ bs) @ [h] = ?us @ ?p # ?y # ?vs"
  proof -
    have "h # (as @ bs) @ [h] = (?us @ [?p]) @ (?y # ?vs)" by (simp only: as bs append_Cons append_assoc)
    then show ?thesis by (simp only: append_assoc append_Cons append_Nil)
  qed
  show ?thesis unfolding ring_def e linked_two unfolding as bs by blast
qed

lemma linked_Cons: "linked m (x # zs) \<longleftrightarrow> zs = [] \<or> qnext m x = hd zs \<and> qprev m (hd zs) = x \<and> linked m zs"
  by (cases zs) auto

lemma tlD: "a \<in> set (tl xs) \<Longrightarrow> a \<in> set xs"
  by (cases xs) auto

lemma last_in: "last (h # as) \<in> set (h # as)"
  by (rule last_in_set) simp

lemma hd_in: "hd (bs @ [h]) \<in> set (bs @ [h])"
  by (rule hd_in_set) simp

lemma ring_insert_after:
  assumes r: "ring m h (as @ bs)" and x: "x \<notin> set (h # as @ bs)" and p: "p = last (h # as)"
  shows "ring (ngx_queue_insert_head p x m) h (as @ x # bs)"
proof -
  let ?m = "ngx_queue_insert_head p x m" and ?y = "hd (bs @ [h])"
  have c: "distinct (h # as @ bs)" "linked m (h # as)" "linked m (bs @ [h])" "qnext m p = ?y"
    using r unfolding ring_split p by auto
  have ps: "p \<in> set (h # as)" "?y \<in> set (bs @ [h])" unfolding p by (rule last_in, rule hd_in)
  have m: "qnext ?m = (qnext m)(x := ?y, p := x)" "qprev ?m = (qprev m)(?y := x, x := p)"
    using x c(4) ps by (auto simp: ngx_queue_insert_head_def Let_def)
  have y: "?y \<notin> set as" "?y \<notin> set (tl (bs @ [h]))" using c(1) by (cases bs; auto)+
  have bl: "set (butlast (h # as)) \<subseteq> set (h # as) - {p}"
    using c(1) unfolding p by (cases as rule: rev_cases) auto
  have "linked ?m (h # as)"
    by (rule linked_frame [OF c(2)]) (use bl x y in \<open>auto simp: m\<close>)
  moreover have "linked ?m (bs @ [h])"
    by (rule linked_frame [OF c(3)]) (use x y ps c(1) in \<open>auto simp: m dest: tlD\<close>)
  moreover have "qnext ?m p = x" "qprev ?m x = p" "qnext ?m x = ?y" "qprev ?m ?y = x"
    using x ps by (auto simp: m)
  ultimately show ?thesis
    using c(1) x unfolding ring_split [of _ _ as "x # bs"] p [symmetric] by (simp add: linked_Cons [of _ x])
qed

lemma ring_ends:
  "ring m h xs \<Longrightarrow> qprev m h = last (h # xs) \<and> qnext m (last (h # xs)) = h \<and> qnext m h = hd (xs @ [h]) \<and> linked m (h # xs)"
  using ring_split [of m h xs "[]"] ring_split [of m h "[]" xs] by simp

lemma insert_tail_eq:
  assumes "ring m h xs" "x \<notin> set (h # xs)"
  shows "ngx_queue_insert_tail h x m = ngx_queue_insert_head (last (h # xs)) x m"
proof -
  let ?p = "last (h # xs)"
  have p: "qprev m h = ?p" "qnext m ?p = h" "x \<noteq> h" "x \<noteq> ?p"
    using ring_ends [OF assms(1)] assms(2) last_in [of h xs] by auto
  have "qprev (ngx_queue_insert_tail h x m) = qprev (ngx_queue_insert_head ?p x m)"
    "qnext (ngx_queue_insert_tail h x m) = qnext (ngx_queue_insert_head ?p x m)"
    using p by (auto simp: ngx_queue_insert_tail_def ngx_queue_insert_head_def Let_def fun_eq_iff simp del: last.simps)
  then show ?thesis by simp
qed

lemma ring_insert_tail:
  "ring m h xs \<Longrightarrow> x \<notin> set (h # xs) \<Longrightarrow> ring (ngx_queue_insert_tail h x m) h (xs @ [x])"
  using ring_insert_after [of m h xs "[]" x] insert_tail_eq [of m h xs x] by simp

lemma ring_insert_head:
  "ring m h xs \<Longrightarrow> x \<notin> set (h # xs) \<Longrightarrow> ring (ngx_queue_insert_head h x m) h (x # xs)"
  using ring_insert_after [of m h "[]" xs x h] by simp

lemma ring_remove:
  assumes r: "ring m h (as @ x # bs)"
  shows "ring (ngx_queue_remove x m) h (as @ bs)"
proof -
  let ?m = "ngx_queue_remove x m" and ?y = "hd (bs @ [h])" and ?p = "last (h # as)"
  have c: "distinct (h # as @ x # bs)" "linked m (h # as)" "linked m (bs @ [h])" "qprev m x = ?p" "qnext m x = ?y"
    using r unfolding ring_split by (auto simp: linked_Cons [of _ x] simp del: last.simps)
  have ps: "?p \<in> set (h # as)" "?y \<in> set (bs @ [h])" by (rule last_in, rule hd_in)
  then have "?y \<noteq> x" using c(1) by auto
  then have m: "qnext ?m = (qnext m)(?p := ?y)" "qprev ?m = (qprev m)(?y := ?p)"
    using c(4,5) by (auto simp: ngx_queue_remove_def Let_def simp del: last.simps)
  have y: "?y \<notin> set as" "?y \<notin> set (tl (bs @ [h]))" using c(1) by (cases bs; auto)+
  have bl: "set (butlast (h # as)) \<subseteq> set (h # as) - {?p}"
    using c(1) by (cases as rule: rev_cases) auto
  have "linked ?m (h # as)"
    by (rule linked_frame [OF c(2)]) (use bl y in \<open>auto simp: m simp del: last.simps\<close>)
  moreover have "linked ?m (bs @ [h])"
    by (rule linked_frame [OF c(3)]) (use y ps c(1) in \<open>auto simp: m dest: tlD simp del: last.simps\<close>)
  ultimately show ?thesis
    using c(1) unfolding ring_split [of _ _ as bs] by (simp add: m del: last.simps)
qed

lemma ring_init: "ring (ngx_queue_init h m) h []"
  by (simp add: ring_def ngx_queue_init_def Let_def)

lemma ring_empty: "ring m h xs \<Longrightarrow> ngx_queue_empty h m \<longleftrightarrow> xs = []"
  using ring_ends [of m h xs] last_in_set [of xs] by (auto simp: ngx_queue_empty_def ring_def)

lemma ring_split_queue:
  assumes r: "ring m h (as @ q # bs)" and n: "n \<notin> set (h # as @ q # bs)"
  shows "ring (ngx_queue_split h q n m) h as \<and> ring (ngx_queue_split h q n m) n (q # bs)"
proof -
  let ?m = "ngx_queue_split h q n m" and ?p = "last (h # as)" and ?l = "last (q # bs)"
  have c: "distinct (h # as @ q # bs)" "linked m (h # as)" "qprev m q = ?p"
    using r unfolding ring_split by (auto simp del: last.simps)
  have l: "qprev m h = ?l" "linked m (q # bs)"
    using ring_ends [OF r] linked_append [of m "h # as" q bs] by simp_all
  have ps: "?p \<in> set (h # as)" "?l \<in> set (q # bs)" by (rule last_in)+
  have ne: "?p \<noteq> ?l" "n \<noteq> ?p" "n \<noteq> ?l" "n \<noteq> h" "n \<noteq> q" "h \<noteq> q" using ps c(1) n by auto
  have m: "qnext ?m = (qnext m)(?l := n, n := q, ?p := h)" "qprev ?m = (qprev m)(n := ?l, h := ?p, q := n)"
    using c(3) l(1) ne by (auto simp: ngx_queue_split_def Let_def simp del: last.simps)
  have bl: "set (butlast (h # as)) \<subseteq> set (h # as) - {?p}" "set (butlast (q # bs)) \<subseteq> set (q # bs) - {?l}"
    using c(1) by (cases as rule: rev_cases; auto) (cases bs rule: rev_cases; use c(1) in auto)
  have "linked ?m (h # as)"
    by (rule linked_frame [OF c(2)]) (use bl ps n c(1) in \<open>auto simp: m simp del: last.simps\<close>)
  moreover have "linked ?m (q # bs)"
    by (rule linked_frame [OF l(2)]) (use bl ps n c(1) in \<open>auto simp: m simp del: last.simps\<close>)
  moreover have "last (n # q # bs) = ?l" by simp
  ultimately show ?thesis
    using c(1) n ne ring_split [of ?m h as "[]"] ring_split [of ?m n "q # bs" "[]"]
    by (auto simp: m linked_Cons [of _ n] simp del: last.simps)
qed

lemma ring_add_empty:
  assumes r: "ring m h xs" "ring m n []" and d: "n \<notin> set (h # xs)"
  shows "ring (ngx_queue_add h n m) h xs"
proof -
  let ?m = "ngx_queue_add h n m" and ?p = "last (h # xs)"
  have c: "qprev m h = ?p" "qnext m ?p = h" "qnext m n = n" "qprev m n = n"
    using ring_ends [OF r(1)] r(2) by (simp_all add: ring_def)
  have p: "?p \<in> set (h # xs)" by (rule last_in)
  have "qnext ?m a = qnext m a \<and> qprev ?m a = qprev m a" if "a \<in> set (h # xs)" for a
    using c p d that by (auto simp: ngx_queue_add_def Let_def simp del: last.simps)
  then show ?thesis using r(1) ring_cong [of h xs ?m m] by simp
qed

lemma ring_add:
  assumes r: "ring m h xs" "ring m n (f # ys)" and d: "set (h # xs) \<inter> set (n # f # ys) = {}"
  shows "ring (ngx_queue_add h n m) h (xs @ f # ys)"
proof -
  let ?m = "ngx_queue_add h n m" and ?p = "last (h # xs)" and ?e = "last (f # ys)"
  have c: "distinct (h # xs)" "distinct (n # f # ys)" using r by (simp_all add: ring_def)
  have a: "qprev m h = ?p" "qnext m n = f" "qprev m n = ?e" "linked m (h # xs)" "linked m (f # ys)"
    using ring_ends [OF r(1)] ring_ends [OF r(2)] by (simp_all add: linked_Cons [of _ n])
  have ps: "?p \<in> set (h # xs)" "?e \<in> set (f # ys)" by (rule last_in)+
  have ne: "?p \<noteq> ?e" "?e \<noteq> h" "f \<noteq> h" "f \<noteq> n" "n \<noteq> h" using ps d c by auto
  have m: "qnext ?m = (qnext m)(?p := f, ?e := h)" "qprev ?m = (qprev m)(f := ?p, h := ?e)"
    using a(1-3) ne by (auto simp: ngx_queue_add_def Let_def simp del: last.simps)
  have bl: "set (butlast (h # xs)) \<subseteq> set (h # xs) - {?p}" "set (butlast (f # ys)) \<subseteq> set (f # ys) - {?e}"
    using c by (cases xs rule: rev_cases; auto) (cases ys rule: rev_cases; use c in auto)
  have "linked ?m (h # xs)"
    by (rule linked_frame [OF a(4)]) (use bl ps d c in \<open>auto simp: m simp del: last.simps\<close>)
  moreover have "linked ?m (f # ys)"
    by (rule linked_frame [OF a(5)]) (use bl ps d c in \<open>auto simp: m simp del: last.simps\<close>)
  moreover have "linked ?m ((f # ys) @ [h]) \<longleftrightarrow> linked ?m (f # ys) \<and> qnext ?m ?e = h \<and> qprev ?m h = ?e"
    by (rule linked_snoc) simp
  ultimately show ?thesis
    using c d ne unfolding ring_split [of _ h xs] by (auto simp: m simp del: last.simps)
qed

subsection \<open>Walking along a ring\<close>

lemma linked_nth: "linked m zs \<Longrightarrow> Suc i < length zs \<Longrightarrow> qnext m (zs ! i) = zs ! Suc i \<and> qprev m (zs ! Suc i) = zs ! i"
proof (induction m zs arbitrary: i rule: linked.induct)
  case (1 m a b xs)
  then show ?case by (cases i) auto
qed auto

lemma ring_next:
  assumes "ring m h xs" "i < length xs"
  shows "qnext m (xs ! i) = (if Suc i < length xs then xs ! Suc i else h)"
  using linked_nth [of m "h # xs @ [h]" "Suc i"] assms by (simp add: ring_def nth_append)

lemma middle_loop_result:
  assumes r: "ring m h xs" and i: "2 * i + 1 < length xs"
  shows "middle_loop h m (xs ! i) (xs ! (2 * i)) = Some (xs ! (length xs div 2))"
  using i
proof (induction "length xs - 2 * i" arbitrary: i rule: less_induct)
  case less
  have l: "ngx_queue_last h m = xs ! (length xs - 1)"
    using ring_ends [OF r] less.prems by (cases xs) (auto simp: ngx_queue_last_def last_conv_nth)
  have d: "distinct xs" using r by (simp add: ring_def)
  have at: "xs ! j = ngx_queue_last h m \<longleftrightarrow> j = length xs - 1" if "j < length xs" for j
    using d that less.prems by (simp add: l nth_eq_iff_index_eq)
  have s1: "qnext m (xs ! i) = xs ! Suc i" "qnext m (xs ! (2 * i)) = xs ! Suc (2 * i)"
    using ring_next [OF r] less.prems by simp_all
  show ?case
  proof (cases "2 * i + 3 < length xs")
    case True
    have s2: "qnext m (xs ! Suc (2 * i)) = xs ! (2 * Suc i)" using ring_next [OF r, of "Suc (2 * i)"] True by simp
    have "xs ! Suc (2 * i) \<noteq> ngx_queue_last h m" "xs ! (2 * Suc i) \<noteq> ngx_queue_last h m"
      using at [of "Suc (2 * i)"] at [of "2 * Suc i"] True by auto
    then have "middle_loop h m (xs ! i) (xs ! (2 * i)) = middle_loop h m (xs ! Suc i) (xs ! (2 * Suc i))"
      by (subst middle_loop.simps) (simp only: Let_def s1 s2 if_False)
    then show ?thesis using less.hyps [of "Suc i"] True by simp
  next
    case False
    then consider "length xs = 2 * i + 2" | "length xs = 2 * i + 3" using less.prems by linarith
    then show ?thesis
    proof cases
      case 1
      then show ?thesis using at [of "Suc (2 * i)"] by (subst middle_loop.simps) (simp add: Let_def s1)
    next
      case 2
      then have "qnext m (xs ! Suc (2 * i)) = xs ! (2 * i + 2)" using ring_next [OF r, of "Suc (2 * i)"] by simp
      then show ?thesis
        using 2 at [of "Suc (2 * i)"] at [of "2 * i + 2"] by (subst middle_loop.simps) (simp add: Let_def s1)
    qed
  qed
qed

lemma queue_middle:
  assumes r: "ring m h xs" and ne: "xs \<noteq> []"
  shows "ngx_queue_middle h m = Some (xs ! (length xs div 2))"
proof -
  have hd: "ngx_queue_head h m = xs ! 0" using ring_ends [OF r] ne by (simp add: ngx_queue_head_def hd_append hd_conv_nth)
  have l: "ngx_queue_last h m = xs ! (length xs - 1)"
    using ring_ends [OF r] ne by (simp add: ngx_queue_last_def last_conv_nth)
  have eq: "xs ! 0 = xs ! (length xs - 1) \<longleftrightarrow> length xs = 1"
    using r ne nth_eq_iff_index_eq [of xs 0 "length xs - 1"] by (cases xs) (auto simp: ring_def)
  show ?thesis
  proof (cases "length xs = 1")
    case True
    then show ?thesis using hd l by (simp add: ngx_queue_middle_def)
  next
    case False
    then have "1 < length xs" using ne by (cases xs) auto
    then show ?thesis
      using middle_loop_result [OF r, of 0] False eq hd l by (simp add: ngx_queue_middle_def)
  qed
qed

subsection \<open>Sorting\<close>

text \<open>Where the loop puts \<open>q\<close>: behind the last node that is not greater, or at the head.\<close>

definition not_greater :: "(nat \<Rightarrow> nat \<Rightarrow> int) \<Rightarrow> nat \<Rightarrow> nat list \<Rightarrow> nat list" where
  "not_greater cmp q as = rev (dropWhile (\<lambda>p. 0 < cmp p q) (rev as))"

definition greater :: "(nat \<Rightarrow> nat \<Rightarrow> int) \<Rightarrow> nat \<Rightarrow> nat list \<Rightarrow> nat list" where
  "greater cmp q as = rev (takeWhile (\<lambda>p. 0 < cmp p q) (rev as))"

definition insert_sorted :: "(nat \<Rightarrow> nat \<Rightarrow> int) \<Rightarrow> nat list \<Rightarrow> nat \<Rightarrow> nat list" where
  "insert_sorted cmp as q = not_greater cmp q as @ q # greater cmp q as"

lemma not_greater_greater: "not_greater cmp q as @ greater cmp q as = as"
  unfolding not_greater_def greater_def by (metis rev_append rev_rev_ident takeWhile_dropWhile_id)

lemma not_greater_snoc:
  "not_greater cmp q (as @ [p]) = (if 0 < cmp p q then not_greater cmp q as else as @ [p])"
  by (simp add: not_greater_def)

lemma sort_back_result:
  "ring m h (as @ bs) \<Longrightarrow> as \<noteq> [] \<Longrightarrow> sort_back h cmp q m (last as) = Some (last (h # not_greater cmp q as))"
proof (induction as arbitrary: bs rule: rev_induct)
  case (snoc p as)
  have r: "ring m h (as @ p # bs)" using snoc.prems(1) by simp
  then have prv: "qprev m p = last (h # as)" unfolding ring_split [of m h as] by simp
  show ?case
  proof (cases "0 < cmp p q")
    case False
    then show ?thesis by (subst sort_back.simps) (simp add: not_greater_snoc)
  next
    case True
    show ?thesis
    proof (cases "as = []")
      case True
      then show ?thesis
        using \<open>0 < cmp p q\<close> prv by (subst sort_back.simps) (simp add: not_greater_def)
    next
      case False
      then have "last as \<noteq> h" using r last_in_set [of as] by (auto simp: ring_def)
      then show ?thesis
        using snoc.IH [OF r False] True False prv by (subst sort_back.simps) (simp add: not_greater_snoc Let_def)
    qed
  qed
qed simp

lemma sort_step:
  assumes r: "ring m h (as @ q # bs)" and ne: "as \<noteq> []"
  shows "sort_loop h cmp m q = sort_loop h cmp
      (ngx_queue_insert_head (last (h # not_greater cmp q as)) q (ngx_queue_remove q m)) (hd (bs @ [h]))
    \<and> ring (ngx_queue_insert_head (last (h # not_greater cmp q as)) q (ngx_queue_remove q m)) h (insert_sorted cmp as q @ bs)"
proof -
  have d: "distinct (h # as @ q # bs)" using r by (simp add: ring_def)
  have n: "qprev m q = last as" "qnext m q = hd (bs @ [h])"
    using r ne unfolding ring_split [of m h as] by (auto simp: linked_Cons [of _ q])
  have r1: "ring (ngx_queue_remove q m) h (as @ bs)" by (rule ring_remove [OF r])
  have "q \<noteq> h" using d by auto
  then have "sort_loop h cmp m q = sort_loop h cmp
      (ngx_queue_insert_head (last (h # not_greater cmp q as)) q (ngx_queue_remove q m)) (hd (bs @ [h]))"
    using sort_back_result [OF r1 ne, of cmp q] by (subst sort_loop.simps) (simp add: Let_def n del: last.simps)
  moreover have "ring (ngx_queue_insert_head (last (h # not_greater cmp q as)) q (ngx_queue_remove q m)) h
      (not_greater cmp q as @ q # (greater cmp q as @ bs))"
  proof (rule ring_insert_after [OF _ _ refl])
    show "ring (ngx_queue_remove q m) h (not_greater cmp q as @ greater cmp q as @ bs)"
      using r1 not_greater_greater [of cmp q as] by (metis append_assoc)
    show "q \<notin> set (h # not_greater cmp q as @ greater cmp q as @ bs)"
    proof -
      have "set (not_greater cmp q as @ greater cmp q as) = set as" by (simp only: not_greater_greater)
      then show ?thesis using d by auto
    qed
  qed
  ultimately show ?thesis by (simp add: insert_sorted_def)
qed

lemma sort_loop_result:
  "ring m h (as @ bs) \<Longrightarrow> as \<noteq> [] \<Longrightarrow>
    \<exists>m'. sort_loop h cmp m (hd (bs @ [h])) = Some m' \<and> ring m' h (foldl (insert_sorted cmp) as bs)"
proof (induction bs arbitrary: m as)
  case Nil
  then show ?case by (subst sort_loop.simps) simp
next
  case (Cons q bs)
  have "insert_sorted cmp as q \<noteq> []" by (simp add: insert_sorted_def)
  then show ?case
    using sort_step [OF Cons.prems, of cmp] Cons.IH [of _ "insert_sorted cmp as q"] by auto
qed

lemma queue_sort:
  assumes r: "ring m h xs"
  shows "\<exists>m'. ngx_queue_sort h cmp m = Some m' \<and> ring m' h (foldl (insert_sorted cmp) [] xs)"
proof (cases xs)
  case Nil
  then show ?thesis
    using r ring_ends [OF r] by (simp add: ngx_queue_sort_def ngx_queue_head_def ngx_queue_last_def)
next
  case (Cons x ys)
  have one: "insert_sorted cmp [] x = [x]" by (simp add: insert_sorted_def not_greater_def greater_def)
  have hd: "ngx_queue_head h m = x" "ngx_queue_last h m = last (x # ys)"
    using ring_ends [OF r] by (simp_all add: Cons ngx_queue_head_def ngx_queue_last_def)
  show ?thesis
  proof (cases "ys = []")
    case True
    then show ?thesis using r hd one by (simp add: ngx_queue_sort_def Cons)
  next
    case False
    then have "x \<noteq> last (x # ys)" using r last_in_set [of ys] by (auto simp: ring_def Cons)
    moreover have "qnext m x = hd (ys @ [h])"
      using r ring_split [of m h "[x]" ys] by (simp add: Cons)
    ultimately show ?thesis
      using sort_loop_result [of m h "[x]" ys cmp] r hd one by (simp add: ngx_queue_sort_def Cons)
  qed
qed

text \<open>When the comparison orders nodes by a key, this is the stable sort by that key.\<close>

lemma insert_sorted_key:
  fixes key :: "nat \<Rightarrow> 'k :: linorder"
  assumes cmp: "\<And>a b. cmp a b \<le> 0 \<longleftrightarrow> key a \<le> key b" and so: "sorted (map key as)"
  shows "sorted (map key (insert_sorted cmp as q))
    \<and> mset (insert_sorted cmp as q) = mset (as @ [q])
    \<and> filter (\<lambda>x. key x = k) (insert_sorted cmp as q) = filter (\<lambda>x. key x = k) (as @ [q])"
proof -
  let ?l = "not_greater cmp q as" and ?g = "greater cmp q as"
  have as: "as = ?l @ ?g" by (simp add: not_greater_greater)
  have gr: "key q < key x" if "x \<in> set ?g" for x
    using that cmp [of x q] by (auto simp: greater_def dest!: set_takeWhileD)
  have le: "key x \<le> key q" if "x \<in> set ?l" for x
  proof (cases ?l rule: rev_cases)
    case (snoc ys y)
    then have "rev (y # rev ys) = rev (dropWhile (\<lambda>p. 0 < cmp p q) (rev as))" by (simp add: not_greater_def)
    then have "dropWhile (\<lambda>p. 0 < cmp p q) (rev as) = y # rev ys" by (metis rev_rev_ident)
    then have "\<not> 0 < cmp y q" by (metis dropWhile_eq_Cons_conv)
    then have "key y \<le> key q" using cmp by (meson not_le)
    moreover have "sorted (map key (ys @ [y] @ ?g))" using so as snoc by simp
    then have "key x \<le> key y" using that snoc by (auto simp: sorted_append)
    ultimately show ?thesis by simp
  qed (use that in simp)
  have "sorted (map key ?l)" "sorted (map key ?g)" "\<forall>x\<in>set ?l. \<forall>y\<in>set ?g. key x \<le> key y"
    using so by (subst (asm) as; auto simp: sorted_append)+
  then have "sorted (map key (insert_sorted cmp as q))"
    using gr le by (auto simp: insert_sorted_def sorted_append dest!: gr intro: less_imp_le)
  moreover have "mset (insert_sorted cmp as q) = mset (as @ [q])"
    by (subst (2) as) (simp add: insert_sorted_def)
  moreover have "filter (\<lambda>x. key x = k) (insert_sorted cmp as q) = filter (\<lambda>x. key x = k) (as @ [q])"
  proof (cases "key q = k")
    case True
    then have "filter (\<lambda>x. key x = k) ?g = []" using gr by (fastforce simp: filter_empty_conv)
    then show ?thesis by (subst (2) as) (simp add: insert_sorted_def True)
  next
    case False
    then show ?thesis by (subst (2) as) (simp add: insert_sorted_def)
  qed
  ultimately show ?thesis by blast
qed

lemma fold_insert_sorted:
  fixes key :: "nat \<Rightarrow> 'k :: linorder"
  assumes cmp: "\<And>a b. cmp a b \<le> 0 \<longleftrightarrow> key a \<le> key b" and so: "sorted (map key as)"
  shows "sorted (map key (foldl (insert_sorted cmp) as bs))
    \<and> mset (foldl (insert_sorted cmp) as bs) = mset (as @ bs)
    \<and> (\<forall>k. filter (\<lambda>x. key x = k) (foldl (insert_sorted cmp) as bs) = filter (\<lambda>x. key x = k) (as @ bs))"
  using so
proof (induction bs arbitrary: as)
  case (Cons b bs)
  note i = insert_sorted_key [of cmp key as b, OF cmp Cons.prems]
  show ?case using Cons.IH [of "insert_sorted cmp as b"] i by simp
qed simp

lemma fold_insert_sorted_key:
  fixes key :: "nat \<Rightarrow> 'k :: linorder"
  assumes cmp: "\<And>a b. cmp a b \<le> 0 \<longleftrightarrow> key a \<le> key b"
  shows "foldl (insert_sorted cmp) [] xs = sort_key key xs"
  using fold_insert_sorted [of cmp key "[]" xs, OF cmp] properties_for_sort_key [of "foldl (insert_sorted cmp) [] xs" xs key]
  by (auto simp: eq_commute)

subsection \<open>Interface: a list that is changed in place\<close>

text \<open>
  What the modules that keep nodes in order of use rely on: a representation of a list in
  memory that can be extended at the head and from which a node can be taken. Moving a node
  to the head is the removal and insertion they do; the order is then the order of last use.
\<close>

locale linked_list =
  fixes rep :: "'m \<Rightarrow> 'a \<Rightarrow> 'a list \<Rightarrow> bool"
    and push :: "'a \<Rightarrow> 'a \<Rightarrow> 'm \<Rightarrow> 'm"
    and unlink :: "'a \<Rightarrow> 'm \<Rightarrow> 'm"
  assumes rep_distinct: "rep m h xs \<Longrightarrow> distinct (h # xs)"
    and rep_push: "rep m h xs \<Longrightarrow> x \<notin> set (h # xs) \<Longrightarrow> rep (push h x m) h (x # xs)"
    and rep_unlink: "rep m h (as @ x # bs) \<Longrightarrow> rep (unlink x m) h (as @ bs)"
begin

lemma rep_unlink_remove1: "rep m h xs \<Longrightarrow> x \<in> set xs \<Longrightarrow> rep (unlink x m) h (remove1 x xs)"
  using rep_unlink rep_distinct by (metis distinct.simps(2) remove1_append remove1.simps(2) split_list_first)

lemma rep_touch:
  assumes "rep m h xs" "x \<in> set xs"
  shows "rep (push h x (unlink x m)) h (x # remove1 x xs)"
proof (rule rep_push [OF rep_unlink_remove1 [OF assms]])
  show "x \<notin> set (h # remove1 x xs)" using rep_distinct [OF assms(1)] assms(2) by auto
qed

text \<open>After touching nodes one by one, the most recently touched are in front, in that order.\<close>

lemma rep_touch_all:
  "rep m h xs \<Longrightarrow> set us \<subseteq> set xs \<Longrightarrow>
    rep (fold (\<lambda>x m. push h x (unlink x m)) us m) h (fold (\<lambda>x xs. x # remove1 x xs) us xs)"
proof (induction us arbitrary: m xs)
  case (Cons u us)
  have r: "rep (push h u (unlink u m)) h (u # remove1 u xs)" using rep_touch Cons.prems by simp
  have "set (u # remove1 u xs) = set xs" using rep_distinct [OF Cons.prems(1)] Cons.prems(2) by auto
  then show ?case using Cons.IH [OF r] Cons.prems(2) by simp
qed simp

end

interpretation queue: linked_list ring ngx_queue_insert_head ngx_queue_remove
proof
  show "ring m h xs \<Longrightarrow> distinct (h # xs)" for m h xs by (simp add: ring_def)
  show "ring m h xs \<Longrightarrow> x \<notin> set (h # xs) \<Longrightarrow> ring (ngx_queue_insert_head h x m) h (x # xs)" for m h xs x
    by (rule ring_insert_head)
  show "ring m h (as @ x # bs) \<Longrightarrow> ring (ngx_queue_remove x m) h (as @ bs)" for m h as x bs by (rule ring_remove)
qed

subsection \<open>Properties\<close>

text \<open>
  C26: Every queue operation implements the list operation it stands for, in place: on a
  ring through the sentinel \<open>h\<close> with the nodes \<open>xs\<close>, which may be none, and a new node \<open>x\<close>,
  initialising \<open>x\<close> makes an empty ring and leaves this one alone, insertion at head and tail
  adds \<open>x\<close> there, adding a ring of other nodes appends it, the test for emptiness is right and
  head and last are the first and the last node; and for every node \<open>q\<close> of the ring,
  insertion behind \<open>q\<close> adds \<open>x\<close> there, removal takes \<open>q\<close> out, and splitting at \<open>q\<close> with the
  new sentinel \<open>x\<close> gives the two parts as rings.
\<close>

theorem queue_refines_list:
  assumes "ring m h xs" "x \<notin> set (h # xs)" "ring m n ys" "set (h # xs) \<inter> set (n # ys) = {}"
  shows "ring (ngx_queue_init x m) x [] \<and> ring (ngx_queue_init x m) h xs
    \<and> ring (ngx_queue_insert_head h x m) h (x # xs)
    \<and> ring (ngx_queue_insert_tail h x m) h (xs @ [x])
    \<and> ring (ngx_queue_add h n m) h (xs @ ys)
    \<and> (ngx_queue_empty h m \<longleftrightarrow> xs = [])
    \<and> ngx_queue_head h m = hd (xs @ [h]) \<and> ngx_queue_last h m = last (h # xs)
    \<and> (\<forall>as q bs. xs = as @ q # bs \<longrightarrow>
         ring (ngx_queue_insert_head q x m) h (as @ q # x # bs)
       \<and> ring (ngx_queue_remove q m) h (as @ bs)
       \<and> ring (ngx_queue_split h q x m) h as \<and> ring (ngx_queue_split h q x m) x (q # bs))"
proof (intro conjI allI impI)
  show "ring (ngx_queue_init x m) h xs"
    by (rule ring_cong [THEN iffD1, OF _ _ assms(1)]) (use assms(2) in \<open>auto simp: ngx_queue_init_def\<close>)
  show "ring (ngx_queue_add h n m) h (xs @ ys)"
    using ring_add_empty [OF assms(1)] ring_add [OF assms(1)] assms(3,4) by (cases ys) auto
  show "ngx_queue_empty h m \<longleftrightarrow> xs = []" using ring_empty [OF assms(1)] .
  show "ngx_queue_head h m = hd (xs @ [h])" "ngx_queue_last h m = last (h # xs)"
    using ring_ends [OF assms(1)] by (simp_all add: ngx_queue_head_def ngx_queue_last_def)
next
  fix as q bs
  assume xs: "xs = as @ q # bs"
  note r = assms(1,2) [unfolded xs]
  show "ring (ngx_queue_insert_head q x m) h (as @ q # x # bs)"
    using ring_insert_after [of m h "as @ [q]" bs x] r by simp
  show "ring (ngx_queue_remove q m) h (as @ bs)" using ring_remove [OF r(1)] .
  show "ring (ngx_queue_split h q x m) h as" "ring (ngx_queue_split h q x m) x (q # bs)"
    using ring_split_queue [OF r] by blast+
qed (use assms(1,2) in \<open>simp_all add: ring_init ring_insert_head ring_insert_tail\<close>)

text \<open>
  C27: \<open>ngx_queue_middle\<close> and \<open>ngx_queue_sort\<close> return on every well-formed queue: the first
  finds the middle node, or the first of the second half when the number of nodes is even,
  and the second sorts the queue in place, stably: by any key the comparison orders nodes
  by, the ring afterwards is the list sorted by that key with equal nodes in their old order.
\<close>

theorem queue_middle_and_sort:
  fixes key :: "nat \<Rightarrow> 'k :: linorder"
  assumes "ring m h xs" "xs \<noteq> []" "\<And>a b. cmp a b \<le> 0 \<longleftrightarrow> key a \<le> key b"
  shows "ngx_queue_middle h m = Some (xs ! (length xs div 2))
    \<and> (\<exists>m'. ngx_queue_sort h cmp m = Some m' \<and> ring m' h (sort_key key xs))"
  using queue_middle [OF assms(1,2)] queue_sort [OF assms(1), of cmp] fold_insert_sorted_key [of cmp key, OF assms(3)] by simp

text \<open>
  Moving nodes to the head one after the other, as the caches and limits do with the
  nodes they use, keeps the ring well-formed and orders it by last use.
\<close>

theorem queue_order_of_use:
  assumes "ring m h xs" "set us \<subseteq> set xs"
  shows "ring (fold (\<lambda>x m. ngx_queue_insert_head h x (ngx_queue_remove x m)) us m) h
    (fold (\<lambda>x xs. x # remove1 x xs) us xs)"
  using assms by (rule queue.rep_touch_all)

text \<open>The nodes 1, 2, 3 in a ring through 0, and an empty ring at 9.\<close>

definition three_nodes :: qmem where
  "three_nodes = \<lparr>qprev = (\<lambda>a. if a = 0 then 3 else if a = 1 then 0 else if a = 2 then 1 else if a = 3 then 2 else a),
    qnext = (\<lambda>a. if a = 0 then 1 else if a = 1 then 2 else if a = 2 then 3 else if a = 3 then 0 else a)\<rparr>"

lemma three_nodes_ring: "ring three_nodes 0 [1, 2, 3]" "ring three_nodes 9 []"
  by (simp_all add: ring_def three_nodes_def)

theorem queue_refines_list_witness:
  "ring (ngx_queue_split 0 2 7 three_nodes) 7 [2, 3] \<and> ring (ngx_queue_insert_tail 9 7 three_nodes) 9 [7]
   \<and> ring (ngx_queue_add 9 0 three_nodes) 9 [1, 2, 3]"
proof -
  have "[1, 2, 3] = [1] @ 2 # [3 :: nat]" by simp
  then show ?thesis
    using queue_refines_list [of three_nodes 0 "[1, 2, 3]" 7 9 "[]"]
      queue_refines_list [of three_nodes 9 "[]" 7 0 "[1, 2, 3]"] three_nodes_ring by fastforce
qed

theorem queue_middle_and_sort_witness:
  "ngx_queue_middle 0 three_nodes = Some 2
   \<and> (\<exists>m'. ngx_queue_sort 0 (\<lambda>a b. int (9 - a) - int (9 - b)) three_nodes = Some m' \<and> ring m' 0 [3, 2, 1])"
proof -
  have "int (9 - a) - int (9 - b) \<le> 0 \<longleftrightarrow> 9 - a \<le> 9 - (b :: nat)" for a b by auto
  then show ?thesis
    using queue_middle_and_sort [OF three_nodes_ring(1), of "\<lambda>a b. int (9 - a) - int (9 - b)" "\<lambda>a. 9 - a"] by simp
qed

theorem queue_order_of_use_witness:
  "ring (fold (\<lambda>x m. ngx_queue_insert_head 0 x (ngx_queue_remove x m)) [2, 3, 2] three_nodes) 0 [2, 3, 1]"
  using queue_order_of_use [OF three_nodes_ring(1), of "[2, 3, 2]"] by simp

end
