(* ===== verification/Http_Limit_Req.thy ===== *)
theory Http_Limit_Req
  imports Ngx_Prelude
begin

section \<open>Limiting the request rate (ngx_http_limit_req_module.c)\<close>

text \<open>
  The leaky bucket of src/ngx-1.12.0/src/http/modules/ngx_http_limit_req_module.c. A zone
  keeps a node for every key it has seen lately, with the bucket level \<open>excess\<close> in
  thousandths of a request at the time \<open>last\<close>. The nodes are linked in order of use and
  indexed by a search tree; here a zone is the list of its nodes from the most recently
  used one on, and the tree is the lookup of a key in that list. \<open>count\<close> pins a node while a
  request passes several limits, and \<open>ctx->node\<close>, the node this process pinned, is given by
  its key. Whether the slab allocator has room for another node is an argument (\<open>room\<close>), as
  are the clock and the values of the keys, which come from variables. Times, rates and
  levels are words of 64 bits with the conversions of the source. The limits of a location have
  different zones: the directive \<open>limit_req\<close> refuses a zone it has already.
\<close>

subsection \<open>Model\<close>

record lr_node =
  lr_key :: bytes
  lr_last :: u64
  lr_excess :: u64
  lr_count :: u64

record lr_zone =
  lr_queue :: "lr_node list"
  lr_rate :: u64
  lr_pin :: "bytes option"

record lr_limit =
  lr_burst :: u64
  lr_nodelay :: bool

definition ngx_abs :: "u64 \<Rightarrow> u64" where
  "ngx_abs ms = (if sint ms \<ge> 0 then ms else - ms)"

text \<open>\<open>lr->excess - ctx->rate * ngx_abs(ms) / 1000 + 1000\<close>, not below 0.\<close>

definition lr_level :: "u64 \<Rightarrow> u64 \<Rightarrow> lr_node \<Rightarrow> u64" where
  "lr_level rate now lr =
     (let ms = now - lr_last lr;
          excess = lr_excess lr - rate * ngx_abs ms div 1000 + 1000
      in if sint excess < 0 then 0 else excess)"

function ngx_http_limit_req_expire :: "u64 \<Rightarrow> u64 \<Rightarrow> nat \<Rightarrow> lr_node list \<Rightarrow> lr_node list" where
  "ngx_http_limit_req_expire rate now n q =
     (if n < 3 then
        if q = [] then q
        else
          let lr = last q
          in if lr_count lr \<noteq> 0 then q
             else
               let ms = ngx_abs (now - lr_last lr); excess = lr_excess lr - rate * ms div 1000
               in if n \<noteq> 0 \<and> (sint ms < 60000 \<or> sint excess > 0) then q
                  else ngx_http_limit_req_expire rate now (n + 1) (butlast q)
      else q)"
  by auto
termination
  by (relation "measure (\<lambda>(rate, now, n, q). 3 - n)") auto

declare ngx_http_limit_req_expire.simps [simp del]

definition lr_find :: "lr_node list \<Rightarrow> bytes \<Rightarrow> lr_node option" where
  "lr_find q key = find (\<lambda>lr. lr_key lr = key) q"

text \<open>A node is taken out of the queue and put at its head.\<close>

definition lr_front :: "lr_node \<Rightarrow> lr_node list \<Rightarrow> lr_node list" where
  "lr_front lr q = lr # filter (\<lambda>x. lr_key x \<noteq> lr_key lr) q"

text \<open>
  \<open>ngx_http_limit_req_lookup\<close>: the return value, \<open>*ep\<close> and the zone.
\<close>

definition lr_new :: "(lr_node list \<Rightarrow> bytes \<Rightarrow> bool) \<Rightarrow> u64 \<Rightarrow> bytes \<Rightarrow> bool \<Rightarrow> lr_zone \<Rightarrow> int \<times> u64 \<times> lr_zone" where
  "lr_new room now key account z =
     (let q = ngx_http_limit_req_expire (lr_rate z) now 1 (lr_queue z);
          q' = (if room q key then q else ngx_http_limit_req_expire (lr_rate z) now 0 q)
      in if \<not> room q key \<and> \<not> room q' key then (NGX_ERROR, 0, z\<lparr>lr_queue := q'\<rparr>)
         else if account
         then (NGX_OK, 0, z\<lparr>lr_queue := \<lparr>lr_key = key, lr_last = now, lr_excess = 0, lr_count = 0\<rparr> # q'\<rparr>)
         else (NGX_AGAIN, 0,
               z\<lparr>lr_queue := \<lparr>lr_key = key, lr_last = 0, lr_excess = 0, lr_count = 1\<rparr> # q', lr_pin := Some key\<rparr>))"

definition ngx_http_limit_req_lookup ::
    "(lr_node list \<Rightarrow> bytes \<Rightarrow> bool) \<Rightarrow> u64 \<Rightarrow> lr_limit \<Rightarrow> bytes \<Rightarrow> bool \<Rightarrow> lr_zone \<Rightarrow> int \<times> u64 \<times> lr_zone" where
  "ngx_http_limit_req_lookup room now limit key account z =
     (case lr_find (lr_queue z) key of
        None \<Rightarrow> lr_new room now key account z
      | Some lr \<Rightarrow>
          let excess = lr_level (lr_rate z) now lr; q = lr_queue z
          in if excess > lr_burst limit then (NGX_BUSY, excess, z\<lparr>lr_queue := lr_front lr q\<rparr>)
             else if account
             then (NGX_OK, excess, z\<lparr>lr_queue := lr_front (lr\<lparr>lr_excess := excess, lr_last := now\<rparr>) q\<rparr>)
             else (NGX_AGAIN, excess,
                   z\<lparr>lr_queue := lr_front (lr\<lparr>lr_count := lr_count lr + 1\<rparr>) q, lr_pin := Some key\<rparr>))"

definition lr_update :: "bytes \<Rightarrow> (lr_node \<Rightarrow> lr_node) \<Rightarrow> lr_node list \<Rightarrow> lr_node list" where
  "lr_update key f q = map (\<lambda>lr. if lr_key lr = key then f lr else lr) q"

text \<open>A limit of a location with its zone and the value of its key (\<open>None\<close>: it has none because of an error).\<close>

record lr_item =
  it_limit :: lr_limit
  it_zone :: lr_zone
  it_key :: "bytes option"

text \<open>\<open>excess * 1000 / ctx->rate\<close>\<close>

definition lr_delay :: "u64 \<Rightarrow> u64 \<Rightarrow> u64" where
  "lr_delay rate excess = excess * 1000 div rate"

text \<open>One turn of the loop of \<open>ngx_http_limit_req_account\<close>: the item and the delay it asks for.\<close>

definition lr_account_one :: "u64 \<Rightarrow> lr_item \<Rightarrow> lr_item \<times> u64" where
  "lr_account_one now it =
     (let z = it_zone it in
      case lr_pin z of
        None \<Rightarrow> (it, 0)
      | Some key \<Rightarrow>
          let excess = (case lr_find (lr_queue z) key of None \<Rightarrow> 0 | Some lr \<Rightarrow> lr_level (lr_rate z) now lr);
              f = (\<lambda>lr. lr\<lparr>lr_last := now, lr_excess := excess, lr_count := lr_count lr - 1\<rparr>)
          in (it\<lparr>it_zone := z\<lparr>lr_queue := lr_update key f (lr_queue z), lr_pin := None\<rparr>\<rparr>,
              if lr_nodelay (it_limit it) then 0 else lr_delay (lr_rate z) excess))"

text \<open>
  \<open>ngx_http_limit_req_account\<close> on the limits passed before; \<open>max_delay\<close> starts with the delay
  of the limit the request was charged to on lookup.
\<close>

definition ngx_http_limit_req_account :: "u64 \<Rightarrow> lr_item list \<Rightarrow> u64 \<Rightarrow> lr_item option \<Rightarrow> lr_item list \<times> u64" where
  "ngx_http_limit_req_account now passed ep limit =
     (let max_delay = (case limit of
            Some it \<Rightarrow> if ep = 0 \<or> lr_nodelay (it_limit it) then 0 else lr_delay (lr_rate (it_zone it)) ep
          | None \<Rightarrow> 0);
          rs = map (lr_account_one now) passed
      in (map fst rs, foldr (\<lambda>r d. max (snd r) d) rs max_delay))"

definition lr_unpin :: "lr_item \<Rightarrow> lr_item" where
  "lr_unpin it =
     (let z = it_zone it in
      case lr_pin z of
        None \<Rightarrow> it
      | Some key \<Rightarrow>
          it\<lparr>it_zone := z\<lparr>lr_queue := lr_update key (\<lambda>lr. lr\<lparr>lr_count := lr_count lr - 1\<rparr>) (lr_queue z), lr_pin := None\<rparr>\<rparr>)"

text \<open>
  The loop over the limits: \<open>passed\<close> are those before \<open>n\<close>. It ends with the return value of
  the last lookup (\<open>NGX_DECLINED\<close> if there was none), or, without one, when a key has no value.
\<close>

fun lr_scan ::
    "(lr_node list \<Rightarrow> bytes \<Rightarrow> bool) \<Rightarrow> u64 \<Rightarrow> int \<Rightarrow> u64 \<Rightarrow> lr_item list \<Rightarrow> lr_item list \<Rightarrow>
     int option \<times> u64 \<times> lr_item list \<times> lr_item list" where
  "lr_scan room now rc ep passed [] = (Some rc, ep, passed, [])"
| "lr_scan room now rc ep passed (it # its) =
     (case it_key it of
        None \<Rightarrow> (None, ep, passed, it # its)
      | Some key \<Rightarrow>
          if key = [] \<or> 65535 < length key then lr_scan room now rc ep (passed @ [it]) its
          else case ngx_http_limit_req_lookup room now (it_limit it) key (its = []) (it_zone it) of (rc, ep, z) \<Rightarrow>
            if rc \<noteq> NGX_AGAIN then (Some rc, ep, passed, it\<lparr>it_zone := z\<rparr> # its)
            else lr_scan room now rc ep (passed @ [it\<lparr>it_zone := z\<rparr>]) its)"

datatype lr_answer = Lr_declined | Lr_status int | Lr_delayed u64

text \<open>
  \<open>ngx_http_limit_req_ip_filter\<close>: \<open>var\<close> is the configured variable of the request, \<open>None\<close> when
  none is configured, \<open>Some None\<close> when it has no value.
\<close>

definition ngx_http_limit_req_ip_filter :: "bytes option option \<Rightarrow> bytes \<Rightarrow> int" where
  "ngx_http_limit_req_ip_filter var geo_var_value =
     (case var of
        None \<Rightarrow> NGX_DECLINED
      | Some None \<Rightarrow> NGX_DECLINED
      | Some (Some v) \<Rightarrow> if v = geo_var_value then NGX_OK else NGX_DECLINED)"

record lr_conf =
  lr_enable :: bool
  lr_geo_var_value :: bytes
  lr_status_code :: int

text \<open>
  \<open>ngx_http_limit_req_handler\<close>: the answer, whether \<open>limit_req_set\<close> is set, and the limits with
  their zones. An answer with a delay stands for the timer and \<open>NGX_AGAIN\<close>; that the read
  event cannot be set up is not modelled.
\<close>

definition ngx_http_limit_req_handler ::
    "(lr_node list \<Rightarrow> bytes \<Rightarrow> bool) \<Rightarrow> u64 \<Rightarrow> lr_conf \<Rightarrow> bytes option option \<Rightarrow> bool \<Rightarrow> lr_item list \<Rightarrow>
     lr_answer \<times> bool \<times> lr_item list" where
  "ngx_http_limit_req_handler room now conf var limit_req_set items =
     (if limit_req_set \<or> \<not> lr_enable conf \<or> ngx_http_limit_req_ip_filter var (lr_geo_var_value conf) = NGX_OK
      then (Lr_declined, limit_req_set, items)
      else case lr_scan room now NGX_DECLINED 0 [] items of
        (None, _, passed, its) \<Rightarrow> (Lr_status NGX_HTTP_INTERNAL_SERVER_ERROR, limit_req_set, passed @ its)
      | (Some rc, ep, passed, its) \<Rightarrow>
          if rc = NGX_DECLINED then (Lr_declined, limit_req_set, passed @ its)
          else if rc = NGX_BUSY \<or> rc = NGX_ERROR
          then (Lr_status (lr_status_code conf), True, map lr_unpin passed @ its)
          else case ngx_http_limit_req_account now passed (if rc = NGX_AGAIN then 0 else ep)
                 (case its of [] \<Rightarrow> None | it # _ \<Rightarrow> Some it) of (passed, delay) \<Rightarrow>
            (if delay = 0 then Lr_declined else Lr_delayed delay, True, passed @ its))"

subsection \<open>Finding nodes\<close>

definition keys_ok :: "lr_node list \<Rightarrow> bool" where
  "keys_ok q \<longleftrightarrow> distinct (map lr_key q)"

definition count_of :: "lr_node list \<Rightarrow> bytes \<Rightarrow> u64" where
  "count_of q k = (case lr_find q k of None \<Rightarrow> 0 | Some lr \<Rightarrow> lr_count lr)"

lemma lr_find_simps [simp]:
  "lr_find [] k = None" "lr_find (lr # q) k = (if lr_key lr = k then Some lr else lr_find q k)"
  by (simp_all add: lr_find_def)

lemma lr_find_append: "lr_find (q @ ds) k = (case lr_find q k of None \<Rightarrow> lr_find ds k | Some lr \<Rightarrow> Some lr)"
  by (induction q) auto

lemma lr_find_Some: "lr_find q k = Some lr \<Longrightarrow> lr \<in> set q \<and> lr_key lr = k"
  by (induction q) (auto split: if_splits)

lemma lr_find_None: "lr_find q k = None \<longleftrightarrow> k \<notin> lr_key ` set q"
  by (induction q) auto

lemma lr_find_filter [simp]: "lr_find (filter (\<lambda>x. lr_key x \<noteq> j) q) k = (if k = j then None else lr_find q k)"
  by (induction q) auto

lemma lr_find_front [simp]: "lr_find (lr_front lr q) k = (if k = lr_key lr then Some lr else lr_find q k)"
  by (auto simp: lr_front_def)

lemma keys_ok_front: "keys_ok q \<Longrightarrow> keys_ok (lr_front lr q)"
  by (auto simp: keys_ok_def lr_front_def distinct_map inj_on_def)

lemma lr_find_update [simp]:
  assumes "\<And>lr. lr_key (f lr) = lr_key lr"
  shows "lr_find (lr_update j f q) k = (if k = j then map_option f (lr_find q k) else lr_find q k)"
  using assms by (induction q) (auto simp: lr_update_def)

lemma keys_ok_update: "(\<And>lr. lr_key (f lr) = lr_key lr) \<Longrightarrow> keys_ok (lr_update j f q) = keys_ok q"
  by (simp add: keys_ok_def lr_update_def comp_def if_distrib cong: if_cong)

text \<open>Expiring drops unpinned nodes from the end.\<close>

lemma expire_prefix:
  "\<exists>ds. q = ngx_http_limit_req_expire rate now n q @ ds \<and> (\<forall>lr\<in>set ds. lr_count lr = 0)"
proof (induction rate now n q rule: ngx_http_limit_req_expire.induct)
  case (1 rate now n q)
  show ?case
  proof (cases "ngx_http_limit_req_expire rate now n q = q")
    case False
    then have n: "n < 3" "q \<noteq> []" "lr_count (last q) = 0"
      and c: "\<not> (n \<noteq> 0 \<and> (sint (ngx_abs (now - lr_last (last q))) < 60000
        \<or> sint (lr_excess (last q) - rate * ngx_abs (now - lr_last (last q)) div 1000) > 0))"
      and e: "ngx_http_limit_req_expire rate now n q = ngx_http_limit_req_expire rate now (n + 1) (butlast q)"
      by (auto simp: ngx_http_limit_req_expire.simps [of rate now n q] Let_def split: if_splits)
    obtain ds where "butlast q = ngx_http_limit_req_expire rate now (n + 1) (butlast q) @ ds" "\<forall>lr\<in>set ds. lr_count lr = 0"
      using "1.IH" [OF n(1,2) refl _ refl refl c] n(3) by blast
    then show ?thesis
      using n e by (intro exI [of _ "ds @ [last q]"]) (auto simp flip: append_assoc)
  qed (intro exI [of _ "[]"], simp)
qed

lemma expire_facts:
  assumes "keys_ok q"
  shows "keys_ok (ngx_http_limit_req_expire rate now n q)"
    "count_of (ngx_http_limit_req_expire rate now n q) k = count_of q k"
    "lr_find (ngx_http_limit_req_expire rate now n q) k = Some lr \<Longrightarrow> lr_find q k = Some lr"
proof -
  obtain ds where ds: "q = ngx_http_limit_req_expire rate now n q @ ds" "\<forall>lr\<in>set ds. lr_count lr = 0"
    using expire_prefix by blast
  show "keys_ok (ngx_http_limit_req_expire rate now n q)" using assms ds(1) unfolding keys_ok_def by (metis distinct_append map_append)
  have f: "lr_find q k = (case lr_find (ngx_http_limit_req_expire rate now n q) k of None \<Rightarrow> lr_find ds k | Some lr \<Rightarrow> Some lr)"
    using ds(1) lr_find_append by metis
  show "lr_find q k = Some lr" if "lr_find (ngx_http_limit_req_expire rate now n q) k = Some lr" using f that by simp
  show "count_of (ngx_http_limit_req_expire rate now n q) k = count_of q k"
    using f ds(2) lr_find_Some [of ds k] by (auto simp: count_of_def split: option.splits)
qed

text \<open>What a lookup does to a zone, apart from charging: nodes may go when they are not pinned.\<close>

definition trimmed :: "lr_node list \<Rightarrow> lr_node list \<Rightarrow> bool" where
  "trimmed q q' \<longleftrightarrow> keys_ok q' \<and> count_of q' = count_of q \<and> (\<forall>k lr. lr_find q' k = Some lr \<longrightarrow> lr_find q k = Some lr)"

lemma trimmed_expire: "keys_ok q \<Longrightarrow> trimmed q (ngx_http_limit_req_expire rate now n q)"
  unfolding trimmed_def by (intro conjI allI impI ext) (rule expire_facts; assumption)+

lemma trimmed_trans: "trimmed q q' \<Longrightarrow> trimmed q' q'' \<Longrightarrow> trimmed q q''"
  by (auto simp: trimmed_def)

definition same_levels :: "lr_node list \<Rightarrow> lr_node list \<Rightarrow> bool" where
  "same_levels q q' \<longleftrightarrow> (\<forall>k lr lr'. lr_find q k = Some lr \<and> lr_find q' k = Some lr' \<longrightarrow>
     lr_last lr' = lr_last lr \<and> lr_excess lr' = lr_excess lr)"

lemma lr_new_cases:
  assumes "keys_ok (lr_queue z)" "lr_new room now key account z = (rc, ep, z')"
  obtains q' where "trimmed (lr_queue z) q'" "rc = NGX_AGAIN" "\<not> account"
      "z' = z\<lparr>lr_queue := \<lparr>lr_key = key, lr_last = 0, lr_excess = 0, lr_count = 1\<rparr> # q', lr_pin := Some key\<rparr>"
  | q' where "trimmed (lr_queue z) q'" "rc = NGX_OK" "account"
      "z' = z\<lparr>lr_queue := \<lparr>lr_key = key, lr_last = now, lr_excess = 0, lr_count = 0\<rparr> # q'\<rparr>"
  | q' where "trimmed (lr_queue z) q'" "rc = NGX_ERROR" "z' = z\<lparr>lr_queue := q'\<rparr>"
proof -
  let ?q = "ngx_http_limit_req_expire (lr_rate z) now 1 (lr_queue z)"
  let ?q' = "if room ?q key then ?q else ngx_http_limit_req_expire (lr_rate z) now 0 ?q"
  have t: "trimmed (lr_queue z) ?q" by (rule trimmed_expire [OF assms(1)])
  then have "trimmed ?q (ngx_http_limit_req_expire (lr_rate z) now 0 ?q)" by (intro trimmed_expire) (simp add: trimmed_def)
  then have "trimmed (lr_queue z) ?q'" using t trimmed_trans by simp
  then show ?thesis
    using that assms(2) by (auto simp: lr_new_def Let_def split: if_splits)
qed

text \<open>The outcome of a lookup as far as pins are concerned.\<close>

definition pin_step :: "bytes \<Rightarrow> lr_zone \<Rightarrow> int \<Rightarrow> lr_zone \<Rightarrow> bool" where
  "pin_step key z rc z' \<longleftrightarrow> keys_ok (lr_queue z') \<and> lr_rate z' = lr_rate z
    \<and> (if rc = NGX_AGAIN
       then lr_pin z' = Some key \<and> lr_find (lr_queue z') key \<noteq> None
         \<and> count_of (lr_queue z') = (count_of (lr_queue z))(key := count_of (lr_queue z) key + 1)
       else lr_pin z' = lr_pin z \<and> count_of (lr_queue z') = count_of (lr_queue z))
    \<and> (rc \<noteq> NGX_OK \<longrightarrow> same_levels (lr_queue z) (lr_queue z'))"

lemma new_node:
  assumes "trimmed q q'" "lr_find q key = None" "lr_key lr = key"
  shows "keys_ok (lr # q') \<and> count_of (lr # q') = (count_of q)(key := lr_count lr) \<and> same_levels q (lr # q')"
proof -
  have "lr_find q' key = None" using assms(1,2) by (cases "lr_find q' key") (auto simp: trimmed_def)
  then have "keys_ok (lr # q')" using assms(1,3) by (auto simp: trimmed_def keys_ok_def lr_find_None)
  moreover have "count_of (lr # q') k = ((count_of q)(key := lr_count lr)) k" for k
    using assms(1,3) unfolding trimmed_def by (auto simp: count_of_def fun_eq_iff)
  moreover have "same_levels q (lr # q')"
    using assms unfolding same_levels_def trimmed_def by (auto split: if_splits)
  ultimately show ?thesis by blast
qed

lemma new_pin_step:
  assumes "keys_ok (lr_queue z)" "lr_find (lr_queue z) key = None" "lr_new room now key account z = (rc, ep, z')"
  shows "pin_step key z rc z'"
  using lr_new_cases [OF assms(1,3)]
proof cases
  case (1 q')
  then show ?thesis
    using new_node [OF 1(1) assms(2), of "\<lparr>lr_key = key, lr_last = 0, lr_excess = 0, lr_count = 1\<rparr>"] assms(2)
    by (simp add: pin_step_def ngx_codes) (simp add: count_of_def)
next
  case (2 q')
  have "(count_of (lr_queue z))(key := 0) = count_of (lr_queue z)" using assms(2) by (auto simp: count_of_def)
  then show ?thesis
    using 2 new_node [OF 2(1) assms(2), of "\<lparr>lr_key = key, lr_last = now, lr_excess = 0, lr_count = 0\<rparr>"]
    by (simp add: pin_step_def ngx_codes)
next
  case (3 q')
  then show ?thesis by (auto simp: pin_step_def trimmed_def same_levels_def ngx_codes)
qed

lemma lookup_pin_step:
  assumes "keys_ok (lr_queue z)" "ngx_http_limit_req_lookup room now limit key account z = (rc, ep, z')"
  shows "pin_step key z rc z'"
proof (cases "lr_find (lr_queue z) key")
  case None
  then show ?thesis using new_pin_step [OF assms(1) None] assms(2) by (simp add: ngx_http_limit_req_lookup_def)
next
  case (Some lr)
  have k: "lr_key lr = key" using lr_find_Some [OF Some] by simp
  have "count_of (lr_front l (lr_queue z)) = (count_of (lr_queue z))(lr_key l := lr_count l)" for l
    by (auto simp: count_of_def fun_eq_iff)
  moreover have "(count_of (lr_queue z))(key := lr_count lr) = count_of (lr_queue z)" using Some by (auto simp: count_of_def)
  moreover have "same_levels (lr_queue z) (lr_front l (lr_queue z))"
    if "lr_key l = key" "lr_last l = lr_last lr" "lr_excess l = lr_excess lr" for l
    using Some that by (auto simp: same_levels_def)
  moreover have "count_of (lr_queue z) key = lr_count lr" using Some by (simp add: count_of_def)
  ultimately show ?thesis
    using assms Some k by (auto simp: ngx_http_limit_req_lookup_def pin_step_def keys_ok_front ngx_codes Let_def split: if_splits)
qed

subsection \<open>Pins are balanced\<close>

text \<open>A limit before and after: unpinned with the same counts, or with the node of its key pinned once more.\<close>

definition unpinned :: "lr_item \<Rightarrow> lr_item \<Rightarrow> bool" where
  "unpinned it it' \<longleftrightarrow> keys_ok (lr_queue (it_zone it')) \<and> lr_pin (it_zone it') = None
     \<and> count_of (lr_queue (it_zone it')) = count_of (lr_queue (it_zone it))"

definition pinned :: "lr_item \<Rightarrow> lr_item \<Rightarrow> bool" where
  "pinned it it' \<longleftrightarrow> keys_ok (lr_queue (it_zone it')) \<and> (\<exists>key. lr_pin (it_zone it') = Some key
     \<and> lr_find (lr_queue (it_zone it')) key \<noteq> None
     \<and> count_of (lr_queue (it_zone it')) = (count_of (lr_queue (it_zone it)))(key := count_of (lr_queue (it_zone it)) key + 1))"

definition levels_kept :: "lr_item \<Rightarrow> lr_item \<Rightarrow> bool" where
  "levels_kept it it' \<longleftrightarrow> same_levels (lr_queue (it_zone it)) (lr_queue (it_zone it'))"

lemma levels_kept_refl: "levels_kept it it"
  by (auto simp: levels_kept_def same_levels_def)

lemma lr_scan_inv:
  assumes "lr_scan room now rc ep passed its = (r, ep', passed', its')" "length orig = length passed"
    and "list_all2 (\<lambda>it it'. (unpinned it it' \<or> pinned it it') \<and> levels_kept it it') orig passed"
    and "list_all (\<lambda>it. unpinned it it) its" "rc = NGX_DECLINED \<longrightarrow> list_all2 unpinned orig passed"
  shows "list_all2 (\<lambda>it it'. (unpinned it it' \<or> pinned it it') \<and> levels_kept it it') (take (length passed') (orig @ its)) passed'
    \<and> list_all2 unpinned (drop (length passed') (orig @ its)) its'
    \<and> (r \<noteq> Some NGX_OK \<longrightarrow> list_all2 levels_kept (drop (length passed') (orig @ its)) its')
    \<and> (r = Some NGX_DECLINED \<longrightarrow> list_all2 unpinned (take (length passed') (orig @ its)) passed')"
  using assms
proof (induction room now rc ep passed its arbitrary: orig rule: lr_scan.induct)
  case (1 room now rc ep passed)
  then show ?case by auto
next
  case (2 room now rc ep passed it its)
  have it: "unpinned it it" "list_all (\<lambda>it. unpinned it it) its" using "2.prems"(4) by simp_all
  have self: "list_all2 unpinned xs xs \<and> list_all2 levels_kept xs xs" if "list_all (\<lambda>it. unpinned it it) xs" for xs
    using that by (induction xs) (auto simp: levels_kept_refl)
  let ?R = "\<lambda>it it'. (unpinned it it' \<or> pinned it it') \<and> levels_kept it it'"
  show ?case
  proof (cases "it_key it")
    case None
    then show ?thesis using "2.prems" self [of "it # its"] by auto
  next
    case (Some key)
    show ?thesis
    proof (cases "key = [] \<or> 65535 < length key")
      case True
      then show ?thesis
        using "2.IH"(1) [OF Some True, of "orig @ [it]"] "2.prems" it Some levels_kept_refl
        by (simp add: list_all2_append)
    next
      case False
      obtain rc1 ep1 z where l: "ngx_http_limit_req_lookup room now (it_limit it) key (its = []) (it_zone it) = (rc1, ep1, z)"
        by (cases "ngx_http_limit_req_lookup room now (it_limit it) key (its = []) (it_zone it)") auto
      have p: "pin_step key (it_zone it) rc1 z" using lookup_pin_step [OF _ l] it(1) by (simp add: unpinned_def)
      let ?it = "it\<lparr>it_zone := z\<rparr>"
      show ?thesis
      proof (cases "rc1 = NGX_AGAIN")
        case True
        have "pinned it ?it \<and> levels_kept it ?it" using p True by (auto simp: pin_step_def pinned_def levels_kept_def ngx_codes)
        moreover have again: "\<not> rc1 \<noteq> NGX_AGAIN" using True by simp
        ultimately have "list_all2 ?R (orig @ [it]) (passed @ [?it])" using "2.prems"(2,3) by (simp add: list_all2_append)
        then show ?thesis
          using "2.IH"(2) [OF Some False l [symmetric] refl again, of "orig @ [it]"] "2.prems" it True Some False l
          by (auto simp: ngx_codes)
      next
        case F: False
        have u: "unpinned it ?it" "rc1 \<noteq> NGX_OK \<Longrightarrow> levels_kept it ?it"
          using p F it(1) by (auto simp: pin_step_def unpinned_def levels_kept_def)
        have "rc1 \<noteq> NGX_DECLINED"
          using l by (auto simp: ngx_http_limit_req_lookup_def lr_new_def ngx_codes Let_def split: option.splits if_splits)
        then show ?thesis
          using "2.prems" F u self [OF it(2)] Some False l by auto
      qed
    qed
  qed
qed

lemma lr_scan_keys:
  "list_all (\<lambda>it. it_key it \<noteq> None) its \<Longrightarrow> lr_scan room now rc ep passed its = (r, ep', passed', its') \<Longrightarrow> r \<noteq> None"
  by (induction room now rc ep passed its rule: lr_scan.induct) (auto split: if_splits prod.splits)

lemma lr_unpin_balanced:
  assumes "unpinned it it' \<or> pinned it it'" "levels_kept it it'"
  shows "unpinned it (lr_unpin it') \<and> levels_kept it (lr_unpin it')"
  using assms(1)
proof
  assume "unpinned it it'"
  then show ?thesis using assms(2) by (simp add: lr_unpin_def unpinned_def)
next
  assume "pinned it it'"
  then obtain key where p: "lr_pin (it_zone it') = Some key" "lr_find (lr_queue (it_zone it')) key \<noteq> None" "keys_ok (lr_queue (it_zone it'))"
    "count_of (lr_queue (it_zone it')) = (count_of (lr_queue (it_zone it)))(key := count_of (lr_queue (it_zone it)) key + 1)"
    by (auto simp: pinned_def)
  let ?q = "lr_update key (\<lambda>lr. lr\<lparr>lr_count := lr_count lr - 1\<rparr>) (lr_queue (it_zone it'))"
  have "count_of ?q k = count_of (lr_queue (it_zone it)) k" for k
    using p(2) fun_cong [OF p(4), of k] by (auto simp: count_of_def split: if_splits)
  moreover have "same_levels (lr_queue (it_zone it)) ?q"
    using assms(2) by (auto simp: levels_kept_def same_levels_def split: if_splits)
  ultimately show ?thesis
    using p by (simp add: lr_unpin_def unpinned_def levels_kept_def keys_ok_update fun_eq_iff Let_def)
qed

lemma lr_account_balanced:
  assumes "unpinned it it' \<or> pinned it it'"
  shows "unpinned it (fst (lr_account_one now it'))"
  using assms
proof
  assume "unpinned it it'"
  then show ?thesis by (simp add: lr_account_one_def unpinned_def)
next
  assume "pinned it it'"
  then obtain key where p: "lr_pin (it_zone it') = Some key" "lr_find (lr_queue (it_zone it')) key \<noteq> None" "keys_ok (lr_queue (it_zone it'))"
    "count_of (lr_queue (it_zone it')) = (count_of (lr_queue (it_zone it)))(key := count_of (lr_queue (it_zone it)) key + 1)"
    by (auto simp: pinned_def)
  let ?q = "\<lambda>e. lr_update key (\<lambda>lr. lr\<lparr>lr_last := now, lr_excess := e, lr_count := lr_count lr - 1\<rparr>) (lr_queue (it_zone it'))"
  have "count_of (?q e) k = count_of (lr_queue (it_zone it)) k" for e k
    using p(2) fun_cong [OF p(4), of k] by (auto simp: count_of_def split: if_splits)
  then show ?thesis
    using p by (simp add: lr_account_one_def unpinned_def keys_ok_update fun_eq_iff Let_def)
qed

subsection \<open>The level of a bucket\<close>

text \<open>Without overflow the level is what the bucket held, less what leaked since, plus one request.\<close>

lemma sint_word_of_int_small: "- (2 ^ 63) \<le> k \<Longrightarrow> k < 2 ^ 63 \<Longrightarrow> sint (word_of_int k :: u64) = k"
  by (subst sint_sbintrunc') (rule signed_take_bit_int_eq_self; simp)

lemma sint_diff_small:
  fixes a b :: u64
  assumes "unat a < 2 ^ 62" "unat b < 2 ^ 62" "c < 2 ^ 62"
  shows "sint (a - b + of_nat c) = int (unat a) - int (unat b) + int c"
proof -
  have e: "a - b + of_nat c = word_of_int (int (unat a) - int (unat b) + int c)" by simp
  have i: "int n < 2 ^ 62" if "n < 2 ^ 62" for n using that of_nat_less_iff [where 'a = int, of n "2 ^ 62"] by simp
  have two: "(2 :: int) ^ 63 = 2 * 2 ^ 62" by simp
  show ?thesis unfolding e using two i [OF assms(1)] i [OF assms(2)] i [OF assms(3)]
    by (intro sint_word_of_int_small) linarith+
qed

lemma sint_small: "unat (w :: u64) < 2 ^ 62 \<Longrightarrow> sint w = int (unat w)"
  using sint_diff_small [of w 0 0] by simp
lemma abs_later:
  assumes "unat t0 \<le> unat now" "unat now - unat t0 < 2 ^ 62"
  shows "unat (ngx_abs (now - t0)) = unat now - unat t0" "sint (ngx_abs (now - t0)) = int (unat now - unat t0)"
proof -
  have u: "unat (now - t0) = unat now - unat t0" using assms(1) by (simp add: unat_sub_if')
  then have "ngx_abs (now - t0) = now - t0" using assms(2) by (simp add: ngx_abs_def sint_small)
  then show "unat (ngx_abs (now - t0)) = unat now - unat t0" "sint (ngx_abs (now - t0)) = int (unat now - unat t0)"
    using u assms(2) sint_small [of "now - t0"] by simp_all
qed

lemma unat_leak:
  fixes rate :: u64
  assumes "unat rate * unat w < 2 ^ 62"
  shows "unat (rate * w div 1000) = unat rate * unat w div 1000"
proof -
  have "unat rate * unat w < 2 ^ 64" using assms by simp
  then have "unat (rate * w) = unat rate * unat w" by (simp add: unat_word_ariths)
  then show ?thesis by (simp add: unat_div)
qed

lemma lr_level_nat:
  assumes "unat (lr_last lr) \<le> unat now" "unat now - unat (lr_last lr) < 2 ^ 62"
    and "unat rate * (unat now - unat (lr_last lr)) < 2 ^ 62" "unat (lr_excess lr) < 2 ^ 61"
  shows "unat (lr_level rate now lr) = unat (lr_excess lr) + 1000 - unat rate * (unat now - unat (lr_last lr)) div 1000"
proof -
  let ?w = "rate * ngx_abs (now - lr_last lr) div 1000" and ?x = "unat rate * (unat now - unat (lr_last lr)) div 1000"
  have x: "unat ?w = ?x" using unat_leak assms abs_later(1) [OF assms(1,2)] by simp
  have "?x \<le> unat rate * (unat now - unat (lr_last lr))" by (rule div_le_dividend)
  then have small: "?x < 2 ^ 62" using assms(3) by linarith
  have si: "sint (lr_excess lr - ?w + 1000) = int (unat (lr_excess lr)) - int ?x + 1000"
    using sint_diff_small [of "lr_excess lr" ?w 1000] x small assms(4) by simp
  show ?thesis
  proof (cases "unat (lr_excess lr) + 1000 < ?x")
    case True
    then have "sint (lr_excess lr - ?w + 1000) < 0" using si by linarith
    then show ?thesis using True by (simp add: lr_level_def Let_def)
  next
    case False
    then have nn: "\<not> sint (lr_excess lr - ?w + 1000) < 0" using si by linarith
    have "(of_nat ?x :: u64) = ?w" unfolding x [symmetric] by simp
    moreover have "(of_nat (unat (lr_excess lr) + 1000 - ?x) :: u64) = of_nat (unat (lr_excess lr) + 1000) - of_nat ?x"
      using False by (intro of_nat_diff) simp
    ultimately have "lr_excess lr - ?w + 1000 = of_nat (unat (lr_excess lr) + 1000 - ?x)" by simp
    moreover have "unat (lr_excess lr) + 1000 - ?x < 2 ^ 64" using assms(4) by simp
    ultimately have "unat (lr_excess lr - ?w + 1000) = unat (lr_excess lr) + 1000 - ?x"
      by (simp only: unat_of_nat) (simp add: take_bit_nat_eq_self)
    then show ?thesis using nn by (simp add: lr_level_def Let_def)
  qed
qed

subsection \<open>Requests on one zone\<close>

lemma expire_keeps:
  assumes "lr_find q k = Some lr" "unat (lr_last lr) \<le> unat now" "unat now - unat (lr_last lr) < 60000" "0 < n"
  shows "lr_find (ngx_http_limit_req_expire rate now n q) k = Some lr"
  using assms
proof (induction rate now n q rule: ngx_http_limit_req_expire.induct)
  case (1 rate now n q)
  show ?case
  proof (cases "ngx_http_limit_req_expire rate now n q = q")
    case False
    then have n: "n < 3" "q \<noteq> []" "\<not> lr_count (last q) \<noteq> 0"
      and c: "\<not> (n \<noteq> 0 \<and> (sint (ngx_abs (now - lr_last (last q))) < 60000
        \<or> sint (lr_excess (last q) - rate * ngx_abs (now - lr_last (last q)) div 1000) > 0))"
      and e: "ngx_http_limit_req_expire rate now n q = ngx_http_limit_req_expire rate now (n + 1) (butlast q)"
      by (auto simp: ngx_http_limit_req_expire.simps [of rate now n q] Let_def split: if_splits)
    have "sint (ngx_abs (now - lr_last lr)) < 60000" using abs_later(2) [OF "1.prems"(2)] "1.prems"(3) by simp
    then have "last q \<noteq> lr" using c "1.prems"(4) by auto
    moreover have "lr_find q k = (case lr_find (butlast q) k of None \<Rightarrow> lr_find [last q] k | Some lr \<Rightarrow> Some lr)"
      using lr_find_append [of "butlast q" "[last q]" k] n(2) by simp
    ultimately have "lr_find (butlast q) k = Some lr"
      using "1.prems"(1) by (auto split: option.splits if_splits)
    then show ?thesis unfolding e using "1.IH" [OF n(1,2) refl n(3) refl refl c] "1.prems" by simp
  qed (use "1.prems" in simp)
qed

fun lr_run :: "lr_limit \<Rightarrow> lr_zone \<Rightarrow> (bytes \<times> u64) list \<Rightarrow> int list" where
  "lr_run limit z [] = []"
| "lr_run limit z ((k, now) # evs) =
     (case ngx_http_limit_req_lookup (\<lambda>_ _. True) now limit k True z of (rc, _, z') \<Rightarrow> rc # lr_run limit z' evs)"

text \<open>How many requests with key \<open>k\<close> were let through.\<close>

definition admitted :: "bytes \<Rightarrow> (bytes \<times> u64) list \<Rightarrow> int list \<Rightarrow> nat" where
  "admitted k evs rcs = length (filter (\<lambda>((j, _), rc). j = k \<and> rc = NGX_OK) (zip evs rcs))"

lemma admitted_simps [simp]:
  "admitted k [] rcs = 0"
  "admitted k ((j, t) # evs) (rc # rcs) = (if j = k \<and> rc = NGX_OK then 1 else 0) + admitted k evs rcs"
  by (simp_all add: admitted_def)

lemma lookup_other:
  assumes "lr_find (lr_queue z) k = Some lr" "unat (lr_last lr) \<le> unat now" "unat now - unat (lr_last lr) < 60000" "j \<noteq> k"
    and "ngx_http_limit_req_lookup (\<lambda>_ _. True) now limit j True z = (rc, ep, z')"
  shows "lr_find (lr_queue z') k = Some lr"
proof (cases "lr_find (lr_queue z) j")
  case None
  then show ?thesis
    using assms expire_keeps [OF assms(1-3), of 1] by (auto simp: ngx_http_limit_req_lookup_def lr_new_def Let_def)
next
  case (Some l)
  then have "lr_key l \<noteq> k" using lr_find_Some [OF Some] assms(4) by simp
  then show ?thesis
    using assms Some by (auto simp: ngx_http_limit_req_lookup_def Let_def split: if_splits)
qed

lemma lookup_same:
  assumes "lr_find (lr_queue z) k = Some lr" "ngx_http_limit_req_lookup room now limit k True z = (rc, ep, z')"
  shows "rc = NGX_BUSY \<and> lr_find (lr_queue z') k = Some lr
    \<or> rc = NGX_OK \<and> lr_level (lr_rate z) now lr \<le> lr_burst limit
      \<and> lr_find (lr_queue z') k = Some (lr\<lparr>lr_excess := lr_level (lr_rate z) now lr, lr_last := now\<rparr>)"
  using assms lr_find_Some [OF assms(1)]
  by (auto simp: ngx_http_limit_req_lookup_def Let_def split: if_splits)

lemma lookup_rate: "keys_ok (lr_queue z) \<Longrightarrow> ngx_http_limit_req_lookup room now limit k a z = (rc, ep, z') \<Longrightarrow>
    keys_ok (lr_queue z') \<and> lr_rate z' = lr_rate z"
  using lookup_pin_step by (auto simp: pin_step_def)

lemma div_add_le: "a div d + b div d \<le> (a + b) div (d :: nat)"
  by (cases "d = 0") (simp_all add: div_add1_eq [of a b d])

lemma level_step: "a + b \<le> c \<Longrightarrow> l = e + 1000 - b \<Longrightarrow> 1000 * n \<le> e + a \<Longrightarrow> 1000 * Suc n \<le> l + (c :: nat)"
  by simp

lemma run_bound:
  assumes "keys_ok (lr_queue z)" "lr_find (lr_queue z) k = Some lr" "unat t1 \<le> unat (lr_last lr)"
    and "sorted (unat (lr_last lr) # map (\<lambda>e. unat (snd e)) evs)" "\<forall>e\<in>set evs. unat (snd e) \<le> unat t1 + d" "d < 60000"
    and "unat (lr_rate z) * 60000 < 2 ^ 62" "unat (lr_burst limit) < 2 ^ 61" "unat (lr_excess lr) \<le> unat (lr_burst limit)"
    and "unat (lr_last lr) \<le> unat t1 + d"
    and "1000 * n \<le> unat (lr_excess lr) + unat (lr_rate z) * (unat (lr_last lr) - unat t1) div 1000"
  shows "1000 * (n + admitted k evs (lr_run limit z evs)) \<le> unat (lr_burst limit) + unat (lr_rate z) * d div 1000"
  using assms
proof (induction evs arbitrary: z lr n)
  case Nil
  have "unat (lr_rate z) * (unat (lr_last lr) - unat t1) div 1000 \<le> unat (lr_rate z) * d div 1000"
    using Nil.prems(10) by (intro div_le_mono mult_le_mono) auto
  then show ?case using Nil.prems(9,11) by simp
next
  case (Cons e evs)
  obtain j now where e: "e = (j, now)" by (cases e)
  obtain rc ep z' where l: "ngx_http_limit_req_lookup (\<lambda>_ _. True) now limit j True z = (rc, ep, z')"
    by (cases "ngx_http_limit_req_lookup (\<lambda>_ _. True) now limit j True z") auto
  note z' = lookup_rate [OF Cons.prems(1) l]
  let ?dt = "unat now - unat (lr_last lr)"
  have t: "unat (lr_last lr) \<le> unat now" "unat now \<le> unat t1 + d" "?dt < 60000"
    "sorted (unat now # map (\<lambda>e. unat (snd e)) evs)" "sorted (unat (lr_last lr) # map (\<lambda>e. unat (snd e)) evs)"
    using Cons.prems(3-6) by (auto simp: e)
  show ?case
  proof (cases "lr_find (lr_queue z') k = Some lr \<and> (j \<noteq> k \<or> rc \<noteq> NGX_OK)")
    case True
    then show ?thesis
      using Cons.IH [of z' lr n] z' t Cons.prems by (auto simp: e l)
  next
    case False
    then have jk: "j = k" using lookup_other [OF Cons.prems(2) t(1,3) _ l] by blast
    let ?lr = "lr\<lparr>lr_excess := lr_level (lr_rate z) now lr, lr_last := now\<rparr>"
    have ok: "rc = NGX_OK" "lr_level (lr_rate z) now lr \<le> lr_burst limit" "lr_find (lr_queue z') k = Some ?lr"
      using lookup_same [OF Cons.prems(2) l [unfolded jk]] False jk by (auto simp: ngx_codes)
    have r: "unat (lr_rate z) * ?dt < 2 ^ 62"
      using Cons.prems(7) t(3) mult_le_mono2 [of ?dt 60000 "unat (lr_rate z)"] by linarith
    have lev: "unat (lr_level (lr_rate z) now lr) = unat (lr_excess lr) + 1000 - unat (lr_rate z) * ?dt div 1000"
      using t(1,3) r Cons.prems(8,9) by (intro lr_level_nat) auto
    have "unat (lr_rate z) * (unat (lr_last lr) - unat t1) div 1000 + unat (lr_rate z) * ?dt div 1000
        \<le> unat (lr_rate z) * (unat now - unat t1) div 1000"
      using div_add_le [of "unat (lr_rate z) * (unat (lr_last lr) - unat t1)" 1000 "unat (lr_rate z) * ?dt"] t(1) Cons.prems(3)
      by (simp flip: distrib_left)
    then have n: "1000 * Suc n \<le> unat (lr_level (lr_rate z) now lr) + unat (lr_rate z) * (unat now - unat t1) div 1000"
      using lev Cons.prems(11) by (rule level_step)
    have "1000 * (Suc n + admitted k evs (lr_run limit z' evs)) \<le> unat (lr_burst limit) + unat (lr_rate z') * d div 1000"
      using z' ok t n Cons.prems by (intro Cons.IH [of z' ?lr]) (auto simp: word_le_nat_alt)
    then show ?thesis using z' ok(1) by (simp add: e l [unfolded jk] jk)
  qed
qed

subsection \<open>Properties\<close>

text \<open>
  C18: The rate limit holds. Start with a request for a key that is let through at time \<open>t1\<close>;
  whatever requests for this and other keys follow within \<open>d\<close> milliseconds, less than a
  minute, the number of further requests for the key that are let through, in thousandths,
  is at most the burst plus what the rate allows in \<open>d\<close> milliseconds. The zone has room for
  new keys (with a full zone the oldest node is dropped and a key may start afresh), the clock
  does not run backwards, and rate and burst are far from the word size.
\<close>

theorem limit_req_rate_bound:
  assumes "keys_ok (lr_queue z)" "ngx_http_limit_req_lookup (\<lambda>_ _. True) t1 limit k True z = (NGX_OK, ep, z')"
    and "sorted (unat t1 # map (\<lambda>e. unat (snd e)) evs)" "\<forall>e\<in>set evs. unat (snd e) \<le> unat t1 + d" "d < 60000"
    and "unat (lr_rate z) * 60000 < 2 ^ 62" "unat (lr_burst limit) < 2 ^ 61"
  shows "1000 * admitted k evs (lr_run limit z' evs) \<le> unat (lr_burst limit) + unat (lr_rate z) * d div 1000"
proof -
  note z' = lookup_rate [OF assms(1,2)]
  obtain lr where lr: "lr_find (lr_queue z') k = Some lr" "lr_last lr = t1" "lr_excess lr \<le> lr_burst limit"
  proof (cases "lr_find (lr_queue z) k")
    case None
    then show ?thesis
      using that assms(2) by (auto simp: ngx_http_limit_req_lookup_def lr_new_def Let_def)
  next
    case (Some l)
    then show ?thesis
      using that lookup_same [OF Some assms(2)] by (auto simp: ngx_codes)
  qed
  have "1000 * (0 + admitted k evs (lr_run limit z' evs)) \<le> unat (lr_burst limit) + unat (lr_rate z') * d div 1000"
    using z' lr assms(3-7) by (intro run_bound [of z' k lr t1 evs d limit 0]) (auto simp: word_le_nat_alt)
  then show ?thesis using z' by simp
qed

definition lr_zone_1 :: lr_zone where
  "lr_zone_1 = \<lparr>lr_queue = [], lr_rate = 1000, lr_pin = None\<rparr>"

definition lr_limit_1 :: lr_limit where
  "lr_limit_1 = \<lparr>lr_burst = 1000, lr_nodelay = True\<rparr>"

theorem limit_req_rate_bound_witness:
  "1000 * admitted (str ''a'') [(str ''a'', 5100), (str ''b'', 5200), (str ''a'', 5200), (str ''a'', 5300)]
     (lr_run lr_limit_1 (snd (snd (ngx_http_limit_req_lookup (\<lambda>_ _. True) 5000 lr_limit_1 (str ''a'') True lr_zone_1)))
       [(str ''a'', 5100), (str ''b'', 5200), (str ''a'', 5200), (str ''a'', 5300)]) \<le> 1300"
proof -
  let ?r = "ngx_http_limit_req_lookup (\<lambda>_ _. True) 5000 lr_limit_1 (str ''a'') True lr_zone_1"
  have r: "?r = (NGX_OK, fst (snd ?r), snd (snd ?r))" "keys_ok (lr_queue lr_zone_1)"
    by (simp_all add: ngx_http_limit_req_lookup_def lr_new_def lr_zone_1_def keys_ok_def Let_def
        ngx_http_limit_req_expire.simps)
  show ?thesis
    using limit_req_rate_bound [OF r(2,1), of "[(str ''a'', 5100), (str ''b'', 5200), (str ''a'', 5200), (str ''a'', 5300)]" 300]
    by (simp add: lr_zone_1_def lr_limit_1_def)
qed

text \<open>
  C19: A request never leaves a node pinned and is charged only when it is let through: if
  every key has a value, then whatever the limits answer, afterwards no limit holds a node,
  every node's count is what it was (nodes may have come unpinned, or gone when they were
  not pinned by anyone); and when the request is refused, no bucket level has changed. When a
  later key cannot be computed this fails (\<open>limit_req_key_error_leaks_pin\<close>).
\<close>

theorem limit_req_balanced:
  assumes "list_all (\<lambda>it. keys_ok (lr_queue (it_zone it)) \<and> lr_pin (it_zone it) = None \<and> it_key it \<noteq> None) items"
    and "ngx_http_limit_req_handler room now conf var set0 items = (answer, set1, items')"
  shows "list_all2 unpinned items items'
    \<and> (answer = Lr_status (lr_status_code conf) \<longrightarrow> list_all2 levels_kept items items')"
proof (cases "items' = items")
  case True
  then show ?thesis using assms(1) by (auto simp: list_all_length list_all2_conv_all_nth unpinned_def levels_kept_refl)
next
  case False
  obtain r ep passed its where sc: "lr_scan room now NGX_DECLINED 0 [] items = (r, ep, passed, its)"
    by (cases "lr_scan room now NGX_DECLINED 0 [] items") auto
  let ?a = "take (length passed) items" and ?b = "drop (length passed) items"
  have "list_all (\<lambda>it. unpinned it it) items" using assms(1) by (simp add: list_all_iff unpinned_def)
  from lr_scan_inv [OF sc, of "[]"] this
  have i: "list_all2 (\<lambda>it it'. (unpinned it it' \<or> pinned it it') \<and> levels_kept it it') ?a passed" "list_all2 unpinned ?b its"
    "r \<noteq> Some NGX_OK \<Longrightarrow> list_all2 levels_kept ?b its" "r = Some NGX_DECLINED \<Longrightarrow> list_all2 unpinned ?a passed"
    by simp_all
  have r: "r \<noteq> None" using lr_scan_keys [OF _ sc] assms(1) by (simp add: list_all_iff)
  have un: "list_all2 unpinned ?a (map lr_unpin passed)" "list_all2 levels_kept ?a (map lr_unpin passed)"
    "list_all2 unpinned ?a (map (fst \<circ> lr_account_one now) passed)"
    using i(1) lr_unpin_balanced lr_account_balanced by (auto simp: list_all2_conv_all_nth)
  have app: "list_all2 P items (xs @ ys)" if "list_all2 P ?a xs" "list_all2 P ?b ys" for P and xs ys :: "lr_item list"
    using list_all2_appendI [OF that] by simp
  consider "r = Some NGX_DECLINED" "items' = passed @ its" "answer = Lr_declined"
    | "r \<noteq> Some NGX_OK" "items' = map lr_unpin passed @ its"
    | "items' = map (fst \<circ> lr_account_one now) passed @ its" "\<And>c. answer \<noteq> Lr_status c"
    using assms(2) sc r False
    by (auto simp: ngx_http_limit_req_handler_def ngx_http_limit_req_account_def ngx_codes Let_def comp_def
        split: if_splits option.splits prod.splits)
  then show ?thesis
    using i(2-4) un app by cases auto
qed

definition lr_item_1 :: "bytes option \<Rightarrow> lr_item" where
  "lr_item_1 key = \<lparr>it_limit = lr_limit_1, it_zone = lr_zone_1, it_key = key\<rparr>"

definition lr_conf_1 :: lr_conf where
  "lr_conf_1 = \<lparr>lr_enable = True, lr_geo_var_value = [], lr_status_code = 503\<rparr>"

theorem limit_req_balanced_witness:
  "\<exists>answer set1 items'. ngx_http_limit_req_handler (\<lambda>_ _. True) 5000 lr_conf_1 None False
       [lr_item_1 (Some (str ''a'')), lr_item_1 (Some (str ''b''))] = (answer, set1, items')
     \<and> list_all2 unpinned [lr_item_1 (Some (str ''a'')), lr_item_1 (Some (str ''b''))] items'"
proof -
  let ?its = "[lr_item_1 (Some (str ''a'')), lr_item_1 (Some (str ''b''))]"
  obtain answer set1 items' where h: "ngx_http_limit_req_handler (\<lambda>_ _. True) 5000 lr_conf_1 None False ?its = (answer, set1, items')"
    by (cases "ngx_http_limit_req_handler (\<lambda>_ _. True) 5000 lr_conf_1 None False ?its") auto
  have "list_all (\<lambda>it. keys_ok (lr_queue (it_zone it)) \<and> lr_pin (it_zone it) = None \<and> it_key it \<noteq> None) ?its"
    by (simp add: lr_item_1_def lr_zone_1_def keys_ok_def)
  from limit_req_balanced [OF this h] show ?thesis using h by blast
qed

text \<open>
  The other case does happen: when the key of a later limit has no value, the handler
  returns at once and the node of the first limit stays pinned, with a count that nothing
  takes back.
\<close>

lemma limit_req_key_error_leaks_pin:
  "\<exists>it' its. ngx_http_limit_req_handler (\<lambda>_ _. True) 5000 lr_conf_1 None False
       [lr_item_1 (Some (str ''a'')), lr_item_1 None] = (Lr_status 500, False, it' # its)
     \<and> lr_pin (it_zone it') = Some (str ''a'') \<and> count_of (lr_queue (it_zone it')) (str ''a'') = 1"
  by (simp add: ngx_http_limit_req_handler_def lr_conf_1_def lr_item_1_def ngx_http_limit_req_ip_filter_def
      NGX_HTTP_INTERNAL_SERVER_ERROR_def ngx_http_limit_req_lookup_def lr_new_def lr_zone_1_def count_of_def ngx_codes Let_def
      ngx_http_limit_req_expire.simps)

end
