(* ===== verification/Ngx_Radix.thy ===== *)
theory Ngx_Radix
  imports Ngx_Prelude "HOL-Library.Sublist"
begin

section \<open>Radix trees of addresses (ngx_radix_tree.c)\<close>

text \<open>
  The binary tries of src/ngx-1.12.0/src/core/ngx_radix_tree.c that map address prefixes to
  values. A node is a \<open>Node left value right\<close>, a NULL pointer is \<open>Null\<close>; the parent pointers
  are the path from the root to the node, so that the loop of the deletion that follows them
  upwards is the way back of a recursion. The functions for 32-bit and for 128-bit keys have
  the same text but for the way they walk along the bits; here both are instances of one
  function, which counts the bits already used (\<open>d\<close>): in the first the current bit is
  \<open>0x80000000 >> d\<close>, in the second it is \<open>0x80 >> (d mod 8)\<close> of byte \<open>d div 8\<close>. Nodes come
  from a free list, then from pages of the pool, of which there is a given number.
\<close>

subsection \<open>Model\<close>

definition NGX_RADIX_NO_VALUE :: u64 where "NGX_RADIX_NO_VALUE = - 1"

datatype radix_node = Null | Node (left_of: radix_node) u64 (right_of: radix_node)

text \<open>The memory of a tree: the length of the free list, the bytes left in the page, and what the pool has.\<close>

record radix_mem =
  rm_free :: nat
  rm_size :: nat
  rm_pages :: nat
  rm_pagesize :: nat

record radix_tree =
  root :: radix_node
  mem_of :: radix_mem

definition sizeof_radix_node :: nat where "sizeof_radix_node = 32"

definition ngx_radix_alloc :: "radix_mem \<Rightarrow> radix_mem option" where
  "ngx_radix_alloc m =
     (if rm_free m \<noteq> 0 then Some (m\<lparr>rm_free := rm_free m - 1\<rparr>)
      else if rm_size m < sizeof_radix_node then
        if rm_pages m = 0 then None
        else Some (m\<lparr>rm_pages := rm_pages m - 1, rm_size := rm_pagesize m - sizeof_radix_node\<rparr>)
      else Some (m\<lparr>rm_size := rm_size m - sizeof_radix_node\<rparr>))"

definition radix_free :: "radix_mem \<Rightarrow> radix_mem" where
  "radix_free m = m\<lparr>rm_free := rm_free m + 1\<rparr>"

fun child :: "bool \<Rightarrow> radix_node \<Rightarrow> radix_node" where
  "child b Null = Null"
| "child b (Node l v r) = (if b then r else l)"

fun set_child :: "bool \<Rightarrow> radix_node \<Rightarrow> radix_node \<Rightarrow> radix_node" where
  "set_child b c Null = Null"
| "set_child b c (Node l v r) = (if b then Node l v c else Node c v r)"

fun node_value :: "radix_node \<Rightarrow> u64" where
  "node_value Null = NGX_RADIX_NO_VALUE"
| "node_value (Node l v r) = v"

fun set_value :: "u64 \<Rightarrow> radix_node \<Rightarrow> radix_node" where
  "set_value x Null = Null"
| "set_value x (Node l v r) = Node l x r"

definition has_child :: "radix_node \<Rightarrow> bool" where
  "has_child n \<longleftrightarrow> child True n \<noteq> Null \<or> child False n \<noteq> Null"

text \<open>
  The second loop of an insertion, which adds nodes below \<open>node\<close>, and the first, which
  follows the nodes there are. The msk is given by its bits \<open>inm\<close>, the key by its bits \<open>rt\<close>.
\<close>

function radix_grow :: "nat \<Rightarrow> (nat \<Rightarrow> bool) \<Rightarrow> (nat \<Rightarrow> bool) \<Rightarrow> u64 \<Rightarrow> nat \<Rightarrow> radix_mem \<Rightarrow> radix_node \<Rightarrow>
    int \<times> radix_mem \<times> radix_node" where
  "radix_grow w inm rt val d m node =
     (if d < w \<and> inm d then
        case ngx_radix_alloc m of
          None \<Rightarrow> (NGX_ERROR, m, node)
        | Some m \<Rightarrow>
            case radix_grow w inm rt val (d + 1) m (Node Null NGX_RADIX_NO_VALUE Null) of
              (rc, m, next) \<Rightarrow> (rc, m, set_child (rt d) next node)
      else (NGX_OK, m, set_value val node))"
  by pat_completeness auto
termination
  by (relation "measure (\<lambda>(w, inm, rt, val, d, m, node). w - d)") auto

function radix_insert :: "nat \<Rightarrow> (nat \<Rightarrow> bool) \<Rightarrow> (nat \<Rightarrow> bool) \<Rightarrow> u64 \<Rightarrow> nat \<Rightarrow> radix_mem \<Rightarrow> radix_node \<Rightarrow>
    int \<times> radix_mem \<times> radix_node" where
  "radix_insert w inm rt val d m node =
     (if d < w \<and> inm d then
        let next = child (rt d) node
        in if next = Null then radix_grow w inm rt val d m node
           else case radix_insert w inm rt val (d + 1) m next of
             (rc, m, next) \<Rightarrow> (rc, m, set_child (rt d) next node)
      else if node_value node \<noteq> NGX_RADIX_NO_VALUE then (NGX_BUSY, m, node)
      else (NGX_OK, m, set_value val node))"
  by pat_completeness auto
termination
  by (relation "measure (\<lambda>(w, inm, rt, val, d, m, node). w - d)") auto

text \<open>
  Deletion below \<open>node\<close>; \<open>at_root\<close> says that it is the root, which has no parent. A result \<open>Null\<close>
  for a node means that its parent unlinked it and it is in the free list. \<open>None\<close>: the parent
  of the root is followed.
\<close>

function radix_delete :: "nat \<Rightarrow> (nat \<Rightarrow> bool) \<Rightarrow> (nat \<Rightarrow> bool) \<Rightarrow> nat \<Rightarrow> bool \<Rightarrow> radix_mem \<Rightarrow> radix_node \<Rightarrow>
    (int \<times> radix_mem \<times> radix_node) option" where
  "radix_delete w inm rt d at_root m node =
     (if node = Null then Some (NGX_ERROR, m, node)
      else if d < w \<and> inm d then
        case radix_delete w inm rt (d + 1) False m (child (rt d) node) of
          None \<Rightarrow> None
        | Some (rc, m, next) \<Rightarrow>
            let unlinked = (next = Null \<and> child (rt d) node \<noteq> Null); node = set_child (rt d) next node
            in if \<not> unlinked \<or> has_child node \<or> node_value node \<noteq> NGX_RADIX_NO_VALUE \<or> at_root
               then Some (rc, m, node)
               else Some (rc, radix_free m, Null)
      else if has_child node then
        if node_value node \<noteq> NGX_RADIX_NO_VALUE then Some (NGX_OK, m, set_value NGX_RADIX_NO_VALUE node)
        else Some (NGX_ERROR, m, node)
      else if at_root then None
      else Some (NGX_OK, radix_free m, Null))"
  by pat_completeness auto
termination
  by (relation "measure (\<lambda>(w, inm, rt, d, at_root, m, node). w - d)") auto

text \<open>The lookup; the bits of the key are read one by one, and \<open>None\<close> is a read outside the key.\<close>

fun radix_find :: "(nat \<Rightarrow> bool option) \<Rightarrow> nat \<Rightarrow> u64 \<Rightarrow> radix_node \<Rightarrow> u64 option" where
  "radix_find rt d val Null = Some val"
| "radix_find rt d val (Node l v r) =
     (let val = (if v \<noteq> NGX_RADIX_NO_VALUE then v else val)
      in case rt d of
           None \<Rightarrow> None
         | Some b \<Rightarrow> if b then radix_find rt (d + 1) val r else radix_find rt (d + 1) val l)"

text \<open>The functions for keys of 32 bits.\<close>

definition bit32 :: "u32 \<Rightarrow> nat \<Rightarrow> bool" where
  "bit32 x d \<longleftrightarrow> x AND drop_bit d 0x80000000 \<noteq> 0"

definition ngx_radix32tree_insert :: "u32 \<Rightarrow> u32 \<Rightarrow> u64 \<Rightarrow> radix_tree \<Rightarrow> int \<times> radix_tree" where
  "ngx_radix32tree_insert key msk val tree =
     (case radix_insert 32 (bit32 msk) (bit32 key) val 0 (mem_of tree) (root tree) of
        (rc, m, node) \<Rightarrow> (rc, \<lparr>root = node, mem_of = m\<rparr>))"

definition ngx_radix32tree_delete :: "u32 \<Rightarrow> u32 \<Rightarrow> radix_tree \<Rightarrow> (int \<times> radix_tree) option" where
  "ngx_radix32tree_delete key msk tree =
     map_option (\<lambda>(rc, m, node). (rc, \<lparr>root = node, mem_of = m\<rparr>))
       (radix_delete 32 (bit32 msk) (bit32 key) 0 True (mem_of tree) (root tree))"

definition ngx_radix32tree_find :: "u32 \<Rightarrow> radix_tree \<Rightarrow> u64 option" where
  "ngx_radix32tree_find key tree = radix_find (\<lambda>d. Some (bit32 key d)) 0 NGX_RADIX_NO_VALUE (root tree)"

text \<open>The functions for keys of 16 bytes. Insertion and deletion stop when 16 bytes are used up.\<close>

definition bit128 :: "bytes \<Rightarrow> nat \<Rightarrow> bool" where
  "bit128 x d \<longleftrightarrow> x ! (d div 8) AND drop_bit (d mod 8) 0x80 \<noteq> 0"

definition ngx_radix128tree_insert :: "bytes \<Rightarrow> bytes \<Rightarrow> u64 \<Rightarrow> radix_tree \<Rightarrow> int \<times> radix_tree" where
  "ngx_radix128tree_insert key msk val tree =
     (case radix_insert 128 (bit128 msk) (bit128 key) val 0 (mem_of tree) (root tree) of
        (rc, m, node) \<Rightarrow> (rc, \<lparr>root = node, mem_of = m\<rparr>))"

definition ngx_radix128tree_delete :: "bytes \<Rightarrow> bytes \<Rightarrow> radix_tree \<Rightarrow> (int \<times> radix_tree) option" where
  "ngx_radix128tree_delete key msk tree =
     map_option (\<lambda>(rc, m, node). (rc, \<lparr>root = node, mem_of = m\<rparr>))
       (radix_delete 128 (bit128 msk) (bit128 key) 0 True (mem_of tree) (root tree))"

definition ngx_radix128tree_find :: "bytes \<Rightarrow> radix_tree \<Rightarrow> u64 option" where
  "ngx_radix128tree_find key tree =
     radix_find (\<lambda>d. if d div 8 < length key then Some (bit128 key d) else None) 0 NGX_RADIX_NO_VALUE (root tree)"

text \<open>
  Creation. The inner loop adds the nodes of one level, at the keys \<open>0, inc, 2 inc, ...\<close>
  until the addition wraps around; the outer one goes on to the next level.
\<close>

partial_function (option) radix_level :: "u32 \<Rightarrow> u32 \<Rightarrow> u32 \<Rightarrow> radix_tree \<Rightarrow> (int \<times> radix_tree) option" where
  "radix_level msk inc key tree =
     (case ngx_radix32tree_insert key msk NGX_RADIX_NO_VALUE tree of
        (rc, tree) \<Rightarrow>
          if rc \<noteq> NGX_OK then Some (rc, tree)
          else if key + inc \<noteq> 0 then radix_level msk inc (key + inc) tree
          else Some (NGX_OK, tree))"

fun radix_levels :: "nat \<Rightarrow> u32 \<Rightarrow> u32 \<Rightarrow> radix_tree \<Rightarrow> (int \<times> radix_tree) option" where
  "radix_levels 0 msk inc tree = Some (NGX_OK, tree)"
| "radix_levels (Suc n) msk inc tree =
     (let msk = drop_bit 1 msk OR 0x80000000
      in case radix_level msk inc 0 tree of
           None \<Rightarrow> None
         | Some (rc, tree) \<Rightarrow>
             if rc \<noteq> NGX_OK then Some (rc, tree) else radix_levels n msk (drop_bit 1 inc) tree)"

text \<open>The number of levels for \<open>preallocate\<close>: -1 asks for those that fill a page.\<close>

definition preallocate_bits :: "nat \<Rightarrow> int \<Rightarrow> nat" where
  "preallocate_bits pagesize preallocate =
     (if preallocate = -1 then
        if pagesize div sizeof_radix_node = 128 then 6
        else if pagesize div sizeof_radix_node = 256 then 7
        else 8
      else nat preallocate)"

text \<open>
  \<open>ngx_radix_tree_create\<close>, for \<open>preallocate\<close> not below -1; \<open>None\<close> when it does not return,
  \<open>Some None\<close> when it returns NULL.
\<close>

definition ngx_radix_tree_create :: "nat \<Rightarrow> nat \<Rightarrow> int \<Rightarrow> radix_tree option option" where
  "ngx_radix_tree_create pagesize pages preallocate =
     (case ngx_radix_alloc \<lparr>rm_free = 0, rm_size = 0, rm_pages = pages, rm_pagesize = pagesize\<rparr> of
        None \<Rightarrow> Some None
      | Some m \<Rightarrow>
          let tree = \<lparr>root = Node Null NGX_RADIX_NO_VALUE Null, mem_of = m\<rparr>
          in if preallocate = 0 then Some (Some tree)
             else case radix_levels (preallocate_bits pagesize preallocate) 0 0x80000000 tree of
               None \<Rightarrow> None
             | Some (rc, tree) \<Rightarrow> if rc \<noteq> NGX_OK then Some None else Some (Some tree))"

declare radix_grow.simps [simp del] radix_insert.simps [simp del] radix_delete.simps [simp del]

subsection \<open>Trees as maps from prefixes\<close>

fun rmap :: "radix_node \<Rightarrow> bool list \<rightharpoonup> u64" where
  "rmap Null p = None"
| "rmap (Node l v r) [] = (if v = NGX_RADIX_NO_VALUE then None else Some v)"
| "rmap (Node l v r) (b # p) = rmap (if b then r else l) p"

fun nodes :: "radix_node \<Rightarrow> nat" where
  "nodes Null = 0"
| "nodes (Node l v r) = nodes l + nodes r + 1"

fun height :: "radix_node \<Rightarrow> nat" where
  "height Null = 0"
| "height (Node l v r) = max (height l) (height r) + 1"

text \<open>The directions from bit \<open>d\<close> on.\<close>

definition path :: "nat \<Rightarrow> (nat \<Rightarrow> bool) \<Rightarrow> (nat \<Rightarrow> bool) \<Rightarrow> nat \<Rightarrow> bool list" where
  "path w inm rt d = map rt (takeWhile inm [d..<w])"

lemma path_simps:
  "path w inm rt d = (if d < w \<and> inm d then rt d # path w inm rt (d + 1) else [])"
  by (cases "d < w") (auto simp: path_def upt_conv_Cons)

lemma path_bound: "d \<le> w \<Longrightarrow> length (path w inm rt d) \<le> w - d"
  unfolding path_def by (metis length_map length_takeWhile_le length_upt)

text \<open>The number of nodes that can be had.\<close>

definition room :: "radix_mem \<Rightarrow> nat" where
  "room m = rm_free m + rm_size m div sizeof_radix_node + rm_pages m * (rm_pagesize m div sizeof_radix_node)"

lemma alloc_room:
  assumes "sizeof_radix_node \<le> rm_pagesize m"
  shows "case ngx_radix_alloc m of None \<Rightarrow> room m = 0
    | Some m' \<Rightarrow> room m = room m' + 1 \<and> rm_pagesize m' = rm_pagesize m"
  using assms by (cases "rm_free m"; cases "rm_pages m")
    (auto simp: ngx_radix_alloc_def room_def sizeof_radix_node_def le_div_geq)

lemma room_free [simp]: "room (radix_free m) = room m + 1" "rm_pagesize (radix_free m) = rm_pagesize m"
  by (simp_all add: room_def radix_free_def)

definition vopt :: "u64 \<Rightarrow> u64 option" where
  "vopt v = (if v = NGX_RADIX_NO_VALUE then None else Some v)"

lemma rmap_Nil: "rmap node [] = vopt (node_value node)"
  by (cases node) (simp_all add: vopt_def)

lemma rmap_child: "rmap (child b node) p = rmap node (b # p)"
  by (cases node) auto

lemma rmap_set_value: "node \<noteq> Null \<Longrightarrow> rmap (set_value x node) = (rmap node)([] := vopt x)"
proof (rule ext)
  show "node \<noteq> Null \<Longrightarrow> rmap (set_value x node) p = ((rmap node)([] := vopt x)) p" for p
    by (cases node; cases p) (simp_all add: vopt_def)
qed

lemma rmap_set_child:
  assumes "node \<noteq> Null" "rmap c = (rmap (child b node))(p := y)"
  shows "rmap (set_child b c node) = (rmap node)(b # p := y)"
proof (rule ext)
  show "rmap (set_child b c node) q = ((rmap node)(b # p := y)) q" for q
    using assms by (cases node; cases q) (auto simp: fun_eq_iff)
qed

lemma rmap_set_child_same:
  assumes "node \<noteq> Null" "rmap c = rmap (child b node)"
  shows "rmap (set_child b c node) = rmap node"
proof (rule ext)
  show "rmap (set_child b c node) q = rmap node q" for q
    using assms by (cases node; cases q) auto
qed

lemma set_facts:
  "set_value x node = Null \<longleftrightarrow> node = Null" "set_child b c node = Null \<longleftrightarrow> node = Null"
  "nodes (set_value x node) = nodes node" "height (set_value x node) = height node"
  "node_value (set_child b c node) = node_value node"
  by (cases node; simp)+

lemma nodes_set_child: "node \<noteq> Null \<Longrightarrow> nodes (set_child b c node) + nodes (child b node) = nodes node + nodes c"
  by (cases node) simp_all

lemma height_set_child: "height (set_child b c node) \<le> max (height node) (height c + 1)"
  by (cases node) auto

lemma height_child: "node \<noteq> Null \<Longrightarrow> height (child b node) + 1 \<le> height node"
  by (cases node) auto

text \<open>What every change keeps: no node is lost, and an operation on a prefix of \<open>k\<close> bits
  makes the tree no deeper and takes no more nodes than that asks for.\<close>

definition kept :: "nat \<Rightarrow> radix_mem \<Rightarrow> radix_node \<Rightarrow> radix_mem \<Rightarrow> radix_node \<Rightarrow> bool" where
  "kept k m node m' node' \<longleftrightarrow> nodes node' + room m' = nodes node + room m \<and> rm_pagesize m' = rm_pagesize m
     \<and> height node' \<le> max (height node) (k + 1) \<and> room m \<le> room m' + k"

lemma kept_child:
  assumes "node \<noteq> Null" "kept k m (child b node) m' c"
  shows "kept (k + 1) m node m' (set_child b c node)"
  using assms nodes_set_child [OF assms(1), of b c] height_set_child [of b c node] height_child [OF assms(1), of b]
  by (auto simp: kept_def)

lemma grow_result:
  assumes "radix_grow w inm rt val d m node = (rc, m', node')" "node \<noteq> Null" "sizeof_radix_node \<le> rm_pagesize m"
    and "d < w \<and> inm d \<Longrightarrow> child (rt d) node = Null" "d \<le> w"
  shows "node' \<noteq> Null \<and> kept (length (path w inm rt d)) m node m' node'
    \<and> (rc = NGX_OK \<and> rmap node' = (rmap node)(path w inm rt d := vopt val)
       \<or> rc = NGX_ERROR \<and> room m < length (path w inm rt d) \<and> rmap node' = rmap node)"
  using assms
proof (induction w inm rt val d m node arbitrary: rc m' node' rule: radix_grow.induct)
  case (1 w inm rt val d m node)
  let ?new = "Node Null NGX_RADIX_NO_VALUE Null"
  show ?case
  proof (cases "d < w \<and> inm d")
    case True
    then have c: "child (rt d) node = Null" using "1.prems"(4) by blast
    show ?thesis
    proof (cases "ngx_radix_alloc m")
      case None
      then show ?thesis
        using True "1.prems"(1,2) alloc_room [OF "1.prems"(3)]
        by (auto simp: radix_grow.simps [of w inm rt val d m node] path_simps [of w inm rt d] kept_def)
    next
      case (Some m1)
      obtain rc1 m2 next1 where g: "radix_grow w inm rt val (d + 1) m1 ?new = (rc1, m2, next1)"
        by (cases "radix_grow w inm rt val (d + 1) m1 ?new") auto
      have r: "room m = room m1 + 1" "rm_pagesize m1 = rm_pagesize m" using alloc_room [OF "1.prems"(3)] Some by auto
      have e: "rc1 = rc" "m2 = m'" "node' = set_child (rt d) next1 node"
        using "1.prems"(1) True Some g by (auto simp: radix_grow.simps [of w inm rt val d m node])
      have IH: "next1 \<noteq> Null \<and> kept (length (path w inm rt (d + 1))) m1 ?new m2 next1
        \<and> (rc1 = NGX_OK \<and> rmap next1 = (rmap ?new)(path w inm rt (d + 1) := vopt val)
         \<or> rc1 = NGX_ERROR \<and> room m1 < length (path w inm rt (d + 1)) \<and> rmap next1 = rmap ?new)"
        by (rule "1.IH" [OF True Some g]) (use True r(2) "1.prems"(3) in auto)
      have n: "rmap ?new = rmap (child (rt d) node)"
      proof (rule ext)
        show "rmap ?new q = rmap (child (rt d) node) q" for q by (cases q) (simp_all add: c)
      qed
      have "kept (length (path w inm rt d)) m node m' node'"
        using IH e c r True path_simps [of w inm rt d] nodes_set_child [OF "1.prems"(2), of "rt d" next1] height_set_child [of "rt d" next1 node]
        by (auto simp: kept_def)
      then show ?thesis
        using IH e True n r(1) rmap_set_child [OF "1.prems"(2), of next1 "rt d"] rmap_set_child_same [OF "1.prems"(2), of next1 "rt d"]
          "1.prems"(2) by (auto simp: set_facts path_simps [of w inm rt d])
    qed
  next
    case False
    then show ?thesis
      using "1.prems"(1,2) by (auto simp: radix_grow.simps [of w inm rt val d m node] path_simps [of w inm rt d]
        set_facts rmap_set_value kept_def fun_upd_def)
  qed
qed

lemma insert_result:
  assumes "radix_insert w inm rt val d m node = (rc, m', node')" "node \<noteq> Null" "sizeof_radix_node \<le> rm_pagesize m" "d \<le> w"
  shows "node' \<noteq> Null \<and> kept (length (path w inm rt d)) m node m' node'
    \<and> (if rmap node (path w inm rt d) \<noteq> None then rc = NGX_BUSY \<and> node' = node
       else rc = NGX_OK \<and> rmap node' = (rmap node)(path w inm rt d := vopt val)
         \<or> rc = NGX_ERROR \<and> room m < length (path w inm rt d) \<and> rmap node' = rmap node)"
  using assms
proof (induction w inm rt val d m node arbitrary: rc m' node' rule: radix_insert.induct)
  case (1 w inm rt val d m node)
  note eq = radix_insert.simps [of w inm rt val d m node] path_simps [of w inm rt d]
  show ?case
  proof (cases "d < w \<and> inm d")
    case True
    show ?thesis
    proof (cases "child (rt d) node = Null")
      case Null: True
      then have g: "radix_grow w inm rt val d m node = (rc, m', node')" using "1.prems"(1) True by (simp add: eq)
      have "rmap node (path w inm rt d) = None"
        using True Null rmap_child [of "rt d" node] by (simp add: eq(2))
      then show ?thesis using grow_result [OF g "1.prems"(2,3) Null "1.prems"(4)] by simp
    next
      case False
      obtain rc1 m1 c where i: "radix_insert w inm rt val (d + 1) m (child (rt d) node) = (rc1, m1, c)"
        by (cases "radix_insert w inm rt val (d + 1) m (child (rt d) node)") auto
      have e: "rc1 = rc" "m1 = m'" "node' = set_child (rt d) c node"
        using "1.prems"(1) True False i by (auto simp: eq(1) Let_def)
      have IH: "c \<noteq> Null \<and> kept (length (path w inm rt (d + 1))) m (child (rt d) node) m1 c
        \<and> (if rmap (child (rt d) node) (path w inm rt (d + 1)) \<noteq> None then rc1 = NGX_BUSY \<and> c = child (rt d) node
           else rc1 = NGX_OK \<and> rmap c = (rmap (child (rt d) node))(path w inm rt (d + 1) := vopt val)
             \<or> rc1 = NGX_ERROR \<and> room m < length (path w inm rt (d + 1)) \<and> rmap c = rmap (child (rt d) node))"
        by (rule "1.IH" [OF True refl False i]) (use True False "1.prems"(3) in auto)
      have k: "kept (length (path w inm rt d)) m node m' node'"
        using kept_child [OF "1.prems"(2), of "length (path w inm rt (d + 1))" m "rt d" m1 c] IH e True by (simp add: eq(2))
      have same: "set_child (rt d) (child (rt d) node) node = node" by (cases node) auto
      show ?thesis
        using IH e k True same "1.prems"(2) rmap_child [of "rt d" node] rmap_set_child [OF "1.prems"(2), of c "rt d"]
          rmap_set_child_same [OF "1.prems"(2), of c "rt d"]
        by (auto simp: eq(2) set_facts split: if_splits)
    qed
  next
    case False
    then show ?thesis
      using "1.prems"(1,2) by (auto simp: eq set_facts rmap_set_value kept_def rmap_Nil vopt_def fun_upd_def split: if_splits)
  qed
qed

lemma leaf_rmap: "\<not> has_child node \<Longrightarrow> node_value node = NGX_RADIX_NO_VALUE \<Longrightarrow> rmap node = Map.empty"
proof (rule ext)
  show "\<not> has_child node \<Longrightarrow> node_value node = NGX_RADIX_NO_VALUE \<Longrightarrow> rmap node p = None" for p
    by (cases node; cases p) (auto simp: has_child_def)
qed

lemma leaf_upd: "node \<noteq> Null \<Longrightarrow> \<not> has_child node \<Longrightarrow> (rmap node)([] := None) = Map.empty"
proof (rule ext)
  show "node \<noteq> Null \<Longrightarrow> \<not> has_child node \<Longrightarrow> ((rmap node)([] := None)) p = None" for p
    by (cases node; cases p) (auto simp: has_child_def)
qed

lemma leaf_nodes: "node \<noteq> Null \<Longrightarrow> \<not> has_child node \<Longrightarrow> nodes node = 1"
  by (cases node) (auto simp: has_child_def)

definition shrunk :: "radix_mem \<Rightarrow> radix_node \<Rightarrow> radix_mem \<Rightarrow> radix_node \<Rightarrow> bool" where
  "shrunk m node m' node' \<longleftrightarrow> nodes node' + room m' = nodes node + room m \<and> rm_pagesize m' = rm_pagesize m
     \<and> height node' \<le> height node \<and> room m \<le> room m'"

lemma shrunk_child:
  assumes "node \<noteq> Null" "shrunk m (child b node) m' c"
  shows "shrunk m node m' (set_child b c node)"
  using assms nodes_set_child [OF assms(1), of b c] height_set_child [of b c node] height_child [OF assms(1), of b]
  by (auto simp: shrunk_def)

text \<open>The way back up: the node below \<open>node\<close> has been dealt with.\<close>

lemma delete_up:
  assumes "node \<noteq> Null" "d < w \<and> inm d" "child (rt d) node \<noteq> Null"
    and d: "radix_delete w inm rt (d + 1) False m (child (rt d) node) = Some (rc, m1, c)"
    and c: "shrunk m (child (rt d) node) m1 c"
      "rc = NGX_OK \<and> rmap c = (rmap (child (rt d) node))(path w inm rt (d + 1) := None)
       \<or> rc = NGX_ERROR \<and> rmap (child (rt d) node) (path w inm rt (d + 1)) = None \<and> c = child (rt d) node"
  shows "\<exists>m' node'. radix_delete w inm rt d at_root m node = Some (rc, m', node') \<and> shrunk m node m' node'
    \<and> (at_root \<longrightarrow> node' \<noteq> Null)
    \<and> (rc = NGX_OK \<and> rmap node' = (rmap node)(path w inm rt d := None)
       \<or> rc = NGX_ERROR \<and> rmap node (path w inm rt d) = None \<and> node' = node)"
proof -
  let ?n = "set_child (rt d) c node"
  note eq = radix_delete.simps [of w inm rt d at_root m node] path_simps [of w inm rt d]
  have k: "shrunk m node m1 ?n"
    using shrunk_child [OF assms(1) c(1)] by simp
  have same: "set_child (rt d) (child (rt d) node) node = node" by (cases node) auto
  have r: "rc = NGX_OK \<and> rmap ?n = (rmap node)(path w inm rt d := None)
           \<or> rc = NGX_ERROR \<and> rmap node (path w inm rt d) = None \<and> ?n = node"
    using c(2) assms(2) same rmap_child [of "rt d" node] rmap_set_child [OF assms(1), of c "rt d"] by (auto simp: eq(2))
  show ?thesis
  proof (cases "c = Null \<and> \<not> has_child ?n \<and> node_value node = NGX_RADIX_NO_VALUE \<and> \<not> at_root")
    case gone: True
    have n: "nodes ?n = 1" "rmap ?n = rmap Null"
      using leaf_nodes [of ?n] leaf_rmap [of ?n] gone assms(1) by (auto simp add: set_facts)
    have "rc = NGX_OK" using c(2) gone assms(3) by auto
    moreover have "radix_delete w inm rt d at_root m node = Some (rc, radix_free m1, Null)"
      using assms(1-3) d gone by (auto simp: radix_delete.simps [of w inm rt d False m node] Let_def set_facts)
    moreover have "shrunk m node (radix_free m1) Null" using k n(1) by (auto simp: shrunk_def)
    ultimately show ?thesis using r n(2) gone by (auto simp: ngx_codes)
  next
    case stays: False
    have "radix_delete w inm rt d at_root m node = Some (rc, m1, ?n)"
      using assms(1-3) d stays by (auto simp: eq(1) Let_def set_facts)
    then show ?thesis using k r assms(1) by (simp add: set_facts)
  qed
qed

lemma delete_result:
  assumes "node \<noteq> Null" "d \<le> w"
  shows "case radix_delete w inm rt d at_root m node of
      None \<Rightarrow> at_root \<and> path w inm rt d = [] \<and> \<not> has_child node
    | Some (rc, m', node') \<Rightarrow> shrunk m node m' node' \<and> (at_root \<longrightarrow> node' \<noteq> Null)
        \<and> \<not> (at_root \<and> path w inm rt d = [] \<and> \<not> has_child node)
        \<and> (rc = NGX_OK \<and> rmap node' = (rmap node)(path w inm rt d := None)
           \<or> rc = NGX_ERROR \<and> rmap node (path w inm rt d) = None \<and> node' = node)"
  using assms
proof (induction w inm rt d at_root m node rule: radix_delete.induct)
  case (1 w inm rt d at_root m node)
  note eq = radix_delete.simps [of w inm rt d at_root m node] path_simps [of w inm rt d]
  let ?c = "child (rt d) node"
  consider "\<not> (d < w \<and> inm d)" | "d < w \<and> inm d" "?c = Null" | "d < w \<and> inm d" "?c \<noteq> Null" by blast
  then show ?case
  proof cases
    case 1
    then show ?thesis
      using "1.prems"(1) leaf_nodes [of node] leaf_upd [of node]
      by (auto simp: eq shrunk_def set_facts rmap_set_value rmap_Nil vopt_def fun_upd_def)
  next
    case 2
    have "set_child (rt d) Null node = node" using 2 by (cases node) auto
    then show ?thesis
      using 2 "1.prems"(1) rmap_child [of "rt d" node]
      by (simp add: eq radix_delete.simps [of w inm rt "Suc d"] shrunk_def)
  next
    case 3
    have IH: "case radix_delete w inm rt (d + 1) False m ?c of None \<Rightarrow> False
      | Some (rc, m', c) \<Rightarrow> shrunk m ?c m' c
          \<and> (rc = NGX_OK \<and> rmap c = (rmap ?c)(path w inm rt (d + 1) := None)
             \<or> rc = NGX_ERROR \<and> rmap ?c (path w inm rt (d + 1)) = None \<and> c = ?c)"
      using "1.IH" [OF "1.prems"(1) 3] 3 by (auto split: option.splits)
    then obtain rc m1 c where "radix_delete w inm rt (d + 1) False m ?c = Some (rc, m1, c)"
      "shrunk m ?c m1 c"
      "rc = NGX_OK \<and> rmap c = (rmap ?c)(path w inm rt (d + 1) := None)
             \<or> rc = NGX_ERROR \<and> rmap ?c (path w inm rt (d + 1)) = None \<and> c = ?c"
      by (auto split: option.splits)
    from delete_up [OF "1.prems"(1) 3 this, of at_root] show ?thesis using 3 by (auto simp: eq(2))
  qed
qed

subsection \<open>Lookup is the longest match\<close>

text \<open>The value of the longest prefix of \<open>bits\<close> that has one, else \<open>v\<close>.\<close>

definition longest_match :: "u64 \<Rightarrow> (bool list \<rightharpoonup> u64) \<Rightarrow> bool list \<Rightarrow> u64" where
  "longest_match v mp bits =
     (let ps = filter (\<lambda>p. mp p \<noteq> None) (prefixes bits) in if ps = [] then v else the (mp (last ps)))"

lemma longest_match_Cons:
  "longest_match v mp (b # bs) = longest_match (case mp [] of None \<Rightarrow> v | Some x \<Rightarrow> x) (\<lambda>p. mp (b # p)) bs"
  by (auto simp: longest_match_def Let_def filter_map comp_def last_map split: option.splits)

lemma longest_match_Nil: "longest_match v mp [] = (case mp [] of None \<Rightarrow> v | Some x \<Rightarrow> x)"
  by (auto simp: longest_match_def split: option.splits)

lemma longest_match_empty: "longest_match v Map.empty bits = v"
  by (simp add: longest_match_def)

fun node_at :: "radix_node \<Rightarrow> bool list \<Rightarrow> radix_node" where
  "node_at n [] = n"
| "node_at n (b # p) = node_at (child b n) p"

lemma node_at_Null [simp]: "node_at Null p = Null"
  by (induction p) auto

lemma rmap_node_at: "rmap n p \<noteq> None \<Longrightarrow> node_at n p \<noteq> Null"
  by (induction n p rule: rmap.induct) auto

lemma find_result:
  assumes "\<And>d. d < w \<Longrightarrow> rt d = Some (f d)" "height node \<le> w - d + 1" "d \<le> w"
  shows "radix_find rt d val node =
    (if rt w = None \<and> node_at node (map f [d..<w]) \<noteq> Null then None
     else Some (longest_match val (rmap node) (map f [d..<w])))"
  using assms(2,3)
proof (induction node arbitrary: d val)
  case Null
  have "rmap Null = Map.empty" by (rule ext) simp
  then show ?case by (simp add: longest_match_empty)
next
  case (Node l v r)
  let ?val = "if v \<noteq> NGX_RADIX_NO_VALUE then v else val" and ?c = "if f d then r else l"
  show ?case
  proof (cases "d < w")
    case True
    have "height ?c \<le> w - Suc d + 1" using True Node.prems by (simp add: Suc_diff_Suc)
    then have IH: "radix_find rt (Suc d) ?val ?c =
      (if rt w = None \<and> node_at ?c (map f [Suc d..<w]) \<noteq> Null then None
       else Some (longest_match ?val (rmap ?c) (map f [Suc d..<w])))"
      using Node.IH(1) [of "Suc d" ?val] Node.IH(2) [of "Suc d" ?val] True by (cases "f d") simp_all
    have m: "(\<lambda>p. rmap (Node l v r) (f d # p)) = rmap ?c" by (rule ext) simp
    have "longest_match val (rmap (Node l v r)) (map f [d..<w]) = longest_match ?val (rmap ?c) (map f [Suc d..<w])"
      using True by (simp add: upt_conv_Cons longest_match_Cons m)
    moreover have "radix_find rt d val (Node l v r) = radix_find rt (Suc d) ?val ?c"
      using assms(1) [OF True] by (simp add: Let_def)
    ultimately show ?thesis using IH True by (simp add: upt_conv_Cons)
  next
    case False
    then have "l = Null" "r = Null" using Node.prems by (cases l; cases r; simp)+
    then show ?thesis using False Node.prems by (auto simp: longest_match_Nil Let_def split: option.splits)
  qed
qed

subsection \<open>The two kinds of trees\<close>

definition bits32 :: "u32 \<Rightarrow> bool list" where "bits32 key = map (bit32 key) [0..<32]"

definition bits128 :: "bytes \<Rightarrow> bool list" where "bits128 key = map (bit128 key) [0..<128]"

text \<open>The prefix a key and a mask stand for: the bits of the key under the leading ones of the mask.\<close>

definition prefix32 :: "u32 \<times> u32 \<Rightarrow> bool list" where
  "prefix32 p = path 32 (bit32 (snd p)) (bit32 (fst p)) 0"

definition prefix128 :: "bytes \<times> bytes \<Rightarrow> bool list" where
  "prefix128 p = path 128 (bit128 (snd p)) (bit128 (fst p)) 0"

definition radix_ok :: "nat \<Rightarrow> radix_tree \<Rightarrow> bool" where
  "radix_ok w t \<longleftrightarrow> root t \<noteq> Null \<and> height (root t) \<le> w + 1 \<and> sizeof_radix_node \<le> rm_pagesize (mem_of t)"

text \<open>The nodes of a tree and those it can still get.\<close>

definition node_count :: "radix_tree \<Rightarrow> nat" where
  "node_count t = nodes (root t) + room (mem_of t)"

definition tmap :: "radix_tree \<Rightarrow> bool list \<rightharpoonup> u64" where
  "tmap t = rmap (root t)"

text \<open>What an insertion and a deletion may answer and do.\<close>

definition insert_ok :: "bool list \<Rightarrow> u64 \<Rightarrow> radix_tree \<Rightarrow> int \<times> radix_tree \<Rightarrow> bool" where
  "insert_ok p val t r \<longleftrightarrow> root (snd r) \<noteq> Null \<and> height (root (snd r)) \<le> max (height (root t)) (length p + 1)
     \<and> node_count (snd r) = node_count t \<and> room (mem_of t) \<le> room (mem_of (snd r)) + length p
     \<and> rm_pagesize (mem_of (snd r)) = rm_pagesize (mem_of t)
     \<and> (if tmap t p \<noteq> None then fst r = NGX_BUSY \<and> root (snd r) = root t
        else fst r = NGX_OK \<and> tmap (snd r) = (tmap t)(p := vopt val)
          \<or> fst r = NGX_ERROR \<and> room (mem_of t) < length p \<and> tmap (snd r) = tmap t)"

definition delete_ok :: "bool list \<Rightarrow> radix_tree \<Rightarrow> (int \<times> radix_tree) option \<Rightarrow> bool" where
  "delete_ok p t r \<longleftrightarrow>
     (case r of
        None \<Rightarrow> p = [] \<and> \<not> has_child (root t)
      | Some (rc, t') \<Rightarrow> root t' \<noteq> Null \<and> height (root t') \<le> height (root t)
          \<and> node_count t' = node_count t \<and> room (mem_of t) \<le> room (mem_of t')
          \<and> rm_pagesize (mem_of t') = rm_pagesize (mem_of t) \<and> (p \<noteq> [] \<or> has_child (root t))
          \<and> (rc = NGX_OK \<and> tmap t' = (tmap t)(p := None)
             \<or> rc = NGX_ERROR \<and> tmap t p = None \<and> root t' = root t))"

lemma insert_ok_radix_ok: "insert_ok p val t r \<Longrightarrow> radix_ok w t \<Longrightarrow> length p \<le> w \<Longrightarrow> radix_ok w (snd r)"
  by (auto simp: insert_ok_def radix_ok_def)

lemma delete_ok_radix_ok: "delete_ok p t (Some (rc, t')) \<Longrightarrow> radix_ok w t \<Longrightarrow> radix_ok w t'"
  by (auto simp: delete_ok_def radix_ok_def)

lemma insert_tree:
  assumes "radix_ok w' t" "radix_insert w inm rt val 0 (mem_of t) (root t) = (rc, m, node)"
  shows "insert_ok (path w inm rt 0) val t (rc, \<lparr>root = node, mem_of = m\<rparr>)"
  using insert_result [OF assms(2)] assms(1)
  by (auto simp: insert_ok_def radix_ok_def kept_def node_count_def tmap_def)

lemma delete_tree:
  assumes "radix_ok w' t"
  shows "delete_ok (path w inm rt 0) t (map_option (\<lambda>(rc, m, node). (rc, \<lparr>root = node, mem_of = m\<rparr>))
    (radix_delete w inm rt 0 True (mem_of t) (root t)))"
  using delete_result [of "root t" 0 w, where at_root = True and m = "mem_of t" and inm = inm and rt = rt] assms
  by (auto simp: delete_ok_def radix_ok_def shrunk_def node_count_def tmap_def split: option.splits)

lemma insert32_ok: "radix_ok w t \<Longrightarrow> insert_ok (prefix32 (key, msk)) val t (ngx_radix32tree_insert key msk val t)"
  by (auto simp: ngx_radix32tree_insert_def prefix32_def insert_tree split: prod.split)

lemma insert128_ok: "radix_ok w t \<Longrightarrow> insert_ok (prefix128 (key, msk)) val t (ngx_radix128tree_insert key msk val t)"
  by (auto simp: ngx_radix128tree_insert_def prefix128_def insert_tree split: prod.split)

lemma delete32_ok: "radix_ok w t \<Longrightarrow> delete_ok (prefix32 (key, msk)) t (ngx_radix32tree_delete key msk t)"
  using delete_tree [of w t 32] by (simp add: ngx_radix32tree_delete_def prefix32_def)

lemma delete128_ok: "radix_ok w t \<Longrightarrow> delete_ok (prefix128 (key, msk)) t (ngx_radix128tree_delete key msk t)"
  using delete_tree [of w t 128] by (simp add: ngx_radix128tree_delete_def prefix128_def)

lemma find32: "radix_ok 32 t \<Longrightarrow> ngx_radix32tree_find key t = Some (longest_match NGX_RADIX_NO_VALUE (tmap t) (bits32 key))"
  using find_result [of 32 "\<lambda>d. Some (bit32 key d)" "bit32 key" "root t" 0 NGX_RADIX_NO_VALUE]
  by (simp add: ngx_radix32tree_find_def radix_ok_def tmap_def bits32_def)

lemma find128:
  assumes "radix_ok 128 t" "length key = 16"
  shows "ngx_radix128tree_find key t =
    (if node_at (root t) (bits128 key) \<noteq> Null then None
     else Some (longest_match NGX_RADIX_NO_VALUE (tmap t) (bits128 key)))"
  using find_result [of 128 "\<lambda>d. if d div 8 < length key then Some (bit128 key d) else None" "bit128 key" "root t" 0 NGX_RADIX_NO_VALUE] assms
  by (simp add: ngx_radix128tree_find_def radix_ok_def tmap_def bits128_def)

subsection \<open>Creation\<close>

definition empty_tree :: "nat \<Rightarrow> radix_tree \<Rightarrow> bool" where
  "empty_tree n t \<longleftrightarrow> radix_ok 32 t \<and> tmap t = Map.empty \<and> node_count t = n"

lemma empty_insert:
  assumes "empty_tree n t" "ngx_radix32tree_insert key msk NGX_RADIX_NO_VALUE t = (rc, t')"
  shows "empty_tree n t'"
proof -
  have "vopt NGX_RADIX_NO_VALUE = None" by (simp add: vopt_def)
  moreover have i: "insert_ok (prefix32 (key, msk)) NGX_RADIX_NO_VALUE t (rc, t')"
    using insert32_ok [of 32 t key msk NGX_RADIX_NO_VALUE] assms by (simp add: empty_tree_def)
  moreover have "radix_ok 32 t'"
    using insert_ok_radix_ok [OF i] assms(1) path_bound [of 0 32] by (simp add: empty_tree_def prefix32_def)
  ultimately show ?thesis using assms(1) by (auto simp: empty_tree_def insert_ok_def)
qed

text \<open>\<open>inc\<close> is 0 or a power of two, so the keys come back to 0.\<close>

lemma level_returns:
  assumes "inc = 0 \<and> key = 0 \<or> unat inc = 2 ^ e \<and> unat key + k * 2 ^ e = 2 ^ 32" "empty_tree n t"
  shows "\<exists>rc t'. radix_level msk inc key t = Some (rc, t') \<and> empty_tree n t'"
  using assms
proof (induction k arbitrary: key t)
  case 0
  have "unat key < 2 ^ 32" using unsigned_less [of key, where ?'a = nat] by simp
  then have "inc = 0 \<and> key = 0" using 0 by simp
  then show ?case
    using empty_insert [OF 0(2)] by (subst radix_level.simps) (auto split: prod.split)
next
  case (Suc k)
  obtain rc t1 where i: "ngx_radix32tree_insert key msk NGX_RADIX_NO_VALUE t = (rc, t1)" by fastforce
  note t1 = empty_insert [OF Suc.prems(2) i]
  show ?case
  proof (cases "rc \<noteq> NGX_OK \<or> key + inc = 0")
    case True
    then show ?thesis using i t1 by (subst radix_level.simps) auto
  next
    case False
    then have u: "unat inc = 2 ^ e" "unat key + 2 ^ e + k * 2 ^ e = 2 ^ 32" using Suc.prems(1) by auto
    have "unat (key + inc) = (unat key + unat inc) mod 2 ^ 32" by (simp add: unat_word_ariths)
    moreover have "unat (key + inc) \<noteq> 0" using False by (simp add: unat_eq_0)
    moreover have "unat key + 2 ^ e < 2 ^ 32 \<or> unat key + 2 ^ e = 2 ^ 32"
      using u(2) by (metis le_add1 nat_less_le)
    ultimately have "unat (key + inc) = unat key + 2 ^ e" using u(1) by auto
    then have "\<exists>rc t'. radix_level msk inc (key + inc) t1 = Some (rc, t') \<and> empty_tree n t'"
      using Suc.IH [OF _ t1, of "key + inc"] u by simp
    then show ?thesis using i False by (subst radix_level.simps) auto
  qed
qed

lemma levels_return:
  assumes "inc = 0 \<or> (\<exists>e \<le> 32. unat inc = 2 ^ e)" "empty_tree n t"
  shows "\<exists>rc t'. radix_levels j msk inc t = Some (rc, t') \<and> empty_tree n t'"
  using assms
proof (induction j arbitrary: msk inc t)
  case (Suc j)
  have "inc = 0 \<and> (0 :: u32) = 0 \<or> (\<exists>e k. unat inc = 2 ^ e \<and> unat (0 :: u32) + k * 2 ^ e = 2 ^ 32)"
    using Suc.prems(1) by (metis add_0 le_add_diff_inverse2 power_add unat_0)
  then obtain rc t1 where l: "radix_level (drop_bit 1 msk OR 0x80000000) inc 0 t = Some (rc, t1)" and t1: "empty_tree n t1"
    using level_returns [OF _ Suc.prems(2), of inc 0] by metis
  have "drop_bit 1 inc = 0 \<or> (\<exists>e \<le> 32. unat (drop_bit 1 inc) = 2 ^ e)"
  proof (cases "inc = 0")
    case False
    then obtain e where e: "e \<le> 32" "unat inc = 2 ^ e" using Suc.prems(1) by blast
    then have "unat (drop_bit 1 inc) = 2 ^ e div 2" by (simp add: drop_bit_eq_div unat_div)
    then show ?thesis using e(1) by (cases e) (auto simp: unsigned_eq_0_iff intro!: exI [of _ "e - 1"])
  qed simp
  from Suc.IH [OF this t1, of "drop_bit 1 msk OR 0x80000000"]
  show ?case using l t1 by (auto simp: Let_def)
qed simp

subsection \<open>Properties\<close>

text \<open>
  C20: Insertion and deletion implement a map from prefixes, for 32-bit and for 128-bit keys.
  An insertion answers \<open>NGX_BUSY\<close> exactly when the prefix has a value and then changes
  no node; otherwise it adds the value, or fails for lack of memory, fewer nodes being left
  than the prefix has bits, and changes no entry. A deletion removes the entry and no other,
  and when it answers \<open>NGX_ERROR\<close> there was none. Neither makes the tree deeper than the
  prefix is long, takes more nodes than that or loses a node. The one exception: the deletion of the empty prefix from a tree
  of a single node follows the NULL parent of the root, whether it has a value or not.
\<close>

theorem radix_tree_refines_map:
  assumes "radix_ok 32 t" "radix_ok 128 t6"
  shows "insert_ok (prefix32 (key, msk)) val t (ngx_radix32tree_insert key msk val t)
    \<and> delete_ok (prefix32 (key, msk)) t (ngx_radix32tree_delete key msk t)
    \<and> insert_ok (prefix128 (key6, msk6)) val t6 (ngx_radix128tree_insert key6 msk6 val t6)
    \<and> delete_ok (prefix128 (key6, msk6)) t6 (ngx_radix128tree_delete key6 msk6 t6)"
  using assms insert32_ok delete32_ok insert128_ok delete128_ok by blast

definition radix_tree_0 :: radix_tree where
  "radix_tree_0 = \<lparr>root = Node Null NGX_RADIX_NO_VALUE Null,
     mem_of = \<lparr>rm_free = 0, rm_size = 4064, rm_pages = 2, rm_pagesize = 4096\<rparr>\<rparr>"

lemma radix_tree_0_ok: "radix_ok 32 radix_tree_0" "radix_ok 128 radix_tree_0"
  by code_simp+

lemma radix_tree_0_empty: "tmap radix_tree_0 = Map.empty"
  by (simp add: tmap_def radix_tree_0_def leaf_rmap has_child_def)

theorem radix_tree_refines_map_witness:
  "tmap (snd (ngx_radix32tree_insert 0x0a000000 0xff000000 7 radix_tree_0)) = [[False, False, False, False, True, False, True, False] \<mapsto> 7]
   \<and> ngx_radix32tree_delete 0 0 radix_tree_0 = None"
proof -
  have "prefix32 (0x0a000000, 0xff000000) = [False, False, False, False, True, False, True, False]" "prefix32 (0, 0) = []"
    "room (mem_of radix_tree_0) = 383" "\<not> has_child (root radix_tree_0)" "vopt 7 = Some 7"
    by code_simp+
  then show ?thesis
    using radix_tree_refines_map [OF radix_tree_0_ok, where key = "0x0a000000" and msk = "0xff000000" and val = 7]
      radix_tree_refines_map [OF radix_tree_0_ok, where key = 0 and msk = 0 and val = 7]
    by (auto simp: insert_ok_def delete_ok_def radix_tree_0_empty split: option.splits)
qed

text \<open>
  C21: A lookup returns the value of the longest prefix of the address that has an entry, and
  \<open>NGX_RADIX_NO_VALUE\<close> when none has. For a 128-bit key this holds unless the tree has a node
  for the whole address, as it has when the address itself is an entry: then the loop reads
  the byte behind the address before it ends.
\<close>

theorem radix_find_longest_match:
  assumes "radix_ok 32 t" "radix_ok 128 t6" "length key6 = 16"
  shows "ngx_radix32tree_find key t = Some (longest_match NGX_RADIX_NO_VALUE (tmap t) (bits32 key))
    \<and> (node_at (root t6) (bits128 key6) = Null \<longrightarrow>
         ngx_radix128tree_find key6 t6 = Some (longest_match NGX_RADIX_NO_VALUE (tmap t6) (bits128 key6)))
    \<and> (tmap t6 (bits128 key6) \<noteq> None \<longrightarrow> ngx_radix128tree_find key6 t6 = None)"
  using find32 [OF assms(1)] find128 [OF assms(2,3)] rmap_node_at [of "root t6" "bits128 key6"] by (simp add: tmap_def)

text \<open>128.0.0.0/1 and 192.0.0.0/2, and ::1/128.\<close>

definition radix_tree_1 :: radix_tree where
  "radix_tree_1 = radix_tree_0\<lparr>root := Node Null NGX_RADIX_NO_VALUE (Node Null 7 (Node Null 8 Null))\<rparr>"

definition ip6_one :: bytes where "ip6_one = replicate 15 0 @ [1]"

definition radix_tree_2 :: radix_tree where
  "radix_tree_2 = snd (ngx_radix128tree_insert ip6_one (replicate 16 0xff) 9 radix_tree_0)"

lemma radix_tree_2_entry: "radix_ok 128 radix_tree_2" "tmap radix_tree_2 (bits128 ip6_one) = Some 9"
proof -
  have "list_all (\<lambda>k. (0xff :: byte) AND drop_bit k 0x80 \<noteq> 0) [0..<8]" by code_simp
  then have "bit128 (replicate 16 0xff) d" if "d < 128" for d
    using that by (simp add: bit128_def list_all_iff)
  then have "takeWhile (bit128 (replicate 16 0xff)) [0..<128] = [0..<128]" by (intro takeWhile_eq_all_conv [THEN iffD2]) simp
  then have "prefix128 (ip6_one, replicate 16 0xff) = bits128 ip6_one"
    by (simp only: prefix128_def bits128_def path_def fst_conv snd_conv)
  moreover have "room (mem_of radix_tree_0) = 383" "vopt 9 = Some 9" by code_simp+
  moreover have "length (bits128 ip6_one) = 128" by (simp add: bits128_def)
  ultimately show "radix_ok 128 radix_tree_2" "tmap radix_tree_2 (bits128 ip6_one) = Some 9"
    using insert128_ok [OF radix_tree_0_ok(2), of ip6_one "replicate 16 0xff" 9] radix_tree_0_ok(2)
      insert_ok_radix_ok [of "bits128 ip6_one" 9 radix_tree_0 _ 128]
    by (auto simp: radix_tree_2_def insert_ok_def radix_tree_0_empty)
qed

theorem radix_find_longest_match_witness:
  "ngx_radix32tree_find 0xc0010203 radix_tree_1 = Some 8 \<and> ngx_radix32tree_find 0x8a020304 radix_tree_1 = Some 7
   \<and> ngx_radix128tree_find ip6_one radix_tree_2 = None"
proof -
  have "radix_ok 32 radix_tree_1" by code_simp
  moreover have "longest_match NGX_RADIX_NO_VALUE (tmap radix_tree_1) (bits32 0xc0010203) = 8" by code_simp
  moreover have "longest_match NGX_RADIX_NO_VALUE (tmap radix_tree_1) (bits32 0x8a020304) = 7" by code_simp
  moreover have "length ip6_one = 16" by (simp add: ip6_one_def)
  ultimately show ?thesis
    using radix_find_longest_match [of radix_tree_1 radix_tree_2 ip6_one "0xc0010203"] radix_tree_2_entry
      radix_find_longest_match [of radix_tree_1 radix_tree_2 ip6_one "0x8a020304"] by auto
qed

text \<open>
  Creating a tree ends for every number of bits to preallocate, although the loop over
  the keys of a level ends only by wrapping around, and unless memory runs out it gives a
  well-formed tree without entries.
\<close>

theorem radix_tree_create_returns:
  assumes "sizeof_radix_node \<le> pagesize"
  shows "\<exists>r. ngx_radix_tree_create pagesize pages preallocate = Some r
    \<and> (\<forall>t. r = Some t \<longrightarrow> radix_ok 32 t \<and> radix_ok 128 t \<and> tmap t = Map.empty)"
proof (cases "ngx_radix_alloc \<lparr>rm_free = 0, rm_size = 0, rm_pages = pages, rm_pagesize = pagesize\<rparr>")
  case None
  then show ?thesis by (simp add: ngx_radix_tree_create_def)
next
  case (Some m)
  let ?t = "\<lparr>root = Node Null NGX_RADIX_NO_VALUE Null, mem_of = m\<rparr>"
  have ok: "radix_ok 32 t \<and> radix_ok 128 t \<and> tmap t = Map.empty" if "empty_tree n t" for n t
    using that by (auto simp: empty_tree_def radix_ok_def)
  have "rm_pagesize m = pagesize" using alloc_room [of "\<lparr>rm_free = 0, rm_size = 0, rm_pages = pages, rm_pagesize = pagesize\<rparr>"] assms Some by simp
  then have t: "empty_tree (node_count ?t) ?t"
    using assms by (simp add: empty_tree_def radix_ok_def tmap_def leaf_rmap has_child_def)
  have "(0x80000000 :: u32) = 0 \<or> (\<exists>e \<le> 32. unat (0x80000000 :: u32) = 2 ^ e)" by (rule disjI2, rule exI [of _ 31]) simp
  from levels_return [OF this t] obtain rc t' where
    "radix_levels (preallocate_bits pagesize preallocate) 0 0x80000000 ?t = Some (rc, t')" "empty_tree (node_count ?t) t'" by blast
  then show ?thesis using Some ok t by (auto simp: ngx_radix_tree_create_def Let_def)
qed

theorem radix_tree_create_returns_witness: "\<exists>r. ngx_radix_tree_create 4096 1 6 = Some r"
  using radix_tree_create_returns [of 4096 1 6] by (auto simp: sizeof_radix_node_def)

end
