(* ===== verification/Ngx_Cidr.thy ===== *)
theory Ngx_Cidr
  imports Ngx_Inet Ngx_Radix
begin

section \<open>Networks and the bits of addresses\<close>

text \<open>
  Networks as \<open>ngx_ptocidr\<close> reads them, as \<open>ngx_cidr_match\<close> compares them with an address, and
  as the radix trees walk along them: the three agree.
\<close>

subsection \<open>Bits of words and of bytes\<close>

lemma drop_bit_exp: "d \<le> k \<Longrightarrow> k < LENGTH('a) \<Longrightarrow> drop_bit d (2 ^ k :: 'a::len word) = 2 ^ (k - d)"
  by (rule bit_eqI) (auto simp: bit_drop_bit_eq bit_exp_iff possible_bit_word)

lemma bit32_bit: "d < 32 \<Longrightarrow> bit32 x d \<longleftrightarrow> bit x (31 - d)"
  using drop_bit_exp [of d 31, where 'a = 32] by (simp add: bit32_def and_exp_eq_0_iff_not_bit)

lemma bit128_bit: "bit128 x d \<longleftrightarrow> bit (x ! (d div 8)) (7 - d mod 8)"
  using drop_bit_exp [of "d mod 8" 7, where 'a = 8] by (simp add: bit128_def and_exp_eq_0_iff_not_bit)

lemma eq32_iff: "(x :: u32) = y \<longleftrightarrow> (\<forall>d<32. bit32 x d = bit32 y d)"
proof
  assume b: "\<forall>d<32. bit32 x d = bit32 y d"
  show "x = y"
  proof (rule bit_word_eqI)
    show "bit x n = bit y n" if "n < LENGTH(32)" for n
      using b [rule_format, of "31 - n"] that bit32_bit [of "31 - n"] by simp
  qed
qed simp

lemma byte_eq_iff: "(x :: byte) = y \<longleftrightarrow> (\<forall>k<8. bit x (7 - k) = bit y (7 - k))"
proof
  assume b: "\<forall>k<8. bit x (7 - k) = bit y (7 - k)"
  show "x = y"
  proof (rule bit_word_eqI)
    show "bit x n = bit y n" if "n < LENGTH(8)" for n using b [rule_format, of "7 - n"] that by simp
  qed
qed simp

lemma bytes16_iff: "(\<forall>n<16. x ! n = y ! n) \<longleftrightarrow> (\<forall>d<128. bit128 x d = bit128 y d)"
proof
  assume b: "\<forall>d<128. bit128 x d = bit128 y d"
  show "\<forall>n<16. x ! n = y ! n"
  proof (intro allI impI)
    fix n :: nat assume "n < 16"
    then have "bit128 x (8 * n + k) = bit128 y (8 * n + k)" if "k < 8" for k using b that by simp
    then show "x ! n = y ! n" unfolding byte_eq_iff by (simp add: bit128_bit)
  qed
next
  assume "\<forall>n<16. x ! n = y ! n"
  then show "\<forall>d<128. bit128 x d = bit128 y d" by (simp add: bit128_bit)
qed

subsection \<open>Masks\<close>

definition mask32 :: "nat \<Rightarrow> u32" where
  "mask32 k = (if k \<noteq> 0 then push_bit (32 - k) 0xffffffff else 0)"

lemma bit_ones32: "bit (0xffffffff :: u32) j \<longleftrightarrow> j < 32"
proof -
  have "(0xffffffff :: u32) = - 1" by simp
  then show ?thesis by (simp only: bit_minus_1_iff possible_bit_word) simp
qed

lemma bit_mask32: "k \<le> 32 \<Longrightarrow> d < 32 \<Longrightarrow> bit32 (mask32 k) d \<longleftrightarrow> d < k"
  using bit_ones32 [of "k - Suc d"] by (auto simp: mask32_def bit32_bit bit_push_bit_iff)

lemma cidr6_masks_nth:
  "i < n \<Longrightarrow> cidr6_masks n k ! i = word_of_nat (0xff * 2 ^ (8 - min 8 (k - 8 * i)))"
proof (induction n arbitrary: k i)
  case (Suc n)
  show ?case
  proof (cases i)
    case (Suc j)
    then show ?thesis using Suc.IH [of j "k - min 8 k"] Suc.prems by (auto simp: Let_def min_def)
  qed (simp add: min_def Let_def)
qed simp

lemma length_cidr6_masks [simp]: "length (cidr6_masks n k) = n"
  by (induction n k rule: cidr6_masks.induct) (simp_all add: Let_def)

lemma bit_ones8: "bit (0xff :: byte) j \<longleftrightarrow> j < 8"
proof -
  have "(0xff :: byte) = - 1" by simp
  then show ?thesis by (simp only: bit_minus_1_iff possible_bit_word) simp
qed

lemma bit_mask_byte: "s \<le> 8 \<Longrightarrow> j < 8 \<Longrightarrow> bit (word_of_nat (0xff * 2 ^ (8 - s)) :: byte) (7 - j) \<longleftrightarrow> j < s"
proof -
  have "word_of_nat (0xff * 2 ^ (8 - s)) = push_bit (8 - s) (0xff :: byte)" by (simp add: push_bit_eq_mult)
  then show "s \<le> 8 \<Longrightarrow> j < 8 \<Longrightarrow> ?thesis" using bit_ones8 [of "s - Suc j"] by (auto simp: bit_push_bit_iff simp del: of_nat_mult)
qed

lemma bit_cidr6_masks: "d < 128 \<Longrightarrow> bit128 (cidr6_masks 16 k) d \<longleftrightarrow> d < k"
proof -
  assume "d < 128"
  then have "bit128 (cidr6_masks 16 k) d \<longleftrightarrow> d mod 8 < min 8 (k - 8 * (d div 8))"
    using bit_mask_byte [of "min 8 (k - 8 * (d div 8))" "d mod 8"] by (simp add: bit128_bit cidr6_masks_nth)
  also have "\<dots> \<longleftrightarrow> d < k" by (auto simp: min_def) (metis add.commute less_diff_conv mult_div_mod_eq)+
  finally show ?thesis .
qed

subsection \<open>Networks that were read\<close>

text \<open>A network of \<open>k\<close> bits: the mask has \<open>k\<close> leading ones and the address no bit outside it.\<close>

fun cidr_bits :: "ngx_cidr_t \<Rightarrow> nat \<Rightarrow> bool" where
  "cidr_bits (Cidr4 addr msk) k \<longleftrightarrow> k \<le> 32 \<and> (\<forall>d<32. bit32 msk d = (d < k)) \<and> addr AND msk = addr"
| "cidr_bits (Cidr6 addr msk) k \<longleftrightarrow> k \<le> 128 \<and> length addr = 16 \<and> length msk = 16 \<and> (\<forall>d<128. bit128 msk d = (d < k))
     \<and> map2 (AND) addr msk = addr"

lemma and_ones8: "x AND 0xff = (x :: byte)"
proof -
  have "(0xff :: byte) = - 1" by simp
  then show ?thesis by (simp only: and.right_neutral)
qed

lemma map2_and_idem: "map2 (AND) (map2 (AND) x y) y = map2 (AND) x (y :: bytes)"
  by (induction x y rule: list_induct2') (simp_all add: ac_simps)

lemma cidr_bits4: "k \<le> 32 \<Longrightarrow> cidr_bits (Cidr4 (a AND mask32 k) (mask32 k)) k"
  by (simp add: bit_mask32 ac_simps)

lemma cidr_bits6: "k \<le> 128 \<Longrightarrow> length a = 16 \<Longrightarrow> cidr_bits (Cidr6 (map2 (AND) a (cidr6_masks 16 k)) (cidr6_masks 16 k)) k"
  by (simp add: bit_cidr6_masks map2_and_idem)

lemma cidr_bits_host: "cidr_bits (Cidr4 a 0xffffffff) 32" "length b = 16 \<Longrightarrow> cidr_bits (Cidr6 b (replicate 16 0xff)) 128"
proof -
  have "(0xffffffff :: u32) = - 1" by simp
  then have "a AND 0xffffffff = a" by (simp only: and.right_neutral)
  moreover have "mask32 32 = 0xffffffff" by (simp add: mask32_def)
  ultimately show "cidr_bits (Cidr4 a 0xffffffff) 32" using cidr_bits4 [of 32 a] by simp
  have "cidr6_masks 16 128 = replicate 16 0xff" by (intro nth_equalityI) (simp_all add: cidr6_masks_nth)
  moreover have "map2 (AND) b (replicate 16 0xff) = b" if "length b = 16"
    using that by (intro nth_equalityI) (simp_all add: and_ones8)
  ultimately show "length b = 16 \<Longrightarrow> cidr_bits (Cidr6 b (replicate 16 0xff)) 128" using cidr_bits6 [of 128 b] by simp
qed

lemma shift_range: "ngx_atoi t \<noteq> NGX_ERROR \<Longrightarrow> 0 \<le> ngx_atoi t"
  using atoi.rd_range by blast

lemma ptocidr4_canonical: "ptocidr4 a rest = (rc, Some cidr) \<Longrightarrow> \<exists>k. cidr_bits cidr k"
proof -
  assume p: "ptocidr4 a rest = (rc, Some cidr)"
  let ?sh = "ngx_atoi (tl rest)"
  show ?thesis
  proof (cases "rest = []")
    case True
    then have "cidr = Cidr4 a 0xffffffff" using p by (simp add: ptocidr4_def)
    then show ?thesis using cidr_bits_host(1) by blast
  next
    case False
    then have sh: "?sh \<noteq> NGX_ERROR" "?sh \<le> 32" using p by (auto simp: ptocidr4_def Let_def split: if_splits)
    then have "nat ?sh \<le> 32" "mask32 (nat ?sh) = (if ?sh \<noteq> 0 then push_bit (nat (32 - ?sh)) 0xffffffff else 0)"
      using shift_range by (auto simp: mask32_def nat_diff_distrib')
    moreover from this have "cidr = Cidr4 (a AND mask32 (nat ?sh)) (mask32 (nat ?sh))"
      using p False sh by (simp add: ptocidr4_def Let_def)
    ultimately show ?thesis using cidr_bits4 by blast
  qed
qed

lemma ptocidr6_canonical: "ptocidr6 b rest = (rc, Some cidr) \<Longrightarrow> length b = 16 \<Longrightarrow> \<exists>k. cidr_bits cidr k"
proof -
  assume p: "ptocidr6 b rest = (rc, Some cidr)" and l: "length b = 16"
  let ?sh = "ngx_atoi (tl rest)"
  show ?thesis
  proof (cases "rest = []")
    case True
    then have "cidr = Cidr6 b (replicate 16 0xff)" using p by (simp add: ptocidr6_def)
    then show ?thesis using cidr_bits_host(2) [OF l] by blast
  next
    case False
    then have sh: "?sh \<noteq> NGX_ERROR" "?sh \<le> 128" using p by (auto simp: ptocidr6_def Let_def split: if_splits)
    then have "nat ?sh \<le> 128" by simp
    moreover have "cidr = Cidr6 (map2 (AND) b (cidr6_masks 16 (nat ?sh))) (cidr6_masks 16 (nat ?sh))"
      using p False sh by (simp add: ptocidr6_def Let_def)
    ultimately show ?thesis using cidr_bits6 [of "nat ?sh" b] l by blast
  qed
qed

lemma ptocidr_canonical: "ngx_ptocidr text = (rc, Some cidr) \<Longrightarrow> \<exists>k. cidr_bits cidr k"
  using ptocidr4_canonical ptocidr6_canonical inet6_addr_length
  by (fastforce simp: ngx_ptocidr_def Let_def split: if_splits option.splits)

subsection \<open>Matching is having the prefix\<close>

lemma path_upto: "k \<le> w \<Longrightarrow> (\<And>d. d < w \<Longrightarrow> inm d = (d < k)) \<Longrightarrow> path w inm rt 0 = map rt [0..<k]"
proof -
  assume k: "k \<le> w" and m: "\<And>d. d < w \<Longrightarrow> inm d = (d < k)"
  have "[0..<w] = [0..<k] @ [k..<w]" using k upt_add_eq_append [of 0 k "w - k"] by simp
  moreover have "takeWhile inm ([0..<k] @ [k..<w]) = [0..<k]"
    using m k by (cases "k < w") (simp_all add: upt_conv_Cons takeWhile_append)
  ultimately show ?thesis by (simp add: path_def)
qed

lemma prefix_path:
  assumes "k \<le> w" "\<And>d. d < w \<Longrightarrow> inm d = (d < k)" "\<And>d. d < w \<Longrightarrow> (f d \<and> inm d) = f d"
  shows "prefix (path w inm f 0) (map g [0..<w]) \<longleftrightarrow> (\<forall>d<w. (g d \<and> inm d) = f d)"
proof -
  have "prefix (map f [0..<k]) (map g [0..<w]) \<longleftrightarrow> take k (map g [0..<w]) = map f [0..<k]"
    by (metis length_map length_upt minus_nat.diff_0 prefix_def append_take_drop_id append_eq_conv_conj)
  also have "\<dots> \<longleftrightarrow> (\<forall>d<k. g d = f d)" using assms(1) by (auto simp: take_map list_eq_iff_nth_eq)
  also have "\<dots> \<longleftrightarrow> (\<forall>d<w. (g d \<and> inm d) = f d)" using assms by (metis less_le_trans)
  finally show ?thesis using path_upto [OF assms(1,2)] by simp
qed

lemma bit32_and: "d < 32 \<Longrightarrow> bit32 (x AND y) d \<longleftrightarrow> bit32 x d \<and> bit32 y d"
  by (simp add: bit32_bit bit_and_iff)

lemma bit128_and: "d < 128 \<Longrightarrow> length x = 16 \<Longrightarrow> length y = 16 \<Longrightarrow> bit128 (map2 (AND) x y) d \<longleftrightarrow> bit128 x d \<and> bit128 y d"
  by (simp add: bit128_bit bit_and_iff less_mult_imp_div_less)

text \<open>The address lies in the network: its bits begin with those of the network.\<close>

fun in_network :: "sockaddr \<Rightarrow> ngx_cidr_t \<Rightarrow> bool" where
  "in_network (Sock4 a) (Cidr4 addr msk) = prefix (prefix32 (addr, msk)) (bits32 a)"
| "in_network (Sock6 p) (Cidr6 addr msk) = prefix (prefix128 (addr, msk)) (bits128 p)"
| "in_network _ _ = False"

lemma match4: "cidr_bits (Cidr4 addr msk) k \<Longrightarrow> cidr_matches (Sock4 a) (Cidr4 addr msk) \<longleftrightarrow> in_network (Sock4 a) (Cidr4 addr msk)"
proof -
  assume c: "cidr_bits (Cidr4 addr msk) k"
  then have f: "(bit32 addr d \<and> bit32 msk d) = bit32 addr d" if "d < 32" for d using bit32_and [OF that] by (metis cidr_bits.simps(1))
  have "prefix (path 32 (bit32 msk) (bit32 addr) 0) (map (bit32 a) [0..<32]) \<longleftrightarrow> (\<forall>d<32. (bit32 a d \<and> bit32 msk d) = bit32 addr d)"
    by (rule prefix_path) (use c f in auto)
  then show ?thesis by (simp add: prefix32_def bits32_def eq32_iff bit32_and)
qed

lemma match6:
  "cidr_bits (Cidr6 addr msk) k \<Longrightarrow> length p = 16 \<Longrightarrow> cidr_matches (Sock6 p) (Cidr6 addr msk) \<longleftrightarrow> in_network (Sock6 p) (Cidr6 addr msk)"
proof -
  assume c: "cidr_bits (Cidr6 addr msk) k" and p: "length p = 16"
  then have f: "(bit128 addr d \<and> bit128 msk d) = bit128 addr d" if "d < 128" for d
    using bit128_and [OF that, of addr msk] by (metis cidr_bits.simps(2))
  have "prefix (path 128 (bit128 msk) (bit128 addr) 0) (map (bit128 p) [0..<128]) \<longleftrightarrow> (\<forall>d<128. (bit128 p d \<and> bit128 msk d) = bit128 addr d)"
    by (rule prefix_path) (use c f in auto)
  moreover have "cidr_matches (Sock6 p) (Cidr6 addr msk) \<longleftrightarrow> (\<forall>n<16. map2 (AND) p msk ! n = addr ! n)"
    using c p by (auto simp: list_all_iff)
  ultimately show ?thesis using c p by (simp add: prefix128_def bits128_def bytes16_iff bit128_and)
qed

fun sock_ok :: "sockaddr \<Rightarrow> bool" where
  "sock_ok (Sock6 p) = (length p = 16)"
| "sock_ok _ = True"

lemma matches_network: "cidr_bits c k \<Longrightarrow> sock_ok sa \<Longrightarrow> cidr_matches sa c \<longleftrightarrow> in_network sa c"
proof (cases sa)
  case (Sock4 a)
  show "cidr_bits c k \<Longrightarrow> ?thesis" unfolding Sock4 using match4 by (cases c) (blast, simp)
next
  case (Sock6 p)
  show "cidr_bits c k \<Longrightarrow> sock_ok sa \<Longrightarrow> ?thesis" unfolding Sock6 using match6 by (cases c) (simp, metis sock_ok.simps(1))
qed (cases c; simp)

lemma cidr_match_loop_exists: "cidr_match_loop sa cs = (if \<exists>c\<in>set cs. cidr_matches sa c then NGX_OK else NGX_DECLINED)"
  by (induction cs) auto

subsection \<open>Properties\<close>

text \<open>
  C24: For networks read by \<open>ngx_ptocidr\<close> from whatever texts, \<open>ngx_cidr_match\<close> accepts an address
  exactly when it lies in one of them: the bits of the address begin with the bits under
  which a radix tree files the network. An IPv6 address that stands for an IPv4 address is
  compared with the IPv4 networks. Every network read has a mask of leading ones and an
  address without bits outside of it.
\<close>

theorem cidr_match_exact:
  assumes "list_all2 (\<lambda>text c. snd (ngx_ptocidr text) = Some c) texts cidrs" "sock_ok sa"
  shows "ngx_cidr_match sa cidrs = (if \<exists>c\<in>set cidrs. in_network (unmap sa) c then NGX_OK else NGX_DECLINED)
    \<and> (\<forall>c\<in>set cidrs. \<exists>k. cidr_bits c k)"
proof -
  have b: "\<exists>k. cidr_bits c k" if "c \<in> set cidrs" for c
    using that assms(1) ptocidr_canonical by (fastforce simp: list_all2_conv_all_nth in_set_conv_nth intro: prod_eqI)
  have "sock_ok (unmap sa)" using assms(2) by (cases sa) (auto simp: unmap_def)
  then have "cidr_matches (unmap sa) c \<longleftrightarrow> in_network (unmap sa) c" if "c \<in> set cidrs" for c
    using b [OF that] matches_network by blast
  then show ?thesis using b by (auto simp: ngx_cidr_match_def cidr_match_loop_exists)
qed

theorem cidr_match_exact_witness:
  "ngx_cidr_match (Sock4 0x0a010203) [Cidr4 0x0a000000 0xff000000] = NGX_OK"
proof -
  have "snd (ngx_ptocidr (str ''10.0.0.0/8'')) = Some (Cidr4 0x0a000000 0xff000000)"
    "in_network (unmap (Sock4 0x0a010203)) (Cidr4 0x0a000000 0xff000000)" by code_simp+
  then show ?thesis
    using cidr_match_exact [of "[str ''10.0.0.0/8'']" "[Cidr4 0x0a000000 0xff000000]" "Sock4 0x0a010203"] by simp
qed

end
