(* ===== verification/Http_Geo.thy ===== *)
theory Http_Geo
  imports Ngx_Cidr
begin

section \<open>Networks and their values (ngx_http_geo_module.c)\<close>

text \<open>
  The \<open>geo\<close> blocks of src/ngx-1.12.0/src/http/modules/ngx_http_geo_module.c that give a
  variable a value by the network of the client: the directives of a block, which fill a
  radix tree for each address family, the default that is added at the end, and the lookup.
  Both trees exist, empty, before the first directive. A value is the pointer to it, \<open>None\<close>
  when it could not be allocated; the network of a directive is the one
  \<open>ngx_http_geo_cidr_value\<close> reads from its text. \<open>NGX_CONF_OK\<close> is \<open>True\<close>; a result \<open>None\<close> is an access
  outside of memory.
\<close>

subsection \<open>Model\<close>

definition ngx_http_geo_cidr_value :: "bytes \<Rightarrow> ngx_cidr_t option" where
  "ngx_http_geo_cidr_value net =
     (if net = str ''255.255.255.255'' then Some (Cidr4 0xffffffff 0xffffffff)
      else case ngx_ptocidr net of (rc, cidr) \<Rightarrow> if rc = NGX_ERROR then None else cidr)"

record geo_trees =
  tree :: radix_tree
  tree6 :: radix_tree

text \<open>The steps \<open>ngx_http_geo_cidr_add\<close> takes in the tree of the family.\<close>

definition geo_put :: "('t \<Rightarrow> int \<times> 't) \<Rightarrow> ('t \<Rightarrow> u64 option) \<Rightarrow> ('t \<Rightarrow> (int \<times> 't) option) \<Rightarrow> 't \<Rightarrow> (bool \<times> 't) option" where
  "geo_put ins fnd del t =
     (case ins t of (rc, t) \<Rightarrow>
        if rc = NGX_OK then Some (True, t)
        else if rc = NGX_ERROR then Some (False, t)
        else case fnd t of
          None \<Rightarrow> None
        | Some old \<Rightarrow>
            case del t of
              None \<Rightarrow> None
            | Some (rc, t) \<Rightarrow>
                if rc = NGX_ERROR then Some (False, t)
                else case ins t of (rc, t) \<Rightarrow> Some (rc = NGX_OK, t))"

fun ngx_http_geo_cidr_add :: "ngx_cidr_t \<Rightarrow> u64 option \<Rightarrow> geo_trees \<Rightarrow> (bool \<times> geo_trees) option" where
  "ngx_http_geo_cidr_add cidr None ctx = Some (False, ctx)"
| "ngx_http_geo_cidr_add (Cidr6 a m) (Some val) ctx =
     map_option (\<lambda>(ok, t). (ok, ctx\<lparr>tree6 := t\<rparr>))
       (geo_put (ngx_radix128tree_insert a m val) (ngx_radix128tree_find a) (ngx_radix128tree_delete a m) (tree6 ctx))"
| "ngx_http_geo_cidr_add (Cidr4 a m) (Some val) ctx =
     map_option (\<lambda>(ok, t). (ok, ctx\<lparr>tree := t\<rparr>))
       (geo_put (ngx_radix32tree_insert a m val) (ngx_radix32tree_find a) (ngx_radix32tree_delete a m) (tree ctx))"

text \<open>A directive: \<open>default value\<close>, \<open>delete network\<close> or \<open>network value\<close>.\<close>

datatype geo_directive = Geo_default "u64 option" | Geo_delete ngx_cidr_t | Geo_network ngx_cidr_t "u64 option"

definition in6addr_any :: bytes where "in6addr_any = replicate 16 0"

fun geo_delete :: "ngx_cidr_t \<Rightarrow> geo_trees \<Rightarrow> (int \<times> geo_trees) option" where
  "geo_delete (Cidr6 a m) ctx = map_option (\<lambda>(rc, t). (rc, ctx\<lparr>tree6 := t\<rparr>)) (ngx_radix128tree_delete a m (tree6 ctx))"
| "geo_delete (Cidr4 a m) ctx = map_option (\<lambda>(rc, t). (rc, ctx\<lparr>tree := t\<rparr>)) (ngx_radix32tree_delete a m (tree ctx))"

fun ngx_http_geo_cidr :: "geo_directive \<Rightarrow> geo_trees \<Rightarrow> (bool \<times> geo_trees) option" where
  "ngx_http_geo_cidr (Geo_default val) ctx =
     (case ngx_http_geo_cidr_add (Cidr4 0 0) val ctx of
        None \<Rightarrow> None
      | Some (ok, ctx) \<Rightarrow>
          if \<not> ok then Some (False, ctx) else ngx_http_geo_cidr_add (Cidr6 in6addr_any in6addr_any) val ctx)"
| "ngx_http_geo_cidr (Geo_delete cidr) ctx = map_option (\<lambda>(rc, ctx). (True, ctx)) (geo_delete cidr ctx)"
| "ngx_http_geo_cidr (Geo_network cidr val) ctx = ngx_http_geo_cidr_add cidr val ctx"

text \<open>The directives of a block up to the first that fails.\<close>

fun geo_directives :: "geo_directive list \<Rightarrow> geo_trees \<Rightarrow> (bool \<times> geo_trees) option" where
  "geo_directives [] ctx = Some (True, ctx)"
| "geo_directives (d # ds) ctx =
     (case ngx_http_geo_cidr d ctx of
        None \<Rightarrow> None
      | Some (ok, ctx) \<Rightarrow> if ok then geo_directives ds ctx else Some (False, ctx))"

text \<open>
  The end of \<open>ngx_http_geo_block\<close>: \<open>null_value\<close>, the address of \<open>ngx_http_variable_null_value\<close>,
  becomes the default unless there is one.
\<close>

definition ngx_http_geo_block :: "u64 \<Rightarrow> geo_directive list \<Rightarrow> geo_trees \<Rightarrow> (bool \<times> geo_trees) option" where
  "ngx_http_geo_block null_value ds ctx =
     (case geo_directives ds ctx of
        None \<Rightarrow> None
      | Some (ok, ctx) \<Rightarrow>
          (case ngx_radix32tree_insert 0 0 null_value (tree ctx) of (rc, t) \<Rightarrow>
             if rc = NGX_ERROR then Some (False, ctx\<lparr>tree := t\<rparr>)
             else case ngx_radix128tree_insert in6addr_any in6addr_any null_value (tree6 ctx) of (rc6, t6) \<Rightarrow>
               Some (if rc6 = NGX_ERROR then False else ok, ctx\<lparr>tree := t, tree6 := t6\<rparr>)))"

text \<open>The address of the client: unknown, IPv4 (in host order) or IPv6.\<close>

datatype geo_addr = No_addr | Addr4 u32 | Addr6 bytes

text \<open>The pointer the value of the variable is copied from.\<close>

fun ngx_http_geo_cidr_variable :: "geo_addr \<Rightarrow> geo_trees \<Rightarrow> u64 option" where
  "ngx_http_geo_cidr_variable No_addr ctx = ngx_radix32tree_find INADDR_NONE (tree ctx)"
| "ngx_http_geo_cidr_variable (Addr6 p) ctx =
     (if IN6_IS_ADDR_V4MAPPED p then ngx_radix32tree_find (mapped_addr p) (tree ctx)
      else ngx_radix128tree_find p (tree6 ctx))"
| "ngx_http_geo_cidr_variable (Addr4 a) ctx = ngx_radix32tree_find a (tree ctx)"

subsection \<open>Stores of prefixes\<close>

text \<open>
  What adding a network relies on: a store of prefixes of at most \<open>w\<close> bits, \<open>wf n\<close> while it
  is well-formed and has room for \<open>n\<close> nodes, with the networks \<open>good\<close> it takes.
\<close>

locale prefix_store =
  fixes wf :: "nat \<Rightarrow> 't \<Rightarrow> bool" and mp :: "'t \<Rightarrow> bool list \<rightharpoonup> u64" and w :: nat
    and pfx :: "'p \<Rightarrow> bool list" and good :: "'p \<Rightarrow> bool"
    and ins :: "'p \<Rightarrow> u64 \<Rightarrow> 't \<Rightarrow> int \<times> 't" and fnd :: "'p \<Rightarrow> 't \<Rightarrow> u64 option" and del :: "'p \<Rightarrow> 't \<Rightarrow> (int \<times> 't) option"
  assumes ins_new: "wf (n + w) t \<Longrightarrow> good p \<Longrightarrow> v \<noteq> NGX_RADIX_NO_VALUE \<Longrightarrow> mp t (pfx p) = None \<Longrightarrow>
      \<exists>t'. ins p v t = (NGX_OK, t') \<and> wf n t' \<and> mp t' = (mp t)(pfx p \<mapsto> v)"
    and ins_busy: "wf (n + w) t \<Longrightarrow> good p \<Longrightarrow> mp t (pfx p) \<noteq> None \<Longrightarrow>
      \<exists>t'. ins p v t = (NGX_BUSY, t') \<and> wf (n + w) t' \<and> mp t' = mp t"
    and del_gone: "wf n t \<Longrightarrow> good p \<Longrightarrow> pfx p \<noteq> [] \<Longrightarrow>
      \<exists>rc t'. del p t = Some (rc, t') \<and> wf n t' \<and> mp t' = (mp t)(pfx p := None) \<and> (mp t (pfx p) \<noteq> None \<longrightarrow> rc = NGX_OK)"
    and fnd_returns: "wf n t \<Longrightarrow> good p \<Longrightarrow> \<exists>v. fnd p t = Some v"
    and less_room: "wf (n + k) t \<Longrightarrow> wf n t"
begin

text \<open>Adding a network sets its value, whether it had one or not.\<close>

lemma put:
  assumes "wf (n + w) t" "good p" "v \<noteq> NGX_RADIX_NO_VALUE" "pfx p \<noteq> [] \<or> mp t [] = None"
  shows "\<exists>t'. geo_put (ins p v) (fnd p) (del p) t = Some (True, t') \<and> wf n t' \<and> mp t' = (mp t)(pfx p \<mapsto> v)"
proof (cases "mp t (pfx p)")
  case None
  then show ?thesis using ins_new [OF assms(1-3)] by (auto simp: geo_put_def)
next
  case (Some x)
  then have p: "pfx p \<noteq> []" using assms(4) by auto
  obtain t1 where t1: "ins p v t = (NGX_BUSY, t1)" "wf (n + w) t1" "mp t1 = mp t"
    using ins_busy [OF assms(1,2)] Some by blast
  obtain old where f: "fnd p t1 = Some old" using fnd_returns [OF t1(2) assms(2)] by blast
  obtain t2 where t2: "del p t1 = Some (NGX_OK, t2)" "wf (n + w) t2" "mp t2 = (mp t1)(pfx p := None)"
    using del_gone [OF t1(2) assms(2) p] Some t1(3) by fastforce
  obtain t3 where "ins p v t2 = (NGX_OK, t3)" "wf n t3" "mp t3 = (mp t2)(pfx p \<mapsto> v)"
    using ins_new [OF t2(2) assms(2,3)] t2(3) by fastforce
  then show ?thesis using t1 t2 f by (auto simp: geo_put_def ngx_codes)
qed

text \<open>Setting a default at the end keeps one that is there.\<close>

lemma default:
  assumes "wf (n + w) t" "good p" "v \<noteq> NGX_RADIX_NO_VALUE"
  shows "\<exists>rc t'. ins p v t = (rc, t') \<and> rc \<noteq> NGX_ERROR \<and> wf n t'
    \<and> mp t' = (if mp t (pfx p) = None then (mp t)(pfx p \<mapsto> v) else mp t)"
  using ins_new [OF assms] ins_busy [OF assms(1,2), of v] less_room [of n w] by (cases "mp t (pfx p)") (auto simp: ngx_codes)

end

definition roomy :: "nat \<Rightarrow> nat \<Rightarrow> radix_tree \<Rightarrow> bool" where
  "roomy w n t \<longleftrightarrow> radix_ok w t \<and> n \<le> room (mem_of t)"

lemma roomy_insert:
  assumes "roomy w (n + k) t" "length p \<le> w" "length p \<le> k" "insert_ok p v t r"
  shows "if tmap t p = None then \<exists>t'. r = (NGX_OK, t') \<and> roomy w n t' \<and> tmap t' = (tmap t)(p := vopt v)
    else \<exists>t'. r = (NGX_BUSY, t') \<and> roomy w (n + k) t' \<and> tmap t' = tmap t"
proof -
  obtain rc t' where r: "r = (rc, t')" by (cases r)
  have ok: "radix_ok w t'" using insert_ok_radix_ok [OF assms(4) _ assms(2)] assms(1) r by (simp add: roomy_def)
  show ?thesis
    using assms ok by (auto simp: r roomy_def insert_ok_def node_count_def tmap_def)
qed

lemma roomy_delete:
  assumes "roomy w n t" "p \<noteq> []" "delete_ok p t r"
  shows "\<exists>rc t'. r = Some (rc, t') \<and> roomy w n t' \<and> tmap t' = (tmap t)(p := None) \<and> (tmap t p \<noteq> None \<longrightarrow> rc = NGX_OK)"
proof -
  obtain rc t' where r: "r = Some (rc, t')" using assms(2,3) by (auto simp: delete_ok_def split: option.splits)
  have ok: "radix_ok w t'" using delete_ok_radix_ok assms(1,3) r by (auto simp: roomy_def)
  show ?thesis
    using assms ok by (auto simp: r roomy_def delete_ok_def tmap_def fun_upd_idem)
qed

lemma roomy_less: "roomy w (n + k) t \<Longrightarrow> roomy w n t"
  by (simp add: roomy_def)

lemma node_at_height: "height n \<le> length p \<Longrightarrow> node_at n p = Null"
proof (induction p arbitrary: n)
  case Nil
  then show ?case by (cases n) auto
next
  case (Cons b p)
  then show ?case by (cases n) (auto intro!: Cons.IH)
qed

lemma find128_short:
  assumes "radix_ok 127 t" "length key = 16"
  shows "ngx_radix128tree_find key t = Some (longest_match NGX_RADIX_NO_VALUE (tmap t) (bits128 key))"
  using find128 [OF _ assms(2), of t] node_at_height [of "root t" "bits128 key"] assms(1)
  by (simp add: radix_ok_def bits128_def)

definition good6 :: "bytes \<times> bytes \<Rightarrow> bool" where
  "good6 p \<longleftrightarrow> length (fst p) = 16 \<and> length (prefix128 p) < 128"

lemma prefix32_bound: "length (prefix32 p) \<le> 32"
  using path_bound [of 0 32] by (simp add: prefix32_def)

interpretation tree4: prefix_store "roomy 32" tmap 32 prefix32 "\<lambda>_. True"
  "\<lambda>p. ngx_radix32tree_insert (fst p) (snd p)" "\<lambda>p. ngx_radix32tree_find (fst p)" "\<lambda>p. ngx_radix32tree_delete (fst p) (snd p)"
proof
  fix n t p v
  let ?r = "ngx_radix32tree_insert (fst p) (snd p) v t"
  have i: "if tmap t (prefix32 p) = None then \<exists>t'. ?r = (NGX_OK, t') \<and> roomy 32 n t' \<and> tmap t' = (tmap t)(prefix32 p := vopt v)
    else \<exists>t'. ?r = (NGX_BUSY, t') \<and> roomy 32 (n + 32) t' \<and> tmap t' = tmap t" if "roomy 32 (n + 32) t"
    by (rule roomy_insert [OF that prefix32_bound prefix32_bound])
      (use insert32_ok [of 32 t "fst p" "snd p" v] that in \<open>simp add: roomy_def\<close>)
  show "roomy 32 (n + 32) t \<Longrightarrow> True \<Longrightarrow> v \<noteq> NGX_RADIX_NO_VALUE \<Longrightarrow> tmap t (prefix32 p) = None \<Longrightarrow>
      \<exists>t'. ?r = (NGX_OK, t') \<and> roomy 32 n t' \<and> tmap t' = (tmap t)(prefix32 p \<mapsto> v)"
    using i by (simp add: vopt_def)
  show "roomy 32 (n + 32) t \<Longrightarrow> True \<Longrightarrow> tmap t (prefix32 p) \<noteq> None \<Longrightarrow> \<exists>t'. ?r = (NGX_BUSY, t') \<and> roomy 32 (n + 32) t' \<and> tmap t' = tmap t"
    using i by simp
  show "roomy 32 n t \<Longrightarrow> True \<Longrightarrow> prefix32 p \<noteq> [] \<Longrightarrow> \<exists>rc t'. ngx_radix32tree_delete (fst p) (snd p) t = Some (rc, t') \<and> roomy 32 n t'
      \<and> tmap t' = (tmap t)(prefix32 p := None) \<and> (tmap t (prefix32 p) \<noteq> None \<longrightarrow> rc = NGX_OK)"
    using roomy_delete [of 32 n t "prefix32 p"] delete32_ok [of 32 t "fst p" "snd p"] by (simp add: roomy_def)
  show "roomy 32 n t \<Longrightarrow> True \<Longrightarrow> \<exists>v. ngx_radix32tree_find (fst p) t = Some v"
    using find32 by (auto simp: roomy_def)
qed (rule roomy_less)

interpretation tree6: prefix_store "roomy 127" tmap 127 prefix128 good6
  "\<lambda>p. ngx_radix128tree_insert (fst p) (snd p)" "\<lambda>p. ngx_radix128tree_find (fst p)" "\<lambda>p. ngx_radix128tree_delete (fst p) (snd p)"
proof
  fix n t p v
  let ?r = "ngx_radix128tree_insert (fst p) (snd p) v t"
  have i: "if tmap t (prefix128 p) = None then \<exists>t'. ?r = (NGX_OK, t') \<and> roomy 127 n t' \<and> tmap t' = (tmap t)(prefix128 p := vopt v)
    else \<exists>t'. ?r = (NGX_BUSY, t') \<and> roomy 127 (n + 127) t' \<and> tmap t' = tmap t" if "roomy 127 (n + 127) t" "good6 p"
    by (rule roomy_insert [OF that(1)])
      (use insert128_ok [of 127 t "fst p" "snd p" v] that in \<open>simp_all add: roomy_def good6_def\<close>)
  show "roomy 127 (n + 127) t \<Longrightarrow> good6 p \<Longrightarrow> v \<noteq> NGX_RADIX_NO_VALUE \<Longrightarrow> tmap t (prefix128 p) = None \<Longrightarrow>
      \<exists>t'. ?r = (NGX_OK, t') \<and> roomy 127 n t' \<and> tmap t' = (tmap t)(prefix128 p \<mapsto> v)"
    using i by (simp add: vopt_def)
  show "roomy 127 (n + 127) t \<Longrightarrow> good6 p \<Longrightarrow> tmap t (prefix128 p) \<noteq> None \<Longrightarrow> \<exists>t'. ?r = (NGX_BUSY, t') \<and> roomy 127 (n + 127) t' \<and> tmap t' = tmap t"
    using i by simp
  show "roomy 127 n t \<Longrightarrow> good6 p \<Longrightarrow> prefix128 p \<noteq> [] \<Longrightarrow> \<exists>rc t'. ngx_radix128tree_delete (fst p) (snd p) t = Some (rc, t') \<and> roomy 127 n t'
      \<and> tmap t' = (tmap t)(prefix128 p := None) \<and> (tmap t (prefix128 p) \<noteq> None \<longrightarrow> rc = NGX_OK)"
    using roomy_delete [of 127 n t "prefix128 p"] delete128_ok [of 127 t "fst p" "snd p"] by (simp add: roomy_def)
  show "roomy 127 n t \<Longrightarrow> good6 p \<Longrightarrow> \<exists>v. ngx_radix128tree_find (fst p) t = Some v"
    using find128_short by (auto simp: roomy_def good6_def)
qed (rule roomy_less)

subsection \<open>A block as a list of changes to two maps\<close>

type_synonym geo_maps = "(bool list \<rightharpoonup> u64) \<times> (bool list \<rightharpoonup> u64)"

fun geo_set :: "ngx_cidr_t \<Rightarrow> u64 option \<Rightarrow> geo_maps \<Rightarrow> geo_maps" where
  "geo_set (Cidr4 a m) v mp = ((fst mp)(prefix32 (a, m) := v), snd mp)"
| "geo_set (Cidr6 a m) v mp = (fst mp, (snd mp)(prefix128 (a, m) := v))"

fun geo_edit :: "geo_directive \<Rightarrow> geo_maps \<Rightarrow> geo_maps" where
  "geo_edit (Geo_default v) mp = ((fst mp)([] := v), (snd mp)([] := v))"
| "geo_edit (Geo_delete c) mp = geo_set c None mp"
| "geo_edit (Geo_network c v) mp = geo_set c v mp"

definition geo_maps_of :: "u64 \<Rightarrow> geo_directive list \<Rightarrow> geo_maps" where
  "geo_maps_of null_value ds =
     (let mp = fold geo_edit ds (Map.empty, Map.empty); dflt = (\<lambda>m. if m [] = None then m([] \<mapsto> null_value) else m)
      in (dflt (fst mp), dflt (snd mp)))"

fun cidr_prefix :: "ngx_cidr_t \<Rightarrow> bool list" where
  "cidr_prefix (Cidr4 a m) = prefix32 (a, m)"
| "cidr_prefix (Cidr6 a m) = prefix128 (a, m)"

fun cidr_good :: "ngx_cidr_t \<Rightarrow> bool" where
  "cidr_good (Cidr4 a m) = True"
| "cidr_good (Cidr6 a m) = good6 (a, m)"

definition is_value :: "u64 option \<Rightarrow> bool" where
  "is_value v \<longleftrightarrow> v \<noteq> None \<and> v \<noteq> Some NGX_RADIX_NO_VALUE"

fun geo_ok :: "geo_directive \<Rightarrow> bool" where
  "geo_ok (Geo_default v) = is_value v"
| "geo_ok (Geo_delete c) = (cidr_good c \<and> cidr_prefix c \<noteq> [])"
| "geo_ok (Geo_network c v) = (cidr_good c \<and> is_value v)"

text \<open>Every network read from text is one a tree takes, unless it is a single IPv6 address.\<close>

lemma geo_network_good:
  assumes "ngx_http_geo_cidr_value net = Some c" "length (cidr_prefix c) < 128"
  shows "cidr_good c"
proof (cases c)
  case (Cidr6 a m)
  have "Cidr4 x y \<noteq> Cidr6 a m" for x y by simp
  then obtain rc where "ngx_ptocidr net = (rc, Some c)"
    using assms(1) Cidr6 by (auto simp: ngx_http_geo_cidr_value_def split: if_splits prod.splits)
  then show ?thesis using ptocidr_canonical assms(2) Cidr6 by (fastforce simp: good6_def)
qed simp

text \<open>The directive sets the value of the whole address space.\<close>

fun geo_root :: "geo_directive \<Rightarrow> bool" where
  "geo_root (Geo_default v) = True"
| "geo_root (Geo_delete c) = False"
| "geo_root (Geo_network c v) = (cidr_prefix c = [])"

definition geo_state :: "nat \<Rightarrow> geo_maps \<Rightarrow> geo_trees \<Rightarrow> bool" where
  "geo_state n mp ctx \<longleftrightarrow> roomy 32 (n * 32) (tree ctx) \<and> roomy 127 (n * 127) (tree6 ctx)
     \<and> tmap (tree ctx) = fst mp \<and> tmap (tree6 ctx) = snd mp"

lemma zero_prefixes: "prefix32 (0, 0) = []" "prefix128 (in6addr_any, in6addr_any) = []" "good6 (in6addr_any, in6addr_any)"
  by (code_simp)+

lemma geo_add4:
  assumes "roomy 32 ((n + 1) * 32) (tree ctx)" "is_value v" "prefix32 (a, m) \<noteq> [] \<or> tmap (tree ctx) [] = None"
  shows "\<exists>t. ngx_http_geo_cidr_add (Cidr4 a m) v ctx = Some (True, ctx\<lparr>tree := t\<rparr>) \<and> roomy 32 (n * 32) t
    \<and> tmap t = (tmap (tree ctx))(prefix32 (a, m) := v)"
  using tree4.put [where n = "n * 32" and t = "tree ctx" and p = "(a, m)" and v = "the v"] assms by (cases v) (auto simp: is_value_def add.commute)

lemma geo_add6:
  assumes "roomy 127 ((n + 1) * 127) (tree6 ctx)" "is_value v" "good6 (a, m)" "prefix128 (a, m) \<noteq> [] \<or> tmap (tree6 ctx) [] = None"
  shows "\<exists>t. ngx_http_geo_cidr_add (Cidr6 a m) v ctx = Some (True, ctx\<lparr>tree6 := t\<rparr>) \<and> roomy 127 (n * 127) t
    \<and> tmap t = (tmap (tree6 ctx))(prefix128 (a, m) := v)"
  using tree6.put [where n = "n * 127" and t = "tree6 ctx" and p = "(a, m)" and v = "the v"] assms by (cases v) (auto simp: is_value_def add.commute)

lemma geo_directive_step:
  assumes "geo_state (n + 1) mp ctx" "geo_ok d" "geo_root d \<Longrightarrow> fst mp [] = None \<and> snd mp [] = None"
  shows "\<exists>ctx'. ngx_http_geo_cidr d ctx = Some (True, ctx') \<and> geo_state n (geo_edit d mp) ctx'"
proof (cases d)
  case (Geo_default v)
  have r: "roomy 32 ((n + 1) * 32) (tree ctx)" "roomy 127 ((n + 1) * 127) (tree6 ctx)" using assms(1) by (simp_all add: geo_state_def)
  have v: "is_value v" and e: "tmap (tree ctx) [] = None" "tmap (tree6 ctx) [] = None"
    using assms Geo_default by (simp_all add: geo_state_def)
  obtain t where t: "ngx_http_geo_cidr_add (Cidr4 0 0) v ctx = Some (True, ctx\<lparr>tree := t\<rparr>)" "roomy 32 (n * 32) t"
      "tmap t = (tmap (tree ctx))([] := v)"
    using geo_add4 [OF r(1) v, of 0 0] e by (auto simp: zero_prefixes)
  obtain t6 where "ngx_http_geo_cidr_add (Cidr6 in6addr_any in6addr_any) v (ctx\<lparr>tree := t\<rparr>) = Some (True, ctx\<lparr>tree := t, tree6 := t6\<rparr>)"
      "roomy 127 (n * 127) t6" "tmap t6 = (tmap (tree6 ctx))([] := v)"
    using geo_add6 [of n "ctx\<lparr>tree := t\<rparr>" v in6addr_any in6addr_any] r(2) v e by (auto simp: zero_prefixes)
  then show ?thesis using t assms(1) Geo_default by (auto simp: geo_state_def)
next
  case (Geo_delete c)
  then show ?thesis
  proof (cases c)
    case (Cidr4 a m)
    then show ?thesis
      using tree4.del_gone [of "n * 32" "tree ctx" "(a, m)"] roomy_less [of 32 "n * 32" 32 "tree ctx"]
        roomy_less [of 127 "n * 127" 127 "tree6 ctx"] assms Geo_delete by (auto simp: geo_state_def add.commute)
  next
    case (Cidr6 a m)
    then show ?thesis
      using tree6.del_gone [of "n * 127" "tree6 ctx" "(a, m)"] roomy_less [of 32 "n * 32" 32 "tree ctx"]
        roomy_less [of 127 "n * 127" 127 "tree6 ctx"] assms Geo_delete by (auto simp: geo_state_def add.commute)
  qed
next
  case (Geo_network c v)
  show ?thesis
  proof (cases c)
    case (Cidr4 a m)
    then show ?thesis
      using geo_add4 [of n ctx v a m] roomy_less [of 127 "n * 127" 127 "tree6 ctx"] assms Geo_network
      by (auto simp: geo_state_def add.commute)
  next
    case (Cidr6 a m)
    then show ?thesis
      using geo_add6 [of n ctx v a m] roomy_less [of 32 "n * 32" 32 "tree ctx"] assms Geo_network
      by (auto simp: geo_state_def add.commute)
  qed
qed

lemma geo_directives_run:
  assumes "geo_state (length ds + n) mp ctx" "list_all geo_ok ds" "list_all (\<lambda>d. \<not> geo_root d) ds"
  shows "\<exists>ctx'. geo_directives ds ctx = Some (True, ctx') \<and> geo_state n (fold geo_edit ds mp) ctx'"
  using assms
proof (induction ds arbitrary: mp ctx)
  case (Cons d ds)
  then obtain ctx1 where "ngx_http_geo_cidr d ctx = Some (True, ctx1)" "geo_state (length ds + n) (geo_edit d mp) ctx1"
    using geo_directive_step [of "length ds + n" mp ctx d] by auto
  then show ?case using Cons.IH [of "geo_edit d mp" ctx1] Cons.prems by auto
qed simp

lemma geo_directives_all:
  assumes "geo_state (length ds + n) (Map.empty, Map.empty) ctx" "list_all geo_ok ds" "list_all (\<lambda>d. \<not> geo_root d) (tl ds)"
  shows "\<exists>ctx'. geo_directives ds ctx = Some (True, ctx') \<and> geo_state n (fold geo_edit ds (Map.empty, Map.empty)) ctx'"
proof (cases ds)
  case (Cons d ds')
  then obtain ctx1 where "ngx_http_geo_cidr d ctx = Some (True, ctx1)" "geo_state (length ds' + n) (geo_edit d (Map.empty, Map.empty)) ctx1"
    using geo_directive_step [of "length ds' + n" "(Map.empty, Map.empty)" ctx d] assms by auto
  then show ?thesis using geo_directives_run [of ds' n "geo_edit d (Map.empty, Map.empty)" ctx1] assms Cons by auto
qed (use assms in simp)

lemma geo_block_run:
  assumes "geo_state (length ds + 1) (Map.empty, Map.empty) ctx" "list_all geo_ok ds" "list_all (\<lambda>d. \<not> geo_root d) (tl ds)"
    and "null_value \<noteq> NGX_RADIX_NO_VALUE"
  shows "\<exists>ctx'. ngx_http_geo_block null_value ds ctx = Some (True, ctx') \<and> geo_state 0 (geo_maps_of null_value ds) ctx'"
proof -
  obtain c where c: "geo_directives ds ctx = Some (True, c)" "geo_state 1 (fold geo_edit ds (Map.empty, Map.empty)) c"
    using geo_directives_all [OF assms(1-3)] by blast
  obtain rc t where t: "ngx_radix32tree_insert 0 0 null_value (tree c) = (rc, t)" "rc \<noteq> NGX_ERROR" "roomy 32 0 t"
      "tmap t = (if tmap (tree c) [] = None then (tmap (tree c))([] \<mapsto> null_value) else tmap (tree c))"
    using tree4.default [where n = 0 and t = "tree c" and p = "(0, 0)" and v = null_value] c(2) assms(4) by (auto simp: geo_state_def zero_prefixes)
  obtain rc6 t6 where "ngx_radix128tree_insert in6addr_any in6addr_any null_value (tree6 c) = (rc6, t6)" "rc6 \<noteq> NGX_ERROR" "roomy 127 0 t6"
      "tmap t6 = (if tmap (tree6 c) [] = None then (tmap (tree6 c))([] \<mapsto> null_value) else tmap (tree6 c))"
    using tree6.default [where n = 0 and t = "tree6 c" and p = "(in6addr_any, in6addr_any)" and v = null_value] c(2) assms(4)
    by (auto simp: geo_state_def zero_prefixes)
  then show ?thesis using c t by (auto simp: ngx_http_geo_block_def geo_state_def geo_maps_of_def Let_def)
qed

text \<open>With a value for the whole space, every lookup ends with a value.\<close>

lemma rmap_value: "rmap n p \<noteq> Some NGX_RADIX_NO_VALUE"
  by (induction n p rule: rmap.induct) auto

lemma longest_match_value:
  assumes "mp [] \<noteq> None" "\<And>p. mp p \<noteq> Some NGX_RADIX_NO_VALUE"
  shows "longest_match v mp bits \<noteq> NGX_RADIX_NO_VALUE"
proof -
  let ?ps = "filter (\<lambda>p. mp p \<noteq> None) (prefixes bits)"
  have "[] \<in> set ?ps" using assms(1) by simp
  then have "?ps \<noteq> []" by (metis empty_iff empty_set)
  moreover from this have "last ?ps \<in> set ?ps" by (rule last_in_set)
  then have "mp (last ?ps) \<noteq> None" by simp
  ultimately show ?thesis using assms(2) [of "last ?ps"] unfolding longest_match_def Let_def by (metis option.collapse)
qed

subsection \<open>Properties\<close>

text \<open>
  C25: A \<open>geo\<close> block means what it says. Take directives whose IPv6 networks are shorter than
  128 bits and which set the value of the whole address space, if at all, in the first one
  and delete other networks only, on empty trees with memory enough. Then the configuration
  succeeds, and for every client the variable is the value of the longest network that
  contains the address, the last one given to that network; an IPv6 address that stands for
  an IPv4 address, and an unknown address, are looked up among the IPv4 networks. The
  pointer found is never \<open>NGX_RADIX_NO_VALUE\<close>, so it may be followed.
\<close>

theorem geo_longest_network:
  assumes "roomy 32 ((length ds + 1) * 32) t" "roomy 127 ((length ds + 1) * 127) t6" "tmap t = Map.empty" "tmap t6 = Map.empty"
    and "list_all geo_ok ds" "list_all (\<lambda>d. \<not> geo_root d) (tl ds)" "null_value \<noteq> NGX_RADIX_NO_VALUE" "length p = 16"
  shows "\<exists>ctx. ngx_http_geo_block null_value ds \<lparr>tree = t, tree6 = t6\<rparr> = Some (True, ctx)
    \<and> ngx_http_geo_cidr_variable (Addr4 a) ctx = Some (longest_match NGX_RADIX_NO_VALUE (fst (geo_maps_of null_value ds)) (bits32 a))
    \<and> ngx_http_geo_cidr_variable (Addr6 p) ctx =
        (if IN6_IS_ADDR_V4MAPPED p then ngx_http_geo_cidr_variable (Addr4 (mapped_addr p)) ctx
         else Some (longest_match NGX_RADIX_NO_VALUE (snd (geo_maps_of null_value ds)) (bits128 p)))
    \<and> ngx_http_geo_cidr_variable No_addr ctx = ngx_http_geo_cidr_variable (Addr4 INADDR_NONE) ctx
    \<and> ngx_http_geo_cidr_variable (Addr4 a) ctx \<noteq> Some NGX_RADIX_NO_VALUE
    \<and> ngx_http_geo_cidr_variable (Addr6 p) ctx \<noteq> Some NGX_RADIX_NO_VALUE"
proof -
  let ?mp = "geo_maps_of null_value ds"
  obtain ctx where ctx: "ngx_http_geo_block null_value ds \<lparr>tree = t, tree6 = t6\<rparr> = Some (True, ctx)" "geo_state 0 ?mp ctx"
    using geo_block_run [of ds "\<lparr>tree = t, tree6 = t6\<rparr>" null_value] assms(1-7) by (auto simp: geo_state_def)
  have m: "tmap (tree ctx) = fst ?mp" "tmap (tree6 ctx) = snd ?mp" and r: "radix_ok 32 (tree ctx)" "radix_ok 127 (tree6 ctx)"
    using ctx(2) by (simp_all add: geo_state_def roomy_def)
  have f: "ngx_radix32tree_find b (tree ctx) = Some (longest_match NGX_RADIX_NO_VALUE (fst ?mp) (bits32 b))"
    "ngx_radix128tree_find p (tree6 ctx) = Some (longest_match NGX_RADIX_NO_VALUE (snd ?mp) (bits128 p))" for b
    using find32 [OF r(1), of b] find128_short [OF r(2) assms(8)] m by simp_all
  have "fst ?mp [] \<noteq> None" "snd ?mp [] \<noteq> None" by (auto simp: geo_maps_of_def Let_def)
  moreover have "fst ?mp q \<noteq> Some NGX_RADIX_NO_VALUE" "snd ?mp q \<noteq> Some NGX_RADIX_NO_VALUE" for q
    using rmap_value m by (metis tmap_def)+
  ultimately have "longest_match NGX_RADIX_NO_VALUE (fst ?mp) bits \<noteq> NGX_RADIX_NO_VALUE"
    "longest_match NGX_RADIX_NO_VALUE (snd ?mp) bits \<noteq> NGX_RADIX_NO_VALUE" for bits
    by (simp_all add: longest_match_value)
  then show ?thesis using ctx(1) f by auto
qed

definition geo_tree_0 :: radix_tree where
  "geo_tree_0 = radix_tree_0\<lparr>mem_of := \<lparr>rm_free = 1000, rm_size = 0, rm_pages = 0, rm_pagesize = 4096\<rparr>\<rparr>"

definition geo_block_1 :: "geo_directive list" where
  "geo_block_1 = [Geo_default (Some 1), Geo_network (Cidr4 0x80000000 0xc0000000) (Some 2), Geo_network (Cidr4 0x80000000 0xc0000000) (Some 3)]"

lemma geo_block_1_maps: "fst (geo_maps_of 9 geo_block_1) = [[] \<mapsto> 1, [True, False] \<mapsto> 3]"
proof -
  have "prefix32 (0x80000000, 0xc0000000) = [True, False]" by code_simp
  then show ?thesis by (auto simp: geo_maps_of_def geo_block_1_def Let_def)
qed

theorem geo_longest_network_witness:
  "\<exists>ctx. ngx_http_geo_block 9 geo_block_1 \<lparr>tree = geo_tree_0, tree6 = geo_tree_0\<rparr> = Some (True, ctx)
    \<and> ngx_http_geo_cidr_variable (Addr4 0x80010203) ctx = Some 3"
proof -
  have "roomy 32 ((length geo_block_1 + 1) * 32) geo_tree_0" "roomy 127 ((length geo_block_1 + 1) * 127) geo_tree_0"
    "list_all geo_ok geo_block_1" "list_all (\<lambda>d. \<not> geo_root d) (tl geo_block_1)"
    by code_simp+
  moreover have "tmap geo_tree_0 = Map.empty" using radix_tree_0_empty by (simp add: geo_tree_0_def tmap_def)
  moreover have "longest_match NGX_RADIX_NO_VALUE [[] \<mapsto> 1, [True, False] \<mapsto> 3] (bits32 0x80010203) = 3" by code_simp
  moreover have "(9 :: u64) \<noteq> NGX_RADIX_NO_VALUE" by code_simp
  ultimately show ?thesis
    using geo_longest_network [of geo_block_1 geo_tree_0 geo_tree_0 9 in6addr_any "0x80010203"] geo_block_1_maps
    by (auto simp: in6addr_any_def)
qed

end
