(* ===== verification/Spec2Isabelle.thy ===== *)
theory Spec2Isabelle
  imports Ngx_Prelude Ngx_Atoi Ngx_Parse Ngx_Times Ngx_Base64 Ngx_Crc32 Ngx_Escape Mqtt_Protocol Mqtt_Bits Disruptor
    Http_Request_Line Http_Header_Line Http_Status_Line Http_Chunked Http_Uri Http_Unsafe_Uri Http_Args
    Upstream_Check Upstream_Round_Robin Upstream_Hash Upstream_Least_Conn Ngx_Queue Http_Limit_Req Ngx_Radix Ngx_Inet Ngx_Cidr Http_Geo
begin

text \<open>
  \<^bold>\<open>A verification library for ngx-plus.\<close> The repository is a distribution of the nginx 1.12.0
  web server (src/ngx-1.12.0) with modules beside it (src/modules), some of them its own: an
  MQTT kit, health checks of upstream servers, and a number of vendored modules. This
  library models, function by function, the parts that carry the server's logic on data:
  what is read from clients and servers, what is kept in shared memory between requests, and
  what is decided from it. Each theory opens with a short text on its part; this one says
  how they fit together, and holds the properties that span components.

  \<^bold>\<open>How the parts interact.\<close> A connection's bytes are read in pieces into a buffer. The
  request line and header lines are parsed by state machines that are called again when
  more bytes arrive (\<open>Http_Request_Line\<close>, \<open>Http_Header_Line\<close>); the URI is decoded and
  normalised (\<open>Http_Uri\<close>), arguments, cookies and redirect targets are looked at
  (\<open>Http_Args\<close>, \<open>Http_Unsafe_Uri\<close>), and a body in chunks is decoded or discarded
  (\<open>Http_Chunked\<close>). Before a request is served its rate is limited (\<open>Http_Limit_Req\<close>), and
  variables may be set from the network of the client (\<open>Http_Geo\<close>, which uses \<open>Ngx_Inet\<close>,
  \<open>Ngx_Radix\<close> and \<open>Ngx_Cidr\<close>). A proxied request gets a server from the balancer
  (\<open>Upstream_Round_Robin\<close>, or one of the methods built on it, \<open>Upstream_Least_Conn\<close> and
  \<open>Upstream_Hash\<close>), which asks the health checks (\<open>Upstream_Check\<close>); the reply's first
  line is read by \<open>Http_Status_Line\<close>. The MQTT kit reads and writes packets
  (\<open>Mqtt_Protocol\<close>), spreads keys and counts bits (\<open>Mqtt_Bits\<close>), and hands messages between
  threads through a ring buffer (\<open>Disruptor\<close>). All of them rest on the core's strings,
  numbers, dates and containers (\<open>Ngx_Atoi\<close>, \<open>Ngx_Parse\<close>, \<open>Ngx_Times\<close>, \<open>Ngx_Base64\<close>,
  \<open>Ngx_Escape\<close>, \<open>Ngx_Crc32\<close>, \<open>Ngx_Queue\<close>).

  \<^bold>\<open>Theories and sources\<close> (paths under src/ngx-1.12.0/src unless they begin with modules):

  \<^item> \<open>Ngx_Prelude\<close>: bytes as 8-bit words, counted strings as lists of bytes, return codes,
    shared lemmas, and two interfaces, \<open>codec\<close> (a reader gives back what a writer wrote) and
    \<open>resumable\<close> (a step per byte, driven over pieces, with what each return stores);
  \<^item> \<open>Ngx_Atoi\<close>: core/ngx_string.c, the readers \<open>ngx_atoi\<close>, \<open>ngx_atosz\<close>, \<open>ngx_atoof\<close>, \<open>ngx_atotm\<close>
    (interface \<open>number_reader\<close>, four interpretations), \<open>ngx_atofp\<close>, \<open>ngx_hextoi\<close> and
    \<open>ngx_sprintf_num\<close>; \<open>Ngx_Parse\<close>: core/ngx_parse.c; \<open>Ngx_Times\<close>: core/ngx_times.c (calendar) and
    core/ngx_parse_time.c; \<open>Ngx_Base64\<close> (interface \<open>alphabet\<close>) and \<open>Ngx_Escape\<close>: core/ngx_string.c;
    \<open>Ngx_Crc32\<close>: core/ngx_crc32.c and .h;
  \<^item> \<open>Ngx_Queue\<close>: core/ngx_queue.h and .c, links in an explicit memory, abstracted to lists
    (interface \<open>linked_list\<close>); \<open>Ngx_Radix\<close>: core/ngx_radix_tree.c, tries with the memory their
    nodes come from; \<open>Ngx_Inet\<close>: core/ngx_inet.c, addresses and networks as text; \<open>Ngx_Cidr\<close>:
    how the two see the same networks;
  \<^item> \<open>Http_Request_Line\<close>, \<open>Http_Header_Line\<close>, \<open>Http_Status_Line\<close>, \<open>Http_Uri\<close>, \<open>Http_Unsafe_Uri\<close>,
    \<open>Http_Args\<close>: http/ngx_http_parse.c, one definition for each state of a machine;
    \<open>Http_Chunked\<close>: the parser of chunks in the same file and the filters of
    http/ngx_http_request_body.c; \<open>Http_Uri\<close> also \<open>ngx_http_process_request_uri\<close> of
    http/ngx_http_request.c;
  \<^item> \<open>Http_Limit_Req\<close>: http/modules/ngx_http_limit_req_module.c; \<open>Http_Geo\<close>: the networks of
    http/modules/ngx_http_geo_module.c (interface \<open>prefix_store\<close>, interpreted by both radix trees);
  \<^item> \<open>Upstream_Round_Robin\<close>: http/ngx_http_upstream_round_robin.c and .h; \<open>Upstream_Check\<close>:
    modules/nginx_upstream_check_module, state, counting and judgement of replies;
    \<open>Upstream_Balancer\<close>: the interface \<open>peer_method\<close> of the methods built on round robin, with its
    four interpretations, round robin itself, \<open>Upstream_Least_Conn\<close>
    (http/modules/ngx_http_upstream_least_conn_module.c) and the two of \<open>Upstream_Hash\<close>
    (ngx_http_upstream_ip_hash_module.c, and the plain \<open>hash\<close> of ngx_http_upstream_hash_module.c);
  \<^item> \<open>Mqtt_Protocol\<close>, \<open>Mqtt_Bits\<close> (interface \<open>bit_set\<close>) and \<open>Disruptor\<close>:
    modules/ngx_lua_mqtt_kit_module.

  \<^bold>\<open>How state and operations correspond to the code.\<close> A struct is a record with the fields the
  code uses, an enumeration of states a datatype, a machine integer a word of its width or,
  where a lemma shows it stays in range, an integer. A function that changes a struct takes
  the record and returns it. A pointer into a string is an offset or the rest of the string;
  reads that could leave the memory are checked and give an error value, so that a theorem
  that excludes the value shows the access to be safe. Where pointers are shared (\<open>Ngx_Queue\<close>)
  or threads interleave (\<open>Disruptor\<close>) the memory or the shared record is explicit. Return
  codes are kept; allocation, where it can fail, is an argument.

  \<^bold>\<open>What the groups of lemmas show.\<close>
  Parsers: cutting the input into pieces changes neither the return value nor what an
  accepted line stores, well-formed lines are taken apart as written, and whatever the
  bytes, the offsets of method, URI, name and value are ordered and inside the input.
  URI: the one-pass decoder equals decode, split and resolve, writes only what was allocated
  and leaves no dot segment but a last one. Chunks: every split of a body decodes to its data, a byte-by-byte decoder is refined, and the number of bytes asked
  for is exact. Balancer: smooth weighted round robin is fair, its invariant holds in every
  execution with retries and failures, for the other methods too, and round robin does not
  choose a server that failed its checks (\<open>least_conn\<close> asks the checks as well, the two hashes
  do not). Rate limits: the bound on admitted requests as long as the zone has room and the
  clock does not run backwards, and that no node stays pinned when every key has a value.
  Containers: queues are lists, radix trees are maps from prefixes, lookups are longest matches, all operations return. Texts of numbers, dates, addresses, base64 and
  escapes are read back. Ring buffer: from the first start on, in every interleaving, ownership
  is exclusive and each message is handed out once; with batches of one slot the callback gets
  the bytes that were sent. Two ways in which the code falls short are proved as well: a
  larger batch can reach past the buffer, and before the first start two producers can get
  the same number.

  \<^bold>\<open>Bounds and fuel.\<close> No definition uses fuel. Loops are recursions on the input or have a
  termination proof; the two loops on linked memory that could run for ever on a broken
  queue (\<open>ngx_queue_middle\<close>, \<open>ngx_queue_sort\<close>) and the level loop of the radix tree are partial
  functions with \<open>None\<close> for not returning, and are shown to return on well-formed input.
  Sizes the source keeps in \<open>off_t\<close> or \<open>size_t\<close> are natural numbers where an invariant bounds them
  (\<open>ck_wf\<close> for chunks), and words of 64 bits where wrap-around matters (rate limits, counters
  of connections and checks). The counters of the ring buffer are natural numbers: they
  would wrap after 2^64 messages.

  \<^bold>\<open>Not modelled\<close>, and why: the event loop, the operating system layer, TLS, files, logging and
  name resolution are input and output; pools, the slab allocator, shared memory locks and
  the red-black tree are replaced by what callers rely on (allocation as an argument, a
  lookup by key); the configuration parser and the phases of a request (ngx_http_core_module.c,
  ngx_http_upstream.c) are control flow around callbacks and timers; HTTP/2, mail and stream
  proxies, the file cache and the remaining modules are separate subsystems left for later;
  the Lua, ModSecurity, echo, headers-more, set-misc, srcache, upload, AJP, dyups, sticky and
  other modules under modules/ are vendored third-party code. In the modelled files: the
  cached clock, the timers and probes of the health checks, the directives of the rate
  limit, the ranges of \<open>geo\<close>, URLs in ngx_inet.c, and the consistent hashing of
  ngx_http_upstream_hash_module.c (a sorted array of points made at configuration).
\<close>

section \<open>Properties that span components\<close>

text \<open>
  C11: Requests and responses may arrive in any pieces: for the request line, the header
  lines and the status line of a response, calling the parser on each piece as long as it
  answers \<open>NGX_AGAIN\<close> gives the same return value as one call on the whole input; the same
  unread bytes where that return moves \<open>b->pos\<close>; and, when the answer is \<open>NGX_OK\<close> or
  \<open>NGX_AGAIN\<close>, the same request (saved state, offsets, hash and copied name included). Each call
  starts from what the call before it stored, so that a return that forgets to save the
  state would be seen.
\<close>

theorem http_parsers_resumable:
  "agree rl_moves (pcalls ngx_http_parse_request_line q [] pieces) (ngx_http_parse_request_line q (concat pieces))
   \<and> agree hl_moves (pcalls (ngx_http_parse_header_line a) h [] pieces) (ngx_http_parse_header_line a h (concat pieces))
   \<and> agree sl_moves (pcalls ngx_http_parse_status_line s [] pieces) (ngx_http_parse_status_line s (concat pieces))"
  unfolding ngx_http_parse_request_line_def [abs_def] ngx_http_parse_header_line_def [abs_def]
    ngx_http_parse_status_line_def [abs_def]
  by (simp only: request_line.pcalls_concat header_line.pcalls_concat status_line.pcalls_concat simp_thms)



text \<open>
  C23: Balancing by connections, by the client's address and by a key keep the books that round
  robin keeps: from the configured servers, whose weights are positive, in every execution with
  requests that get servers, retry, fail and end and with check results in any order, every
  call returns (the walk over the weights stays in the list of servers, nothing is divided
  by zero), the current weights of every group add up to zero, effective weights stay between
  zero and the configured weight, and the connections counted for a server are the requests
  that have it and never exceed \<open>max_conns\<close> where that is set.
\<close>

theorem upstream_methods_sound:
  assumes "ngx_http_upstream_init_round_robin add servers = Some chain" "\<forall>s\<in>set servers. 0 < srv_weight s"
  shows "(\<exists>s. bal_run ngx_http_upstream_init_least_conn_peer least_conn_get id
        \<lparr>bal_groups = chain, bal_watch = ctx, bal_reqs = []\<rparr> by_conns = Some s \<and> balance_sound id s)
    \<and> (\<exists>s. bal_run ngx_http_upstream_init_ip_hash_peer ngx_http_upstream_get_ip_hash_peer ip_rrp
        \<lparr>bal_groups = chain, bal_watch = ctx, bal_reqs = []\<rparr> by_addr = Some s \<and> balance_sound ip_rrp s)
    \<and> (\<exists>s. bal_run ngx_http_upstream_init_hash_peer ngx_http_upstream_get_hash_peer hp_rrp
        \<lparr>bal_groups = chain, bal_watch = ctx, bal_reqs = []\<rparr> by_key = Some s \<and> balance_sound hp_rrp s)"
  using least_conn.configured_run [OF assms] ip_hash.configured_run [OF assms] key_hash.configured_run [OF assms] by blast

theorem upstream_methods_sound_witness:
  "\<exists>s. bal_run ngx_http_upstream_init_ip_hash_peer ngx_http_upstream_get_ip_hash_peer ip_rrp
     \<lparr>bal_groups = two_groups, bal_watch = None, bal_reqs = []\<rparr>
     [Bal_arrive (Sock4 0xc0000201), Bal_get 0 5, Bal_free 0 6 NGX_PEER_FAILED, Bal_get 0 7] = Some s \<and> balance_sound ip_rrp s"
  using upstream_methods_sound [OF two_servers_init, where ctx = None
      and by_addr = "[Bal_arrive (Sock4 0xc0000201), Bal_get 0 5, Bal_free 0 6 NGX_PEER_FAILED, Bal_get 0 7]"]
  by (simp add: two_servers_def)

end
